(* ===== verification/Prelude.thy ===== *)
theory Prelude
  imports Main "HOL-Library.Word" "HOL-Library.AList"
begin

unbundle bit_operations_syntax

text \<open>
  The vocabulary every component shares: the machine integers of the Rust code as words, the
  result of a fallible call, the state-passing combinators that model \<open>&mut self\<close> methods and the
  question-mark operator, byte slices with Rust's bounds checks, the little-endian codecs
  \<open>to_le_bytes\<close> and \<open>from_le_bytes\<close>, and hash maps as association lists.
\<close>

section \<open>Machine integers and results\<close>

type_synonym u8 = "8 word"
type_synonym u16 = "16 word"
type_synonym u32 = "32 word"
type_synonym u64 = "64 word"
type_synonym bytes = "8 word list"

text \<open>
  \<open>Err\<close> is a \<open>Box<dyn Error>\<close> with its message, \<open>Panic\<close> an unwinding panic (an \<open>unwrap\<close>, an
  \<open>expect\<close>, an index or a slice out of range), \<open>Diverges\<close> a loop that does not end (the loops of the engine
  that follow page pointers run with a fuel that only a cycle of pointers can exhaust).
\<close>

datatype error = Err string | Panic string | Diverges

text \<open>
  A method that mutates a state of type \<open>'s\<close>. The state is returned on failure too: what the
  method has already written stays written when it returns early. The planner fails with errors of
  its own, so the combinators are general in the type of the error.
\<close>

type_synonym ('s, 'a) m = "'s \<Rightarrow> (error + 'a) \<times> 's"

named_theorems run_simps \<open>evaluation of the state-passing combinators\<close>

definition ok :: "'a \<Rightarrow> 's \<Rightarrow> ('e + 'a) \<times> 's" where
  "ok a = (\<lambda>s. (Inr a, s))"

definition fail :: "error \<Rightarrow> ('s, 'a) m" where
  "fail e = (\<lambda>s. (Inl e, s))"

definition andthen ::
  "('s \<Rightarrow> ('e + 'a) \<times> 's) \<Rightarrow> ('a \<Rightarrow> 's \<Rightarrow> ('e + 'b) \<times> 's) \<Rightarrow> 's \<Rightarrow> ('e + 'b) \<times> 's" where
  "andthen p f = (\<lambda>s. case p s of (Inl e, t) \<Rightarrow> (Inl e, t) | (Inr a, t) \<Rightarrow> f a t)"

definition gets :: "('s \<Rightarrow> 'a) \<Rightarrow> ('s, 'a) m" where
  "gets f = (\<lambda>s. (Inr (f s), s))"

definition modify :: "('s \<Rightarrow> 's) \<Rightarrow> ('s, unit) m" where
  "modify f = (\<lambda>s. (Inr (), f s))"

definition of_result :: "error + 'a \<Rightarrow> ('s, 'a) m" where
  "of_result r = (\<lambda>s. (r, s))"

definition of_option :: "error \<Rightarrow> 'a option \<Rightarrow> ('s, 'a) m" where
  "of_option e x = (case x of None \<Rightarrow> fail e | Some a \<Rightarrow> ok a)"

definition only_if :: "bool \<Rightarrow> ('s, unit) m \<Rightarrow> ('s, unit) m" where
  "only_if c p = (if c then p else ok ())"

fun for_each :: "('x \<Rightarrow> ('s, unit) m) \<Rightarrow> 'x list \<Rightarrow> ('s, unit) m" where
  "for_each f [] = ok ()"
| "for_each f (x # xs) = andthen (f x) (\<lambda>_. for_each f xs)"

text \<open>A loop with a state: the body gives the next state or the result.\<close>

fun iterate :: "nat \<Rightarrow> ('x \<Rightarrow> ('s, 'x + 'a) m) \<Rightarrow> 'x \<Rightarrow> ('s, 'a) m" where
  "iterate 0 body x = fail Diverges"
| "iterate (Suc n) body x =
     andthen (body x) (\<lambda>r. case r of Inl x' \<Rightarrow> iterate n body x' | Inr a \<Rightarrow> ok a)"

text \<open>Reading with a function that may fail but does not write.\<close>

definition reads :: "('s \<Rightarrow> error + 'a) \<Rightarrow> ('s, 'a) m" where
  "reads f = (\<lambda>s. (f s, s))"

text \<open>Rust's \<open>?\<close> on a plain \<open>Result\<close>.\<close>

definition try_r :: "'e + 'a \<Rightarrow> ('a \<Rightarrow> 'e + 'b) \<Rightarrow> 'e + 'b" where
  "try_r r f = (case r of Inl e \<Rightarrow> Inl e | Inr a \<Rightarrow> f a)"

fun map_r :: "('x \<Rightarrow> 'e + 'a) \<Rightarrow> 'x list \<Rightarrow> 'e + 'a list" where
  "map_r f [] = Inr []"
| "map_r f (x # xs) = try_r (f x) (\<lambda>a. try_r (map_r f xs) (\<lambda>as. Inr (a # as)))"

lemma try_r_simps [simp]:
  "try_r (Inr a) f = f a" "try_r (Inl e) f = Inl e"
  by (simp_all add: try_r_def)

lemma map_r_Inr: "(\<And>x. x \<in> set xs \<Longrightarrow> f x = Inr (g x)) \<Longrightarrow> map_r f xs = Inr (map g xs)"
  by (induction xs) auto

lemma ok_run [run_simps]: "ok a s = (Inr a, s)"
  by (simp add: ok_def)

lemma fail_run [run_simps]: "fail e s = (Inl e, s)"
  by (simp add: fail_def)

lemma gets_run [run_simps]: "gets f s = (Inr (f s), s)"
  by (simp add: gets_def)

lemma modify_run [run_simps]: "modify f s = (Inr (), f s)"
  by (simp add: modify_def)

lemma of_result_run [run_simps]: "of_result r s = (r, s)"
  by (simp add: of_result_def)

lemma reads_run [run_simps]: "reads f s = (f s, s)"
  by (simp add: reads_def)

lemma of_option_run [run_simps]:
  "of_option e None s = (Inl e, s)" "of_option e (Some a) s = (Inr a, s)"
  by (simp_all add: of_option_def run_simps)

lemma only_if_run [run_simps]:
  "only_if True p s = p s" "only_if False p s = (Inr (), s)"
  by (simp_all add: only_if_def run_simps)

lemma andthen_Inr: "p s = (Inr a, t) \<Longrightarrow> andthen p f s = f a t"
  by (simp add: andthen_def)

lemma andthen_Inl: "p s = (Inl e, t) \<Longrightarrow> andthen p f s = (Inl e, t)"
  by (simp add: andthen_def)

lemma andthen_run [run_simps]:
  "andthen p f s = (case p s of (Inl e, t) \<Rightarrow> (Inl e, t) | (Inr a, t) \<Rightarrow> f a t)"
  by (simp add: andthen_def)

lemma andthen_ok [simp]: "andthen (ok a) f = f a"
  by (simp add: fun_eq_iff run_simps)

lemma andthen_ok_right [simp]: "andthen p ok = p"
  by (simp add: fun_eq_iff run_simps split: prod.splits sum.splits)

lemma andthen_assoc: "andthen (andthen p f) g = andthen p (\<lambda>a. andthen (f a) g)"
  by (simp add: fun_eq_iff run_simps split: prod.splits sum.splits)

lemma andthen_InrE:
  assumes "andthen p f s = (Inr b, u)"
  obtains a t where "p s = (Inr a, t)" and "f a t = (Inr b, u)"
  using assms by (auto simp: andthen_def split: prod.splits sum.splits)

lemma for_each_append:
  "for_each f (xs @ ys) = andthen (for_each f xs) (\<lambda>_. for_each f ys)"
  by (induction xs) (simp_all add: andthen_assoc)

lemma for_each_invariant:
  assumes "\<And>x s. x \<in> set xs \<Longrightarrow> I s \<Longrightarrow> I (snd (f x s))" and "I s"
  shows "I (snd (for_each f xs s))"
  using assms
proof (induction xs arbitrary: s)
  case Nil
  then show ?case by (simp add: run_simps)
next
  case (Cons x xs)
  have "I (snd (f x s))" using Cons.prems by simp
  then show ?case
    using Cons.IH [of "snd (f x s)"] Cons.prems(1)
    by (auto simp: run_simps split: prod.splits sum.splits)
qed


section \<open>Ranges of machine integers\<close>

lemma u16_lt: "unat (w :: u16) < 65536"
proof -
  have "unat w < 2 ^ LENGTH(16)" by (rule unsigned_less)
  then show ?thesis by simp
qed

lemma u32_lt: "unat (w :: u32) < 4294967296"
proof -
  have "unat w < 2 ^ LENGTH(32)" by (rule unsigned_less)
  then show ?thesis by simp
qed

lemma u64_lt: "unat (w :: u64) < 18446744073709551616"
proof -
  have "unat w < 2 ^ LENGTH(64)" by (rule unsigned_less)
  then show ?thesis by simp
qed

lemma unat_u16: "n < 65536 \<Longrightarrow> unat (of_nat n :: u16) = n"
  by (rule of_nat_inverse [OF refl]) simp

lemma unat_u32: "n < 4294967296 \<Longrightarrow> unat (of_nat n :: u32) = n"
  by (rule of_nat_inverse [OF refl]) simp

lemma unat_u64: "n < 18446744073709551616 \<Longrightarrow> unat (of_nat n :: u64) = n"
  by (rule of_nat_inverse [OF refl]) simp

lemma unat_ucast_u32 [simp]: "unat (ucast (w :: u32) :: u64) = unat w"
proof -
  have "unat (of_nat (unat w) :: u64) = unat w"
    using u32_lt [of w] by (intro unat_u64) simp
  then show ?thesis by simp
qed

lemma unat_u64_add:
  "unat a + unat b < 18446744073709551616 \<Longrightarrow> unat (a + b :: u64) = unat a + unat b"
  by (simp add: unat_plus_if')

lemma u64_less_Suc:
  assumes "(w :: u64) \<noteq> - 1"
  shows "w < w + 1"
proof -
  have "unat w \<noteq> unat (- 1 :: u64)" using assms by (metis word_unat_eq_iff)
  then have "unat w \<noteq> 18446744073709551615" by (simp add: unsigned_minus_1_eq_mask mask_eq_exp_minus_1)
  then have "unat (w + 1) = unat w + 1"
    using u64_lt [of w] unat_u64_add [of w 1] by simp
  then show ?thesis by (simp add: word_less_nat_alt)
qed


section \<open>Byte slices\<close>

definition slice :: "'a list \<Rightarrow> nat \<Rightarrow> nat \<Rightarrow> 'a list" where
  "slice xs a b = take (b - a) (drop a xs)"

definition write_at :: "nat \<Rightarrow> 'a list \<Rightarrow> 'a list \<Rightarrow> 'a list" where
  "write_at off ys xs = take off xs @ ys @ drop (off + length ys) xs"

text \<open>\<open>&xs[a..b]\<close> and \<open>xs[i]\<close>: both panic out of range.\<close>

definition slice_r :: "'a list \<Rightarrow> nat \<Rightarrow> nat \<Rightarrow> error + 'a list" where
  "slice_r xs a b = (if a \<le> b \<and> b \<le> length xs then Inr (slice xs a b)
     else Inl (Panic ''slice index out of range''))"

definition index_r :: "'a list \<Rightarrow> nat \<Rightarrow> error + 'a" where
  "index_r xs i = (if i < length xs then Inr (xs ! i) else Inl (Panic ''index out of bounds''))"

text \<open>\<open>xs[a..b].copy_from_slice(ys)\<close>: panics out of range or when the lengths differ.\<close>

definition put_slice :: "nat \<Rightarrow> nat \<Rightarrow> 'a list \<Rightarrow> ('a list, unit) m" where
  "put_slice a b ys = (\<lambda>xs.
     if a \<le> b \<and> b \<le> length xs \<and> length ys = b - a then (Inr (), write_at a ys xs)
     else (Inl (Panic ''copy_from_slice''), xs))"

lemma slice_r_Inr [simp]: "a \<le> b \<Longrightarrow> b \<le> length xs \<Longrightarrow> slice_r xs a b = Inr (slice xs a b)"
  by (simp add: slice_r_def)

lemma index_r_Inr [simp]: "i < length xs \<Longrightarrow> index_r xs i = Inr (xs ! i)"
  by (simp add: index_r_def)

lemma put_slice_run:
  "a \<le> b \<Longrightarrow> b \<le> length xs \<Longrightarrow> length ys = b - a \<Longrightarrow>
   put_slice a b ys xs = (Inr (), write_at a ys xs)"
  by (simp add: put_slice_def)

lemma length_slice [simp]: "length (slice xs a b) = min (b - a) (length xs - a)"
  by (simp add: slice_def)

lemma length_write_at [simp]:
  "off + length ys \<le> length xs \<Longrightarrow> length (write_at off ys xs) = length xs"
  by (simp add: write_at_def)

lemma nth_slice: "i < b - a \<Longrightarrow> b \<le> length xs \<Longrightarrow> slice xs a b ! i = xs ! (a + i)"
  by (simp add: slice_def)

lemma nth_write_at:
  assumes "off + length ys \<le> length xs" and "i < length xs"
  shows "write_at off ys xs ! i =
    (if i < off then xs ! i else if i < off + length ys then ys ! (i - off) else xs ! i)"
  using assms by (auto simp: write_at_def nth_append)

lemma slice_write_same [simp]:
  "off + length ys \<le> length xs \<Longrightarrow> slice (write_at off ys xs) off (off + length ys) = ys"
  by (simp add: slice_def write_at_def)

lemma slice_write_same':
  "off + length ys \<le> length xs \<Longrightarrow> b = off + length ys \<Longrightarrow>
   slice (write_at off ys xs) off b = ys"
  by simp

lemma slice_write_disjoint:
  assumes "off + length ys \<le> length xs" and "b \<le> length xs" and "b \<le> off \<or> off + length ys \<le> a"
  shows "slice (write_at off ys xs) a b = slice xs a b"
  using assms by (intro nth_equalityI) (auto simp: nth_slice nth_write_at)

lemma slice_write_inside:
  assumes "off + length ys \<le> length xs" and "off \<le> a" and "a \<le> b" and "b \<le> off + length ys"
  shows "slice (write_at off ys xs) a b = slice ys (a - off) (b - off)"
  using assms by (intro nth_equalityI) (auto simp: nth_slice nth_write_at)

lemma slice_append_left: "b \<le> length xs \<Longrightarrow> slice (xs @ ys) a b = slice xs a b"
  by (cases "a \<le> b") (auto simp: slice_def)

lemma slice_append_right:
  "length xs \<le> a \<Longrightarrow> slice (xs @ ys) a b = slice ys (a - length xs) (b - length xs)"
  by (simp add: slice_def)

lemma slice_whole: "slice xs 0 (length xs) = xs"
  by (simp add: slice_def)

lemma slice_take: "b \<le> n \<Longrightarrow> slice (take n xs) a b = slice xs a b"
  by (auto simp: slice_def take_drop min_def)

lemma take_eq_slice: "take n xs = slice xs 0 n"
  by (simp add: slice_def)

lemma slice_slice:
  "c \<le> d \<Longrightarrow> d \<le> b - a \<Longrightarrow> b \<le> length xs \<Longrightarrow> slice (slice xs a b) c d = slice xs (a + c) (a + d)"
  by (intro nth_equalityI) (auto simp: nth_slice add.assoc)

lemma write_at_slice_id:
  "a \<le> b \<Longrightarrow> b \<le> length xs \<Longrightarrow> write_at a (slice xs a b) xs = xs"
  by (intro nth_equalityI) (auto simp: nth_slice nth_write_at)

lemma write_at_write_same:
  "length ys = length zs \<Longrightarrow> off + length ys \<le> length xs \<Longrightarrow>
   write_at off zs (write_at off ys xs) = write_at off zs xs"
  by (intro nth_equalityI) (auto simp: nth_write_at)


section \<open>Little-endian integers\<close>

definition to_le :: "'a::len word \<Rightarrow> bytes" where
  "to_le w = map (\<lambda>i. ucast (drop_bit (8 * i) w)) [0..<LENGTH('a) div 8]"

fun from_le :: "bytes \<Rightarrow> 'a::len word" where
  "from_le [] = 0"
| "from_le (b # bs) = ucast b OR push_bit 8 (from_le bs)"

lemma length_to_le [simp]: "length (to_le (w :: 'a::len word)) = LENGTH('a) div 8"
  by (simp add: to_le_def)

lemma bit_from_le:
  "bit (from_le bs :: 'a::len word) n \<longleftrightarrow>
   n < LENGTH('a) \<and> n div 8 < length bs \<and> bit (bs ! (n div 8)) (n mod 8)"
proof (induction bs arbitrary: n)
  case Nil
  then show ?case by simp
next
  case (Cons b bs)
  show ?case
  proof (cases "n < 8")
    case True
    then show ?thesis by (auto simp: bit_or_iff bit_ucast_iff bit_push_bit_iff)
  next
    case False
    then obtain k where n: "n = 8 + k" by (metis le_iff_add not_less)
    have "\<not> bit b n" using False by (auto dest: bit_imp_le_length)
    moreover have "(8 + k) div 8 = Suc (k div 8)" by simp
    ultimately show ?thesis
      using Cons.IH [of k] by (auto simp: n bit_or_iff bit_ucast_iff bit_push_bit_iff)
  qed
qed

lemma bit_to_le:
  "i < LENGTH('a) div 8 \<Longrightarrow> j < 8 \<Longrightarrow> bit (to_le (w :: 'a::len word) ! i) j \<longleftrightarrow> bit w (8 * i + j)"
  by (simp add: to_le_def bit_ucast_iff bit_drop_bit_eq)

lemma from_to_le [simp]:
  assumes "8 dvd LENGTH('a)"
  shows "from_le (to_le (w :: 'a::len word)) = w"
proof (rule bit_word_eqI)
  fix n assume n: "n < LENGTH('a)"
  have "n div 8 < LENGTH('a) div 8" using n assms by auto
  then show "bit (from_le (to_le w) :: 'a word) n \<longleftrightarrow> bit w n"
    using n by (simp add: bit_from_le bit_to_le)
qed

lemma to_from_le:
  assumes "length bs * 8 = LENGTH('a)"
  shows "to_le (from_le bs :: 'a::len word) = bs"
proof (rule nth_equalityI)
  show "length (to_le (from_le bs :: 'a word)) = length bs"
    using assms by (metis length_to_le nonzero_mult_div_cancel_right zero_neq_numeral)
next
  fix i assume "i < length (to_le (from_le bs :: 'a word))"
  then have i: "i < LENGTH('a) div 8" by simp
  show "to_le (from_le bs :: 'a word) ! i = bs ! i"
  proof (rule bit_word_eqI)
    fix j :: nat assume "j < LENGTH(8)"
    then have j: "j < 8" by simp
    have "8 * i + j < LENGTH('a)" "i < length bs" using i j assms by auto
    then show "bit (to_le (from_le bs :: 'a word) ! i) j \<longleftrightarrow> bit (bs ! i) j"
      using i j by (simp add: bit_to_le bit_from_le)
  qed
qed

lemma to_le_inj:
  "8 dvd LENGTH('a) \<Longrightarrow> to_le (v :: 'a::len word) = to_le w \<longleftrightarrow> v = w"
  by (metis from_to_le)

lemma from_le_16 [simp]: "from_le (to_le (w :: u16)) = w"
  and from_le_32 [simp]: "from_le (to_le (v :: u32)) = v"
  and from_le_64 [simp]: "from_le (to_le (x :: u64)) = x"
  by (rule from_to_le, simp)+


section \<open>Hash maps\<close>

text \<open>
  A \<open>HashMap\<close> is an association list without duplicate keys: \<open>map_of\<close> looks up, \<open>AList.update\<close>
  inserts, \<open>AList.delete\<close> removes. Rust leaves the iteration order open; the model iterates in
  the order of the list, one of the orders that are allowed.
\<close>

type_synonym ('k, 'v) hmap = "('k \<times> 'v) list"

abbreviation keys :: "('k, 'v) hmap \<Rightarrow> 'k list" where
  "keys h \<equiv> map fst h"

abbreviation map_insert :: "'k \<Rightarrow> 'v \<Rightarrow> ('k, 'v) hmap \<Rightarrow> ('k, 'v) hmap" where
  "map_insert \<equiv> AList.update"

abbreviation map_remove :: "'k \<Rightarrow> ('k, 'v) hmap \<Rightarrow> ('k, 'v) hmap" where
  "map_remove \<equiv> AList.delete"

lemma map_of_insert [simp]: "map_of (map_insert k v h) = (map_of h)(k \<mapsto> v)"
  by (simp add: update_conv')

lemma map_of_remove [simp]: "map_of (map_remove k h) = (map_of h)(k := None)"
  by (simp add: delete_conv')

lemma set_keys_insert [simp]: "fst ` set (map_insert k v h) = insert k (fst ` set h)"
  by (simp add: dom_update)

lemma set_keys_remove [simp]: "fst ` set (map_remove k h) = fst ` set h - {k}"
  by (auto simp: AList.delete_eq image_iff)

lemma distinct_keys_insert [simp]: "distinct (keys h) \<Longrightarrow> distinct (keys (map_insert k v h))"
  by (rule distinct_update)

lemma distinct_keys_remove [simp]: "distinct (keys h) \<Longrightarrow> distinct (keys (map_remove k h))"
  by (rule distinct_delete)

lemma keys_iff_map_of: "k \<in> fst ` set h \<longleftrightarrow> map_of h k \<noteq> None"
  by (metis domIff dom_map_of_conv_image_fst)

lemma length_insert_present:
  "k \<in> fst ` set h \<Longrightarrow> length (map_insert k v h) = length h"
  by (induction h) auto

lemma length_insert_absent:
  "k \<notin> fst ` set h \<Longrightarrow> length (map_insert k v h) = Suc (length h)"
  by (induction h) auto

lemma length_remove_present:
  "distinct (keys h) \<Longrightarrow> k \<in> fst ` set h \<Longrightarrow> Suc (length (map_remove k h)) = length h"
proof (induction h)
  case (Cons a h)
  have "k \<notin> fst ` set h \<Longrightarrow> map_remove k h = h"
    by (rule delete_id) (simp add: image_iff)
  with Cons show ?case by (auto simp: AList.delete_eq)
qed simp

lemma keys_delete_filter: "keys (map_remove k h) = filter (\<lambda>x. x \<noteq> k) (keys h)"
  by (induction h) (auto simp: AList.delete_eq)

lemma take_drop_filter:
  assumes "distinct xs" and "n < length xs"
  shows "take n xs @ drop (Suc n) xs = filter (\<lambda>x. x \<noteq> xs ! n) xs"
proof -
  define ys zs where "ys = take n xs" and "zs = drop (Suc n) xs"
  have xs: "xs = ys @ xs ! n # zs"
    using assms(2) unfolding ys_def zs_def by (rule id_take_nth_drop)
  then have "xs ! n \<notin> set ys" "xs ! n \<notin> set zs"
    using assms(1) by (metis distinct.simps(2) distinct_append disjoint_insert(1) list.set(2) in_mono
        Int_iff insertI1 empty_iff)+
  then have "filter (\<lambda>x. x \<noteq> xs ! n) ys = ys" "filter (\<lambda>x. x \<noteq> xs ! n) zs = zs"
    by (auto simp: filter_id_conv)
  then have "filter (\<lambda>x. x \<noteq> xs ! n) (ys @ xs ! n # zs) = ys @ zs"
    by simp
  then show ?thesis using xs by (metis ys_def zs_def)
qed

end
