(* ===== verification/Header.thy ===== *)
theory Header
  imports Prelude
begin

text \<open>
  The fixed-layout headers of \<open>header.rs\<close>: the index page header (22 bytes), the heap page header
  (21 bytes) and the header of the log file (28 bytes), with their flag operations, and the
  interface \<open>header_codec\<close> that every serialised header of the engine satisfies.
\<close>

section \<open>The interface of a fixed-width header\<close>

text \<open>
  \<open>enc h\<close> is the byte image of a header; \<open>serialize\<close> writes it over the front of a buffer and
  \<open>deserialize\<close> reads it back, whatever follows.
\<close>

locale header_codec =
  fixes size :: nat
    and enc :: "'h \<Rightarrow> bytes"
    and serialize :: "'h \<Rightarrow> (bytes, unit) m"
    and deserialize :: "bytes \<Rightarrow> error + 'h option"
  assumes length_enc: "length (enc h) = size"
    and serialize_enc: "size \<le> length buf \<Longrightarrow> serialize h buf = (Inr (), enc h @ drop size buf)"
    and deserialize_enc: "deserialize (enc h @ rest) = Inr (Some h)"
    and deserialize_prefix: "size \<le> length buf \<Longrightarrow> deserialize (take size buf) = deserialize buf"
begin

lemma roundtrip: "size \<le> length buf \<Longrightarrow> deserialize (snd (serialize h buf)) = Inr (Some h)"
  by (simp add: serialize_enc deserialize_enc)

lemma length_serialize: "size \<le> length buf \<Longrightarrow> length (snd (serialize h buf)) = length buf"
  by (simp add: serialize_enc length_enc)

lemma serialize_tail:
  "size \<le> length buf \<Longrightarrow> size \<le> a \<Longrightarrow> slice (snd (serialize h buf)) a b = slice buf a b"
  by (simp add: serialize_enc slice_def length_enc)

lemma serialize_overwrite:
  "size \<le> length buf \<Longrightarrow> serialize h (snd (serialize k buf)) = serialize h buf"
  by (simp add: serialize_enc length_enc)

lemma serialize_ok: "size \<le> length buf \<Longrightarrow> fst (serialize h buf) = Inr ()"
  by (simp add: serialize_enc)

lemma serialize_drop: "size \<le> length buf \<Longrightarrow> drop size (snd (serialize h buf)) = drop size buf"
  by (simp add: serialize_enc length_enc)

lemmas laws = roundtrip serialize_ok serialize_drop

lemma enc_inj: "enc h = enc k \<Longrightarrow> h = k"
  using deserialize_enc [of h "[]"] deserialize_enc [of k "[]"] by simp

end

lemma write_at_append:
  "length pre \<le> off \<Longrightarrow> write_at off ys (pre @ rest) = pre @ write_at (off - length pre) ys rest"
  by (simp add: write_at_def)

lemma write_at_Cons:
  "0 < off \<Longrightarrow> write_at off ys (x # rest) = x # write_at (off - 1) ys rest"
  by (cases off) (simp_all add: write_at_def)

lemma write_at_0: "write_at 0 ys rest = ys @ drop (length ys) rest"
  by (simp add: write_at_def)

lemma slice_Cons: "0 < a \<Longrightarrow> slice (x # xs) a b = slice xs (a - 1) (b - 1)"
  by (cases a; cases b) (simp_all add: slice_def)

lemma slice_append_exact: "length xs = b \<Longrightarrow> slice (xs @ ys) 0 b = xs"
  by (simp add: slice_def)

lemma slice_full: "length xs = b \<Longrightarrow> slice xs 0 b = xs"
  by (simp add: slice_def)

lemmas encode_simps =
  write_at_append write_at_Cons write_at_0 andthen_run put_slice_run

lemmas decode_simps =
  slice_append_right slice_Cons slice_append_exact slice_full nth_append nth_Cons'

lemmas decode_prefix_simps = slice_take nth_take


section \<open>Index page header\<close>

datatype page_kind = Root | Internal | Leaf

definition page_kind_u8 :: "page_kind \<Rightarrow> u8" where
  "page_kind_u8 k = (case k of Root \<Rightarrow> 0 | Internal \<Rightarrow> 1 | Leaf \<Rightarrow> 2)"

definition page_kind_from_u8 :: "u8 \<Rightarrow> page_kind option" where
  "page_kind_from_u8 v =
     (if v = 0 then Some Root else if v = 1 then Some Internal else if v = 2 then Some Leaf
      else None)"

lemma page_kind_from_to [simp]: "page_kind_from_u8 (page_kind_u8 k) = Some k"
  by (cases k) (simp_all add: page_kind_from_u8_def page_kind_u8_def)

record index_header =
  ih_id :: u64
  ih_free_start :: u16
  ih_free_end :: u16
  ih_page_ty :: page_kind
  ih_flags :: u8
  ih_ptr :: u64

definition index_deserialize :: "bytes \<Rightarrow> error + index_header option" where
  "index_deserialize buf =
     try_r (slice_r buf 0 8) (\<lambda>b_id.
     try_r (slice_r buf 8 10) (\<lambda>b_start.
     try_r (slice_r buf 10 12) (\<lambda>b_end.
     try_r (index_r buf 12) (\<lambda>b_ty.
     case page_kind_from_u8 b_ty of None \<Rightarrow> Inr None | Some ty \<Rightarrow>
     try_r (index_r buf 13) (\<lambda>b_flags.
     try_r (slice_r buf 14 22) (\<lambda>b_ptr.
     Inr (Some \<lparr>ih_id = from_le b_id, ih_free_start = from_le b_start,
       ih_free_end = from_le b_end, ih_page_ty = ty, ih_flags = b_flags,
       ih_ptr = from_le b_ptr\<rparr>)))))))"

definition index_serialize :: "index_header \<Rightarrow> (bytes, unit) m" where
  "index_serialize h =
     andthen (put_slice 0 8 (to_le (ih_id h))) (\<lambda>_.
     andthen (put_slice 8 10 (to_le (ih_free_start h))) (\<lambda>_.
     andthen (put_slice 10 12 (to_le (ih_free_end h))) (\<lambda>_.
     andthen (put_slice 12 13 [page_kind_u8 (ih_page_ty h)]) (\<lambda>_.
     andthen (put_slice 13 14 [ih_flags h]) (\<lambda>_.
     put_slice 14 22 (to_le (ih_ptr h)))))))"

definition index_header_bytes :: "index_header \<Rightarrow> bytes" where
  "index_header_bytes h =
     to_le (ih_id h) @ to_le (ih_free_start h) @ to_le (ih_free_end h) @
     [page_kind_u8 (ih_page_ty h), ih_flags h] @ to_le (ih_ptr h)"

interpretation index_hdr: header_codec 22 index_header_bytes index_serialize index_deserialize
proof unfold_locales
  fix h :: index_header and buf rest :: bytes
  show "length (index_header_bytes h) = 22"
    by (simp add: index_header_bytes_def)
  show "index_deserialize (index_header_bytes h @ rest) = Inr (Some h)"
    by (simp add: index_deserialize_def index_header_bytes_def decode_simps)
  show "22 \<le> length buf \<Longrightarrow> index_serialize h buf = (Inr (), index_header_bytes h @ drop 22 buf)"
    by (simp add: index_serialize_def index_header_bytes_def encode_simps)
  show "22 \<le> length buf \<Longrightarrow> index_deserialize (take 22 buf) = index_deserialize buf"
    unfolding index_deserialize_def by (simp add: decode_prefix_simps cong: option.case_cong)
qed

definition is_root_leaf :: "index_header \<Rightarrow> bool" where
  "is_root_leaf h \<longleftrightarrow> ih_flags h AND 1 = 1"

definition set_root_leaf :: "index_header \<Rightarrow> index_header" where
  "set_root_leaf h = h\<lparr>ih_flags := ih_flags h OR 1\<rparr>"

definition clear_root_leaf :: "index_header \<Rightarrow> index_header" where
  "clear_root_leaf h = h\<lparr>ih_flags := ih_flags h AND NOT 1\<rparr>"

text \<open>The condition \<open>is_leaf_level\<close> that the callers compute from a header.\<close>

definition is_leaf_level :: "index_header \<Rightarrow> bool" where
  "is_leaf_level h \<longleftrightarrow> ih_page_ty h = Leaf \<or> (ih_page_ty h = Root \<and> is_root_leaf h)"

lemma and_one_eq: "(w :: 'a::len word) AND 1 = 1 \<longleftrightarrow> bit w 0"
  by (simp add: and_one_eq even_iff_mod_2_eq_zero bit_0 odd_iff_mod_2_eq_one)

lemma is_root_leaf_set [simp]: "is_root_leaf (set_root_leaf h)"
  by (simp add: is_root_leaf_def set_root_leaf_def and_one_eq bit_or_iff)

lemma is_root_leaf_clear [simp]: "\<not> is_root_leaf (clear_root_leaf h)"
  by (simp add: is_root_leaf_def clear_root_leaf_def and_one_eq bit_and_iff bit_not_iff)

lemma flags_preserved_above_0:
  "0 < n \<Longrightarrow> bit (ih_flags (set_root_leaf h)) n = bit (ih_flags h) n"
  "0 < n \<Longrightarrow> bit (ih_flags (clear_root_leaf h)) n = bit (ih_flags h) n"
  by (auto simp: set_root_leaf_def clear_root_leaf_def bit_or_iff bit_and_iff bit_not_iff
      bit_1_iff dest: bit_imp_le_length)


section \<open>Heap page header\<close>

definition HEAP_PAGE_SIZE :: nat where "HEAP_PAGE_SIZE = 8192"
definition HEAP_HEADER_SIZE :: nat where "HEAP_HEADER_SIZE = 21"
definition HEAP_SLOT_SIZE :: nat where "HEAP_SLOT_SIZE = 4"

lemmas heap_consts [simp] = HEAP_PAGE_SIZE_def HEAP_HEADER_SIZE_def HEAP_SLOT_SIZE_def

record heap_header =
  hh_id :: u64
  hh_free_start :: u16
  hh_free_end :: u16
  hh_flags :: u8
  hh_ptr :: u64

definition heap_deserialize :: "bytes \<Rightarrow> error + heap_header option" where
  "heap_deserialize buf =
     try_r (slice_r buf 0 8) (\<lambda>b_id.
     try_r (slice_r buf 8 10) (\<lambda>b_start.
     try_r (slice_r buf 10 12) (\<lambda>b_end.
     try_r (index_r buf 12) (\<lambda>b_flags.
     try_r (slice_r buf 13 21) (\<lambda>b_ptr.
     Inr (Some \<lparr>hh_id = from_le b_id, hh_free_start = from_le b_start,
       hh_free_end = from_le b_end, hh_flags = b_flags, hh_ptr = from_le b_ptr\<rparr>))))))"

definition heap_serialize :: "heap_header \<Rightarrow> (bytes, unit) m" where
  "heap_serialize h =
     andthen (put_slice 0 8 (to_le (hh_id h))) (\<lambda>_.
     andthen (put_slice 8 10 (to_le (hh_free_start h))) (\<lambda>_.
     andthen (put_slice 10 12 (to_le (hh_free_end h))) (\<lambda>_.
     andthen (put_slice 12 13 [hh_flags h]) (\<lambda>_.
     put_slice 13 21 (to_le (hh_ptr h))))))"

definition heap_header_bytes :: "heap_header \<Rightarrow> bytes" where
  "heap_header_bytes h =
     to_le (hh_id h) @ to_le (hh_free_start h) @ to_le (hh_free_end h) @
     [hh_flags h] @ to_le (hh_ptr h)"

interpretation heap_hdr: header_codec 21 heap_header_bytes heap_serialize heap_deserialize
proof unfold_locales
  fix h :: heap_header and buf rest :: bytes
  show "length (heap_header_bytes h) = 21"
    by (simp add: heap_header_bytes_def)
  show "heap_deserialize (heap_header_bytes h @ rest) = Inr (Some h)"
    by (simp add: heap_deserialize_def heap_header_bytes_def decode_simps)
  show "21 \<le> length buf \<Longrightarrow> heap_serialize h buf = (Inr (), heap_header_bytes h @ drop 21 buf)"
    by (simp add: heap_serialize_def heap_header_bytes_def encode_simps)
  show "21 \<le> length buf \<Longrightarrow> heap_deserialize (take 21 buf) = heap_deserialize buf"
    unfolding heap_deserialize_def by (simp add: decode_prefix_simps)
qed

definition remaining_space :: "heap_header \<Rightarrow> nat" where
  "remaining_space h = unat (hh_free_end h) - (unat (hh_free_start h) + HEAP_SLOT_SIZE)"

definition new_primary :: "u64 \<Rightarrow> heap_header" where
  "new_primary i = \<lparr>hh_id = i, hh_free_start = of_nat HEAP_HEADER_SIZE,
     hh_free_end = of_nat HEAP_PAGE_SIZE, hh_flags = 1, hh_ptr = 0\<rparr>"

definition new_overflow :: "u64 \<Rightarrow> heap_header" where
  "new_overflow i = \<lparr>hh_id = i, hh_free_start = of_nat HEAP_HEADER_SIZE,
     hh_free_end = of_nat HEAP_PAGE_SIZE, hh_flags = 0, hh_ptr = 0\<rparr>"

definition set_has_overflow :: "u64 \<Rightarrow> heap_header \<Rightarrow> heap_header" where
  "set_has_overflow overflow_page_id h =
     h\<lparr>hh_flags := hh_flags h OR 2, hh_ptr := overflow_page_id\<rparr>"

definition is_overflow_page :: "heap_header \<Rightarrow> bool" where
  "is_overflow_page h \<longleftrightarrow> hh_flags h AND 1 = 1"

definition has_overflow_page :: "heap_header \<Rightarrow> bool" where
  "has_overflow_page h \<longleftrightarrow> drop_bit 1 (hh_flags h) = 1"


section \<open>Log file header\<close>

definition WAL_HEADER_SIZE :: nat where "WAL_HEADER_SIZE = 28"

lemmas wal_header_consts [simp] = WAL_HEADER_SIZE_def

record wal_header =
  last_checkpoint_lsn :: u64
  last_wal_offset :: u64
  last_wal_len :: u32
  next_lsn :: u64

definition wal_header_deserialize :: "bytes \<Rightarrow> error + wal_header option" where
  "wal_header_deserialize buf =
     try_r (slice_r buf 0 8) (\<lambda>b_chk.
     try_r (slice_r buf 8 16) (\<lambda>b_off.
     try_r (slice_r buf 16 20) (\<lambda>b_len.
     try_r (slice_r buf 20 28) (\<lambda>b_next.
     Inr (Some \<lparr>last_checkpoint_lsn = from_le b_chk, last_wal_offset = from_le b_off,
       last_wal_len = from_le b_len, next_lsn = from_le b_next\<rparr>)))))"

definition wal_header_serialize :: "wal_header \<Rightarrow> (bytes, unit) m" where
  "wal_header_serialize h =
     andthen (put_slice 0 8 (to_le (last_checkpoint_lsn h))) (\<lambda>_.
     andthen (put_slice 8 16 (to_le (last_wal_offset h))) (\<lambda>_.
     andthen (put_slice 16 20 (to_le (last_wal_len h))) (\<lambda>_.
     put_slice 20 28 (to_le (next_lsn h)))))"

definition wal_header_bytes :: "wal_header \<Rightarrow> bytes" where
  "wal_header_bytes h =
     to_le (last_checkpoint_lsn h) @ to_le (last_wal_offset h) @ to_le (last_wal_len h) @
     to_le (next_lsn h)"

interpretation wal_hdr:
  header_codec 28 wal_header_bytes wal_header_serialize wal_header_deserialize
proof unfold_locales
  fix h :: wal_header and buf rest :: bytes
  show "length (wal_header_bytes h) = 28"
    by (simp add: wal_header_bytes_def)
  show "wal_header_deserialize (wal_header_bytes h @ rest) = Inr (Some h)"
    by (simp add: wal_header_deserialize_def wal_header_bytes_def decode_simps)
  show "28 \<le> length buf \<Longrightarrow>
      wal_header_serialize h buf = (Inr (), wal_header_bytes h @ drop 28 buf)"
    by (simp add: wal_header_serialize_def wal_header_bytes_def encode_simps)
  show "28 \<le> length buf \<Longrightarrow> wal_header_deserialize (take 28 buf) = wal_header_deserialize buf"
    unfolding wal_header_deserialize_def by (simp add: decode_prefix_simps)
qed

end
