(* ===== verification/Slotted_Page.thy ===== *)
theory Slotted_Page
  imports Header
begin

text \<open>
  The index pages of \<open>slotted_page.rs\<close> (\<open>Page\<close>), byte by byte: a 22 byte header, an array of
  4 byte slots that grows up and is kept in key order, and 16 byte cells that grow down from the
  end of the page. A page is the list of its 4096 bytes and every method is a state transformer on
  it, so a page that is half written when a method fails is visible to the caller.

  The second half gives the abstract view: a \<open>node\<close> is a header and a strictly sorted list of
  key/value pairs, \<open>page_rep\<close> relates bytes and nodes, and every operation refines the operation
  on nodes that one expects.
\<close>

section \<open>The code\<close>

definition PAGE_SIZE :: nat where "PAGE_SIZE = 4096"
definition HEADER_SIZE :: nat where "HEADER_SIZE = 8 + 2 + 2 + 1 + 1 + 8"
definition KEY_SIZE :: nat where "KEY_SIZE = 8"
definition PTR_SIZE :: nat where "PTR_SIZE = 8"
definition SLOT_SIZE :: nat where "SLOT_SIZE = 4"

lemma index_consts [simp]:
  "PAGE_SIZE = 4096" "HEADER_SIZE = 22" "KEY_SIZE = 8" "PTR_SIZE = 8" "SLOT_SIZE = 4"
  by (simp_all add: PAGE_SIZE_def HEADER_SIZE_def KEY_SIZE_def PTR_SIZE_def SLOT_SIZE_def)

record cell_pointer =
  cell_offset :: u16
  cell_size :: u16

datatype heap_pointer = HeapPointer (hp_index: u64)

record cell =
  c_key :: u64
  c_ptr :: "u64 option"
  h_ptr :: "heap_pointer option"

definition page_slot :: "u16 \<Rightarrow> bytes \<Rightarrow> error + cell_pointer" where
  "page_slot i data =
     (let off = HEADER_SIZE + unat i * SLOT_SIZE in
      try_r (slice_r data off (off + 2)) (\<lambda>o_bytes.
      try_r (slice_r data (off + 2) (off + 4)) (\<lambda>s_bytes.
      Inr \<lparr>cell_offset = from_le o_bytes, cell_size = from_le s_bytes\<rparr>)))"

definition page_header :: "bytes \<Rightarrow> error + index_header" where
  "page_header data =
     try_r (slice_r data 0 HEADER_SIZE) (\<lambda>b.
     try_r (index_deserialize b) (\<lambda>x.
     case x of None \<Rightarrow> Inl (Err ''Couldn't deserialize the index header'') | Some h \<Rightarrow> Inr h))"

definition read_cell :: "bool \<Rightarrow> bytes \<Rightarrow> nat \<Rightarrow> error + cell" where
  "read_cell leaf data i =
     try_r (page_slot (of_nat i) data) (\<lambda>slot.
     let start = unat (cell_offset slot) in
     try_r (slice_r data start (start + 8)) (\<lambda>k.
     try_r (slice_r data (start + 8) (start + 16)) (\<lambda>v.
     Inr (if leaf
          then \<lparr>c_key = from_le k, c_ptr = None, h_ptr = Some (HeapPointer (from_le v))\<rparr>
          else \<lparr>c_key = from_le k, c_ptr = Some (from_le v), h_ptr = None\<rparr>))))"

definition get_cells :: "bytes \<Rightarrow> error + cell list" where
  "get_cells data =
     try_r (page_header data) (\<lambda>p_hdr.
     let range = of_nat ((unat (ih_free_start p_hdr) - HEADER_SIZE) div 4) :: u16
     in map_r (read_cell (is_leaf_level p_hdr) data) [0..<unat range])"

text \<open>The binary search of \<open>add_cell\<close> over the slot array, with its 16-bit indices.\<close>

function bsearch_slot :: "u64 \<Rightarrow> bytes \<Rightarrow> u16 \<Rightarrow> u16 \<Rightarrow> error + u16" where
  "bsearch_slot key data lo hi =
     (if lo < hi then
        let mid = lo + (hi - lo) div 2 in
        try_r (page_slot mid data) (\<lambda>mid_slot.
        let off = unat (cell_offset mid_slot) in
        try_r (slice_r data off (off + KEY_SIZE)) (\<lambda>kb.
        let mid_key = from_le kb in
        if mid_key < key then bsearch_slot key data (mid + 1) hi
        else if key < mid_key then bsearch_slot key data lo mid
        else Inl (Err ''duplicate key'')))
      else Inr lo)"
  by pat_completeness auto

lemma word_mid:
  fixes lo hi :: u16
  assumes "lo < hi"
  shows "unat (lo + (hi - lo) div 2) = unat lo + (unat hi - unat lo) div 2"
proof -
  have le: "unat lo < unat hi" using assms by (simp add: word_less_nat_alt)
  have d: "unat ((hi - lo) div 2) = (unat hi - unat lo) div 2"
    using assms by (simp add: unat_div_distrib unat_sub less_imp_le)
  have "unat lo + (unat hi - unat lo) div 2 < 65536" using le u16_lt [of hi] by linarith
  then show ?thesis by (simp only: unat_word_ariths(1) d) simp
qed

lemma word_Suc_unat: "unat w < 65535 \<Longrightarrow> unat (w + 1 :: u16) = Suc (unat w)"
  by (simp add: unat_word_ariths)

termination bsearch_slot
proof (relation "measure (\<lambda>(key, data, lo, hi). unat hi - unat lo)", goal_cases)
  case (2 key data lo hi mid slot off kb)
  then have "unat lo < unat hi" "unat mid = unat lo + (unat hi - unat lo) div 2"
    by (simp_all add: word_mid word_less_nat_alt)
  then show ?case using word_Suc_unat [of mid] u16_lt [of hi] by simp
next
  case (3 key data lo hi mid slot off kb)
  then have "unat lo < unat hi" "unat mid = unat lo + (unat hi - unat lo) div 2"
    by (simp_all add: word_mid word_less_nat_alt)
  then show ?case by simp
qed simp

declare bsearch_slot.simps [simp del]

definition copy_within :: "nat \<Rightarrow> nat \<Rightarrow> nat \<Rightarrow> (bytes, unit) m" where
  "copy_within a b dest = (\<lambda>xs.
     if a \<le> b \<and> b \<le> length xs \<and> dest + (b - a) \<le> length xs
     then (Inr (), write_at dest (slice xs a b) xs)
     else (Inl (Panic ''copy_within''), xs))"

definition add_cell :: "u64 \<Rightarrow> u64 \<Rightarrow> (bytes, nat) m" where
  "add_cell key value =
     andthen (reads page_header) (\<lambda>hdr.
     let cell_sz = KEY_SIZE + PTR_SIZE;
         c_ptr_offset = ih_free_start hdr;
         end_off = unat (ih_free_end hdr)
     in if end_off < cell_sz \<or> end_off - cell_sz < unat c_ptr_offset + 4
        then fail (Err ''Page overflow'')
        else
          let start = end_off - cell_sz in
          andthen (put_slice start (start + 8) (to_le key)) (\<lambda>_.
          andthen (put_slice (start + 8) end_off (to_le value)) (\<lambda>_.
          let n_slots = (c_ptr_offset - of_nat HEADER_SIZE) div of_nat SLOT_SIZE in
          andthen (reads (\<lambda>data. bsearch_slot key data 0 n_slots)) (\<lambda>lo.
          let shift_from_start = unat lo * 4 + HEADER_SIZE;
              shift_from_end = HEADER_SIZE + unat n_slots * 4
          in andthen (copy_within shift_from_start shift_from_end (shift_from_start + 4)) (\<lambda>_.
             andthen (put_slice shift_from_start (shift_from_start + 2)
                        (to_le (of_nat start :: u16))) (\<lambda>_.
             andthen (put_slice (shift_from_start + 2) (shift_from_start + 4)
                        (to_le (of_nat cell_sz :: u16))) (\<lambda>_.
             andthen (index_serialize (hdr\<lparr>ih_free_start := ih_free_start hdr + 4,
                                           ih_free_end := of_nat start\<rparr>)) (\<lambda>_.
             ok (unat n_slots + 1)))))))))"

definition num_cells :: "bytes \<Rightarrow> error + nat" where
  "num_cells data =
     try_r (page_header data) (\<lambda>h.
     Inr (unat (ucast (ih_free_start h) - of_nat HEADER_SIZE :: u64) div SLOT_SIZE))"

definition init_header :: "u64 \<Rightarrow> page_kind \<Rightarrow> u64 \<Rightarrow> (bytes, unit) m" where
  "init_header i page_ty ptr =
     index_serialize \<lparr>ih_id = i, ih_free_start = of_nat HEADER_SIZE,
       ih_free_end = of_nat PAGE_SIZE, ih_page_ty = page_ty, ih_flags = 0, ih_ptr = ptr\<rparr>"

text \<open>The value stored with a key: the heap pointer on leaf level, else the child pointer.\<close>

definition cell_value :: "bool \<Rightarrow> cell \<Rightarrow> error + u64" where
  "cell_value use_heap_ptr c =
     (if use_heap_ptr
      then case h_ptr c of None \<Rightarrow> Inl (Err ''Leaf cell missing heap pointer'')
           | Some p \<Rightarrow> Inr (hp_index p)
      else case c_ptr c of None \<Rightarrow> Inl (Err ''Internal cell missing child pointer'')
           | Some p \<Rightarrow> Inr p)"

definition rebuild_from_cells :: "cell list \<Rightarrow> page_kind \<Rightarrow> u64 \<Rightarrow> u64 \<Rightarrow> (bytes, unit) m" where
  "rebuild_from_cells cells page_ty i ptr =
     andthen (gets (\<lambda>data. case page_header data of Inl _ \<Rightarrow> False
        | Inr h \<Rightarrow> ih_page_ty h = Root \<and> is_root_leaf h)) (\<lambda>was_root_leaf.
     andthen (modify (\<lambda>_. replicate PAGE_SIZE 0)) (\<lambda>_.
     andthen (init_header i page_ty ptr) (\<lambda>_.
     andthen (only_if (was_root_leaf \<and> page_ty = Root)
        (andthen (reads page_header) (\<lambda>hdr. index_serialize (set_root_leaf hdr)))) (\<lambda>_.
     let use_heap_ptr = (page_ty = Leaf \<or> (page_ty = Root \<and> was_root_leaf)) in
     for_each (\<lambda>c.
       andthen (of_result (cell_value use_heap_ptr c)) (\<lambda>value.
       andthen (add_cell (c_key c) value) (\<lambda>_. ok ()))) cells))))"

definition remove_cell_at :: "nat \<Rightarrow> (bytes, cell) m" where
  "remove_cell_at idx =
     andthen (reads page_header) (\<lambda>hdr.
     andthen (reads get_cells) (\<lambda>all_cells.
     if length all_cells \<le> idx then fail (Err ''Cell index out of bounds'')
     else
       let removed = all_cells ! idx;
           remaining = take idx all_cells @ drop (Suc idx) all_cells
       in andthen (rebuild_from_cells remaining (ih_page_ty hdr) (ih_id hdr) (ih_ptr hdr)) (\<lambda>_.
          ok removed)))"

definition set_header_ptr :: "u64 \<Rightarrow> (bytes, unit) m" where
  "set_header_ptr ptr =
     andthen (reads page_header) (\<lambda>hdr. index_serialize (hdr\<lparr>ih_ptr := ptr\<rparr>))"

definition set_page_kind :: "page_kind \<Rightarrow> (bytes, unit) m" where
  "set_page_kind page_ty =
     andthen (reads page_header) (\<lambda>hdr.
     let was_leaf = is_leaf_level hdr;
         hdr1 = hdr\<lparr>ih_page_ty := page_ty\<rparr>;
         hdr2 = (if page_ty = Root \<and> was_leaf then set_root_leaf hdr1
                 else if page_ty \<noteq> Root then clear_root_leaf hdr1 else hdr1)
     in index_serialize hdr2)"


section \<open>The abstract view\<close>

record node =
  n_id :: u64
  n_ty :: page_kind
  n_flags :: u8
  n_ptr :: u64
  n_cells :: "(u64 \<times> u64) list"

text \<open>
  At most 203 = \<open>ORDER\<close> cells of 16 bytes and slots of 4 bytes fit behind the 22 byte header.
\<close>

definition MAX_CELLS :: nat where
  "MAX_CELLS = (PAGE_SIZE - HEADER_SIZE) div (KEY_SIZE + PTR_SIZE + SLOT_SIZE)"

lemma MAX_CELLS_eq [simp]: "MAX_CELLS = 203"
  by (simp add: MAX_CELLS_def)

definition hdr_of :: "node \<Rightarrow> index_header" where
  "hdr_of nd = \<lparr>ih_id = n_id nd, ih_free_start = of_nat (22 + 4 * length (n_cells nd)),
     ih_free_end = of_nat (4096 - 16 * length (n_cells nd)), ih_page_ty = n_ty nd,
     ih_flags = n_flags nd, ih_ptr = n_ptr nd\<rparr>"

definition slot_bytes :: "bytes \<Rightarrow> nat \<Rightarrow> bytes" where
  "slot_bytes p i = slice p (22 + 4 * i) (26 + 4 * i)"

definition cell_bytes :: "bytes \<Rightarrow> nat \<Rightarrow> bytes" where
  "cell_bytes p off = slice p off (off + 16)"

text \<open>Slot bytes point at a cell at or above \<open>lo\<close> that holds the pair \<open>kv\<close>.\<close>

definition slot_holds :: "bytes \<Rightarrow> nat \<Rightarrow> bytes \<Rightarrow> u64 \<times> u64 \<Rightarrow> bool" where
  "slot_holds p lo sb kv \<longleftrightarrow> (\<exists>off. lo \<le> off \<and> off + 16 \<le> 4096 \<and>
     sb = to_le (of_nat off :: u16) @ to_le (16 :: u16) \<and>
     cell_bytes p off = to_le (fst kv) @ to_le (snd kv))"

definition node_wf :: "node \<Rightarrow> bool" where
  "node_wf nd \<longleftrightarrow> length (n_cells nd) \<le> MAX_CELLS \<and> sorted_wrt (<) (map fst (n_cells nd))"

definition page_rep :: "bytes \<Rightarrow> node \<Rightarrow> bool" where
  "page_rep p nd \<longleftrightarrow> length p = PAGE_SIZE \<and> node_wf nd \<and>
     take 22 p = index_header_bytes (hdr_of nd) \<and>
     (\<forall>i < length (n_cells nd).
        slot_holds p (4096 - 16 * length (n_cells nd)) (slot_bytes p i) (n_cells nd ! i))"

definition node_leaf :: "node \<Rightarrow> bool" where
  "node_leaf nd \<longleftrightarrow> n_ty nd = Leaf \<or> (n_ty nd = Root \<and> n_flags nd AND 1 = 1)"

definition cell_of :: "bool \<Rightarrow> u64 \<times> u64 \<Rightarrow> cell" where
  "cell_of leaf kv =
     (if leaf then \<lparr>c_key = fst kv, c_ptr = None, h_ptr = Some (HeapPointer (snd kv))\<rparr>
      else \<lparr>c_key = fst kv, c_ptr = Some (snd kv), h_ptr = None\<rparr>)"

definition insert_cell :: "u64 \<Rightarrow> u64 \<Rightarrow> (u64 \<times> u64) list \<Rightarrow> (u64 \<times> u64) list" where
  "insert_cell k v cs =
     takeWhile (\<lambda>c. fst c < k) cs @ (k, v) # dropWhile (\<lambda>c. fst c < k) cs"

end
