(* ===== verification/Page_Refinement.thy ===== *)
theory Page_Refinement
  imports Slotted_Page
begin

text \<open>
  The page operations of \<open>Slotted_Page\<close> refine operations on nodes: reading a page gives the cells
  of its node, \<open>add_cell\<close> is insertion into a strictly sorted list, \<open>rebuild_from_cells\<close> and
  \<open>remove_cell_at\<close> produce exactly the given cells, and the limit of 203 cells is exact.
\<close>

section \<open>Reading\<close>

lemma page_repD:
  assumes "page_rep p nd"
  shows page_rep_length: "length p = 4096"
    and page_rep_wf: "node_wf nd"
    and page_rep_bound: "length (n_cells nd) \<le> 203"
    and page_rep_sorted: "sorted_wrt (<) (map fst (n_cells nd))"
    and page_rep_take: "take 22 p = index_header_bytes (hdr_of nd)"
  using assms by (auto simp: page_rep_def node_wf_def)

lemma hdr_of_sel [simp]:
  "ih_id (hdr_of nd) = n_id nd" "ih_page_ty (hdr_of nd) = n_ty nd"
  "ih_flags (hdr_of nd) = n_flags nd" "ih_ptr (hdr_of nd) = n_ptr nd"
  "ih_free_start (hdr_of nd) = of_nat (22 + 4 * length (n_cells nd))"
  "ih_free_end (hdr_of nd) = of_nat (4096 - 16 * length (n_cells nd))"
  by (simp_all add: hdr_of_def)

lemma is_leaf_level_hdr_of [simp]: "is_leaf_level (hdr_of nd) = node_leaf nd"
  by (simp add: is_leaf_level_def node_leaf_def is_root_leaf_def)

lemma unat_free_start:
  "n \<le> 203 \<Longrightarrow> unat (of_nat (22 + 4 * n) :: u16) = 22 + 4 * n"
  by (rule unat_u16) simp

lemma unat_free_end:
  "unat (of_nat (4096 - 16 * n) :: u16) = 4096 - 16 * n"
  by (rule unat_u16) simp

lemma page_header_take:
  assumes "length p = 4096" and "take 22 p = index_header_bytes h"
  shows "page_header p = Inr h"
  using assms index_hdr.deserialize_enc [of h "[]"]
  by (simp add: page_header_def take_eq_slice)

lemma page_header_rep: "page_rep p nd \<Longrightarrow> page_header p = Inr (hdr_of nd)"
  by (rule page_header_take) (auto dest: page_repD)

lemma unat_ucast_u16: "unat (ucast (w :: u16) :: u64) = unat w"
proof -
  have "unat (of_nat (unat w) :: u64) = unat w"
    using u16_lt [of w] by (intro unat_u64) simp
  then show ?thesis by simp
qed

lemma num_cells_rep:
  assumes "page_rep p nd"
  shows "num_cells p = Inr (length (n_cells nd))"
proof -
  define f where "f = ih_free_start (hdr_of nd)"
  have f: "unat f = 22 + 4 * length (n_cells nd)"
    using page_rep_bound [OF assms] by (simp add: f_def unat_free_start del: of_nat_add of_nat_mult)
  then have "(22 :: u64) \<le> ucast f" by (simp add: word_le_nat_alt unat_ucast_u16)
  then have "unat (ucast f - 22 :: u64) = 4 * length (n_cells nd)"
    by (simp add: unat_sub unat_ucast_u16 f)
  then show ?thesis
    by (simp add: num_cells_def page_header_rep [OF assms] flip: f_def del: hdr_of_sel)
qed

lemma page_rep_slot:
  assumes "page_rep p nd" and "i < length (n_cells nd)"
  obtains off where "4096 - 16 * length (n_cells nd) \<le> off" "off + 16 \<le> 4096"
    "slot_bytes p i = to_le (of_nat off :: u16) @ to_le (16 :: u16)"
    "cell_bytes p off = to_le (fst (n_cells nd ! i)) @ to_le (snd (n_cells nd ! i))"
  using assms by (auto simp: page_rep_def slot_holds_def)

lemma slice_slot_bytes:
  assumes "length p = 4096" and "i < 1018"
  shows "slice p (22 + 4 * i) (24 + 4 * i) = slice (slot_bytes p i) 0 2"
    and "slice p (24 + 4 * i) (26 + 4 * i) = slice (slot_bytes p i) 2 4"
  using assms by (simp_all add: slot_bytes_def slice_slice)

lemma page_slot_bytes:
  assumes p: "length p = 4096" and i: "i < 1018"
    and sb: "slot_bytes p i = to_le (o1 :: u16) @ to_le (o2 :: u16)"
  shows "page_slot (of_nat i) p = Inr \<lparr>cell_offset = o1, cell_size = o2\<rparr>"
proof -
  have "unat (of_nat i :: u16) = i" using i by (simp add: unat_u16)
  then have "page_slot (of_nat i) p =
    Inr \<lparr>cell_offset = from_le (slice p (22 + 4 * i) (24 + 4 * i)),
      cell_size = from_le (slice p (24 + 4 * i) (26 + 4 * i))\<rparr>"
    using p i by (simp add: page_slot_def algebra_simps)
  then show ?thesis
    by (simp add: slice_slot_bytes [OF p i] sb decode_simps)
qed

lemma cell_bytes_parts:
  assumes "length p = 4096" and "off + 16 \<le> 4096"
    and "cell_bytes p off = to_le (k :: u64) @ to_le (v :: u64)"
  shows "slice_r p off (off + 8) = Inr (to_le k)"
    and "slice_r p (off + 8) (off + 16) = Inr (to_le v)"
proof -
  have "slice p off (off + 8) = slice (to_le k @ to_le v) 0 8"
    and "slice p (off + 8) (off + 16) = slice (to_le k @ to_le v) 8 16"
    using assms(1,2)
    by (simp_all only: assms(3) [symmetric]) (simp_all add: cell_bytes_def slice_slice add.commute)
  moreover have "slice (to_le k @ to_le v) 0 8 = to_le k"
    and "slice (to_le k @ to_le v) 8 16 = to_le v"
    by (simp_all add: decode_simps)
  ultimately have "slice p off (off + 8) = to_le k" and "slice p (off + 8) (off + 16) = to_le v"
    by simp_all
  then show "slice_r p off (off + 8) = Inr (to_le k)"
    and "slice_r p (off + 8) (off + 16) = Inr (to_le v)"
    using assms(1,2) by simp_all
qed

lemma read_cell_rep:
  assumes rep: "page_rep p nd" and i: "i < length (n_cells nd)"
  shows "read_cell leaf p i = Inr (cell_of leaf (n_cells nd ! i))"
proof -
  have n: "i < 1018" using i page_rep_bound [OF rep] by simp
  from rep i obtain off where off: "off + 16 \<le> 4096"
    "slot_bytes p i = to_le (of_nat off :: u16) @ to_le (16 :: u16)"
    "cell_bytes p off = to_le (fst (n_cells nd ! i)) @ to_le (snd (n_cells nd ! i))"
    by (rule page_rep_slot)
  have "unat (of_nat off :: u16) = off" using off by (simp add: unat_u16)
  then show ?thesis
    using page_slot_bytes [OF page_rep_length [OF rep] n off(2)]
      cell_bytes_parts [OF page_rep_length [OF rep] off(1,3)]
    by (simp add: read_cell_def cell_of_def)
qed

lemma get_cells_rep:
  assumes "page_rep p nd"
  shows "get_cells p = Inr (map (cell_of (node_leaf nd)) (n_cells nd))"
proof -
  let ?n = "length (n_cells nd)"
  have n: "?n \<le> 203" using assms by (rule page_rep_bound)
  have "unat (of_nat ((unat (ih_free_start (hdr_of nd)) - HEADER_SIZE) div 4) :: u16) = ?n"
    using n by (simp add: unat_free_start unat_u16 del: of_nat_add of_nat_mult)
  then have "get_cells p = map_r (read_cell (node_leaf nd) p) [0..<?n]"
    by (simp add: get_cells_def page_header_rep [OF assms] Let_def del: hdr_of_sel(5))
  also have "\<dots> = Inr (map (\<lambda>i. cell_of (node_leaf nd) (n_cells nd ! i)) [0..<?n])"
    by (rule map_r_Inr) (simp add: read_cell_rep [OF assms])
  also have "map (\<lambda>i. cell_of (node_leaf nd) (n_cells nd ! i)) [0..<?n]
      = map (cell_of (node_leaf nd)) (n_cells nd)"
    by (rule nth_equalityI) simp_all
  finally show ?thesis .
qed


section \<open>The binary search\<close>

text \<open>\<open>slot_key p i k\<close>: slot \<open>i\<close> of the page points at a cell with key \<open>k\<close>.\<close>

definition slot_key :: "bytes \<Rightarrow> nat \<Rightarrow> u64 \<Rightarrow> bool" where
  "slot_key p i k \<longleftrightarrow> (\<exists>s. page_slot (of_nat i) p = Inr s \<and>
     slice_r p (unat (cell_offset s)) (unat (cell_offset s) + KEY_SIZE) = Inr (to_le k))"

lemma slot_key_holds:
  assumes "length p = 4096" and "i < 1018" and "slot_holds p lo (slot_bytes p i) kv"
  shows "slot_key p i (fst kv)"
proof -
  from assms(3) obtain off where off: "off + 16 \<le> 4096"
    "slot_bytes p i = to_le (of_nat off :: u16) @ to_le (16 :: u16)"
    "cell_bytes p off = to_le (fst kv) @ to_le (snd kv)"
    by (auto simp: slot_holds_def)
  have "unat (of_nat off :: u16) = off" using off by (simp add: unat_u16)
  then show ?thesis
    using page_slot_bytes [OF assms(1,2) off(2)] cell_bytes_parts(1) [OF assms(1) off(1,3)]
    by (simp add: slot_key_def)
qed

definition rank :: "u64 \<Rightarrow> u64 list \<Rightarrow> nat" where
  "rank k ks = length (takeWhile (\<lambda>x. x < k) ks)"

lemma rank_less: "sorted_wrt (<) ks \<Longrightarrow> i < length ks \<Longrightarrow> ks ! i < k \<longleftrightarrow> i < rank k ks"
proof (induction ks arbitrary: i)
  case (Cons x xs)
  show ?case
  proof (cases i)
    case (Suc j)
    then have "x < xs ! j" using Cons.prems by auto
    then have "\<not> x < k \<Longrightarrow> \<not> xs ! j < k" by auto
    then show ?thesis using Cons Suc by (auto simp: rank_def)
  qed (simp add: rank_def)
qed (simp add: rank_def)

lemma rank_le: "rank k ks \<le> length ks"
  by (simp add: rank_def length_takeWhile_le)

lemma bsearch_slot_correct:
  assumes keys: "\<And>i. i < length ks \<Longrightarrow> slot_key p i (ks ! i)"
    and sorted: "sorted_wrt (<) ks" and n: "length ks < 32768"
    and "unat lo \<le> rank k ks" and "rank k ks \<le> unat hi"
    and "k \<in> set ks \<longrightarrow> rank k ks < unat hi" and "unat hi \<le> length ks"
  shows "bsearch_slot k p lo hi =
    (if k \<in> set ks then Inl (Err ''duplicate key'') else Inr (of_nat (rank k ks)))"
  using keys assms(4-7)
proof (induction k p lo hi rule: bsearch_slot.induct)
  case (1 k p lo hi)
  show ?case
  proof (cases "lo < hi")
    case False
    then have "unat hi \<le> unat lo" by (simp add: word_less_nat_alt)
    with 1(4-7) have "unat lo = rank k ks" "k \<notin> set ks" by auto
    moreover then have "lo = of_nat (rank k ks)" by (metis of_nat_unat ucast_id)
    ultimately show ?thesis using False by (subst bsearch_slot.simps) simp
  next
    case True
    define mid where "mid = lo + (hi - lo) div 2"
    have lt: "unat lo < unat hi" using True by (simp add: word_less_nat_alt)
    have mid: "unat mid = unat lo + (unat hi - unat lo) div 2"
      using True by (simp add: mid_def word_mid)
    then have mlen: "unat mid < length ks" using lt 1(7) by linarith
    obtain s where "page_slot (of_nat (unat mid)) p = Inr s" and
      s2: "slice_r p (unat (cell_offset s)) (unat (cell_offset s) + KEY_SIZE)
        = Inr (to_le (ks ! unat mid))"
      using 1(3) [OF mlen] unfolding slot_key_def by blast
    then have s1: "page_slot mid p = Inr s" by simp
    have step: "bsearch_slot k p lo hi =
      (if ks ! unat mid < k then bsearch_slot k p (mid + 1) hi
       else if k < ks ! unat mid then bsearch_slot k p lo mid
       else Inl (Err ''duplicate key''))"
      using True s1 s2 by (subst bsearch_slot.simps) (simp add: mid_def [symmetric] Let_def)
    note key_eq = from_le_64 [of "ks ! unat mid", symmetric]
    note less = rank_less [OF sorted mlen, of k]
    consider (lt) "ks ! unat mid < k" | (gt) "k < ks ! unat mid" | (eq) "ks ! unat mid = k"
      by (rule linorder_cases)
    then show ?thesis
    proof cases
      case lt
      have "unat (mid + 1) = Suc (unat mid)" using mlen n by (simp add: word_Suc_unat)
      then have "bsearch_slot k p (mid + 1) hi =
        (if k \<in> set ks then Inl (Err ''duplicate key'') else Inr (of_nat (rank k ks)))"
        using 1(1) [OF True mid_def refl key_eq _ 1(3)] lt less 1(5-7) by simp
      then show ?thesis using lt by (simp add: step)
    next
      case gt
      then have le: "rank k ks \<le> unat mid" using less by auto
      have ne: "k \<in> set ks \<longrightarrow> rank k ks < unat mid"
      proof
        assume "k \<in> set ks"
        then obtain j where j: "j < length ks" "ks ! j = k" by (auto simp: in_set_conv_nth)
        have "rank k ks \<le> j" using rank_less [OF sorted j(1), of k] j by auto
        moreover have "j < unat mid"
          using sorted gt j mlen by (metis not_less_iff_gr_or_eq sorted_wrt_nth_less linorder_neqE_nat order_less_asym)
        ultimately show "rank k ks < unat mid" by simp
      qed
      have "bsearch_slot k p lo mid =
        (if k \<in> set ks then Inl (Err ''duplicate key'') else Inr (of_nat (rank k ks)))"
        using 1(2) [OF True mid_def refl key_eq _ _ 1(3)] gt le ne mlen 1(4) by simp
      moreover have "\<not> ks ! unat mid < k" using gt by simp
      ultimately show ?thesis using gt by (simp add: step)
    next
      case eq
      then have "k \<in> set ks" using mlen by (metis nth_mem)
      then show ?thesis using eq by (simp add: step)
    qed
  qed
qed


section \<open>Adding a cell\<close>

text \<open>The slot array after \<open>copy_within\<close> and the two writes of the new slot.\<close>

definition shifted :: "bytes \<Rightarrow> nat \<Rightarrow> nat \<Rightarrow> bytes \<Rightarrow> bytes" where
  "shifted p n idx e =
     write_at (22 + 4 * idx) e
       (write_at (26 + 4 * idx) (slice p (22 + 4 * idx) (22 + 4 * n)) p)"

lemma length_shifted:
  "idx \<le> n \<Longrightarrow> 26 + 4 * n \<le> length p \<Longrightarrow> length e = 4 \<Longrightarrow> length (shifted p n idx e) = length p"
  by (simp add: shifted_def)

lemma nth_shifted:
  assumes "idx \<le> n" and "26 + 4 * n \<le> length p" and "length e = 4" and "j < length p"
  shows "shifted p n idx e ! j =
    (if j < 22 + 4 * idx then p ! j else if j < 26 + 4 * idx then e ! (j - (22 + 4 * idx))
     else if j < 26 + 4 * n then p ! (j - 4) else p ! j)"
proof -
  let ?q = "write_at (26 + 4 * idx) (slice p (22 + 4 * idx) (22 + 4 * n)) p"
  have "length ?q = length p" using assms by simp
  moreover have "j < 26 + 4 * n \<Longrightarrow> 26 + 4 * idx \<le> j \<Longrightarrow>
      slice p (22 + 4 * idx) (22 + 4 * n) ! (j - (26 + 4 * idx)) = p ! (j - 4)"
    using assms by (simp add: nth_slice)
  ultimately show ?thesis
    using assms by (auto simp: shifted_def nth_write_at)
qed

lemma shifted_slot:
  assumes "idx \<le> n" and "26 + 4 * n \<le> length p" and "length e = 4" and "i \<le> n"
  shows "slot_bytes (shifted p n idx e) i =
    (if i < idx then slot_bytes p i else if i = idx then e else slot_bytes p (i - 1))"
proof (rule nth_equalityI)
  show "length (slot_bytes (shifted p n idx e) i) =
    length (if i < idx then slot_bytes p i else if i = idx then e else slot_bytes p (i - 1))"
    using assms by (auto simp: slot_bytes_def length_shifted)
next
  fix j assume "j < length (slot_bytes (shifted p n idx e) i)"
  then have j: "j < 4" using assms by (simp add: slot_bytes_def length_shifted)
  consider "i < idx" | "i = idx" | "idx < i" by linarith
  then show "slot_bytes (shifted p n idx e) i ! j =
    (if i < idx then slot_bytes p i else if i = idx then e else slot_bytes p (i - 1)) ! j"
  proof cases
    case 3
    then have "22 + 4 * i + j - 4 = 22 + 4 * (i - 1) + j" by simp
    then show ?thesis
      using 3 assms j
        by (simp add: slot_bytes_def nth_slice length_shifted nth_shifted add.assoc)
  qed (use assms j in \<open>simp_all add: slot_bytes_def nth_slice length_shifted nth_shifted\<close>)
qed

lemma shifted_slice:
  assumes "idx \<le> n" and "26 + 4 * n \<le> a" and "length e = 4" and "a \<le> b" and "b \<le> length p"
  shows "slice (shifted p n idx e) a b = slice p a b"
  using assms by (intro nth_equalityI) (auto simp: length_shifted nth_slice nth_shifted)

lemma shifted_front:
  assumes "idx \<le> n" and "26 + 4 * n \<le> length p" and "length e = 4"
  shows "take 22 (shifted p n idx e) = take 22 p"
  using assms by (auto intro!: nth_equalityI simp: length_shifted nth_shifted)

text \<open>Replacing the header does not touch slots and cells.\<close>

lemma header_frame:
  assumes "22 \<le> length p" and "length hb = 22" and "22 \<le> a"
  shows "slice (hb @ drop 22 p) a b = slice p a b"
  using assms by (simp add: slice_def)

lemma header_frame_slots:
  assumes "22 \<le> length p" and "length hb = 22"
  shows "slot_bytes (hb @ drop 22 p) i = slot_bytes p i"
    and "22 \<le> off \<Longrightarrow> cell_bytes (hb @ drop 22 p) off = cell_bytes p off"
  using assms by (simp_all add: slot_bytes_def cell_bytes_def header_frame)

text \<open>What \<open>add_cell\<close> does to the bytes, once the space check has passed.\<close>

lemma add_cell_run:
  assumes p: "length p = 4096" and hdr: "page_header p = Inr h"
    and fs: "unat (ih_free_start h) = 22 + 4 * n" and fe: "unat (ih_free_end h) = st + 16"
    and n: "n \<le> 1017" and fit: "26 + 4 * n \<le> st" and fend: "st + 16 \<le> 4096"
    and q: "q = write_at st (to_le key @ to_le value) p"
    and bs: "bsearch_slot key q 0 (of_nat n) = r"
  shows "add_cell key value p =
    (case r of
       Inl e \<Rightarrow> (Inl e, q)
     | Inr lo \<Rightarrow>
        (if unat lo \<le> n then
          (Inr (n + 1),
           index_header_bytes (h\<lparr>ih_free_start := ih_free_start h + 4,
             ih_free_end := of_nat st\<rparr>) @
           drop 22 (shifted q n (unat lo)
             (to_le (of_nat st :: u16) @ to_le (16 :: u16))))
         else (Inl (Panic ''copy_within''), q)))"
proof -
  let ?h' = "h\<lparr>ih_free_start := ih_free_start h + 4, ih_free_end := of_nat st\<rparr>"
  have nslots: "(ih_free_start h - 22) div 4 = (of_nat n :: u16)"
  proof (rule word_unat_eq_iff [THEN iffD2])
    have "ih_free_start h = of_nat (22 + 4 * n)" using fs by (metis of_nat_unat ucast_id)
    then have "ih_free_start h - 22 = of_nat (4 * n)" by simp
    moreover have "unat (of_nat (4 * n) :: u16) = 4 * n" using n by (intro unat_u16) simp
    ultimately have "unat (ih_free_start h - 22) = 4 * n" by simp
    then show "unat ((ih_free_start h - 22) div 4) =
        unat (of_nat n :: u16)"
      using n by (simp add: unat_div_distrib unat_u16)
  qed
  have un: "unat (of_nat n :: u16) = n" using n by (intro unat_u16) simp
  have w1: "put_slice st (st + 8) (to_le key) p = (Inr (), write_at st (to_le key) p)"
    using p fit fend by (intro put_slice_run) simp_all
  have "write_at (st + 8) (to_le value) (write_at st (to_le key) p) = q"
    using p fit fend unfolding q
    by (intro nth_equalityI) (auto simp: nth_write_at nth_append add.commute)
  then have w2: "put_slice (st + 8) (st + 16) (to_le value) (write_at st (to_le key) p) = (Inr (), q)"
    using p fit fend by (subst put_slice_run) simp_all
  have lq: "length q = 4096" using p fit fend by (simp add: q)
  have guard: "\<not> (st + 16 < KEY_SIZE + PTR_SIZE \<or>
      st + 16 - (KEY_SIZE + PTR_SIZE) < unat (ih_free_start h) + 4)"
    using fit fs by simp
  show ?thesis
  proof (cases r)
    case (Inl e)
    then show ?thesis
      using guard w1 w2 bs
      by (simp add: add_cell_def run_simps hdr fe nslots Let_def)
  next
    case (Inr lo)
    define i where "i = unat lo"
    have cw: "copy_within (i * 4 + 22) (22 + n * 4) (i * 4 + 26) q =
      (if i \<le> n then (Inr (), write_at (26 + 4 * i) (slice q (22 + 4 * i) (22 + 4 * n)) q)
       else (Inl (Panic ''copy_within''), q))"
      using lq n by (auto simp: copy_within_def algebra_simps)
    let ?e1 = "to_le (of_nat st :: u16)" and ?e2 = "to_le (16 :: u16)"
    let ?s = "write_at (26 + 4 * i) (slice q (22 + 4 * i) (22 + 4 * n)) q"
    show ?thesis
    proof (cases "i \<le> n")
      case True
      have ls: "length ?s = 4096" using lq n True by simp
      have w3: "put_slice (i * 4 + 22) (i * 4 + 24) ?e1 ?s = (Inr (), write_at (22 + 4 * i) ?e1 ?s)"
        using ls True n by (subst put_slice_run) (simp_all add: algebra_simps)
      have "write_at (24 + 4 * i) ?e2 (write_at (22 + 4 * i) ?e1 ?s) = shifted q n i (?e1 @ ?e2)"
        unfolding shifted_def using ls True n
        by (intro nth_equalityI) (auto simp: nth_write_at nth_append)
      then have w4: "put_slice (i * 4 + 24) (i * 4 + 26) ?e2 (write_at (22 + 4 * i) ?e1 ?s) =
          (Inr (), shifted q n i (?e1 @ ?e2))"
        using ls True n by (subst put_slice_run) (simp_all add: algebra_simps)
      have lsh: "22 \<le> length (shifted q n i (?e1 @ ?e2))"
        using lq True n by (subst length_shifted) simp_all
      show ?thesis
        using guard w1 w2 bs cw w3 w4 True Inr
        by (simp add: add_cell_def run_simps hdr fe nslots Let_def un i_def [symmetric]
            index_hdr.serialize_enc [OF lsh] add.commute)
    next
      case False
      then show ?thesis
        using guard w1 w2 bs cw Inr
        by (simp add: add_cell_def run_simps hdr fe nslots Let_def un i_def [symmetric] add.commute)
    qed
  qed
qed


section \<open>Sorted cell lists\<close>

lemma insert_cell_simps [simp]:
  "insert_cell k v [] = [(k, v)]"
  "insert_cell k v (c # cs) =
    (if fst c < k then c # insert_cell k v cs else (k, v) # c # cs)"
  by (simp_all add: insert_cell_def)

lemma set_insert_cell: "set (insert_cell k v cs) = insert (k, v) (set cs)"
  by (induction cs) auto

lemma length_insert_cell [simp]: "length (insert_cell k v cs) = Suc (length cs)"
  by (induction cs) auto

lemma insert_cell_take:
  "insert_cell k v cs =
    take (rank k (map fst cs)) cs @ (k, v) # drop (rank k (map fst cs)) cs"
  by (induction cs) (auto simp: rank_def)

lemma nth_insert_cell:
  assumes "j \<le> length cs" and "i = rank k (map fst cs)"
  shows "insert_cell k v cs ! j =
    (if j < i then cs ! j else if j = i then (k, v) else cs ! (j - 1))"
  using assms rank_le [of k "map fst cs"]
  by (auto simp: insert_cell_take nth_append nth_Cons' min_def)

lemma sorted_insert_cell:
  "sorted_wrt (<) (map fst cs) \<Longrightarrow> k \<notin> fst ` set cs \<Longrightarrow>
   sorted_wrt (<) (map fst (insert_cell k v cs))"
  by (induction cs) (auto simp: set_insert_cell)

lemma map_of_insert_cell:
  "sorted_wrt (<) (map fst cs) \<Longrightarrow> map_of (insert_cell k v cs) = (map_of cs)(k \<mapsto> v)"
  by (induction cs) (auto simp: fun_eq_iff)

lemma insert_cell_last: "\<forall>c \<in> set cs. fst c < k \<Longrightarrow> insert_cell k v cs = cs @ [(k, v)]"
  by (induction cs) auto

lemma insert_cell_first: "\<forall>c \<in> set cs. k < fst c \<Longrightarrow> insert_cell k v cs = (k, v) # cs"
  by (cases cs) auto


section \<open>Refinement of \<open>add_cell\<close>\<close>

lemma slot_holds_frame:
  assumes "slot_holds p lo sb kv" and "lo' \<le> lo"
    and "\<And>off. lo \<le> off \<Longrightarrow> off + 16 \<le> 4096 \<Longrightarrow> cell_bytes q off = cell_bytes p off"
  shows "slot_holds q lo' sb kv"
proof -
  from assms(1) obtain off where "lo \<le> off" "off + 16 \<le> 4096"
    "sb = to_le (of_nat off :: u16) @ to_le (16 :: u16)"
    "cell_bytes p off = to_le (fst kv) @ to_le (snd kv)"
    by (auto simp: slot_holds_def)
  then show ?thesis
    using assms(2,3) unfolding slot_holds_def by (intro exI [of _ off]) simp
qed

text \<open>Writing a cell into the free space leaves the represented node alone.\<close>

lemma write_free_space:
  assumes rep: "page_rep p nd" and n: "length (n_cells nd) < 203"
    and q: "q = write_at (4080 - 16 * length (n_cells nd)) cb p" and cb: "length cb = 16"
  shows "page_rep q nd" and "cell_bytes q (4080 - 16 * length (n_cells nd)) = cb"
proof -
  let ?n = "length (n_cells nd)"
  let ?st = "4080 - 16 * ?n"
  have lp: "length p = 4096" using rep by (rule page_rep_length)
  have fit: "?st + length cb \<le> length p" using lp cb by simp
  have lq: "length q = 4096" using fit lp by (simp add: q)
  have t22: "take 22 q = take 22 p"
    using fit cb n lp by (intro nth_equalityI) (auto simp: q nth_write_at)
  have sl: "slot_bytes q i = slot_bytes p i" if "i < ?n" for i
    unfolding slot_bytes_def q
    by (rule slice_write_disjoint [OF fit]) (use that lp n in linarith)+
  have ce: "cell_bytes q off = cell_bytes p off" if "4096 - 16 * ?n \<le> off" "off + 16 \<le> 4096" for off
    unfolding cell_bytes_def q
    by (rule slice_write_disjoint [OF fit]) (use that lp cb n in linarith)+
  show "page_rep q nd"
    using rep lq t22 sl unfolding page_rep_def
    by (auto intro: slot_holds_frame [OF _ order.refl ce])
  show "cell_bytes q ?st = cb"
    unfolding cell_bytes_def q by (rule slice_write_same') (use fit cb in simp_all)
qed

lemma page_rep_slot_key:
  assumes "page_rep q nd" and "i < length (map fst (n_cells nd))"
  shows "slot_key q i (map fst (n_cells nd) ! i)"
proof -
  have "slot_holds q (4096 - 16 * length (n_cells nd)) (slot_bytes q i) (n_cells nd ! i)"
    using assms by (simp add: page_rep_def)
  then have "slot_key q i (fst (n_cells nd ! i))"
    using assms page_rep_bound [OF assms(1)] page_rep_length [OF assms(1)]
    by (intro slot_key_holds) auto
  then show ?thesis using assms(2) by simp
qed

lemma bsearch_slot_rep:
  assumes "page_rep q nd"
  shows "bsearch_slot k q 0 (of_nat (length (n_cells nd))) =
    (if k \<in> fst ` set (n_cells nd) then Inl (Err ''duplicate key'')
     else Inr (of_nat (rank k (map fst (n_cells nd)))))"
proof -
  let ?ks = "map fst (n_cells nd)"
  have n: "length ?ks \<le> 203" and srt: "sorted_wrt (<) ?ks"
    using page_rep_bound [OF assms] page_rep_sorted [OF assms] by simp_all
  have un: "unat (of_nat (length (n_cells nd)) :: u16) = length ?ks"
    using n by (subst unat_u16) simp_all
  have mem: "rank k ?ks < length ?ks" if "k \<in> set ?ks"
  proof -
    from that obtain j where "j < length ?ks" "?ks ! j = k" unfolding in_set_conv_nth by blast
    then show ?thesis using rank_less [OF srt, of j k] by auto
  qed
  have "bsearch_slot k q 0 (of_nat (length (n_cells nd))) =
    (if k \<in> set ?ks then Inl (Err ''duplicate key'') else Inr (of_nat (rank k ?ks)))"
    using page_rep_slot_key [OF assms] srt n mem rank_le [of k ?ks]
    by (intro bsearch_slot_correct) (simp_all add: un)
  then show ?thesis by simp
qed

lemma shifted_rep:
  assumes rep: "page_rep q nd" and n: "length (n_cells nd) < 203"
    and cb: "cell_bytes q (4080 - 16 * length (n_cells nd)) = to_le k @ to_le v"
    and k: "k \<notin> fst ` set (n_cells nd)"
    and nd': "nd' = nd\<lparr>n_cells := insert_cell k v (n_cells nd)\<rparr>"
  shows "page_rep (index_header_bytes (hdr_of nd') @ drop 22 (shifted q (length (n_cells nd))
    (rank k (map fst (n_cells nd)))
    (to_le (of_nat (4080 - 16 * length (n_cells nd)) :: u16) @ to_le (16 :: u16)))) nd'"
    (is "page_rep (?hb @ drop 22 ?s) nd'")
proof -
  let ?n = "length (n_cells nd)"
  let ?i = "rank k (map fst (n_cells nd))"
  let ?st = "4080 - 16 * ?n"
  let ?e = "to_le (of_nat ?st :: u16) @ to_le (16 :: u16)"
  have lq: "length q = 4096" using rep by (rule page_rep_length)
  have i: "?i \<le> ?n" using rank_le [of k "map fst (n_cells nd)"] by simp
  have fits: "26 + 4 * ?n \<le> length q" "26 + 4 * ?n \<le> ?st" using lq n by simp_all
  have ls: "length ?s = 4096" using lq i fits by (simp add: length_shifted)
  have lhb: "length ?hb = 22" by (rule index_hdr.length_enc)
  have cells: "cell_bytes (?hb @ drop 22 ?s) off = cell_bytes q off"
    if "?st \<le> off" "off + 16 \<le> 4096" for off
    using that fits lq ls lhb i
    by (simp add: header_frame_slots) (simp add: cell_bytes_def shifted_slice)
  have old: "slot_holds (?hb @ drop 22 ?s) ?st (slot_bytes q j) (n_cells nd ! j)" if "j < ?n" for j
  proof (rule slot_holds_frame)
    show "slot_holds q (4096 - 16 * ?n) (slot_bytes q j) (n_cells nd ! j)"
      using rep that by (simp add: page_rep_def)
  qed (use cells n in simp_all)
  have new: "slot_holds (?hb @ drop 22 ?s) ?st ?e (k, v)"
    using cells [of ?st] cb n unfolding slot_holds_def by (intro exI [of _ ?st]) simp
  have slots: "slot_holds (?hb @ drop 22 ?s) ?st (slot_bytes (?hb @ drop 22 ?s) j)
      (insert_cell k v (n_cells nd) ! j)" if "j < Suc ?n" for j
  proof -
    have "slot_bytes (?hb @ drop 22 ?s) j =
      (if j < ?i then slot_bytes q j else if j = ?i then ?e else slot_bytes q (j - 1))"
      using that i fits ls lhb by (simp add: header_frame_slots shifted_slot)
    then show ?thesis
      using that i old new by (simp add: nth_insert_cell)
  qed
  have "4096 - 16 * Suc ?n = ?st" by simp
  then show ?thesis
    using slots ls lhb n page_rep_sorted [OF rep] k
    by (simp add: page_rep_def node_wf_def nd' sorted_insert_cell del: mult_Suc_right)
qed

lemma add_cell_refines:
  assumes rep: "page_rep p nd"
  shows "\<exists>p'. add_cell k v p =
      ((if length (n_cells nd) = MAX_CELLS then Inl (Err ''Page overflow'')
        else if k \<in> fst ` set (n_cells nd) then Inl (Err ''duplicate key'')
        else Inr (Suc (length (n_cells nd)))), p') \<and>
    page_rep p'
      (if length (n_cells nd) = MAX_CELLS \<or> k \<in> fst ` set (n_cells nd) then nd
       else nd\<lparr>n_cells := insert_cell k v (n_cells nd)\<rparr>)"
proof -
  let ?n = "length (n_cells nd)"
  have n: "?n \<le> 203" and lp: "length p = 4096"
    using rep by (auto dest: page_repD)
  have hdr: "page_header p = Inr (hdr_of nd)" using rep by (rule page_header_rep)
  have fs: "unat (ih_free_start (hdr_of nd)) = 22 + 4 * ?n"
    using n by (simp add: unat_free_start del: of_nat_add of_nat_mult)
  show ?thesis
  proof (cases "?n = 203")
    case True
    have "unat (ih_free_end (hdr_of nd)) = 848"
      unfolding hdr_of_sel unat_free_end True by simp
    then have "add_cell k v p = (Inl (Err ''Page overflow''), p)"
      using fs True by (simp add: add_cell_def run_simps hdr Let_def del: hdr_of_sel(5,6))
    then show ?thesis using True rep by simp
  next
    case False
    let ?st = "4080 - 16 * ?n"
    define q where "q = write_at ?st (to_le k @ to_le v) p"
    have fe: "unat (ih_free_end (hdr_of nd)) = ?st + 16"
      unfolding hdr_of_sel unat_free_end using False n by simp
    have repq: "page_rep q nd" and cb: "cell_bytes q ?st = to_le k @ to_le v"
      using write_free_space [OF rep _ q_def] False n by simp_all
    have "?n \<le> 1017" "26 + 4 * ?n \<le> ?st" "?st + 16 \<le> 4096" using n False by simp_all
    note run = add_cell_run [OF lp hdr fs fe this q_def bsearch_slot_rep [OF repq]]
    show ?thesis
    proof (cases "k \<in> fst ` set (n_cells nd)")
      case True
      then have "add_cell k v p = (Inl (Err ''duplicate key''), q)"
        using run n False by simp
      then show ?thesis using True False repq by auto
    next
      case notin: False
      let ?nd' = "nd\<lparr>n_cells := insert_cell k v (n_cells nd)\<rparr>"
      let ?i = "rank k (map fst (n_cells nd))"
      have i: "unat (of_nat ?i :: u16) = ?i" and ile: "?i \<le> ?n"
        using rank_le [of k "map fst (n_cells nd)"] n by (auto intro: unat_u16)
      have "(hdr_of nd)\<lparr>ih_free_start := ih_free_start (hdr_of nd) + 4, ih_free_end := of_nat ?st\<rparr>
          = hdr_of ?nd'"
        by (simp add: hdr_of_def)
      then have "add_cell k v p = (Inr (?n + 1), index_header_bytes (hdr_of ?nd') @
          drop 22 (shifted q ?n ?i (to_le (of_nat ?st :: u16) @ to_le (16 :: u16))))"
        using notin ile unfolding run by (simp only: if_False sum.case i if_True)
      moreover have "?n < 203" using n False by simp
      ultimately show ?thesis
        using notin False shifted_rep [OF repq _ cb notin refl] by simp
    qed
  qed
qed


section \<open>Headers, rebuilding and removing\<close>

lemma replace_header:
  assumes "page_rep p nd" and "n_cells nd' = n_cells nd"
  shows "page_rep (index_header_bytes (hdr_of nd') @ drop 22 p) nd'"
proof -
  have lp: "length p = 4096" and n: "length (n_cells nd) \<le> 203"
    using assms(1) by (auto dest: page_repD)
  have hb: "length (index_header_bytes (hdr_of nd')) = 22" by (rule index_hdr.length_enc)
  have "slot_holds (index_header_bytes (hdr_of nd') @ drop 22 p) (4096 - 16 * length (n_cells nd))
      (slot_bytes p i) (n_cells nd ! i)" if "i < length (n_cells nd)" for i
  proof (rule slot_holds_frame)
    show "slot_holds p (4096 - 16 * length (n_cells nd)) (slot_bytes p i) (n_cells nd ! i)"
      using assms(1) that by (simp add: page_rep_def)
  qed (use lp hb n in \<open>auto simp: header_frame_slots\<close>)
  then show ?thesis
    using assms lp hb by (simp add: page_rep_def node_wf_def header_frame_slots)
qed

definition empty_node :: "u64 \<Rightarrow> page_kind \<Rightarrow> u64 \<Rightarrow> node" where
  "empty_node i ty ptr =
     \<lparr>n_id = i, n_ty = ty, n_flags = 0, n_ptr = ptr, n_cells = []\<rparr>"

lemma init_header_rep:
  assumes "length p = 4096"
  shows "\<exists>p'. init_header i ty ptr p = (Inr (), p') \<and> page_rep p' (empty_node i ty ptr)"
proof -
  let ?h = "hdr_of (empty_node i ty ptr)"
  have "init_header i ty ptr p = (Inr (), index_header_bytes ?h @ drop 22 p)"
    using assms by (simp add: init_header_def index_hdr.serialize_enc hdr_of_def empty_node_def)
  moreover have "length (index_header_bytes ?h) = 22" by (rule index_hdr.length_enc)
  ultimately show ?thesis
    using assms by (simp add: page_rep_def node_wf_def empty_node_def)
qed

lemma serialize_header_rep:
  assumes "page_rep p nd" and "n_cells nd' = n_cells nd" and "h = hdr_of nd'"
  shows "\<exists>p'. index_serialize h p = (Inr (), p') \<and> page_rep p' nd'"
  using replace_header [OF assms(1,2)] page_rep_length [OF assms(1)]
  by (simp add: index_hdr.serialize_enc assms(3))

lemma set_header_ptr_refines:
  assumes "page_rep p nd"
  shows "\<exists>p'. set_header_ptr ptr p = (Inr (), p') \<and> page_rep p' (nd\<lparr>n_ptr := ptr\<rparr>)"
  using serialize_header_rep [OF assms, of "nd\<lparr>n_ptr := ptr\<rparr>"] page_header_rep [OF assms]
  by (simp add: set_header_ptr_def run_simps hdr_of_def)

text \<open>\<open>set_page_kind\<close> on nodes.\<close>

definition set_kind :: "page_kind \<Rightarrow> node \<Rightarrow> node" where
  "set_kind ty nd = nd\<lparr>n_ty := ty, n_flags :=
     (if ty = Root \<and> node_leaf nd then n_flags nd OR 1
      else if ty \<noteq> Root then n_flags nd AND NOT 1 else n_flags nd)\<rparr>"

lemma set_page_kind_refines:
  assumes "page_rep p nd"
  shows "\<exists>p'. set_page_kind ty p = (Inr (), p') \<and> page_rep p' (set_kind ty nd)"
proof -
  obtain h where h: "h = hdr_of (set_kind ty nd)" by simp
  have "set_page_kind ty p = index_serialize h p"
    using page_header_rep [OF assms]
    by (simp add: h set_page_kind_def run_simps hdr_of_def set_kind_def set_root_leaf_def
        clear_root_leaf_def Let_def node_leaf_def is_leaf_level_def is_root_leaf_def)
  then show ?thesis
    using serialize_header_rep [OF assms _ h] by (simp add: set_kind_def)
qed

text \<open>The pair a cell stores when its page is on leaf level or not.\<close>

definition cell_pair :: "bool \<Rightarrow> cell \<Rightarrow> (u64 \<times> u64) option" where
  "cell_pair leaf c =
     (case cell_value leaf c of Inl _ \<Rightarrow> None | Inr v \<Rightarrow> Some (c_key c, v))"

lemma cell_pair_of [simp]: "cell_pair leaf (cell_of leaf kv) = Some kv"
  by (simp add: cell_pair_def cell_value_def cell_of_def)

lemma c_key_of [simp]: "c_key (cell_of leaf kv) = fst kv"
  by (simp add: cell_of_def)

text \<open>The loop of \<open>rebuild_from_cells\<close> appends sorted cells until the page is full.\<close>

lemma put_cells_rep:
  assumes "page_rep p nd"
    and "list_all2 (\<lambda>c kv. cell_pair leaf c = Some kv) cells kvs"
    and "sorted_wrt (<) (map fst (n_cells nd @ kvs))"
  shows "\<exists>p'. for_each (\<lambda>c. andthen (of_result (cell_value leaf c)) (\<lambda>value.
        andthen (add_cell (c_key c) value) (\<lambda>_. ok ()))) cells p =
      ((if length (n_cells nd @ kvs) \<le> MAX_CELLS then Inr () else Inl (Err ''Page overflow'')), p')
    \<and> page_rep p' (nd\<lparr>n_cells := take MAX_CELLS (n_cells nd @ kvs)\<rparr>)"
  using assms(2,1,3)
proof (induction cells kvs arbitrary: p nd rule: list_all2_induct)
  case Nil
  then show ?case using page_rep_bound [OF Nil.prems(1)] by (simp add: run_simps)
next
  case (Cons c cells kv kvs)
  let ?n = "length (n_cells nd)"
  from Cons.hyps(1) have val: "cell_value leaf c = Inr (snd kv)" and key: "c_key c = fst kv"
    by (auto simp: cell_pair_def split: sum.splits)
  obtain p' where p': "add_cell (fst kv) (snd kv) p =
      ((if ?n = MAX_CELLS then Inl (Err ''Page overflow'')
        else if fst kv \<in> fst ` set (n_cells nd) then Inl (Err ''duplicate key'')
        else Inr (Suc ?n)), p')"
    and rep': "page_rep p' (if ?n = MAX_CELLS \<or> fst kv \<in> fst ` set (n_cells nd) then nd
       else nd\<lparr>n_cells := insert_cell (fst kv) (snd kv) (n_cells nd)\<rparr>)"
    using add_cell_refines [OF Cons.prems(1)] by blast
  show ?case
  proof (cases "?n = 203")
    case True
    then show ?thesis
      using p' rep' Cons.prems(1) by (auto simp: run_simps val key)
  next
    case False
    have less: "\<forall>x \<in> set (n_cells nd). fst x < fst kv"
      using Cons.prems(2) by (auto simp: sorted_wrt_append)
    then have app: "insert_cell (fst kv) (snd kv) (n_cells nd) = n_cells nd @ [kv]"
      by (simp add: insert_cell_last)
    have notin: "fst kv \<notin> fst ` set (n_cells nd)" using less by auto
    have rep2: "page_rep p' (nd\<lparr>n_cells := n_cells nd @ [kv]\<rparr>)"
      using rep' False notin app by simp
    have step: "add_cell (fst kv) (snd kv) p = (Inr (Suc ?n), p')"
      using p' False notin by simp
    show ?thesis
      using Cons.IH [OF rep2] Cons.prems(2) by (simp add: run_simps val key step)
  qed
qed

definition rebuilt_node :: "bool \<Rightarrow> page_kind \<Rightarrow> u64 \<Rightarrow> u64 \<Rightarrow> (u64 \<times> u64) list \<Rightarrow> node" where
  "rebuilt_node was_root_leaf ty i ptr kvs =
     \<lparr>n_id = i, n_ty = ty, n_flags = (if was_root_leaf \<and> ty = Root then 1 else 0), n_ptr = ptr,
      n_cells = kvs\<rparr>"

definition root_leaf_page :: "bytes \<Rightarrow> bool" where
  "root_leaf_page p = (case page_header p of Inl _ \<Rightarrow> False
     | Inr h \<Rightarrow> ih_page_ty h = Root \<and> is_root_leaf h)"

lemma root_leaf_page_rep:
  "page_rep p nd \<Longrightarrow> root_leaf_page p \<longleftrightarrow> n_ty nd = Root \<and> node_leaf nd"
  by (auto simp: root_leaf_page_def page_header_rep is_root_leaf_def node_leaf_def)

lemma rebuild_from_cells_refines:
  assumes "leaf \<longleftrightarrow> ty = Leaf \<or> (ty = Root \<and> root_leaf_page p)"
    and cells: "list_all2 (\<lambda>c kv. cell_pair leaf c = Some kv) cells kvs"
    and sorted: "sorted_wrt (<) (map fst kvs)"
  shows "\<exists>p'. rebuild_from_cells cells ty i ptr p =
      ((if length kvs \<le> MAX_CELLS then Inr () else Inl (Err ''Page overflow'')), p') \<and>
    page_rep p' (rebuilt_node (root_leaf_page p) ty i ptr (take MAX_CELLS kvs))"
proof -
  let ?rl = "root_leaf_page p"
  obtain p0 where p0: "init_header i ty ptr (replicate PAGE_SIZE 0) = (Inr (), p0)"
    "page_rep p0 (empty_node i ty ptr)"
    using init_header_rep [of "replicate PAGE_SIZE 0" i ty ptr] by auto
  let ?nd = "rebuilt_node ?rl ty i ptr []"
  obtain p1 where p1: "only_if (?rl \<and> ty = Root)
      (andthen (reads page_header) (\<lambda>hdr. index_serialize (set_root_leaf hdr))) p0 = (Inr (), p1)"
    and rep1: "page_rep p1 ?nd"
  proof (cases "?rl \<and> ty = Root")
    case True
    have "set_root_leaf (hdr_of (empty_node i ty ptr)) = hdr_of ?nd"
      using True by (simp add: set_root_leaf_def hdr_of_def empty_node_def rebuilt_node_def)
    then show ?thesis
      using that True serialize_header_rep [OF p0(2), of ?nd] page_header_rep [OF p0(2)]
      by (auto simp: run_simps empty_node_def rebuilt_node_def)
  next
    case False
    then have "?nd = empty_node i ty ptr" by (auto simp: empty_node_def rebuilt_node_def)
    then show ?thesis using that False p0(2) by (simp add: run_simps)
  qed
  have "n_cells ?nd = []" by (simp add: rebuilt_node_def)
  then obtain p' where "for_each (\<lambda>c. andthen (of_result (cell_value leaf c)) (\<lambda>value.
        andthen (add_cell (c_key c) value) (\<lambda>_. ok ()))) cells p1 =
      ((if length kvs \<le> MAX_CELLS then Inr () else Inl (Err ''Page overflow'')), p')"
    "page_rep p' (rebuilt_node ?rl ty i ptr (take MAX_CELLS kvs))"
    using put_cells_rep [OF rep1 cells] sorted by (auto simp: rebuilt_node_def)
  then show ?thesis
    using p0(1) p1 assms(1)
    by (simp add: rebuild_from_cells_def run_simps Let_def root_leaf_page_def [symmetric])
qed

text \<open>Rebuilding a page from cells of its own kind.\<close>

lemma list_all2_cell_of:
  "list_all2 (\<lambda>c kv. cell_pair leaf c = Some kv) (map (cell_of leaf) kvs) kvs"
  by (simp add: list_all2_conv_all_nth)

lemma rebuild_cell_of:
  assumes "leaf \<longleftrightarrow> ty = Leaf \<or> (ty = Root \<and> root_leaf_page p)"
    and "sorted_wrt (<) (map fst kvs)" and "length kvs \<le> MAX_CELLS"
  shows "\<exists>p'. rebuild_from_cells (map (cell_of leaf) kvs) ty i ptr p = (Inr (), p') \<and>
    page_rep p' (rebuilt_node (root_leaf_page p) ty i ptr kvs)"
  using rebuild_from_cells_refines [OF assms(1) list_all2_cell_of assms(2), of i ptr] assms(3)
  by simp

lemma remove_cell_at_refines:
  assumes rep: "page_rep p nd"
  shows "idx < length (n_cells nd) \<Longrightarrow>
      \<exists>p'. remove_cell_at idx p = (Inr (cell_of (node_leaf nd) (n_cells nd ! idx)), p') \<and>
        page_rep p' (rebuilt_node (node_leaf nd) (n_ty nd) (n_id nd) (n_ptr nd)
          (take idx (n_cells nd) @ drop (Suc idx) (n_cells nd)))"
    and "length (n_cells nd) \<le> idx \<Longrightarrow>
      remove_cell_at idx p = (Inl (Err ''Cell index out of bounds''), p)"
proof -
  have get: "get_cells p = Inr (map (cell_of (node_leaf nd)) (n_cells nd))"
    using rep by (rule get_cells_rep)
  have hdr: "page_header p = Inr (hdr_of nd)" using rep by (rule page_header_rep)
  show "length (n_cells nd) \<le> idx \<Longrightarrow>
      remove_cell_at idx p = (Inl (Err ''Cell index out of bounds''), p)"
    by (simp add: remove_cell_at_def run_simps get hdr)
  assume idx: "idx < length (n_cells nd)"
  let ?kvs = "take idx (n_cells nd) @ drop (Suc idx) (n_cells nd)"
  have "sorted_wrt (<) (map fst (take idx (n_cells nd) @ drop idx (n_cells nd)))"
    using page_rep_sorted [OF rep] by simp
  then have srt: "sorted_wrt (<) (map fst ?kvs)"
    using idx by (simp add: Cons_nth_drop_Suc [OF idx, symmetric] sorted_wrt_append)
  have len: "length ?kvs \<le> MAX_CELLS" using page_rep_bound [OF rep] idx by simp
  have leaf: "node_leaf nd \<longleftrightarrow> n_ty nd = Leaf \<or> (n_ty nd = Root \<and> root_leaf_page p)"
    by (auto simp: root_leaf_page_rep [OF rep] node_leaf_def)
  obtain p' where p': "rebuild_from_cells (map (cell_of (node_leaf nd)) ?kvs)
      (n_ty nd) (n_id nd) (n_ptr nd) p = (Inr (), p')"
    "page_rep p' (rebuilt_node (root_leaf_page p) (n_ty nd) (n_id nd) (n_ptr nd) ?kvs)"
    using rebuild_cell_of [OF leaf srt len] by blast
  have "rebuilt_node (root_leaf_page p) (n_ty nd) (n_id nd) (n_ptr nd) ?kvs =
      rebuilt_node (node_leaf nd) (n_ty nd) (n_id nd) (n_ptr nd) ?kvs"
    by (auto simp: rebuilt_node_def root_leaf_page_rep [OF rep])
  then show "\<exists>p'. remove_cell_at idx p = (Inr (cell_of (node_leaf nd) (n_cells nd ! idx)), p') \<and>
        page_rep p' (rebuilt_node (node_leaf nd) (n_ty nd) (n_id nd) (n_ptr nd) ?kvs)"
    using p' idx
    by (simp add: remove_cell_at_def run_simps get hdr Let_def take_map drop_map)
qed

end
