(* ===== verification/Wal_Record.thy ===== *)
theory Wal_Record
  imports Header
begin

text \<open>
  The log records of \<open>wal.rs\<close>: a 36 byte header followed by a payload, the update payload with its
  undo and redo images, and the checkpoint payload with the dirty page table and the table of
  active transactions.
\<close>

section \<open>Record headers\<close>

definition WAL_RECORD_HEADER_SIZE :: nat where
  "WAL_RECORD_HEADER_SIZE = 8 + 4 + 8 + 1 + 1 + 8 + 4 + 2"

lemma WAL_RECORD_HEADER_SIZE_eq [simp]: "WAL_RECORD_HEADER_SIZE = 36"
  by (simp add: WAL_RECORD_HEADER_SIZE_def)

datatype record_type = Begin | Update | Commit | Abort | Clr | Checkpoint

definition record_type_u8 :: "record_type \<Rightarrow> u8" where
  "record_type_u8 t = (case t of Begin \<Rightarrow> 1 | Update \<Rightarrow> 2 | Commit \<Rightarrow> 3 | Abort \<Rightarrow> 4
     | Clr \<Rightarrow> 5 | Checkpoint \<Rightarrow> 6)"

definition record_type_from_u8 :: "u8 \<Rightarrow> record_type option" where
  "record_type_from_u8 v =
     (if v = 1 then Some Begin else if v = 2 then Some Update else if v = 3 then Some Commit
      else if v = 4 then Some Abort else if v = 5 then Some Clr
      else if v = 6 then Some Checkpoint else None)"

lemma record_type_from_to [simp]: "record_type_from_u8 (record_type_u8 t) = Some t"
  by (cases t) (simp_all add: record_type_from_u8_def record_type_u8_def)

record wal_record_header =
  rh_lsn :: u64
  rh_prev_record_len :: u32
  rh_txn_id :: u64
  rh_record_type :: record_type
  rh_page_id :: u64
  rh_is_index :: bool
  rh_payload_len :: u32
  rh_payload_page_offset :: u16

definition record_header_serialize :: "wal_record_header \<Rightarrow> (bytes, unit) m" where
  "record_header_serialize h =
     andthen (put_slice 0 8 (to_le (rh_lsn h))) (\<lambda>_.
     andthen (put_slice 8 12 (to_le (rh_prev_record_len h))) (\<lambda>_.
     andthen (put_slice 12 20 (to_le (rh_txn_id h))) (\<lambda>_.
     andthen (put_slice 20 21 [record_type_u8 (rh_record_type h)]) (\<lambda>_.
     andthen (put_slice 21 22 [if rh_is_index h then 1 else 0]) (\<lambda>_.
     andthen (put_slice 22 30 (to_le (rh_page_id h))) (\<lambda>_.
     andthen (put_slice 30 34 (to_le (rh_payload_len h))) (\<lambda>_.
     put_slice 34 36 (to_le (rh_payload_page_offset h)))))))))"

definition record_header_deserialize :: "bytes \<Rightarrow> error + wal_record_header option" where
  "record_header_deserialize buf =
     try_r (slice_r buf 0 8) (\<lambda>b_lsn.
     try_r (slice_r buf 8 12) (\<lambda>b_prev.
     try_r (slice_r buf 12 20) (\<lambda>b_txn.
     try_r (index_r buf 20) (\<lambda>b_ty.
     case record_type_from_u8 b_ty of None \<Rightarrow> Inr None | Some ty \<Rightarrow>
     try_r (index_r buf 21) (\<lambda>b_index.
     try_r (slice_r buf 22 30) (\<lambda>b_page.
     try_r (slice_r buf 30 34) (\<lambda>b_len.
     try_r (slice_r buf 34 36) (\<lambda>b_off.
     Inr (Some \<lparr>rh_lsn = from_le b_lsn, rh_prev_record_len = from_le b_prev,
       rh_txn_id = from_le b_txn, rh_record_type = ty, rh_page_id = from_le b_page,
       rh_is_index = (b_index = 1), rh_payload_len = from_le b_len,
       rh_payload_page_offset = from_le b_off\<rparr>)))))))))"

definition record_header_bytes :: "wal_record_header \<Rightarrow> bytes" where
  "record_header_bytes h =
     to_le (rh_lsn h) @ to_le (rh_prev_record_len h) @ to_le (rh_txn_id h) @
     [record_type_u8 (rh_record_type h), if rh_is_index h then 1 else 0] @
     to_le (rh_page_id h) @ to_le (rh_payload_len h) @ to_le (rh_payload_page_offset h)"

interpretation rec_hdr:
  header_codec 36 record_header_bytes record_header_serialize record_header_deserialize
proof unfold_locales
  fix h :: wal_record_header and buf rest :: bytes
  show "length (record_header_bytes h) = 36"
    by (simp add: record_header_bytes_def)
  show "record_header_deserialize (record_header_bytes h @ rest) = Inr (Some h)"
    by (simp add: record_header_deserialize_def record_header_bytes_def decode_simps)
  show "36 \<le> length buf \<Longrightarrow>
      record_header_serialize h buf = (Inr (), record_header_bytes h @ drop 36 buf)"
    by (simp add: record_header_serialize_def record_header_bytes_def encode_simps)
  show "36 \<le> length buf \<Longrightarrow>
      record_header_deserialize (take 36 buf) = record_header_deserialize buf"
    unfolding record_header_deserialize_def
    by (simp add: decode_prefix_simps cong: option.case_cong)
qed

record wal_record =
  wr_header :: wal_record_header
  wr_payload :: bytes

definition record_bytes :: "wal_record \<Rightarrow> bytes" where
  "record_bytes r = record_header_bytes (wr_header r) @ wr_payload r"

lemma length_record_bytes: "length (record_bytes r) = 36 + length (wr_payload r)"
  by (simp add: record_bytes_def rec_hdr.length_enc)

lemma record_bytes_nonempty [simp]: "record_bytes r \<noteq> []"
  using length_record_bytes [of r] by auto


section \<open>Update payloads\<close>

record update_payload =
  offset_in_page :: u16
  undo_data :: bytes
  redo_data :: bytes

definition update_payload_serialize :: "update_payload \<Rightarrow> bytes \<Rightarrow> bytes" where
  "update_payload_serialize u buf =
     buf @ to_le (of_nat (length (undo_data u)) :: u16) @ undo_data u
         @ to_le (of_nat (length (redo_data u)) :: u16) @ redo_data u"

definition parse_update :: "wal_record \<Rightarrow> (u16 \<times> bytes \<times> bytes) option" where
  "parse_update r =
     (let payload = wr_payload r in
      if length payload < 4 then None
      else
        let undo_len = unat (from_le (slice payload 0 2) :: u16) in
        if length payload < 4 + undo_len then None
        else
          let undo_data = slice payload 2 (2 + undo_len);
              redo_len = unat (from_le (slice payload (2 + undo_len) (4 + undo_len)) :: u16)
          in if length payload < 4 + undo_len + redo_len then None
             else Some (rh_payload_page_offset (wr_header r), undo_data,
                        slice payload (4 + undo_len) (4 + undo_len + redo_len)))"

lemma parse_update_parts:
  assumes "wr_payload r = to_le (of_nat (length undo) :: u16) @ undo @
      to_le (of_nat (length redo) :: u16) @ redo"
    and "length undo < 65536" and "length redo < 65536"
  shows "parse_update r = Some (rh_payload_page_offset (wr_header r), undo, redo)"
  using assms(2,3)
  by (simp add: parse_update_def assms(1) Let_def unat_u16 decode_simps)

lemma parse_update_serialize:
  assumes "wr_payload r = update_payload_serialize u []"
    and "length (undo_data u) < 65536" and "length (redo_data u) < 65536"
  shows "parse_update r = Some (rh_payload_page_offset (wr_header r), undo_data u, redo_data u)"
  using assms by (intro parse_update_parts) (simp_all add: update_payload_serialize_def)


section \<open>Checkpoint payloads\<close>

record dirty_page_entry =
  dp_is_index :: bool
  dp_page_id :: u64
  dp_rec_lsn :: u64

record active_txn_entry =
  at_txn_id :: u64
  at_last_lsn :: u64

record checkpoint_data =
  cd_dpt :: "dirty_page_entry list"
  cd_att :: "active_txn_entry list"

definition dpt_entry_bytes :: "dirty_page_entry \<Rightarrow> bytes" where
  "dpt_entry_bytes e =
     [if dp_is_index e then 1 else 0] @ to_le (dp_page_id e) @ to_le (dp_rec_lsn e)"

definition att_entry_bytes :: "active_txn_entry \<Rightarrow> bytes" where
  "att_entry_bytes e = to_le (at_txn_id e) @ to_le (at_last_lsn e)"

definition checkpoint_payload :: "dirty_page_entry list \<Rightarrow> active_txn_entry list \<Rightarrow> bytes" where
  "checkpoint_payload dpt att =
     to_le (of_nat (length dpt) :: u32) @ concat (map dpt_entry_bytes dpt) @
     to_le (of_nat (length att) :: u32) @ concat (map att_entry_bytes att)"

text \<open>The two loops of \<open>parse_checkpoint\<close>, with the running offset.\<close>

fun parse_dpt :: "bytes \<Rightarrow> nat \<Rightarrow> nat \<Rightarrow> (dirty_page_entry list \<times> nat) option" where
  "parse_dpt buf off 0 = Some ([], off)"
| "parse_dpt buf off (Suc n) =
     (if length buf < off + 17 then None
      else case parse_dpt buf (off + 17) n of
        None \<Rightarrow> None
      | Some (es, off') \<Rightarrow>
          Some (\<lparr>dp_is_index = (buf ! off = 1), dp_page_id = from_le (slice buf (off + 1) (off + 9)),
                 dp_rec_lsn = from_le (slice buf (off + 9) (off + 17))\<rparr> # es, off'))"

fun parse_att :: "bytes \<Rightarrow> nat \<Rightarrow> nat \<Rightarrow> active_txn_entry list option" where
  "parse_att buf off 0 = Some []"
| "parse_att buf off (Suc n) =
     (if length buf < off + 16 then None
      else case parse_att buf (off + 16) n of
        None \<Rightarrow> None
      | Some es \<Rightarrow>
          Some (\<lparr>at_txn_id = from_le (slice buf off (off + 8)),
                 at_last_lsn = from_le (slice buf (off + 8) (off + 16))\<rparr> # es))"

definition parse_checkpoint :: "wal_record \<Rightarrow> checkpoint_data option" where
  "parse_checkpoint r =
     (if rh_record_type (wr_header r) \<noteq> Checkpoint then None
      else
        let buf = wr_payload r in
        if length buf < 4 then None
        else
          case parse_dpt buf 4 (unat (from_le (slice buf 0 4) :: u32)) of
            None \<Rightarrow> None
          | Some (dpt, off) \<Rightarrow>
              if length buf < off + 4 then None
              else
                case parse_att buf (off + 4) (unat (from_le (slice buf off (off + 4)) :: u32)) of
                  None \<Rightarrow> None
                | Some att \<Rightarrow> Some \<lparr>cd_dpt = dpt, cd_att = att\<rparr>)"

lemma length_dpt_entry_bytes [simp]: "length (dpt_entry_bytes e) = 17"
  by (simp add: dpt_entry_bytes_def)

lemma length_att_entry_bytes [simp]: "length (att_entry_bytes e) = 16"
  by (simp add: att_entry_bytes_def)

lemma length_concat_entries:
  "length (concat (map dpt_entry_bytes ds)) = 17 * length ds"
  "length (concat (map att_entry_bytes as)) = 16 * length as"
  by (induction ds, simp_all) (induction as, simp_all)

lemma parse_dpt_concat:
  "parse_dpt (pre @ concat (map dpt_entry_bytes ds) @ post) (length pre) (length ds) =
     Some (ds, length pre + 17 * length ds)"
proof (induction ds arbitrary: pre)
  case (Cons d ds)
  have "parse_dpt ((pre @ dpt_entry_bytes d) @ concat (map dpt_entry_bytes ds) @ post)
      (length (pre @ dpt_entry_bytes d)) (length ds) =
      Some (ds, length (pre @ dpt_entry_bytes d) + 17 * length ds)"
    by (rule Cons.IH)
  then have IH: "parse_dpt (pre @ dpt_entry_bytes d @ concat (map dpt_entry_bytes ds) @ post)
      (length pre + 17) (length ds) = Some (ds, length pre + 17 * Suc (length ds))"
    by simp
  show ?case
    by (simp add: IH) (simp add: dpt_entry_bytes_def decode_simps)
qed simp

lemma parse_att_concat:
  "parse_att (pre @ concat (map att_entry_bytes as) @ post) (length pre) (length as) = Some as"
proof (induction as arbitrary: pre)
  case (Cons a as)
  have "parse_att ((pre @ att_entry_bytes a) @ concat (map att_entry_bytes as) @ post)
      (length (pre @ att_entry_bytes a)) (length as) = Some as"
    by (rule Cons.IH)
  then have IH: "parse_att (pre @ att_entry_bytes a @ concat (map att_entry_bytes as) @ post)
      (length pre + 16) (length as) = Some as"
    by simp
  show ?case
    by (simp add: IH) (simp add: att_entry_bytes_def decode_simps)
qed simp

lemma parse_checkpoint_payload:
  assumes "rh_record_type (wr_header r) = Checkpoint"
    and "wr_payload r = checkpoint_payload dpt att"
    and "length dpt < 4294967296" and "length att < 4294967296"
  shows "parse_checkpoint r = Some \<lparr>cd_dpt = dpt, cd_att = att\<rparr>"
proof -
  let ?d = "to_le (of_nat (length dpt) :: u32)" and ?a = "to_le (of_nat (length att) :: u32)"
  let ?ds = "concat (map dpt_entry_bytes dpt)" and ?as = "concat (map att_entry_bytes att)"
  let ?buf = "?d @ ?ds @ ?a @ ?as"
  have d: "parse_dpt ?buf 4 (length dpt) = Some (dpt, 4 + 17 * length dpt)"
    using parse_dpt_concat [of ?d dpt "?a @ ?as"] by simp
  have a: "parse_att ?buf (8 + 17 * length dpt) (length att) = Some att"
    using parse_att_concat [of "?d @ ?ds @ ?a" att "[]"] by (simp add: length_concat_entries)
  have s: "slice ?buf (4 + 17 * length dpt) (8 + 17 * length dpt) = ?a"
    by (simp add: decode_simps length_concat_entries)
  have s0: "slice ?buf 0 4 = ?d" by (simp add: decode_simps)
  have "unat (of_nat (length dpt) :: u32) = length dpt"
    "unat (of_nat (length att) :: u32) = length att"
    using assms(3,4) by (simp_all add: unat_u32)
  then show ?thesis
    using d a s s0
    by (simp add: parse_checkpoint_def assms(1,2) checkpoint_payload_def Let_def
        length_concat_entries add.commute)
qed

end
