(* ===== verification/Page_Properties.thy ===== *)
theory Page_Properties
  imports Page_Refinement Wal_Record
begin

text \<open>
  The properties of the header codecs and of the slotted index pages.
\<close>

section \<open>Headers\<close>

text \<open>C28: Every fixed-size header (index page, heap page, log file and log record) can be written
into a buffer with room for it; read back from there it is the header that was written, and the
bytes behind it are untouched.\<close>

theorem header_roundtrip:
  assumes "36 \<le> length buf"
  shows "fst (index_serialize ih buf) = Inr () \<and>
    index_deserialize (snd (index_serialize ih buf)) = Inr (Some ih) \<and>
    drop 22 (snd (index_serialize ih buf)) = drop 22 buf \<and>
    fst (heap_serialize hh buf) = Inr () \<and>
    heap_deserialize (snd (heap_serialize hh buf)) = Inr (Some hh) \<and>
    drop 21 (snd (heap_serialize hh buf)) = drop 21 buf \<and>
    fst (wal_header_serialize wh buf) = Inr () \<and>
    wal_header_deserialize (snd (wal_header_serialize wh buf)) = Inr (Some wh) \<and>
    drop 28 (snd (wal_header_serialize wh buf)) = drop 28 buf \<and>
    fst (record_header_serialize rh buf) = Inr () \<and>
    record_header_deserialize (snd (record_header_serialize rh buf)) = Inr (Some rh) \<and>
    drop 36 (snd (record_header_serialize rh buf)) = drop 36 buf"
  using assms
  by (simp add: index_hdr.laws heap_hdr.laws wal_hdr.laws [simplified] rec_hdr.laws [simplified])

lemma header_roundtrip_witness:
  "\<exists>ih :: index_header. ih_free_start ih = 22 \<and>
    index_deserialize (snd (index_serialize ih (replicate 40 7))) = Inr (Some ih)"
  using header_roundtrip [of "replicate 40 7"
    "\<lparr>ih_id = 3, ih_free_start = 22, ih_free_end = 4096, ih_page_ty = Leaf, ih_flags = 1, ih_ptr = 9\<rparr>"]
  by (intro exI conjI) auto


section \<open>Adding cells\<close>

text \<open>C9: \<open>add_cell\<close> on a page that represents a node is insertion into the node's sorted cells:
it fails with \<open>Page overflow\<close> exactly when the page holds 203 cells, else with \<open>duplicate key\<close>
exactly when the key is there, and then the page still represents the same node; otherwise it
returns the new number of cells, the page represents the node with the pair inserted in key order,
and \<open>get_cells\<close> reads that list back.\<close>

theorem add_cell_sorted_insert:
  assumes "page_rep p nd"
  shows "\<exists>p' cs. add_cell k v p =
      ((if length (n_cells nd) = 203 then Inl (Err ''Page overflow'')
        else if k \<in> fst ` set (n_cells nd) then Inl (Err ''duplicate key'')
        else Inr (length (n_cells nd) + 1)), p') \<and>
    cs = (if length (n_cells nd) = 203 \<or> k \<in> fst ` set (n_cells nd) then n_cells nd
          else insert_cell k v (n_cells nd)) \<and>
    page_rep p' (nd\<lparr>n_cells := cs\<rparr>) \<and>
    get_cells p' = Inr (map (cell_of (node_leaf nd)) cs)"
proof -
  let ?cs = "if length (n_cells nd) = 203 \<or> k \<in> fst ` set (n_cells nd) then n_cells nd
          else insert_cell k v (n_cells nd)"
  obtain p' where p': "add_cell k v p =
      ((if length (n_cells nd) = 203 then Inl (Err ''Page overflow'')
        else if k \<in> fst ` set (n_cells nd) then Inl (Err ''duplicate key'')
        else Inr (length (n_cells nd) + 1)), p')" "page_rep p' (nd\<lparr>n_cells := ?cs\<rparr>)"
    using add_cell_refines [OF assms, of k v] by (auto split: if_splits)
  have "node_leaf (nd\<lparr>n_cells := ?cs\<rparr>) = node_leaf nd" by (simp add: node_leaf_def)
  with get_cells_rep [OF p'(2)] have "get_cells p' = Inr (map (cell_of (node_leaf nd)) ?cs)" by simp
  with p' show ?thesis by blast
qed

lemma add_cell_sorted_insert_witness:
  "\<exists>p p'. page_rep p (empty_node 7 Leaf 0) \<and> add_cell 5 60 p = (Inr 1, p') \<and>
    get_cells p' = Inr [cell_of True (5, 60)]"
proof -
  obtain p where p: "page_rep p (empty_node 7 Leaf 0)"
    using init_header_rep [of "replicate 4096 0" 7 Leaf 0] by auto
  show ?thesis
    using add_cell_sorted_insert [OF p, of 5 60] p
    by (auto simp: empty_node_def insert_cell_def node_leaf_def)
qed

text \<open>Adding a list of pairs, one \<open>add_cell\<close> after the other.\<close>

definition add_cells :: "(u64 \<times> u64) list \<Rightarrow> (bytes, unit) m" where
  "add_cells = for_each (\<lambda>(k, v). andthen (add_cell k v) (\<lambda>_. ok ()))"

lemma add_cells_rep:
  assumes "page_rep p nd" and "length (n_cells nd) + length kvs \<le> 203"
    and "distinct (map fst kvs)" and "fst ` set kvs \<inter> fst ` set (n_cells nd) = {}"
  shows "\<exists>p' cs. add_cells kvs p = (Inr (), p') \<and> page_rep p' (nd\<lparr>n_cells := cs\<rparr>) \<and>
    set cs = set (n_cells nd) \<union> set kvs \<and> length cs = length (n_cells nd) + length kvs"
  using assms
proof (induction kvs arbitrary: p nd)
  case Nil
  then show ?case by (intro exI [of _ p] exI [of _ "n_cells nd"]) (simp add: add_cells_def run_simps)
next
  case (Cons kv kvs)
  obtain k v where kv: "kv = (k, v)" by (cases kv)
  have new: "length (n_cells nd) \<noteq> 203" "k \<notin> fst ` set (n_cells nd)" using Cons.prems kv by auto
  let ?nd = "nd\<lparr>n_cells := insert_cell k v (n_cells nd)\<rparr>"
  obtain p1 where p1: "add_cell k v p = (Inr (Suc (length (n_cells nd))), p1)" "page_rep p1 ?nd"
    using add_cell_refines [OF Cons.prems(1), of k v] new by auto
  have "length (n_cells ?nd) + length kvs \<le> 203" "distinct (map fst kvs)"
    "fst ` set kvs \<inter> fst ` set (n_cells ?nd) = {}"
    using Cons.prems kv by (auto simp: set_insert_cell)
  from Cons.IH [OF p1(2) this] obtain p' cs where
    "add_cells kvs p1 = (Inr (), p')" "page_rep p' (?nd\<lparr>n_cells := cs\<rparr>)"
    "set cs = set (n_cells ?nd) \<union> set kvs" "length cs = length (n_cells ?nd) + length kvs"
    by blast
  then show ?case
    using p1(1)
    by (intro exI [of _ p'] exI [of _ cs]) (auto simp: kv add_cells_def run_simps set_insert_cell)
qed

text \<open>C17: The capacity of a page is exactly 203 cells: any list of at most 203 pairs with distinct
keys, added in any order to a fresh page, is stored completely and read back in strictly ascending
key order; when the list has exactly 203 pairs, every further \<open>add_cell\<close> fails with
\<open>Page overflow\<close>.\<close>

theorem page_capacity:
  assumes "length kvs \<le> 203" and "distinct (map fst kvs)" and "length p = 4096"
    and "init_header i ty ptr p = (r, p0)"
  shows "\<exists>p' cs. r = Inr () \<and> add_cells kvs p0 = (Inr (), p') \<and> set cs = set kvs \<and>
    sorted_wrt (<) (map fst cs) \<and> get_cells p' = Inr (map (cell_of (ty = Leaf)) cs) \<and>
    (length kvs = 203 \<longrightarrow> (\<forall>k v. fst (add_cell k v p') = Inl (Err ''Page overflow'')))"
proof -
  have p0: "r = Inr ()" "page_rep p0 (empty_node i ty ptr)"
    using init_header_rep [OF assms(3), of i ty ptr] assms(4) by auto
  let ?nd = "\<lambda>cs. (empty_node i ty ptr)\<lparr>n_cells := cs\<rparr>"
  obtain p' cs where p': "add_cells kvs p0 = (Inr (), p')" "page_rep p' (?nd cs)"
    "set cs = set kvs" "length cs = length kvs"
    using add_cells_rep [OF p0(2), of kvs] assms(1,2) by (auto simp: empty_node_def)
  have "node_leaf (?nd cs) \<longleftrightarrow> ty = Leaf" by (simp add: node_leaf_def empty_node_def)
  moreover have "fst (add_cell k v p') = Inl (Err ''Page overflow'')" if "length kvs = 203" for k v
    using add_cell_refines [OF p'(2), of k v] p'(4) that by auto
  ultimately show ?thesis
    using get_cells_rep [OF p'(2)] page_rep_sorted [OF p'(2)] p' p0(1) by auto
qed

lemma page_capacity_witness:
  "\<exists>p0 p' cs. init_header 4 Leaf 0 (replicate 4096 0) = (Inr (), p0) \<and>
    add_cells (map (\<lambda>i. (of_nat i, 2 * of_nat i)) (rev [0..<203])) p0 = (Inr (), p') \<and>
    get_cells p' = Inr (map (cell_of True) cs) \<and> length cs = 203 \<and>
    fst (add_cell 500 1 p') = Inl (Err ''Page overflow'')"
proof -
  define kvs :: "(u64 \<times> u64) list" where
    "kvs = map (\<lambda>i. (of_nat i, 2 * of_nat i)) (rev [0..<203])"
  have d: "distinct (map fst kvs)"
    unfolding kvs_def by (auto simp: distinct_map comp_def inj_on_def word_unat_eq_iff unat_of_nat)
  have n: "length kvs = 203" by (simp add: kvs_def)
  obtain r p0 where init: "init_header 4 Leaf 0 (replicate 4096 0) = (r, p0)" by fastforce
  obtain p' cs where *: "r = Inr ()" "add_cells kvs p0 = (Inr (), p')" "set cs = set kvs"
    "sorted_wrt (<) (map fst cs)" "get_cells p' = Inr (map (cell_of True) cs)"
    "fst (add_cell 500 1 p') = Inl (Err ''Page overflow'')"
    using page_capacity [OF _ d _ init] n by auto
  have "distinct cs" using *(4) by (metis distinct_map strict_sorted_iff)
  moreover have "distinct kvs" using d by (rule conjunct1 [OF iffD1 [OF distinct_map]])
  ultimately have "length cs = 203" using *(3) n by (metis distinct_card)
  then show ?thesis using init * unfolding kvs_def by blast
qed


section \<open>Rebuilding, removing, changing the kind\<close>

text \<open>C18: \<open>rebuild_from_cells\<close> of cells that carry the pointer the new kind needs, in key order, makes
the page hold exactly these cells with the given id, kind and pointer, whatever it held before, and
keeps the root-leaf flag of a page that stays the root; with more than 203 cells it fails with
\<open>Page overflow\<close> and leaves the first 203 of them.\<close>

theorem rebuild_exact:
  assumes "leaf \<longleftrightarrow> ty = Leaf \<or> (ty = Root \<and> root_leaf_page p)"
    and "sorted_wrt (<) (map fst kvs)"
  shows "\<exists>p'. rebuild_from_cells (map (cell_of leaf) kvs) ty i ptr p =
      ((if length kvs \<le> 203 then Inr () else Inl (Err ''Page overflow'')), p') \<and>
    page_rep p' \<lparr>n_id = i, n_ty = ty, n_flags = (if root_leaf_page p \<and> ty = Root then 1 else 0),
      n_ptr = ptr, n_cells = take 203 kvs\<rparr> \<and>
    get_cells p' = Inr (map (cell_of leaf) (take 203 kvs))"
proof -
  obtain p' where p': "rebuild_from_cells (map (cell_of leaf) kvs) ty i ptr p =
      ((if length kvs \<le> 203 then Inr () else Inl (Err ''Page overflow'')), p')"
    "page_rep p' (rebuilt_node (root_leaf_page p) ty i ptr (take 203 kvs))"
    using rebuild_from_cells_refines [OF assms(1) list_all2_cell_of assms(2), of i ptr] by auto
  have "node_leaf (rebuilt_node (root_leaf_page p) ty i ptr (take 203 kvs)) = leaf"
    using assms(1) by (auto simp: node_leaf_def rebuilt_node_def)
  with get_cells_rep [OF p'(2)] p' show ?thesis by (auto simp: rebuilt_node_def)
qed

lemma rebuild_exact_witness:
  "\<exists>p'. rebuild_from_cells (map (cell_of True) [(2, 20), (8, 80)]) Leaf 5 6 (replicate 4096 0) =
      (Inr (), p') \<and> get_cells p' = Inr (map (cell_of True) [(2, 20), (8, 80)])"
  using rebuild_exact [of True Leaf "replicate 4096 0" "[(2, 20), (8, 80)]" 5 6] by auto

text \<open>\<open>remove_cell_at\<close> returns the cell at the index and leaves the page with all other cells in
order, the same id, kind and pointer; an index past the end is an error that leaves the page as it
was.\<close>

theorem remove_cell_exact:
  assumes "page_rep p nd"
  shows "\<exists>r p'. remove_cell_at idx p = (r, p') \<and>
    (if idx < length (n_cells nd)
     then r = Inr (cell_of (node_leaf nd) (n_cells nd ! idx)) \<and>
       page_header p' = Inr (hdr_of (rebuilt_node (node_leaf nd) (n_ty nd) (n_id nd) (n_ptr nd)
         (take idx (n_cells nd) @ drop (Suc idx) (n_cells nd)))) \<and>
       get_cells p' = Inr (map (cell_of (node_leaf nd))
         (take idx (n_cells nd) @ drop (Suc idx) (n_cells nd)))
     else r = Inl (Err ''Cell index out of bounds'') \<and> p' = p)"
proof (cases "idx < length (n_cells nd)")
  case True
  let ?nd = "rebuilt_node (node_leaf nd) (n_ty nd) (n_id nd) (n_ptr nd)
      (take idx (n_cells nd) @ drop (Suc idx) (n_cells nd))"
  obtain p' where p': "remove_cell_at idx p = (Inr (cell_of (node_leaf nd) (n_cells nd ! idx)), p')"
    "page_rep p' ?nd"
    using remove_cell_at_refines(1) [OF assms True] by blast
  have "node_leaf ?nd = node_leaf nd" by (auto simp: node_leaf_def rebuilt_node_def)
  with get_cells_rep [OF p'(2)] page_header_rep [OF p'(2)] p'(1) True
  show ?thesis by (simp add: rebuilt_node_def)
next
  case False
  then show ?thesis using remove_cell_at_refines(2) [OF assms] by simp
qed

lemma remove_cell_exact_example:
  "\<exists>p. page_rep p (empty_node 3 Leaf 0) \<and>
    remove_cell_at 0 p = (Inl (Err ''Cell index out of bounds''), p)"
proof -
  obtain p where p: "page_rep p (empty_node 3 Leaf 0)"
    using init_header_rep [of "replicate 4096 0" 3 Leaf 0] by auto
  show ?thesis
    using remove_cell_exact [OF p, of 0] p by (auto simp: empty_node_def)
qed

text \<open>\<open>set_page_kind\<close> and \<open>set_header_ptr\<close> keep every stored key/value pair. A leaf-level page that
becomes the root stays on leaf level (through the root-leaf flag), an internal page that becomes the
root does not get there; a page that becomes a leaf or an internal page has the level of its new
kind.\<close>

theorem set_page_kind_keeps_cells:
  assumes "page_rep p nd"
  shows "\<exists>p' p'' leaf. set_page_kind ty p = (Inr (), p') \<and> set_header_ptr ptr p' = (Inr (), p'') \<and>
    leaf = (if ty = Root then node_leaf nd \<or> n_flags nd AND 1 = 1 else ty = Leaf) \<and>
    get_cells p'' = Inr (map (cell_of leaf) (n_cells nd)) \<and>
    page_header p'' = Inr (hdr_of (set_kind ty (nd\<lparr>n_ptr := ptr\<rparr>)))"
proof -
  obtain p' where p': "set_page_kind ty p = (Inr (), p')" "page_rep p' (set_kind ty nd)"
    using set_page_kind_refines [OF assms] by blast
  obtain p'' where p'': "set_header_ptr ptr p' = (Inr (), p'')"
    "page_rep p'' ((set_kind ty nd)\<lparr>n_ptr := ptr\<rparr>)"
    using set_header_ptr_refines [OF p'(2)] by blast
  have "(w OR 1) AND 1 = 1" "(w AND NOT 1) AND 1 \<noteq> 1" for w :: u8
    by (auto simp: and_one_eq bit_simps)
  then have "node_leaf ((set_kind ty nd)\<lparr>n_ptr := ptr\<rparr>) =
      (if ty = Root then node_leaf nd \<or> n_flags nd AND 1 = 1 else ty = Leaf)"
    by (cases ty) (auto simp: node_leaf_def set_kind_def)
  moreover have "(set_kind ty nd)\<lparr>n_ptr := ptr\<rparr> = set_kind ty (nd\<lparr>n_ptr := ptr\<rparr>)"
    by (simp add: set_kind_def node_leaf_def)
  ultimately show ?thesis
    using p'(1) p''(1) get_cells_rep [OF p''(2)] page_header_rep [OF p''(2)]
    by (simp add: set_kind_def)
qed

lemma set_page_kind_example:
  "\<exists>p p' p''. page_rep p (empty_node 3 Leaf 0) \<and> set_page_kind Root p = (Inr (), p') \<and>
    set_header_ptr 1 p' = (Inr (), p'') \<and> get_cells p'' = Inr []"
proof -
  obtain p where p: "page_rep p (empty_node 3 Leaf 0)"
    using init_header_rep [of "replicate 4096 0" 3 Leaf 0] by auto
  show ?thesis
    using set_page_kind_keeps_cells [OF p, of Root 1] p by (auto simp: empty_node_def)
qed

end
