(* ===== verification/Buffer_Pool.thy ===== *)
theory Buffer_Pool
  imports Prelude
begin

text \<open>
  The buffer pool of \<open>buffer_pool.rs\<close>: frames, dirty flags and an LRU queue under one mutex
  (every public method takes the lock, calls the method of \<open>BufferPoolInner\<close> of the same name and
  releases it, so the methods of \<open>BufferPoolInner\<close> are the atomic steps). Eviction takes the least
  recently used page that is not pinned, dirty or not (STEAL), and hands it to the caller.
\<close>

section \<open>State\<close>

record 'p frame_entry =
  fe_page :: 'p
  pin_count :: u32
  fe_page_lsn :: u64
  fe_rec_lsn :: u64

record 'p pool =
  frames :: "(u64, 'p frame_entry) hmap"
  dirty :: "(u64, bool) hmap"
  lru_order :: "u64 list"
  max_frames :: nat

record 'p evicted_page =
  ev_id :: u64
  ev_page :: 'p
  was_dirty :: bool
  ev_page_lsn :: u64
  ev_rec_lsn :: u64

section \<open>Operations\<close>

definition pool_new :: "nat \<Rightarrow> 'p pool" where
  "pool_new n = \<lparr>frames = [], dirty = [], lru_order = [], max_frames = n\<rparr>"

definition pool_contains :: "u64 \<Rightarrow> 'p pool \<Rightarrow> bool" where
  "pool_contains i b \<longleftrightarrow> map_of (frames b) i \<noteq> None"

definition touch :: "u64 \<Rightarrow> 'p pool \<Rightarrow> 'p pool" where
  "touch i b = b\<lparr>lru_order := filter (\<lambda>x. x \<noteq> i) (lru_order b) @ [i]\<rparr>"

definition pool_get :: "u64 \<Rightarrow> 'p pool \<Rightarrow> 'p option \<times> 'p pool" where
  "pool_get i b =
     (let b1 = touch i b in (map_option fe_page (map_of (frames b1) i), b1))"

definition is_dirty :: "u64 \<Rightarrow> 'p pool \<Rightarrow> bool" where
  "is_dirty i b = (case map_of (dirty b) i of None \<Rightarrow> False | Some d \<Rightarrow> d)"

text \<open>The first page of the LRU queue that is framed and not pinned, with its position.\<close>

fun find_victim :: "(u64, 'p frame_entry) hmap \<Rightarrow> nat \<Rightarrow> u64 list \<Rightarrow> (nat \<times> u64) option" where
  "find_victim fr k [] = None"
| "find_victim fr k (i # is) =
     (case map_of fr i of
        None \<Rightarrow> find_victim fr (Suc k) is
      | Some entry \<Rightarrow>
          if pin_count entry = 0 then Some (k, i) else find_victim fr (Suc k) is)"

definition evict_one :: "'p pool \<Rightarrow> 'p evicted_page option \<times> 'p pool" where
  "evict_one b =
     (case find_victim (frames b) 0 (lru_order b) of
        None \<Rightarrow> (None, b)
      | Some (idx, i) \<Rightarrow>
          let b1 = b\<lparr>lru_order := take idx (lru_order b) @ drop (Suc idx) (lru_order b)\<rparr>;
              d = is_dirty i b1;
              b2 = b1\<lparr>dirty := map_remove i (dirty b1)\<rparr>
          in case map_of (frames b2) i of
               None \<Rightarrow> (None, b2)
             | Some entry \<Rightarrow>
                 (Some \<lparr>ev_id = i, ev_page = fe_page entry, was_dirty = d,
                    ev_page_lsn = fe_page_lsn entry, ev_rec_lsn = fe_rec_lsn entry\<rparr>,
                  b2\<lparr>frames := map_remove i (frames b2)\<rparr>))"

definition pool_insert :: "u64 \<Rightarrow> 'p \<Rightarrow> ('p pool, 'p evicted_page option) m" where
  "pool_insert i page b =
     (if map_of (frames b) i \<noteq> None then (Inr None, touch i b)
      else
        let (ev, b1) = (if max_frames b \<le> length (frames b) then evict_one b else (None, b)) in
        if max_frames b \<le> length (frames b) \<and> ev = None
        then (Inl (Err ''Buffer pool full: all pages are pinned''), b1)
        else
          (Inr ev, touch i (b1\<lparr>frames := map_insert i
             \<lparr>fe_page = page, pin_count = 0, fe_page_lsn = 0, fe_rec_lsn = 0\<rparr> (frames b1)\<rparr>)))"

definition mark_dirty :: "u64 \<Rightarrow> 'p pool \<Rightarrow> 'p pool" where
  "mark_dirty i b = b\<lparr>dirty := map_insert i True (dirty b)\<rparr>"

text \<open>\<open>frames.get_mut(&id)\<close> followed by an update of the entry.\<close>

definition update_entry ::
  "u64 \<Rightarrow> ('p frame_entry \<Rightarrow> 'p frame_entry) \<Rightarrow> 'p pool \<Rightarrow> 'p pool" where
  "update_entry i f b =
     (case map_of (frames b) i of
        None \<Rightarrow> b
      | Some e \<Rightarrow> b\<lparr>frames := map_insert i (f e) (frames b)\<rparr>)"

definition update_page :: "u64 \<Rightarrow> 'p \<Rightarrow> 'p pool \<Rightarrow> 'p pool" where
  "update_page i page b =
     (if map_of (frames b) i \<noteq> None
      then touch i (mark_dirty i (update_entry i (fe_page_update (\<lambda>_. page)) b))
      else mark_dirty i (snd (pool_insert i page b)))"

definition update_lsn :: "u64 \<Rightarrow> u64 \<Rightarrow> 'p pool \<Rightarrow> 'p pool" where
  "update_lsn i lsn b =
     touch i
       (if map_of (frames b) i \<noteq> None
        then mark_dirty i (update_entry i (\<lambda>e.
          e\<lparr>fe_rec_lsn := (if fe_rec_lsn e = 0 then lsn else fe_rec_lsn e), fe_page_lsn := lsn\<rparr>) b)
        else b)"

definition page_lsn :: "u64 \<Rightarrow> 'p pool \<Rightarrow> u64" where
  "page_lsn i b = (case map_of (frames b) i of None \<Rightarrow> 0 | Some e \<Rightarrow> fe_page_lsn e)"

definition rec_lsn :: "u64 \<Rightarrow> 'p pool \<Rightarrow> u64" where
  "rec_lsn i b = (case map_of (frames b) i of None \<Rightarrow> 0 | Some e \<Rightarrow> fe_rec_lsn e)"

definition set_lsn_explicit :: "u64 \<Rightarrow> u64 \<Rightarrow> u64 \<Rightarrow> 'p pool \<Rightarrow> 'p pool" where
  "set_lsn_explicit i plsn rlsn =
     update_entry i (\<lambda>e. e\<lparr>fe_page_lsn := plsn, fe_rec_lsn := rlsn\<rparr>)"

definition dirty_page_ids :: "'p pool \<Rightarrow> u64 list" where
  "dirty_page_ids b = keys (dirty b)"

definition dirty_page_table :: "'p pool \<Rightarrow> (u64 \<times> u64) list" where
  "dirty_page_table b = map (\<lambda>i. (i, rec_lsn i b)) (keys (dirty b))"

definition drain_dirty :: "'p pool \<Rightarrow> (u64 \<times> 'p) list" where
  "drain_dirty b =
     List.map_filter (\<lambda>i. map_option (\<lambda>e. (i, fe_page e)) (map_of (frames b) i)) (keys (dirty b))"

definition clear_dirty :: "'p pool \<Rightarrow> 'p pool" where
  "clear_dirty b =
     b\<lparr>dirty := [], frames := map (\<lambda>(i, e). (i, e\<lparr>fe_rec_lsn := 0\<rparr>)) (frames b)\<rparr>"

definition clear_dirty_single :: "u64 \<Rightarrow> 'p pool \<Rightarrow> 'p pool" where
  "clear_dirty_single i b =
     update_entry i (fe_rec_lsn_update (\<lambda>_. 0)) (b\<lparr>dirty := map_remove i (dirty b)\<rparr>)"

definition pin :: "u64 \<Rightarrow> 'p pool \<Rightarrow> 'p pool" where
  "pin i = update_entry i (\<lambda>e. e\<lparr>pin_count := pin_count e + 1\<rparr>)"

definition unpin :: "u64 \<Rightarrow> 'p pool \<Rightarrow> 'p pool" where
  "unpin i = update_entry i (\<lambda>e.
     e\<lparr>pin_count := (if pin_count e = 0 then 0 else pin_count e - 1)\<rparr>)"

definition pool_remove :: "u64 \<Rightarrow> 'p pool \<Rightarrow> 'p option \<times> 'p pool" where
  "pool_remove i b =
     (map_option fe_page (map_of (frames b) i),
      b\<lparr>dirty := map_remove i (dirty b), lru_order := filter (\<lambda>x. x \<noteq> i) (lru_order b),
        frames := map_remove i (frames b)\<rparr>)"

definition all_page_ids :: "'p pool \<Rightarrow> u64 list" where
  "all_page_ids b = keys (frames b)"

definition pool_len :: "'p pool \<Rightarrow> nat" where
  "pool_len b = length (frames b)"

definition pool_is_empty :: "'p pool \<Rightarrow> bool" where
  "pool_is_empty b \<longleftrightarrow> frames b = []"

section \<open>Invariant\<close>

text \<open>
  Maps without duplicate keys, a queue without duplicates that lists every frame, and no more
  frames than the capacity.
\<close>

definition pool_inv :: "'p pool \<Rightarrow> bool" where
  "pool_inv b \<longleftrightarrow> distinct (keys (frames b)) \<and> distinct (keys (dirty b)) \<and>
     distinct (lru_order b) \<and> fst ` set (frames b) \<subseteq> set (lru_order b) \<and>
     length (frames b) \<le> max_frames b"

text \<open>The cached page of an id.\<close>

definition cached :: "'p pool \<Rightarrow> u64 \<Rightarrow> 'p option" where
  "cached b i = map_option fe_page (map_of (frames b) i)"

definition pinned :: "'p pool \<Rightarrow> u64 \<Rightarrow> bool" where
  "pinned b i \<longleftrightarrow> (\<exists>e. map_of (frames b) i = Some e \<and> pin_count e \<noteq> 0)"

lemma update_entry_simps [simp]:
  "dirty (update_entry i f b) = dirty b" "lru_order (update_entry i f b) = lru_order b"
  "max_frames (update_entry i f b) = max_frames b"
  "fst ` set (frames (update_entry i f b)) = fst ` set (frames b)"
  "length (frames (update_entry i f b)) = length (frames b)"
  "map_of (frames (update_entry i f b)) j =
     (if j = i then map_option f (map_of (frames b) i) else map_of (frames b) j)"
  by (auto simp: update_entry_def length_insert_present keys_iff_map_of split: option.splits)

lemma distinct_update_entry [simp]:
  "distinct (keys (frames b)) \<Longrightarrow> distinct (keys (frames (update_entry i f b)))"
  by (auto simp: update_entry_def split: option.splits)

lemma touch_simps [simp]:
  "frames (touch i b) = frames b" "dirty (touch i b) = dirty b"
  "max_frames (touch i b) = max_frames b" "set (lru_order (touch i b)) = insert i (set (lru_order b))"
  "distinct (lru_order b) \<Longrightarrow> distinct (lru_order (touch i b))"
  by (auto simp: touch_def)

lemma mark_dirty_simps [simp]:
  "frames (mark_dirty i b) = frames b" "lru_order (mark_dirty i b) = lru_order b"
  "max_frames (mark_dirty i b) = max_frames b"
  "dirty (mark_dirty i b) = map_insert i True (dirty b)"
  by (simp_all add: mark_dirty_def)

lemma pool_inv_new: "pool_inv (pool_new n)"
  by (simp add: pool_inv_def pool_new_def)

lemma pool_inv_touch [simp]: "pool_inv b \<Longrightarrow> pool_inv (touch i b)"
  by (auto simp: pool_inv_def)

lemma pool_inv_mark_dirty [simp]: "pool_inv b \<Longrightarrow> pool_inv (mark_dirty i b)"
  by (simp add: pool_inv_def)

lemma pool_inv_update_entry [simp]: "pool_inv b \<Longrightarrow> pool_inv (update_entry i f b)"
  by (simp add: pool_inv_def)

lemma pool_inv_clear_dirty: "pool_inv b \<Longrightarrow> pool_inv (clear_dirty b)"
  by (auto simp: pool_inv_def clear_dirty_def comp_def case_prod_beta image_image)

lemma pool_inv_undirty: "pool_inv b \<Longrightarrow> pool_inv (b\<lparr>dirty := map_remove i (dirty b)\<rparr>)"
  by (simp add: pool_inv_def)

lemma pool_inv_remove: "pool_inv b \<Longrightarrow> pool_inv (snd (pool_remove i b))"
  using length_delete_le [of i "frames b"]
  by (auto simp: pool_inv_def pool_remove_def)

text \<open>The victim: the first unpinned frame in queue order.\<close>

lemma find_victim_Some:
  "find_victim fr k is = Some (j, i) \<longleftrightarrow>
    (\<exists>n < length is. j = k + n \<and> i = is ! n \<and>
       (\<exists>e. map_of fr i = Some e \<and> pin_count e = 0) \<and>
       (\<forall>m < n. \<forall>e. map_of fr (is ! m) = Some e \<longrightarrow> pin_count e \<noteq> 0))"
proof (induction "is" arbitrary: k)
  case Nil
  then show ?case by simp
next
  case (Cons x xs)
  have split: "(\<exists>n < Suc (length xs). P n) \<longleftrightarrow> P 0 \<or> (\<exists>n < length xs. P (Suc n))" for P
    by (auto simp: less_Suc_eq_0_disj)
  have split': "(\<forall>n < Suc m. P n) \<longleftrightarrow> P 0 \<and> (\<forall>n < m. P (Suc n))" for P m
    by (auto simp: less_Suc_eq_0_disj)
  show ?case
  proof (cases "\<exists>e. map_of fr x = Some e \<and> pin_count e = 0")
    case True
    then show ?thesis by (auto simp: split split')
  next
    case False
    then have "find_victim fr k (x # xs) = find_victim fr (Suc k) xs"
      by (auto split: option.splits)
    with False show ?thesis
      by (auto simp: split split' Cons.IH)
  qed
qed

lemma find_victim_None:
  "find_victim fr k is = None \<longleftrightarrow>
    (\<forall>i \<in> set is. \<forall>e. map_of fr i = Some e \<longrightarrow> pin_count e \<noteq> 0)"
  by (induction "is" arbitrary: k) (auto split: option.splits)

lemma evict_one_cases:
  assumes "pool_inv b"
  obtains (none) "evict_one b = (None, b)" "\<forall>i. cached b i \<noteq> None \<longrightarrow> pinned b i"
  | (victim) n e where "n < length (lru_order b)" "map_of (frames b) (lru_order b ! n) = Some e"
      "pin_count e = 0"
      "\<forall>m < n. \<forall>e'. map_of (frames b) (lru_order b ! m) = Some e' \<longrightarrow> pin_count e' \<noteq> 0"
      "evict_one b =
        (Some \<lparr>ev_id = lru_order b ! n, ev_page = fe_page e, was_dirty = is_dirty (lru_order b ! n) b,
           ev_page_lsn = fe_page_lsn e, ev_rec_lsn = fe_rec_lsn e\<rparr>,
         b\<lparr>lru_order := take n (lru_order b) @ drop (Suc n) (lru_order b),
           dirty := map_remove (lru_order b ! n) (dirty b),
           frames := map_remove (lru_order b ! n) (frames b)\<rparr>)"
proof (cases "find_victim (frames b) 0 (lru_order b)")
  case None
  have "pinned b i" if "cached b i \<noteq> None" for i
  proof -
    from that obtain e where e: "map_of (frames b) i = Some e" by (auto simp: cached_def)
    then have "i \<in> set (lru_order b)"
      using assms keys_iff_map_of [of i "frames b"] by (auto simp: pool_inv_def)
    then show ?thesis using None e by (auto simp: find_victim_None pinned_def)
  qed
  then show ?thesis using none None by (simp add: evict_one_def)
next
  case (Some v)
  then obtain n e where "n < length (lru_order b)" "v = (n, lru_order b ! n)"
    "map_of (frames b) (lru_order b ! n) = Some e" "pin_count e = 0"
    "\<forall>m < n. \<forall>e'. map_of (frames b) (lru_order b ! m) = Some e' \<longrightarrow> pin_count e' \<noteq> 0"
    by (cases v) (auto simp: find_victim_Some)
  then show ?thesis
    using victim Some by (simp add: evict_one_def Let_def is_dirty_def)
qed

lemma pool_inv_evict:
  assumes inv: "pool_inv b"
  shows "pool_inv (snd (evict_one b))"
  using inv
proof (cases rule: evict_one_cases)
  case (victim n e)
  have "take n (lru_order b) @ drop (Suc n) (lru_order b) =
      filter (\<lambda>x. x \<noteq> lru_order b ! n) (lru_order b)"
    using inv victim(1) by (simp add: take_drop_filter pool_inv_def)
  then show ?thesis
    using inv length_delete_le [of "lru_order b ! n" "frames b"]
    unfolding victim(5) by (auto simp: pool_inv_def)
qed (use inv in simp)


section \<open>Insertion\<close>

lemma cached_simps [simp]:
  "cached (touch i b) = cached b" "cached (mark_dirty i b) = cached b"
  "cached (b\<lparr>dirty := d\<rparr>) = cached b"
  by (simp_all add: cached_def fun_eq_iff)

lemma cached_update_entry:
  "cached (update_entry i f b) j =
     (if j = i then map_option (fe_page \<circ> f) (map_of (frames b) i) else cached b j)"
  by (simp add: cached_def option.map_comp)

lemma is_dirty_simps [simp]:
  "is_dirty j (touch i b) = is_dirty j b" "is_dirty j (update_entry i f b) = is_dirty j b"
  "is_dirty j (mark_dirty i b) \<longleftrightarrow> j = i \<or> is_dirty j b"
  "is_dirty j (b\<lparr>dirty := map_remove i d\<rparr>) \<longleftrightarrow> j \<noteq> i \<and> is_dirty j (b\<lparr>dirty := d\<rparr>)"
  by (auto simp: is_dirty_def)

lemma pinned_simps [simp]:
  "pinned (touch i b) = pinned b" "pinned (mark_dirty i b) = pinned b"
  by (simp_all add: pinned_def fun_eq_iff)

lemma pool_insert_hit:
  "cached b i \<noteq> None \<Longrightarrow> pool_insert i p b = (Inr None, touch i b)"
  by (auto simp: pool_insert_def cached_def)

lemma pool_insert_room:
  assumes inv: "pool_inv b" and miss: "cached b i = None" and room: "length (frames b) < max_frames b"
  shows "\<exists>b'. pool_insert i p b = (Inr None, b') \<and> pool_inv b' \<and>
    cached b' = (cached b)(i \<mapsto> p) \<and> (\<forall>j. is_dirty j b' = is_dirty j b) \<and>
    (\<forall>j. pinned b' j = pinned b j)"
proof -
  let ?b' = "touch i (b\<lparr>frames := map_insert i
    \<lparr>fe_page = p, pin_count = 0, fe_page_lsn = 0, fe_rec_lsn = 0\<rparr> (frames b)\<rparr>)"
  have m: "map_of (frames b) i = None" using miss by (simp add: cached_def)
  then have "i \<notin> fst ` set (frames b)" by (simp add: keys_iff_map_of)
  then have "pool_inv ?b'" using inv room by (auto simp: pool_inv_def length_insert_absent)
  moreover have "pool_insert i p b = (Inr None, ?b')"
    using m room by (simp add: pool_insert_def)
  moreover have "cached ?b' = (cached b)(i \<mapsto> p)" by (auto simp: cached_def)
  moreover have "is_dirty j ?b' = is_dirty j b" for j by (simp add: is_dirty_def)
  moreover have "pinned ?b' j = pinned b j" for j using m by (auto simp: pinned_def)
  ultimately show ?thesis by blast
qed

lemma pool_insert_full:
  assumes inv: "pool_inv b" and miss: "cached b i = None" and full: "max_frames b \<le> length (frames b)"
  obtains (pinned) "pool_insert i p b = (Inl (Err ''Buffer pool full: all pages are pinned''), b)"
      "\<forall>j. cached b j \<noteq> None \<longrightarrow> pinned b j"
  | (evicted) e b' where "pool_insert i p b = (Inr (Some e), b')" "pool_inv b'"
      "cached b (ev_id e) = Some (ev_page e)" "ev_id e \<noteq> i" "\<not> pinned b (ev_id e)"
      "was_dirty e = is_dirty (ev_id e) b" "ev_page_lsn e = page_lsn (ev_id e) b"
      "cached b' = (cached b)(ev_id e := None, i \<mapsto> p)"
      "\<forall>j. is_dirty j b' = (j \<noteq> ev_id e \<and> is_dirty j b)" "\<forall>j. pinned b' j = pinned b j"
      "\<exists>n < length (lru_order b). ev_id e = lru_order b ! n \<and>
         (\<forall>m < n. cached b (lru_order b ! m) \<noteq> None \<longrightarrow> pinned b (lru_order b ! m))"
proof -
  have m: "map_of (frames b) i = None" using miss by (simp add: cached_def)
  from inv show ?thesis
  proof (cases rule: evict_one_cases)
    case none
    then show ?thesis using m full by (intro pinned) (simp_all add: pool_insert_def)
  next
    case (victim n e)
    let ?v = "lru_order b ! n"
    let ?ev = "\<lparr>ev_id = ?v, ev_page = fe_page e, was_dirty = is_dirty ?v b,
      ev_page_lsn = fe_page_lsn e, ev_rec_lsn = fe_rec_lsn e\<rparr>"
    let ?b1 = "snd (evict_one b)"
    let ?b' = "touch i (?b1\<lparr>frames := map_insert i
      \<lparr>fe_page = p, pin_count = 0, fe_page_lsn = 0, fe_rec_lsn = 0\<rparr> (frames ?b1)\<rparr>)"
    have vi: "?v \<noteq> i" using victim(2) m by auto
    have inv1: "pool_inv ?b1" using inv by (rule pool_inv_evict)
    have vin: "?v \<in> fst ` set (frames b)" using victim(2) by (simp add: keys_iff_map_of)
    then have "Suc (length (frames ?b1)) = length (frames b)"
      using inv by (simp add: victim(5) length_remove_present pool_inv_def)
    moreover have "i \<notin> fst ` set (frames ?b1)" using m by (simp add: victim(5) keys_iff_map_of)
    ultimately have inv': "pool_inv ?b'"
      using inv inv1 by (auto simp: pool_inv_def length_insert_absent victim(5))
    have run: "pool_insert i p b = (Inr (Some ?ev), ?b')"
      using m full by (simp add: pool_insert_def victim(5))
    show ?thesis
    proof (rule evicted [OF run inv'])
      show "cached b (ev_id ?ev) = Some (ev_page ?ev)" using victim(2) by (simp add: cached_def)
      show "ev_id ?ev \<noteq> i" using vi by simp
      show "\<not> pinned b (ev_id ?ev)" using victim(2,3) by (simp add: pinned_def)
      show "was_dirty ?ev = is_dirty (ev_id ?ev) b" by simp
      show "ev_page_lsn ?ev = page_lsn (ev_id ?ev) b" using victim(2) by (simp add: page_lsn_def)
      show "cached ?b' = (cached b)(ev_id ?ev := None, i \<mapsto> p)"
        using vi by (auto simp: cached_def victim(5))
      show "\<forall>j. is_dirty j ?b' = (j \<noteq> ev_id ?ev \<and> is_dirty j b)"
        by (auto simp: is_dirty_def victim(5))
      show "\<forall>j. pinned ?b' j = pinned b j"
        using vi m victim(2,3) by (auto simp: pinned_def victim(5))
      show "\<exists>n < length (lru_order b). ev_id ?ev = lru_order b ! n \<and>
         (\<forall>m < n. cached b (lru_order b ! m) \<noteq> None \<longrightarrow> pinned b (lru_order b ! m))"
        using victim(1,4) by (intro exI [of _ n]) (auto simp: cached_def pinned_def)
    qed
  qed
qed

lemma pool_inv_insert: "pool_inv b \<Longrightarrow> pool_inv (snd (pool_insert i p b))"
proof -
  assume inv: "pool_inv b"
  consider (hit) "cached b i \<noteq> None" | (room) "cached b i = None" "length (frames b) < max_frames b"
    | (full) "cached b i = None" "max_frames b \<le> length (frames b)" by linarith
  then show ?thesis
  proof cases
    case hit
    then show ?thesis using inv by (simp add: pool_insert_hit)
  next
    case room
    obtain b' where "pool_insert i p b = (Inr None, b')" "pool_inv b'"
      using pool_insert_room [OF inv room, of p] by blast
    then show ?thesis by simp
  next
    case full
    from inv full show ?thesis
      by (rule pool_insert_full [where p = p]) (simp_all add: inv)
  qed
qed

lemma pool_inv_update_page: "pool_inv b \<Longrightarrow> pool_inv (update_page i p b)"
  by (simp add: update_page_def pool_inv_insert)

lemma pool_inv_update_lsn: "pool_inv b \<Longrightarrow> pool_inv (update_lsn i l b)"
  by (simp add: update_lsn_def)

lemma pool_inv_pin: "pool_inv b \<Longrightarrow> pool_inv (pin i b)"
  and pool_inv_unpin: "pool_inv b \<Longrightarrow> pool_inv (unpin i b)"
  and pool_inv_set_lsn: "pool_inv b \<Longrightarrow> pool_inv (set_lsn_explicit i l r b)"
  and pool_inv_clear_single: "pool_inv b \<Longrightarrow> pool_inv (clear_dirty_single i b)"
  and pool_inv_get: "pool_inv b \<Longrightarrow> pool_inv (snd (pool_get i b))"
  by (simp_all add: pin_def unpin_def set_lsn_explicit_def clear_dirty_single_def
      pool_inv_undirty pool_get_def)


section \<open>The interface of a write-back cache\<close>

text \<open>
  What the page files rely on. \<open>view\<close> is the content a client sees: the cached page where there is
  one, else the page on disk. A cache is coherent with a disk when its clean pages are on disk.
\<close>

definition view :: "('i \<Rightarrow> 'p option) \<Rightarrow> ('i \<Rightarrow> 'p option) \<Rightarrow> 'i \<Rightarrow> 'p option" where
  "view c disk i = (case c i of None \<Rightarrow> disk i | Some p \<Rightarrow> Some p)"

definition coherent :: "('i \<Rightarrow> 'p option) \<Rightarrow> ('i \<Rightarrow> bool) \<Rightarrow> ('i \<Rightarrow> 'p option) \<Rightarrow> bool" where
  "coherent c d disk \<longleftrightarrow> (\<forall>i p. c i = Some p \<and> \<not> d i \<longrightarrow> disk i = Some p)"

text \<open>The disk after the caller has written back an evicted dirty page.\<close>

definition written_back ::
  "('e \<Rightarrow> 'i) \<Rightarrow> ('e \<Rightarrow> 'p) \<Rightarrow> ('e \<Rightarrow> bool) \<Rightarrow> 'e option \<Rightarrow> ('i \<Rightarrow> 'p option) \<Rightarrow> 'i \<Rightarrow> 'p option"
  where
  "written_back eid epage edirty r disk =
     (case r of None \<Rightarrow> disk
      | Some e \<Rightarrow> if edirty e then disk(eid e \<mapsto> epage e) else disk)"

locale write_back_cache =
  fixes inv :: "'c \<Rightarrow> bool"
    and lookup :: "'c \<Rightarrow> 'i \<Rightarrow> 'p option"
    and dirt :: "'c \<Rightarrow> 'i \<Rightarrow> bool"
    and insert :: "'i \<Rightarrow> 'p \<Rightarrow> 'c \<Rightarrow> (error + 'e option) \<times> 'c"
    and eid :: "'e \<Rightarrow> 'i" and epage :: "'e \<Rightarrow> 'p" and edirty :: "'e \<Rightarrow> bool"
  assumes insert_inv: "inv c \<Longrightarrow> inv (snd (insert i p c))"
    and insert_None: "inv c \<Longrightarrow> lookup c i = None \<Longrightarrow> insert i p c = (Inr None, c') \<Longrightarrow>
      lookup c' = (lookup c)(i \<mapsto> p) \<and> dirt c' = dirt c"
    and insert_Some: "inv c \<Longrightarrow> lookup c i = None \<Longrightarrow> insert i p c = (Inr (Some e), c') \<Longrightarrow>
      lookup c (eid e) = Some (epage e) \<and> eid e \<noteq> i \<and> edirty e = dirt c (eid e) \<and>
      lookup c' = (lookup c)(eid e := None, i \<mapsto> p) \<and> dirt c' = (dirt c)(eid e := False)"
begin

lemma insert_view:
  assumes "inv c" and "coherent (lookup c) (dirt c) disk" and "lookup c i = None"
    and "insert i p c = (Inr r, c')"
  shows "view (lookup c') (written_back eid epage edirty r disk) =
    (view (lookup c) disk)(i \<mapsto> p)"
proof (cases r)
  case None
  then have "lookup c' = (lookup c)(i \<mapsto> p)" using insert_None assms by blast
  then show ?thesis using None by (auto simp: view_def written_back_def)
next
  case (Some e)
  then have e: "lookup c (eid e) = Some (epage e)" "eid e \<noteq> i" "edirty e = dirt c (eid e)"
    "lookup c' = (lookup c)(eid e := None, i \<mapsto> p)"
    using insert_Some assms by blast+
  moreover have "\<not> edirty e \<Longrightarrow> disk (eid e) = Some (epage e)"
    using assms(2) e(1,3) by (auto simp: coherent_def)
  ultimately show ?thesis
    using Some by (auto simp: view_def written_back_def fun_eq_iff split: option.splits)
qed

lemma insert_coherent:
  assumes "inv c" and "coherent (lookup c) (dirt c) disk" and "lookup c i = None"
    and "insert i p c = (Inr r, c')"
  shows "coherent (lookup c') (\<lambda>j. j = i \<or> dirt c' j) (written_back eid epage edirty r disk)"
    and "disk i = Some p \<Longrightarrow> coherent (lookup c') (dirt c') (written_back eid epage edirty r disk)"
proof -
  have all: "coherent (lookup c') (\<lambda>j. j = i \<or> dirt c' j) (written_back eid epage edirty r disk) \<and>
    (disk i = Some p \<longrightarrow> coherent (lookup c') (dirt c') (written_back eid epage edirty r disk))"
  proof (cases r)
    case None
    then have "lookup c' = (lookup c)(i \<mapsto> p)" "dirt c' = dirt c" using insert_None assms by blast+
    then show ?thesis using None assms(2) by (auto simp: coherent_def written_back_def)
  next
    case (Some e)
    then have "eid e \<noteq> i" "lookup c' = (lookup c)(eid e := None, i \<mapsto> p)"
      "dirt c' = (dirt c)(eid e := False)"
      using insert_Some assms by blast+
    then show ?thesis using Some assms(2) by (auto simp: coherent_def written_back_def)
  qed
  then show "coherent (lookup c') (\<lambda>j. j = i \<or> dirt c' j) (written_back eid epage edirty r disk)"
    and "disk i = Some p \<Longrightarrow> coherent (lookup c') (dirt c') (written_back eid epage edirty r disk)"
    by blast+
qed

lemma insert_cached:
  assumes "inv c" and "lookup c i = None" and "insert i p c = (Inr r, c')"
  shows "lookup c' i = Some p"
  using insert_None [OF assms(1,2)] insert_Some [OF assms(1,2)] assms(3) by (cases r) auto

end

text \<open>A cache with pins: pinned pages stay, and insertion succeeds while something is unpinned.\<close>

locale pinning_cache = write_back_cache inv lookup dirt insert eid epage edirty
  for inv :: "'c \<Rightarrow> bool" and lookup :: "'c \<Rightarrow> 'i \<Rightarrow> 'p option" and dirt :: "'c \<Rightarrow> 'i \<Rightarrow> bool"
    and insert :: "'i \<Rightarrow> 'p \<Rightarrow> 'c \<Rightarrow> (error + 'e option) \<times> 'c"
    and eid :: "'e \<Rightarrow> 'i" and epage :: "'e \<Rightarrow> 'p" and edirty :: "'e \<Rightarrow> bool" +
  fixes pinned :: "'c \<Rightarrow> 'i \<Rightarrow> bool" and size :: "'c \<Rightarrow> nat" and capacity :: "'c \<Rightarrow> nat"
  assumes evict_unpinned: "inv c \<Longrightarrow> lookup c i = None \<Longrightarrow> insert i p c = (Inr (Some e), c') \<Longrightarrow>
      \<not> pinned c (eid e)"
    and insert_pinned: "inv c \<Longrightarrow> pinned (snd (insert i p c)) = pinned c"
    and insert_succeeds: "inv c \<Longrightarrow>
      size c < capacity c \<or> (\<exists>j. lookup c j \<noteq> None \<and> \<not> pinned c j) \<Longrightarrow>
      \<exists>r c'. insert i p c = (Inr r, c')"
begin

lemma pinned_stays:
  assumes "inv c" and "lookup c i = None" and "insert i p c = (Inr r, c')"
    and "pinned c j" and "lookup c j = Some q"
  shows "lookup c' j = Some q"
proof -
  have ne: "j \<noteq> i" using assms(2,5) by auto
  show ?thesis
  proof (cases r)
    case None
    then show ?thesis using insert_None [OF assms(1,2)] assms(3,5) ne by simp
  next
    case (Some e)
    have "\<not> pinned c (eid e)" using evict_unpinned [OF assms(1,2)] assms(3) Some by blast
    then have "eid e \<noteq> j" using assms(4) by blast
    moreover have "lookup c' = (lookup c)(eid e := None, i \<mapsto> p)"
      using insert_Some [OF assms(1,2)] assms(3) Some by blast
    ultimately show ?thesis using ne assms(5) by simp
  qed
qed

end

interpretation pool_cache: pinning_cache
  pool_inv cached "\<lambda>b i. is_dirty i b" pool_insert ev_id ev_page was_dirty
  pinned "\<lambda>b. length (frames b)" max_frames
proof
  fix b b' :: "'p pool" and i :: u64 and p :: 'p and e :: "'p evicted_page"
  show "pool_inv b \<Longrightarrow> pool_inv (snd (pool_insert i p b))" by (rule pool_inv_insert)
  { assume a: "pool_inv b" "cached b i = None"
    have "length (frames b) < max_frames b \<or> max_frames b \<le> length (frames b)" by linarith
    then have "(case pool_insert i p b of
        (Inr None, b') \<Rightarrow> cached b' = (cached b)(i \<mapsto> p) \<and> (\<forall>j. is_dirty j b' = is_dirty j b)
      | (Inr (Some e), b') \<Rightarrow> cached b (ev_id e) = Some (ev_page e) \<and> ev_id e \<noteq> i \<and>
          was_dirty e = is_dirty (ev_id e) b \<and> cached b' = (cached b)(ev_id e := None, i \<mapsto> p) \<and>
          (\<forall>j. is_dirty j b' = (j \<noteq> ev_id e \<and> is_dirty j b)) \<and> \<not> pinned b (ev_id e)
      | (Inl _, b') \<Rightarrow> True) \<and> (\<forall>j. pinned (snd (pool_insert i p b)) j = pinned b j)"
    proof (elim disjE)
      assume "length (frames b) < max_frames b"
      then obtain b' where "pool_insert i p b = (Inr None, b')" "cached b' = (cached b)(i \<mapsto> p)"
        "\<forall>j. is_dirty j b' = is_dirty j b" "\<forall>j. pinned b' j = pinned b j"
        using pool_insert_room [OF a, of p] by blast
      then show ?thesis by simp
    next
      assume full: "max_frames b \<le> length (frames b)"
      show ?thesis by (rule pool_insert_full [OF a full, where p = p]) simp_all
    qed }
  note laws = this
  show "pool_inv b \<Longrightarrow> cached b i = None \<Longrightarrow> pool_insert i p b = (Inr None, b') \<Longrightarrow>
      cached b' = (cached b)(i \<mapsto> p) \<and> (\<lambda>i. is_dirty i b') = (\<lambda>i. is_dirty i b)"
    using laws by auto
  show "pool_inv b \<Longrightarrow> cached b i = None \<Longrightarrow> pool_insert i p b = (Inr (Some e), b') \<Longrightarrow>
      cached b (ev_id e) = Some (ev_page e) \<and> ev_id e \<noteq> i \<and>
      was_dirty e = is_dirty (ev_id e) b \<and> cached b' = (cached b)(ev_id e := None, i \<mapsto> p) \<and>
      (\<lambda>i. is_dirty i b') = (\<lambda>i. is_dirty i b)(ev_id e := False)"
    using laws by (auto simp: fun_eq_iff)
  show "pool_inv b \<Longrightarrow> cached b i = None \<Longrightarrow> pool_insert i p b = (Inr (Some e), b') \<Longrightarrow>
      \<not> pinned b (ev_id e)"
    using laws by auto
  show "pool_inv b \<Longrightarrow> pinned (snd (pool_insert i p b)) = pinned b"
    using laws pool_insert_hit [of b i p] by (cases "cached b i") (auto simp: fun_eq_iff)
  show "pool_inv b \<Longrightarrow>
      length (frames b) < max_frames b \<or> (\<exists>j. cached b j \<noteq> None \<and> \<not> pinned b j) \<Longrightarrow>
      \<exists>r b'. pool_insert i p b = (Inr r, b')"
  proof (cases "cached b i")
    case None
    assume inv: "pool_inv b" and ex: "length (frames b) < max_frames b \<or>
      (\<exists>j. cached b j \<noteq> None \<and> \<not> pinned b j)"
    show ?thesis
    proof (cases "length (frames b) < max_frames b")
      case True
      then show ?thesis using pool_insert_room [OF inv None] by blast
    next
      case False
      then have full: "max_frames b \<le> length (frames b)" by simp
      show ?thesis using ex False by (rule_tac pool_insert_full [OF inv None full, where p = p]) auto
    qed
  qed (use pool_insert_hit [of b i p] in auto)
qed

end
