(* ===== verification/Pool_Properties.thy ===== *)
theory Pool_Properties
  imports Buffer_Pool
begin

text \<open>
  The properties of the buffer pool: the calls a page file makes as the steps of a state machine,
  its invariant over every reachable pool, the eviction policy, and what a client of the cache may
  rely on.
\<close>

section \<open>The pool as a state machine\<close>

inductive pool_step :: "'p pool \<Rightarrow> 'p pool \<Rightarrow> bool" where
  get: "pool_step b (snd (pool_get i b))"
| insert: "pool_step b (snd (pool_insert i p b))"
| update: "pool_step b (update_page i p b)"
| mark: "pool_step b (mark_dirty i b)"
| update_lsn: "pool_step b (update_lsn i lsn b)"
| set_lsn: "pool_step b (set_lsn_explicit i plsn rlsn b)"
| clear_all: "pool_step b (clear_dirty b)"
| clear_one: "pool_step b (clear_dirty_single i b)"
| pin: "pool_step b (pin i b)"
| unpin: "pool_step b (unpin i b)"
| remove: "pool_step b (snd (pool_remove i b))"

inductive_cases pool_stepE: "pool_step b b'"

inductive reachable_pool :: "nat \<Rightarrow> 'p pool \<Rightarrow> bool" for n where
  start: "reachable_pool n (pool_new n)"
| step: "reachable_pool n b \<Longrightarrow> pool_step b b' \<Longrightarrow> reachable_pool n b'"

lemmas reachable_steps =
  reachable_pool.step [OF _ pool_step.get] reachable_pool.step [OF _ pool_step.insert]
  reachable_pool.step [OF _ pool_step.update] reachable_pool.step [OF _ pool_step.pin]

lemma pool_step_inv: "pool_step b b' \<Longrightarrow> pool_inv b \<Longrightarrow> pool_inv b'"
  by (induction rule: pool_step.induct)
    (auto intro: pool_inv_get pool_inv_insert pool_inv_update_page pool_inv_update_lsn pool_inv_set_lsn
      pool_inv_clear_dirty pool_inv_clear_single pool_inv_pin pool_inv_unpin pool_inv_remove)

lemma max_frames_evict [simp]: "max_frames (snd (evict_one b)) = max_frames b"
  by (auto simp: evict_one_def Let_def split: option.splits)

lemma max_frames_insert [simp]: "max_frames (snd (pool_insert i p b)) = max_frames b"
  by (auto simp: pool_insert_def split: prod.splits) (metis max_frames_evict snd_conv)+

lemma pool_step_max_frames: "pool_step b b' \<Longrightarrow> max_frames b' = max_frames b"
  by (induction rule: pool_step.induct)
    (auto simp: pool_get_def update_page_def update_lsn_def set_lsn_explicit_def clear_dirty_def
      clear_dirty_single_def pin_def unpin_def pool_remove_def)

lemma reachable_pool_inv: "reachable_pool n b \<Longrightarrow> pool_inv b \<and> max_frames b = n"
  by (induction rule: reachable_pool.induct)
    (auto simp: pool_inv_new pool_step_inv pool_step_max_frames, simp add: pool_new_def)

text \<open>C20: Whatever calls a pool of capacity \<open>n\<close> has served, it has at most \<open>n\<close> frames, no page has two
frames or two places in the LRU queue, every framed page is in the queue, and the dirty map has no
duplicate entry.\<close>

theorem pool_invariant:
  assumes "reachable_pool n b"
  shows "length (frames b) \<le> n \<and> distinct (map fst (frames b)) \<and> distinct (lru_order b) \<and>
    fst ` set (frames b) \<subseteq> set (lru_order b) \<and> distinct (map fst (dirty b))"
  using reachable_pool_inv [OF assms] by (simp add: pool_inv_def)

lemma pool_invariant_witness:
  "distinct (lru_order (snd (pool_get 1 (update_page 2 ''b'' (update_page 1 ''a'' (pool_new 2))))))"
proof -
  have "reachable_pool 2 (snd (pool_get 1 (update_page 2 ''b'' (update_page 1 ''a'' (pool_new 2)))))"
    by (intro reachable_steps reachable_pool.start)
  from pool_invariant [OF this] show ?thesis by simp
qed


section \<open>Eviction\<close>

lemma last_touch [simp]: "lru_order (touch i b) = filter (\<lambda>x. x \<noteq> i) (lru_order b) @ [i]"
  by (simp add: touch_def)

text \<open>C19: Inserting a page into a full pool that does not hold it evicts the least recently used page
that is not pinned, and hands it out with its content, its dirty flag and its page LSN so that the
caller can write it back; all other pages stay. When every page is pinned the insertion fails and
the pool is unchanged.\<close>

theorem insert_evicts_lru:
  assumes "reachable_pool n b" and "cached b i = None" and "n \<le> length (frames b)"
  shows "(\<forall>j. cached b j \<noteq> None \<longrightarrow> pinned b j) \<and>
      pool_insert i p b = (Inl (Err ''Buffer pool full: all pages are pinned''), b) \<or>
    (\<exists>e b' m. pool_insert i p b = (Inr (Some e), b') \<and> m < length (lru_order b) \<and>
      ev_id e = lru_order b ! m \<and> \<not> pinned b (ev_id e) \<and>
      (\<forall>l < m. cached b (lru_order b ! l) \<noteq> None \<longrightarrow> pinned b (lru_order b ! l)) \<and>
      cached b (ev_id e) = Some (ev_page e) \<and> was_dirty e = is_dirty (ev_id e) b \<and>
      ev_page_lsn e = page_lsn (ev_id e) b \<and>
      cached b' = (cached b)(ev_id e := None, i \<mapsto> p))"
proof -
  have b: "pool_inv b" "max_frames b \<le> length (frames b)"
    using reachable_pool_inv [OF assms(1)] assms(3) by auto
  show ?thesis
    by (rule pool_insert_full [OF b(1) assms(2) b(2), where p = p]) blast+
qed

lemma insert_evicts_lru_witness:
  "\<exists>e b'. pool_insert 3 ''c'' (snd (pool_get 1 (update_page 2 ''b'' (update_page 1 ''a'' (pool_new 2)))))
    = (Inr (Some e), b') \<and> ev_id e = 2 \<and> ev_page e = ''b''"
proof -
  let ?b = "snd (pool_get 1 (update_page 2 ''b'' (update_page 1 ''a'' (pool_new 2))))"
  have r: "reachable_pool 2 ?b"
    by (intro reachable_steps reachable_pool.start)
  note run = pool_get_def update_page_def pool_insert_def pool_new_def touch_def mark_dirty_def
    update_entry_def
  have f: "cached ?b 3 = None" "2 \<le> length (frames ?b)" "lru_order ?b = [2, 1]"
    "cached ?b 2 = Some ''b''" "\<not> pinned ?b 2"
    by (simp_all add: run cached_def pinned_def)
  from insert_evicts_lru [OF r f(1,2), of "''c''"] obtain e b' m where
    e: "pool_insert 3 ''c'' ?b = (Inr (Some e), b')" "m < length (lru_order ?b)"
    "ev_id e = lru_order ?b ! m" "cached ?b (ev_id e) = Some (ev_page e)"
    "\<forall>l < m. cached ?b (lru_order ?b ! l) \<noteq> None \<longrightarrow> pinned ?b (lru_order ?b ! l)"
    using f(4,5) by fastforce
  have "m = 0"
  proof (rule ccontr)
    assume "m \<noteq> 0"
    with e(5) have "cached ?b (lru_order ?b ! 0) \<noteq> None \<longrightarrow> pinned ?b (lru_order ?b ! 0)" by blast
    then show False using f(3-5) by simp
  qed
  with e f(3,4) show ?thesis by auto
qed

text \<open>C21: A pinned page stays in the pool through every call, except the removal of that very page.\<close>

theorem pinned_page_stays:
  assumes "reachable_pool n b" and "pool_step b b'" and "pinned b j"
    and "b' \<noteq> snd (pool_remove j b)"
  shows "cached b' j \<noteq> None"
proof -
  have inv: "pool_inv b" using reachable_pool_inv [OF assms(1)] by simp
  from assms(3) obtain q where q: "cached b j = Some q" by (auto simp: pinned_def cached_def)
  have ins: "cached (snd (pool_insert i p b)) j \<noteq> None" for i p
  proof (cases "cached b i")
    case None
    show ?thesis
    proof (cases "fst (pool_insert i p b)")
      case (Inr r)
      then have "pool_insert i p b = (Inr r, snd (pool_insert i p b))" by (simp add: prod_eq_iff)
      from pool_cache.pinned_stays [OF inv None this assms(3) q] show ?thesis by simp
    next
      case (Inl e)
      have "pool_insert i p b = (Inl e, b)"
      proof (cases "length (frames b) < max_frames b")
        case True
        then show ?thesis using pool_insert_room [OF inv None, of p] Inl by auto
      next
        case False
        then have "max_frames b \<le> length (frames b)" by simp
        then show ?thesis
          by (rule pool_insert_full [OF inv None, where p = p]) (use Inl in auto)
      qed
      then show ?thesis using q by simp
    qed
  qed (use q in \<open>simp add: pool_insert_hit\<close>)
  from assms(2) show ?thesis
  proof cases
    case (update i p)
    then show ?thesis
      using q ins [of i p] by (auto simp: update_page_def cached_update_entry cached_def)
  next
    case (remove i)
    then have "i \<noteq> j" using assms(4) by blast
    then show ?thesis using q remove by (auto simp: pool_remove_def cached_def)
  next
    case clear_all
    then show ?thesis using q by (auto simp: clear_dirty_def cached_def map_of_map)
  qed (use q ins in \<open>auto simp: pool_get_def update_lsn_def set_lsn_explicit_def
      clear_dirty_single_def pin_def unpin_def cached_update_entry cached_def\<close>)
qed

lemma pinned_page_stays_witness:
  "cached (snd (pool_insert 2 ''b'' (pin 1 (update_page 1 ''a'' (pool_new 2))))) 1 \<noteq> None"
proof -
  let ?b = "pin 1 (update_page 1 ''a'' (pool_new 2))"
  have r: "reachable_pool 2 ?b"
    by (intro reachable_steps reachable_pool.start)
  note run = pin_def update_page_def pool_insert_def pool_new_def touch_def mark_dirty_def
    update_entry_def pool_remove_def
  have f: "pinned ?b 1" "snd (pool_insert 2 ''b'' ?b) \<noteq> snd (pool_remove 1 ?b)"
    by (simp_all add: run pinned_def)
  show ?thesis by (rule pinned_page_stays [OF r pool_step.insert f])
qed


section \<open>What a page file sees through the cache\<close>

text \<open>As long as the clean pages of the pool are on disk, caching a page that was just read and
writing back the evicted page when it was dirty changes nothing a client can see: the contents are
those from before with the new page added, and the clean pages are again on disk.\<close>

theorem insert_transparent:
  assumes "reachable_pool n b" and "coherent (cached b) (\<lambda>j. is_dirty j b) disk"
    and "cached b i = None" and "disk i = Some p" and "pool_insert i p b = (Inr r, b')"
    and "disk' = (case r of Some e \<Rightarrow> if was_dirty e then disk(ev_id e \<mapsto> ev_page e) else disk
      | None \<Rightarrow> disk)"
  shows "view (cached b') disk' = view (cached b) disk \<and>
    coherent (cached b') (\<lambda>j. is_dirty j b') disk'"
proof -
  have inv: "pool_inv b" using reachable_pool_inv [OF assms(1)] by simp
  have d: "disk' = written_back ev_id ev_page was_dirty r disk"
    unfolding assms(6) written_back_def by (cases r) auto
  have "(view (cached b) disk)(i \<mapsto> p) = view (cached b) disk"
    using assms(3,4) by (auto simp: view_def fun_eq_iff)
  then show ?thesis
    using pool_cache.insert_view [OF inv assms(2,3,5)]
      pool_cache.insert_coherent(2) [OF inv assms(2,3,5,4)] d
    by simp
qed

lemma insert_transparent_example:
  "\<exists>b'. pool_insert 2 ''b'' (update_page 1 ''a'' (pool_new 1)) =
      (Inr (Some \<lparr>ev_id = 1, ev_page = ''a'', was_dirty = True, ev_page_lsn = 0, ev_rec_lsn = 0\<rparr>), b')
    \<and> view (cached b') [2 \<mapsto> ''b'', 1 \<mapsto> ''a''] = [2 \<mapsto> ''b'', 1 \<mapsto> ''a'']"
proof -
  let ?b = "update_page 1 ''a'' (pool_new 1)"
  let ?e = "\<lparr>ev_id = 1, ev_page = ''a'', was_dirty = True, ev_page_lsn = 0, ev_rec_lsn = 0\<rparr>"
  have r: "reachable_pool 1 ?b" by (intro reachable_steps reachable_pool.start)
  note run = update_page_def pool_insert_def pool_new_def touch_def mark_dirty_def
    update_entry_def evict_one_def is_dirty_def
  have f: "coherent (cached ?b) (\<lambda>j. is_dirty j ?b) [2 \<mapsto> ''b'']" "cached ?b 2 = None"
    by (auto simp: run cached_def coherent_def)
  obtain b' where i: "pool_insert 2 ''b'' ?b = (Inr (Some ?e), b')" by (simp add: run)
  have "view (cached ?b) [2 \<mapsto> ''b''] = [2 \<mapsto> ''b'', 1 \<mapsto> ''a'']"
    by (auto simp: run cached_def view_def fun_eq_iff)
  with insert_transparent [OF r f _ i refl] i show ?thesis by auto
qed

text \<open>C30: \<open>update_page\<close> of a page that has been evicted in the meantime (which is what a page guard
does when it is dropped) inserts the page and throws the evicted victim away: in a full pool whose
unpinned pages are all dirty, the modifications of some dirty page are neither in the pool nor
handed to anyone afterwards.\<close>

theorem update_page_loses_dirty_victim:
  assumes "reachable_pool n b" and "cached b i = None" and "n \<le> length (frames b)"
    and "cached b j \<noteq> None" and "\<not> pinned b j"
    and "\<forall>j. cached b j \<noteq> None \<and> \<not> pinned b j \<longrightarrow> is_dirty j b"
  shows "\<exists>v q. cached b v = Some q \<and> is_dirty v b \<and> cached (update_page i p b) v = None"
proof -
  have b: "pool_inv b" "max_frames b \<le> length (frames b)"
    using reachable_pool_inv [OF assms(1)] assms(3) by auto
  show ?thesis
  proof (rule pool_insert_full [OF b(1) assms(2) b(2), where p = p])
    assume "\<forall>j. cached b j \<noteq> None \<longrightarrow> pinned b j"
    then show ?thesis using assms(4,5) by blast
  next
    fix e b'
    assume e: "pool_insert i p b = (Inr (Some e), b')" "cached b (ev_id e) = Some (ev_page e)"
      "ev_id e \<noteq> i" "\<not> pinned b (ev_id e)" "cached b' = (cached b)(ev_id e := None, i \<mapsto> p)"
    have "update_page i p b = mark_dirty i b'"
      using assms(2) e(1) by (simp add: update_page_def cached_def)
    then have "cached (update_page i p b) (ev_id e) = None" using e(3,5) by simp
    moreover have "is_dirty (ev_id e) b" using assms(6) e(2,4) by simp
    ultimately show ?thesis using e(2) by blast
  qed
qed

lemma update_page_loses_dirty_victim_witness:
  "\<exists>v q. cached (update_page 1 ''a'' (pool_new 1)) v = Some q \<and>
    cached (update_page 2 ''b'' (update_page 1 ''a'' (pool_new 1))) v = None"
proof -
  let ?b = "update_page 1 ''a'' (pool_new 1)"
  have r: "reachable_pool 1 ?b" by (intro reachable_steps reachable_pool.start)
  note run = update_page_def pool_insert_def pool_new_def touch_def mark_dirty_def
    update_entry_def is_dirty_def
  have f: "cached ?b 2 = None" "1 \<le> length (frames ?b)" "cached ?b 1 \<noteq> None" "\<not> pinned ?b 1"
    "\<forall>j. cached ?b j \<noteq> None \<and> \<not> pinned ?b j \<longrightarrow> is_dirty j ?b"
    by (auto simp: run cached_def pinned_def)
  show ?thesis
    using update_page_loses_dirty_victim [OF r f, of "''b''"] by blast
qed

end
