(* ===== verification/File_Model.thy ===== *)
theory File_Model
  imports Prelude
begin

text \<open>
  The parts of \<open>std::fs::File\<close> the engine uses. A file is its contents; positioned writes extend it
  (with zeros where they leave a gap), a short read is an error, \<open>set_len\<close> truncates or pads with
  zeros, and \<open>sync_data\<close>/\<open>sync_all\<close> have no effect on the contents. Errors of the device are
  not modelled.
\<close>

type_synonym disk_file = bytes

definition write_all_at :: "bytes \<Rightarrow> nat \<Rightarrow> disk_file \<Rightarrow> disk_file" where
  "write_all_at bs off f =
     (if bs = [] then f
      else take off f @ replicate (off - length f) 0 @ bs @ drop (off + length bs) f)"

definition read_exact_at :: "nat \<Rightarrow> nat \<Rightarrow> disk_file \<Rightarrow> error + bytes" where
  "read_exact_at n off f =
     (if n = 0 then Inr []
      else if off + n \<le> length f then Inr (slice f off (off + n))
      else Inl (Err ''failed to fill whole buffer''))"

definition set_len :: "nat \<Rightarrow> disk_file \<Rightarrow> disk_file" where
  "set_len n f = take n f @ replicate (n - length f) 0"

lemma length_set_len [simp]: "length (set_len n f) = n"
  by (simp add: set_len_def)

lemma length_write_all_at:
  "bs \<noteq> [] \<Longrightarrow> length (write_all_at bs off f) = max (length f) (off + length bs)"
  by (simp add: write_all_at_def)

lemma write_all_at_within:
  "off + length bs \<le> length f \<Longrightarrow> write_all_at bs off f = write_at off bs f"
  by (auto simp: write_all_at_def write_at_def)

lemma write_all_at_end: "write_all_at bs (length f) f = f @ bs"
  by (simp add: write_all_at_def)

lemma read_exact_at_within:
  "off + n \<le> length f \<Longrightarrow> read_exact_at n off f = Inr (slice f off (off + n))"
  by (auto simp: read_exact_at_def slice_def)

lemma slice_set_len: "b \<le> length f \<Longrightarrow> b \<le> n \<Longrightarrow> slice (set_len n f) a b = slice f a b"
  by (intro nth_equalityI) (simp_all add: nth_slice, auto simp: set_len_def nth_append)

lemma slice_set_len_beyond:
  "length f \<le> a \<Longrightarrow> a \<le> b \<Longrightarrow> b \<le> n \<Longrightarrow> slice (set_len n f) a b = replicate (b - a) 0"
  by (intro nth_equalityI) (simp_all add: nth_slice, auto simp: set_len_def nth_append)

end
