(* ===== verification/Wal.thy ===== *)
theory Wal
  imports Wal_Record File_Model
begin

text \<open>
  The write-ahead log: the in-memory buffer of \<open>wal_buffer.rs\<close> and the log of \<open>wal.rs\<close>
  (\<open>WalInner\<close>, and \<open>Wal\<close> that wraps it in a mutex and publishes the flushed LSN). The second half of
  the file relates a log to the list of records it holds (\<open>wal_rep\<close>) and shows what appending,
  flushing, reading back and reopening do to that list.
\<close>

section \<open>The buffer\<close>

record wal_buffer =
  wb_buffer :: bytes
  wb_offsets :: "(u64 \<times> nat) list"
  wb_max_frames :: nat

definition wal_buffer_new :: "nat \<Rightarrow> wal_buffer" where
  "wal_buffer_new n = \<lparr>wb_buffer = [], wb_offsets = [], wb_max_frames = n\<rparr>"

definition wb_is_full :: "wal_buffer \<Rightarrow> bool" where
  "wb_is_full wb \<longleftrightarrow> wb_max_frames wb \<le> length (wb_offsets wb)"

definition wb_insert :: "bytes \<Rightarrow> u64 \<Rightarrow> nat \<Rightarrow> wal_buffer \<Rightarrow> wal_buffer" where
  "wb_insert buf lsn rec_offset wb =
     wb\<lparr>wb_buffer := wb_buffer wb @ buf, wb_offsets := wb_offsets wb @ [(lsn, rec_offset)]\<rparr>"


section \<open>The log\<close>

definition WAL_POOL_CAPACITY :: nat where "WAL_POOL_CAPACITY = 10000"

record wal_inner =
  log_file :: disk_file
  wal_buf :: wal_buffer
  wal_hdr :: wal_header
  flushed_lsn :: u64
  active_txns :: "(u64, u64) hmap"

text \<open>The loop that looks for the last buffered record whose LSN is at most the target.\<close>

fun last_flushable :: "u64 \<Rightarrow> nat \<Rightarrow> nat \<Rightarrow> (u64 \<times> nat) list \<Rightarrow> nat" where
  "last_flushable target i idx [] = idx"
| "last_flushable target i idx ((lsn, _) # os) =
     (if lsn \<le> target then last_flushable target (Suc i) i os else idx)"

definition write_disk_header :: "wal_header \<Rightarrow> (wal_inner, unit) m" where
  "write_disk_header h =
     modify (\<lambda>w. w\<lparr>log_file := write_all_at
       (snd (wal_header_serialize h (replicate WAL_HEADER_SIZE 0))) 0 (log_file w)\<rparr>)"

definition flush_up_to :: "u64 \<Rightarrow> (wal_inner, unit) m" where
  "flush_up_to target_lsn w =
     (let offsets = wb_offsets (wal_buf w) in
      if target_lsn \<le> flushed_lsn w \<and> target_lsn \<noteq> - 1 then (Inr (), w)
      else if offsets = [] then (Inr (), w)
      else
        let first_lsn = fst (hd offsets);
            start_file_offset = of_nat (snd (hd offsets)) :: u64
        in
        if target_lsn < first_lsn \<and> target_lsn \<noteq> - 1 then (Inr (), w)
        else
          let last_lsn = fst (last offsets) in
          if last_lsn \<le> target_lsn then
            write_disk_header ((wal_hdr w)\<lparr>last_wal_offset := of_nat (snd (last offsets)),
                last_wal_len := last_wal_len (wal_hdr w)\<rparr>)
              (w\<lparr>log_file := write_all_at (wb_buffer (wal_buf w)) (unat start_file_offset) (log_file w),
                 flushed_lsn := last_lsn,
                 wal_buf := (wal_buf w)\<lparr>wb_buffer := [], wb_offsets := []\<rparr>\<rparr>)
          else
            let idx = last_flushable target_lsn 0 0 offsets in
            case index_r offsets (idx + 1) of
              Inl e \<Rightarrow> (Inl e, w)
            | Inr (_, next_record_offset) \<Rightarrow>
                let flushed_offset = of_nat (snd (offsets ! idx)) :: u64;
                    flushed_len = of_nat (next_record_offset - snd (offsets ! idx)) :: u32;
                    flush_len = next_record_offset - snd (hd offsets)
                in
                case slice_r (wb_buffer (wal_buf w)) 0 flush_len of
                  Inl e \<Rightarrow> (Inl e, w)
                | Inr bs \<Rightarrow>
                    write_disk_header ((wal_hdr w)\<lparr>last_wal_offset := flushed_offset,
                        last_wal_len := flushed_len\<rparr>)
                      (w\<lparr>log_file := write_all_at bs (unat start_file_offset) (log_file w),
                         flushed_lsn := fst (offsets ! idx),
                         wal_buf := (wal_buf w)\<lparr>
                           wb_buffer := drop flush_len (wb_buffer (wal_buf w)),
                           wb_offsets := drop (idx + 1) offsets\<rparr>\<rparr>))"

definition wal_flush_all :: "(wal_inner, unit) m" where
  "wal_flush_all = flush_up_to (- 1)"

definition flush_header :: "(wal_inner, unit) m" where
  "flush_header = andthen (gets wal_hdr) write_disk_header"

definition write_raw_record ::
  "u64 \<Rightarrow> record_type \<Rightarrow> u64 \<Rightarrow> bool \<Rightarrow> u16 \<Rightarrow> bytes \<Rightarrow> (wal_inner, u64) m" where
  "write_raw_record txn_id record_type page_id is_index payload_page_offset payload =
     andthen (gets (\<lambda>w. wb_is_full (wal_buf w))) (\<lambda>full.
     andthen (only_if full wal_flush_all) (\<lambda>_ w.
       let h = wal_hdr w;
           lsn = next_lsn h;
           total_len = WAL_RECORD_HEADER_SIZE + length payload;
           rec_offset = last_wal_offset h + ucast (last_wal_len h);
           rec_header = \<lparr>rh_lsn = lsn, rh_prev_record_len = last_wal_len h, rh_txn_id = txn_id,
             rh_record_type = record_type, rh_page_id = page_id, rh_is_index = is_index,
             rh_payload_len = of_nat (length payload),
             rh_payload_page_offset = payload_page_offset\<rparr>;
           buf = snd (record_header_serialize rec_header (replicate WAL_RECORD_HEADER_SIZE 0))
             @ payload
       in (Inr lsn,
           w\<lparr>wal_hdr := h\<lparr>next_lsn := lsn + 1, last_wal_len := of_nat total_len,
                         last_wal_offset := rec_offset\<rparr>,
             wal_buf := wb_insert buf lsn (unat rec_offset) (wal_buf w)\<rparr>)))"

definition set_active :: "u64 \<Rightarrow> u64 \<Rightarrow> (wal_inner, unit) m" where
  "set_active txn_id lsn = modify (active_txns_update (map_insert txn_id lsn))"

definition clear_active :: "u64 \<Rightarrow> (wal_inner, unit) m" where
  "clear_active txn_id = modify (active_txns_update (map_remove txn_id))"

definition write_record ::
  "u64 \<Rightarrow> record_type \<Rightarrow> u64 \<Rightarrow> bool \<Rightarrow> update_payload \<Rightarrow> (wal_inner, u64) m" where
  "write_record txn_id record_type page_id is_index payload =
     andthen (write_raw_record txn_id record_type page_id is_index (offset_in_page payload)
        (update_payload_serialize payload [])) (\<lambda>lsn.
     andthen (only_if (txn_id \<noteq> 0) (set_active txn_id lsn)) (\<lambda>_. ok lsn))"

definition begin_transaction :: "u64 \<Rightarrow> (wal_inner, u64) m" where
  "begin_transaction txn_id =
     andthen (write_raw_record txn_id Begin 0 False 0 []) (\<lambda>lsn.
     andthen (set_active txn_id lsn) (\<lambda>_. ok txn_id))"

definition commit_transaction :: "u64 \<Rightarrow> (wal_inner, u64) m" where
  "commit_transaction txn_id =
     andthen (write_raw_record txn_id Commit 0 False 0 []) (\<lambda>lsn.
     andthen (clear_active txn_id) (\<lambda>_.
     andthen (flush_up_to lsn) (\<lambda>_. ok lsn)))"

definition abort_transaction :: "u64 \<Rightarrow> (wal_inner, u64) m" where
  "abort_transaction txn_id =
     andthen (write_raw_record txn_id Abort 0 False 0 []) (\<lambda>lsn.
     andthen (clear_active txn_id) (\<lambda>_.
     andthen (flush_up_to lsn) (\<lambda>_. ok lsn)))"

definition write_clr :: "u64 \<Rightarrow> bool \<Rightarrow> u64 \<Rightarrow> u16 \<Rightarrow> bytes \<Rightarrow> (wal_inner, u64) m" where
  "write_clr txn_id is_index page_id payload_page_offset redo =
     andthen (write_raw_record txn_id Clr page_id is_index payload_page_offset
        (to_le (0 :: u16) @ to_le (of_nat (length redo) :: u16) @ redo)) (\<lambda>lsn.
     andthen (only_if (txn_id \<noteq> 0) (set_active txn_id lsn)) (\<lambda>_. ok lsn))"

definition write_checkpoint ::
  "dirty_page_entry list \<Rightarrow> active_txn_entry list \<Rightarrow> (wal_inner, u64) m" where
  "write_checkpoint dpt att =
     andthen (write_raw_record 0 Checkpoint 0 False 0 (checkpoint_payload dpt att)) (\<lambda>lsn.
     andthen (flush_up_to lsn) (\<lambda>_.
     andthen (modify (wal_hdr_update (last_checkpoint_lsn_update (\<lambda>_. lsn)))) (\<lambda>_.
     andthen flush_header (\<lambda>_. ok lsn))))"

definition active_transaction_table :: "wal_inner \<Rightarrow> active_txn_entry list" where
  "active_transaction_table w =
     map (\<lambda>(t, l). \<lparr>at_txn_id = t, at_last_lsn = l\<rparr>) (active_txns w)"


section \<open>Opening and reading\<close>

record wal =
  inner :: wal_inner
  pub_flushed_lsn :: u64

text \<open>
  Every method of \<open>Wal\<close> that writes runs the method of \<open>WalInner\<close> under the lock and then stores the
  flushed LSN in the atomic; a failure returns before the store.
\<close>

definition with_inner :: "(wal_inner, 'a) m \<Rightarrow> (wal, 'a) m" where
  "with_inner p w =
     (case p (inner w) of
        (Inl e, i) \<Rightarrow> (Inl e, w\<lparr>inner := i\<rparr>)
      | (Inr a, i) \<Rightarrow> (Inr a, w\<lparr>inner := i, pub_flushed_lsn := flushed_lsn i\<rparr>))"

definition wal_new :: "disk_file \<Rightarrow> error + wal" where
  "wal_new file =
     try_r
       (if length file = 0 then
          let h = \<lparr>last_checkpoint_lsn = 0, last_wal_offset = of_nat WAL_HEADER_SIZE,
                   last_wal_len = 0, next_lsn = 1\<rparr>
          in Inr (h, write_all_at (snd (wal_header_serialize h (replicate WAL_HEADER_SIZE 0))) 0 file)
        else if WAL_HEADER_SIZE \<le> length file then
          try_r (read_exact_at WAL_HEADER_SIZE 0 file) (\<lambda>buf.
          try_r (wal_header_deserialize buf) (\<lambda>x.
          case x of None \<Rightarrow> Inl (Err ''corrupt wal header'') | Some h \<Rightarrow> Inr (h, file)))
        else Inl (Err ''wal file exists but header is truncated/corrupt''))
       (\<lambda>(h, file').
          let fl = (if next_lsn h = 0 then 0 else next_lsn h - 1) in
          Inr \<lparr>inner = \<lparr>log_file = file', wal_buf = wal_buffer_new WAL_POOL_CAPACITY,
                  wal_hdr = h, flushed_lsn = fl, active_txns = []\<rparr>,
               pub_flushed_lsn = fl\<rparr>)"

definition read_record_at_file :: "disk_file \<Rightarrow> nat \<Rightarrow> error + (wal_record \<times> nat)" where
  "read_record_at_file file file_offset =
     try_r (read_exact_at WAL_RECORD_HEADER_SIZE file_offset file) (\<lambda>header_buf.
     try_r (record_header_deserialize header_buf) (\<lambda>x.
     case x of None \<Rightarrow> Inl (Err ''Corrupt WAL record header'') | Some h \<Rightarrow>
     try_r (read_exact_at (unat (rh_payload_len h)) (file_offset + WAL_RECORD_HEADER_SIZE) file)
       (\<lambda>payload.
     Inr (\<lparr>wr_header = h, wr_payload = payload\<rparr>,
          file_offset + WAL_RECORD_HEADER_SIZE + unat (rh_payload_len h)))))"

lemma read_record_advances:
  "read_record_at_file file off = Inr (r, next) \<Longrightarrow> off < next \<and> next \<le> length file"
  by (auto simp: read_record_at_file_def try_r_def read_exact_at_def
      split: sum.splits option.splits if_splits)

function read_all_from :: "disk_file \<Rightarrow> nat \<Rightarrow> wal_record list" where
  "read_all_from file offset =
     (if offset + WAL_RECORD_HEADER_SIZE \<le> length file then
        case read_record_at_file file offset of
          Inl _ \<Rightarrow> []
        | Inr (r, next) \<Rightarrow> r # read_all_from file next
      else [])"
  by pat_completeness auto
termination
  by (relation "measure (\<lambda>(file, offset). length file - offset)")
    (auto dest: read_record_advances)

declare read_all_from.simps [simp del]

definition read_all_records :: "wal_inner \<Rightarrow> wal_record list" where
  "read_all_records w = read_all_from (log_file w) WAL_HEADER_SIZE"

function read_backward_from :: "disk_file \<Rightarrow> nat \<Rightarrow> error + wal_record list" where
  "read_backward_from file offset =
     (if WAL_HEADER_SIZE \<le> offset then
        case read_record_at_file file offset of
          Inl e \<Rightarrow> Inl e
        | Inr (r, _) \<Rightarrow>
            let prev_len = unat (rh_prev_record_len (wr_header r)) in
            if prev_len = 0 then Inr [r]
            else if offset < WAL_HEADER_SIZE + prev_len then Inr [r]
            else try_r (read_backward_from file (offset - prev_len)) (\<lambda>rs. Inr (r # rs))
      else Inr [])"
  by pat_completeness auto
termination
  by (relation "measure snd") auto

declare read_backward_from.simps [simp del]

definition read_records_backward :: "wal_inner \<Rightarrow> error + wal_record list" where
  "read_records_backward w =
     (if last_wal_len (wal_hdr w) = 0 then Inr []
      else read_backward_from (log_file w) (unat (last_wal_offset (wal_hdr w))))"

end
