(* ===== verification/Wal_Refinement.thy ===== *)
theory Wal_Refinement
  imports Wal
begin

text \<open>
  The log as a list of records. \<open>wal_rep w done pend\<close> says that the file of \<open>w\<close> holds exactly the
  records \<open>done\<close> behind its header, and the buffer the records \<open>pend\<close>; records are chained by
  their lengths and strictly ordered by LSN. Appending, flushing, reading in both directions,
  committing and reopening are then operations on these two lists.
\<close>

section \<open>Representation\<close>

abbreviation lsn_of :: "wal_record \<Rightarrow> u64" where
  "lsn_of r \<equiv> rh_lsn (wr_header r)"

definition records_bytes :: "wal_record list \<Rightarrow> bytes" where
  "records_bytes rs = concat (map record_bytes rs)"

fun offsets_of :: "nat \<Rightarrow> wal_record list \<Rightarrow> (u64 \<times> nat) list" where
  "offsets_of off [] = []"
| "offsets_of off (r # rs) = (lsn_of r, off) # offsets_of (off + length (record_bytes r)) rs"

fun chained :: "nat \<Rightarrow> wal_record list \<Rightarrow> bool" where
  "chained prev [] = True"
| "chained prev (r # rs) =
     (unat (rh_prev_record_len (wr_header r)) = prev \<and>
      unat (rh_payload_len (wr_header r)) = length (wr_payload r) \<and>
      chained (length (record_bytes r)) rs)"

definition last_len :: "wal_record list \<Rightarrow> nat" where
  "last_len rs = (if rs = [] then 0 else length (record_bytes (last rs)))"

definition last_off :: "wal_record list \<Rightarrow> nat" where
  "last_off rs = 28 + length (records_bytes (butlast rs))"

text \<open>The header \<open>h\<close> points at the last of the records \<open>rs\<close>.\<close>

definition points_at :: "wal_header \<Rightarrow> wal_record list \<Rightarrow> bool" where
  "points_at h rs \<longleftrightarrow> unat (last_wal_offset h) = last_off rs \<and>
     unat (last_wal_len h) = last_len rs \<and> (\<forall>r \<in> set rs. lsn_of r < next_lsn h)"

definition wal_rep :: "wal_inner \<Rightarrow> wal_record list \<Rightarrow> wal_record list \<Rightarrow> bool" where
  "wal_rep w done pend \<longleftrightarrow>
     (\<exists>dh. log_file w = wal_header_bytes dh @ records_bytes done \<and> points_at dh done \<and>
        next_lsn dh \<noteq> 0) \<and>
     wb_buffer (wal_buf w) = records_bytes pend \<and>
     wb_offsets (wal_buf w) = offsets_of (28 + length (records_bytes done)) pend \<and>
     points_at (wal_hdr w) (done @ pend) \<and>
     chained 0 (done @ pend) \<and> sorted_wrt (<) (map lsn_of (done @ pend)) \<and>
     (\<forall>r \<in> set done. lsn_of r \<le> flushed_lsn w) \<and> (\<forall>r \<in> set pend. flushed_lsn w < lsn_of r) \<and>
     flushed_lsn w < next_lsn (wal_hdr w) \<and>
     28 + length (records_bytes (done @ pend)) < 18446744073709551616"

lemma records_bytes_simps [simp]:
  "records_bytes [] = []" "records_bytes (r # rs) = record_bytes r @ records_bytes rs"
  "records_bytes (rs @ ss) = records_bytes rs @ records_bytes ss"
  by (simp_all add: records_bytes_def)

lemma records_bytes_empty [simp]: "records_bytes rs = [] \<longleftrightarrow> rs = []"
  by (cases rs) simp_all

lemma last_off_len: "last_off rs + last_len rs = 28 + length (records_bytes rs)"
proof (cases rs rule: rev_cases)
  case (snoc ys y)
  then show ?thesis by (simp add: last_off_def last_len_def)
qed (simp add: last_off_def last_len_def)

lemma offsets_of_empty [simp]: "offsets_of off rs = [] \<longleftrightarrow> rs = []"
  by (cases rs) simp_all

lemma length_offsets_of [simp]: "length (offsets_of off rs) = length rs"
  by (induction rs arbitrary: off) simp_all

lemma offsets_of_append [simp]:
  "offsets_of off (rs @ ss) = offsets_of off rs @ offsets_of (off + length (records_bytes rs)) ss"
  by (induction rs arbitrary: off) (simp_all add: add.assoc)

lemma hd_offsets_of [simp]: "rs \<noteq> [] \<Longrightarrow> hd (offsets_of off rs) = (lsn_of (hd rs), off)"
  by (cases rs) simp_all

lemma last_offsets_of:
  "rs \<noteq> [] \<Longrightarrow> last (offsets_of off rs) =
    (lsn_of (last rs), off + length (records_bytes (butlast rs)))"
  by (cases rs rule: rev_cases) simp_all

lemma chained_append:
  "chained prev (rs @ ss) \<longleftrightarrow> chained prev rs \<and>
     chained (if rs = [] then prev else length (record_bytes (last rs))) ss"
  by (induction rs arbitrary: prev) simp_all

lemma chained_snoc:
  "chained 0 (rs @ [r]) \<longleftrightarrow> chained 0 rs \<and>
     unat (rh_prev_record_len (wr_header r)) = last_len rs \<and>
     unat (rh_payload_len (wr_header r)) = length (wr_payload r)"
  by (auto simp: chained_append last_len_def)

lemma wal_header_image [simp]:
  "snd (wal_header_serialize h (replicate WAL_HEADER_SIZE 0)) = wal_header_bytes h"
  by (simp add: wal_hdr.serialize_enc)

lemma record_header_image [simp]:
  "snd (record_header_serialize h (replicate WAL_RECORD_HEADER_SIZE 0)) = record_header_bytes h"
  by (simp add: rec_hdr.serialize_enc)

lemmas header_images [simp] = wal_header_image [simplified] record_header_image [simplified]

lemma write_header_image:
  "length (wal_header_bytes dh) = 28 \<Longrightarrow>
   write_all_at (wal_header_bytes h) 0 (wal_header_bytes dh @ rest) = wal_header_bytes h @ rest"
  by (simp add: write_all_at_within wal_hdr.length_enc write_at_def)

lemma write_disk_header_run:
  "log_file w = wal_header_bytes dh @ rest \<Longrightarrow>
   write_disk_header h w = (Inr (), w\<lparr>log_file := wal_header_bytes h @ rest\<rparr>)"
  by (simp add: write_disk_header_def run_simps write_header_image wal_hdr.length_enc
      del: wal_header_consts)


section \<open>Flushing\<close>

lemma last_flushable_eq:
  "last_flushable t i idx os =
     (let n = length (takeWhile (\<lambda>p. fst p \<le> t) os) in if n = 0 then idx else i + n - 1)"
  by (induction os arbitrary: i idx) (auto simp: Let_def)

lemma takeWhile_offsets_of:
  "length (takeWhile (\<lambda>p. fst p \<le> t) (offsets_of off rs)) =
   length (takeWhile (\<lambda>r. lsn_of r \<le> t) rs)"
  by (induction rs arbitrary: off) simp_all

text \<open>Moving a non-empty prefix of the pending records to the file.\<close>

lemma wal_rep_move:
  assumes rep: "wal_rep w done (ps @ qs)" and ps: "ps \<noteq> []"
    and h: "points_at h (done @ ps)" "next_lsn h \<noteq> 0"
    and f: "log_file w = wal_header_bytes dh @ records_bytes done"
    and w': "w' = w\<lparr>log_file := wal_header_bytes h @ records_bytes (done @ ps),
      flushed_lsn := lsn_of (last ps),
      wal_buf := (wal_buf w)\<lparr>wb_buffer := records_bytes qs,
        wb_offsets := offsets_of (28 + length (records_bytes (done @ ps))) qs\<rparr>\<rparr>"
  shows "wal_rep w' (done @ ps) qs"
proof -
  have srt: "sorted_wrt (<) (map lsn_of (done @ ps @ qs))"
    and pts: "points_at (wal_hdr w) (done @ ps @ qs)"
    using rep by (simp_all add: wal_rep_def)
  obtain ys y where y: "ps = ys @ [y]" using ps by (cases ps rule: rev_cases) auto
  have "lsn_of r \<le> lsn_of (last ps)" if "r \<in> set (done @ ps)" for r
    using that srt by (auto simp: y sorted_wrt_append less_imp_le)
  moreover have "lsn_of (last ps) < lsn_of r" if "r \<in> set qs" for r
    using that srt by (auto simp: y sorted_wrt_append)
  moreover have "lsn_of (last ps) < next_lsn (wal_hdr w)"
    using pts ps by (auto simp: points_at_def)
  ultimately show ?thesis
    using rep h by (auto simp: wal_rep_def w')
qed

lemma points_at_prefix_len:
  assumes "wal_rep w done (ps @ qs)" and "ps \<noteq> []"
  shows "unat (of_nat (last_len ps) :: u32) = last_len ps"
    and "unat (of_nat (28 + length (records_bytes done) + length (records_bytes (butlast ps))) :: u64)
      = last_off (done @ ps)"
proof -
  obtain ys y where y: "ps = ys @ [y]" using assms(2) by (cases ps rule: rev_cases) auto
  have tot: "28 + length (records_bytes (done @ ps @ qs)) < 18446744073709551616"
    using assms(1) by (simp add: wal_rep_def)
  have lo: "last_off (done @ ps) =
      28 + length (records_bytes done) + length (records_bytes (butlast ps))"
    by (simp add: last_off_def y butlast_append)
  show "unat (of_nat (28 + length (records_bytes done) + length (records_bytes (butlast ps))) :: u64)
      = last_off (done @ ps)"
    unfolding lo using tot by (intro unat_u64) (simp add: y)
  have "last_len ps < 4294967296"
  proof (cases qs)
    case Nil
    have "unat (last_wal_len (wal_hdr w)) = last_len ps"
      using assms by (simp add: wal_rep_def points_at_def last_len_def Nil)
    then show ?thesis using u32_lt [of "last_wal_len (wal_hdr w)"] by simp
  next
    case (Cons q qs')
    have "chained 0 (done @ ps @ q # qs')" using assms(1) by (simp add: wal_rep_def Cons)
    then have "unat (rh_prev_record_len (wr_header q)) = last_len ps"
      by (simp add: chained_append last_len_def y)
    then show ?thesis using u32_lt [of "rh_prev_record_len (wr_header q)"] by simp
  qed
  then show "unat (of_nat (last_len ps) :: u32) = last_len ps" by (rule unat_u32)
qed

lemma flush_up_to_all:
  assumes os: "wb_offsets (wal_buf w) = os" "os \<noteq> []"
    and t: "flushed_lsn w < fst (hd os)" "fst (hd os) \<le> t" "fst (last os) \<le> t"
  shows "flush_up_to t w =
    write_disk_header ((wal_hdr w)\<lparr>last_wal_offset := of_nat (snd (last os)),
        last_wal_len := last_wal_len (wal_hdr w)\<rparr>)
      (w\<lparr>log_file := write_all_at (wb_buffer (wal_buf w)) (unat (of_nat (snd (hd os)) :: u64)) (log_file w),
         flushed_lsn := fst (last os),
         wal_buf := (wal_buf w)\<lparr>wb_buffer := [], wb_offsets := []\<rparr>\<rparr>)"
proof -
  have "\<not> t \<le> flushed_lsn w" "\<not> t < fst (hd os)" using t by auto
  then show ?thesis by (simp only: flush_up_to_def Let_def os t simp_thms if_True if_False)
qed

lemma flush_up_to_some:
  assumes os: "wb_offsets (wal_buf w) = os" "os \<noteq> []"
    and t: "flushed_lsn w < fst (hd os)" "fst (hd os) \<le> t" "t < fst (last os)"
    and idx: "last_flushable t 0 0 os = idx" "index_r os (idx + 1) = Inr (l, next)"
    and sl: "slice_r (wb_buffer (wal_buf w)) 0 (next - snd (hd os)) = Inr bs"
  shows "flush_up_to t w =
    write_disk_header ((wal_hdr w)\<lparr>last_wal_offset := of_nat (snd (os ! idx)),
        last_wal_len := of_nat (next - snd (os ! idx))\<rparr>)
      (w\<lparr>log_file := write_all_at bs (unat (of_nat (snd (hd os)) :: u64)) (log_file w),
         flushed_lsn := fst (os ! idx),
         wal_buf := (wal_buf w)\<lparr>wb_buffer := drop (next - snd (hd os)) (wb_buffer (wal_buf w)),
           wb_offsets := drop (idx + 1) os\<rparr>\<rparr>)"
proof -
  have "\<not> t \<le> flushed_lsn w" "\<not> t < fst (hd os)" "\<not> fst (last os) \<le> t" using t by auto
  then show ?thesis
    by (simp only: flush_up_to_def Let_def os idx sl simp_thms if_False sum.case prod.case)
qed

lemma flush_up_to_prefix:
  assumes rep: "wal_rep w done (ps @ qs)" and ps: "ps \<noteq> []" and qs: "qs \<noteq> []"
    and le: "\<forall>r \<in> set ps. lsn_of r \<le> t" and gt: "t < lsn_of (hd qs)"
    and dh: "log_file w = wal_header_bytes dh @ records_bytes done"
  shows "\<exists>w'. flush_up_to t w = (Inr (), w') \<and> wal_rep w' (done @ ps) qs \<and>
    wal_hdr w' = wal_hdr w \<and> active_txns w' = active_txns w \<and>
    wb_max_frames (wal_buf w') = wb_max_frames (wal_buf w) \<and> flushed_lsn w' = lsn_of (last ps)"
proof -
  let ?base = "28 + length (records_bytes done)"
  let ?os = "offsets_of ?base (ps @ qs)" and ?n = "length ps"
  obtain ys y where y: "ps = ys @ [y]" using ps by (cases ps rule: rev_cases) auto
  obtain q zs where q: "qs = q # zs" using qs by (cases qs) auto
  have offs: "wb_offsets (wal_buf w) = ?os"
    and buf: "wb_buffer (wal_buf w) = records_bytes ps @ records_bytes qs"
    and fl: "\<forall>r \<in> set (ps @ qs). flushed_lsn w < lsn_of r"
    and pts: "points_at (wal_hdr w) (done @ ps @ qs)"
    and srt: "sorted_wrt (<) (map lsn_of (done @ ps @ qs))"
    and nz: "next_lsn (wal_hdr w) \<noteq> 0"
    and tot: "?base + length (records_bytes (ps @ qs)) < 18446744073709551616"
    using rep by (auto simp: wal_rep_def)
  have start: "unat (of_nat ?base :: u64) = ?base" using tot by (intro unat_u64) simp
  have tw: "takeWhile (\<lambda>r. lsn_of r \<le> t) (ps @ qs) = ps" using le gt by (simp add: q)
  have lt: "t < lsn_of (last qs)"
  proof -
    have "lsn_of q \<le> lsn_of (last qs)"
      using srt last_in_set [of zs] by (auto simp: q sorted_wrt_append less_imp_le)
    then show ?thesis using gt by (simp add: q)
  qed
  have idx: "last_flushable t 0 0 ?os = length ys"
    by (simp add: last_flushable_eq takeWhile_offsets_of tw Let_def del: offsets_of_append)
      (simp add: y)
  have nxt: "index_r ?os (length ys + 1) = Inr (lsn_of q, ?base + length (records_bytes ps))"
    by (simp add: index_r_def y q nth_append)
  have at_idx: "?os ! length ys = (lsn_of y, ?base + length (records_bytes ys))"
    by (simp add: y nth_append)
  have hd_os: "hd ?os = (lsn_of (hd ps), ?base)" using ps by (cases ps) simp_all
  have last_os: "fst (last ?os) = lsn_of (last qs)" using qs by (simp add: last_offsets_of)
  have sl: "slice_r (wb_buffer (wal_buf w)) 0 (?base + length (records_bytes ps) - snd (hd ?os)) =
      Inr (records_bytes ps)"
    by (simp add: hd_os buf slice_def del: offsets_of_append)
  have fhd: "flushed_lsn w < fst (hd ?os)" "fst (hd ?os) \<le> t"
    using fl le ps unfolding hd_os by (cases ps; simp)+
  let ?h = "(wal_hdr w)\<lparr>last_wal_offset := of_nat (?base + length (records_bytes (butlast ps))),
      last_wal_len := of_nat (last_len ps)\<rparr>"
  let ?w' = "w\<lparr>log_file := wal_header_bytes ?h @ records_bytes (done @ ps),
    flushed_lsn := lsn_of (last ps),
    wal_buf := (wal_buf w)\<lparr>wb_buffer := records_bytes qs,
      wb_offsets := offsets_of (28 + length (records_bytes (done @ ps))) qs\<rparr>\<rparr>"
  have h: "points_at ?h (done @ ps)"
    using pts points_at_prefix_len [OF rep ps] by (auto simp: points_at_def last_len_def y)
  have wr: "write_all_at (records_bytes ps) (unat (of_nat (snd (hd ?os)) :: u64)) (log_file w) =
      wal_header_bytes dh @ records_bytes (done @ ps)"
  proof -
    have "length (log_file w) = ?base" by (simp add: dh wal_hdr.length_enc)
    then show ?thesis
      using write_all_at_end [of "records_bytes ps" "log_file w"] start
      by (simp only: hd_os snd_conv) (simp add: dh)
  qed
  have drops: "drop (?base + length (records_bytes ps) - snd (hd ?os)) (wb_buffer (wal_buf w)) = records_bytes qs"
    "drop (length ys + 1) ?os = offsets_of (28 + length (records_bytes (done @ ps))) qs"
    by (simp add: hd_os buf del: offsets_of_append) (simp add: y add.assoc)
  have len: "?base + length (records_bytes ps) -
      (?base + length (records_bytes (butlast ps))) = last_len ps"
    by (simp add: y last_len_def)
  have off: "snd (?os ! length ys) = ?base + length (records_bytes (butlast ps))"
    "fst (?os ! length ys) = lsn_of (last ps)"
    unfolding at_idx by (simp_all add: y)
  have "flush_up_to t w = write_disk_header ?h
      (w\<lparr>log_file := wal_header_bytes dh @ records_bytes (done @ ps),
         flushed_lsn := lsn_of (last ps), wal_buf := wal_buf ?w'\<rparr>)"
    using flush_up_to_some [OF offs _ fhd _ idx nxt sl] lt ps
    unfolding wr drops len off last_os by simp
  then have "flush_up_to t w = (Inr (), ?w')"
    by (simp add: write_disk_header_run [where dh = dh and rest = "records_bytes (done @ ps)"]
        del: of_nat_add)
  moreover have "wal_rep ?w' (done @ ps) qs"
    by (rule wal_rep_move [OF rep ps h _ dh refl]) (simp add: nz)
  ultimately show ?thesis by simp
qed

lemma flush_up_to_rep:
  assumes rep: "wal_rep w done pend"
  shows "\<exists>w'. flush_up_to t w = (Inr (), w') \<and>
    wal_rep w' (done @ takeWhile (\<lambda>r. lsn_of r \<le> t) pend) (dropWhile (\<lambda>r. lsn_of r \<le> t) pend) \<and>
    wal_hdr w' = wal_hdr w \<and> active_txns w' = active_txns w \<and>
    wb_max_frames (wal_buf w') = wb_max_frames (wal_buf w) \<and> flushed_lsn w \<le> flushed_lsn w'"
proof -
  let ?ps = "takeWhile (\<lambda>r. lsn_of r \<le> t) pend" and ?qs = "dropWhile (\<lambda>r. lsn_of r \<le> t) pend"
  let ?base = "28 + length (records_bytes done)"
  obtain dh where dh: "log_file w = wal_header_bytes dh @ records_bytes done"
    using rep by (auto simp: wal_rep_def)
  have lf: "length (log_file w) = ?base" by (simp add: dh wal_hdr.length_enc)
  have offs: "wb_offsets (wal_buf w) = offsets_of ?base pend"
    and buf: "wb_buffer (wal_buf w) = records_bytes pend"
    and fl: "\<forall>r \<in> set pend. flushed_lsn w < lsn_of r"
    and pts: "points_at (wal_hdr w) (done @ pend)"
    and srt: "sorted_wrt (<) (map lsn_of (done @ pend))"
    and nz: "next_lsn (wal_hdr w) \<noteq> 0"
    and tot: "28 + length (records_bytes (done @ pend)) < 18446744073709551616"
    using rep by (auto simp: wal_rep_def)
  show ?thesis
  proof (cases "?ps = []")
    case True
    then have lt: "pend = [] \<or> t < lsn_of (hd pend)"
      by (cases pend) (auto split: if_splits)
    moreover have "t \<noteq> - 1" if "pend \<noteq> []"
      using lt that word_order.extremum_strict [of "lsn_of (hd pend)"] by auto
    ultimately have "flush_up_to t w = (Inr (), w)"
      by (auto simp: flush_up_to_def offs Let_def)
    moreover have "?qs = pend"
      using True by (cases pend) (auto split: if_splits)
    ultimately show ?thesis using rep True by simp
  next
    case False
    then have ne: "pend \<noteq> []" by auto
    have first: "lsn_of (hd pend) \<le> t" using False by (cases pend) (auto split: if_splits)
    have start: "unat (of_nat ?base :: u64) = ?base"
      using tot by (intro unat_u64) simp
    have mono: "flushed_lsn w \<le> lsn_of (last ps)" if "ps \<noteq> []" "set ps \<subseteq> set pend" for ps
      using fl that last_in_set [OF that(1)] by (meson less_imp_le subsetD)
    show ?thesis
    proof (cases "lsn_of (last pend) \<le> t")
      case True
      have "lsn_of r \<le> t" if "r \<in> set pend" for r
      proof -
        obtain ys y where y: "pend = ys @ [y]" using ne by (cases pend rule: rev_cases) auto
        then have "lsn_of r \<le> lsn_of (last pend)"
          using that srt by (auto simp: sorted_wrt_append less_imp_le)
        then show ?thesis using True by simp
      qed
      then have ps: "?ps = pend" and qs: "?qs = []"
        by (simp_all add: takeWhile_eq_all_conv dropWhile_eq_Nil_conv)
      let ?h = "(wal_hdr w)\<lparr>last_wal_offset := of_nat (?base + length (records_bytes (butlast pend))),
          last_wal_len := last_wal_len (wal_hdr w)\<rparr>"
      let ?w' = "w\<lparr>log_file := wal_header_bytes ?h @ records_bytes (done @ pend),
        flushed_lsn := lsn_of (last pend),
        wal_buf := (wal_buf w)\<lparr>wb_buffer := records_bytes [],
          wb_offsets := offsets_of (28 + length (records_bytes (done @ pend))) []\<rparr>\<rparr>"
      have h: "points_at ?h (done @ pend)"
        using pts points_at_prefix_len(2) [of w "done" pend "[]"] rep ne
        by (simp add: points_at_def)
      have "write_all_at (records_bytes pend) ?base (log_file w) =
          wal_header_bytes dh @ records_bytes (done @ pend)"
        using write_all_at_end [of "records_bytes pend" "log_file w"] by (simp only: lf) (simp add: dh)
      moreover have "fst (hd (offsets_of ?base pend)) \<le> t" "fst (last (offsets_of ?base pend)) \<le> t"
        "flushed_lsn w < fst (hd (offsets_of ?base pend))"
        using ne first True fl by (simp_all add: last_offsets_of)
      ultimately have "flush_up_to t w = (Inr (), ?w')"
        using ne flush_up_to_all [OF offs] start
        by (simp add: buf last_offsets_of
            write_disk_header_run [where dh = dh and rest = "records_bytes (done @ pend)"]
            del: of_nat_add)
      moreover have "wal_rep ?w' (done @ pend) []"
        by (rule wal_rep_move [OF _ ne h _ dh refl]) (simp_all add: rep nz)
      ultimately show ?thesis using mono [OF ne] by (simp add: ps qs)
    next
      case last: False
      have qne: "?qs \<noteq> []" using last ne by (auto simp: dropWhile_eq_Nil_conv)
      have rep2: "wal_rep w done (?ps @ ?qs)" using rep by simp
      have "\<forall>r \<in> set ?ps. lsn_of r \<le> t" by (auto dest: set_takeWhileD)
      moreover have "t < lsn_of (hd ?qs)"
        using hd_dropWhile [of "\<lambda>r. lsn_of r \<le> t" pend] qne by (auto simp: dropWhile_eq_Nil_conv)
      ultimately obtain w' where "flush_up_to t w = (Inr (), w')" "wal_rep w' (done @ ?ps) ?qs"
        "wal_hdr w' = wal_hdr w" "active_txns w' = active_txns w"
        "wb_max_frames (wal_buf w') = wb_max_frames (wal_buf w)" "flushed_lsn w' = lsn_of (last ?ps)"
        using flush_up_to_prefix [OF rep2 False qne _ _ dh] by blast
      then show ?thesis using mono [OF False] set_takeWhileD by fastforce
    qed
  qed
qed

end
