(* ===== verification/Wal_Log.thy ===== *)
theory Wal_Log
  imports Wal_Refinement
begin

text \<open>
  The operations of the log on the list of its records: appending, the transaction records,
  reading the file forwards and backwards, and reopening it after a crash. \<open>wal_state\<close> is the
  invariant a log has for the records it was given.
\<close>

section \<open>Appending\<close>

text \<open>The record \<open>write_raw_record\<close> builds, and the room it needs.\<close>

definition new_record ::
  "wal_inner \<Rightarrow> u64 \<Rightarrow> record_type \<Rightarrow> u64 \<Rightarrow> bool \<Rightarrow> u16 \<Rightarrow> bytes \<Rightarrow> wal_record" where
  "new_record w txn_id ty page_id is_index page_offset payload =
     \<lparr>wr_header = \<lparr>rh_lsn = next_lsn (wal_hdr w), rh_prev_record_len = last_wal_len (wal_hdr w),
        rh_txn_id = txn_id, rh_record_type = ty, rh_page_id = page_id, rh_is_index = is_index,
        rh_payload_len = of_nat (length payload), rh_payload_page_offset = page_offset\<rparr>,
      wr_payload = payload\<rparr>"

lemma new_record_simps [simp]:
  "lsn_of (new_record w x ty p i poff payload) = next_lsn (wal_hdr w)"
  "wr_payload (new_record w x ty p i poff payload) = payload"
  "rh_record_type (wr_header (new_record w x ty p i poff payload)) = ty"
  "rh_txn_id (wr_header (new_record w x ty p i poff payload)) = x"
  "length (record_bytes (new_record w x ty p i poff payload)) = 36 + length payload"
  by (simp_all add: new_record_def length_record_bytes)

definition room_for :: "nat \<Rightarrow> wal_inner \<Rightarrow> bool" where
  "room_for n w \<longleftrightarrow>
     unat (last_wal_offset (wal_hdr w)) + unat (last_wal_len (wal_hdr w)) + 36 + n
       < 18446744073709551616 \<and>
     36 + n < 4294967296 \<and> next_lsn (wal_hdr w) \<noteq> - 1"

lemma wal_flush_all_rep:
  assumes "wal_rep w done pend"
  shows "\<exists>w'. wal_flush_all w = (Inr (), w') \<and> wal_rep w' (done @ pend) [] \<and>
    wal_hdr w' = wal_hdr w \<and> active_txns w' = active_txns w \<and>
    wb_max_frames (wal_buf w') = wb_max_frames (wal_buf w) \<and> flushed_lsn w \<le> flushed_lsn w'"
  using flush_up_to_rep [OF assms, of "- 1"]
  by (simp add: wal_flush_all_def takeWhile_eq_all_conv [THEN iffD2] dropWhile_eq_Nil_conv [THEN iffD2])

lemma append_rep:
  assumes rep: "wal_rep w done pend" and room: "room_for (length payload) w"
    and r: "r = new_record w x ty p i poff payload"
    and w': "w' = w\<lparr>wal_hdr := (wal_hdr w)\<lparr>next_lsn := next_lsn (wal_hdr w) + 1,
          last_wal_len := of_nat (36 + length payload),
          last_wal_offset := last_wal_offset (wal_hdr w) + ucast (last_wal_len (wal_hdr w))\<rparr>,
        wal_buf := wb_insert (record_bytes r) (next_lsn (wal_hdr w))
          (unat (last_wal_offset (wal_hdr w) + ucast (last_wal_len (wal_hdr w)))) (wal_buf w)\<rparr>"
  shows "wal_rep w' done (pend @ [r])"
proof -
  let ?h = "wal_hdr w"
  let ?off = "last_wal_offset ?h + ucast (last_wal_len ?h) :: u64"
  have pts: "points_at ?h (done @ pend)" using rep by (simp add: wal_rep_def)
  have tot: "unat (last_wal_offset ?h) + unat (last_wal_len ?h) =
      28 + length (records_bytes (done @ pend))"
    using pts last_off_len [of "done @ pend"] by (simp add: points_at_def)
  have off: "unat ?off = 28 + length (records_bytes (done @ pend))"
    using tot room by (simp add: unat_u64_add room_for_def)
  have len: "unat (of_nat (36 + length payload) :: u32) = 36 + length payload"
    "unat (of_nat (length payload) :: u32) = length payload"
    using room by (intro unat_u32, simp add: room_for_def)+
  have lsn: "next_lsn ?h < next_lsn ?h + 1"
    using room by (intro u64_less_Suc) (simp add: room_for_def)
  have "points_at (wal_hdr w') (done @ pend @ [r])"
    using pts lsn off len(1)
    by (auto simp: points_at_def w' last_off_def last_len_def r butlast_append simp del: of_nat_add
        intro: less_trans)
  moreover have "chained 0 ((done @ pend) @ [r])"
    using rep pts len(2) unfolding chained_snoc by (auto simp: wal_rep_def points_at_def r new_record_def)
  moreover have "sorted_wrt (<) (map lsn_of (done @ pend @ [r]))"
    using rep pts by (auto simp: wal_rep_def points_at_def sorted_wrt_append r)
  moreover have "28 + length (records_bytes (done @ pend @ [r])) < 18446744073709551616"
    using room tot by (simp add: room_for_def r)
  moreover have "flushed_lsn w < next_lsn ?h" using rep by (simp add: wal_rep_def)
  then have "flushed_lsn w < next_lsn ?h + 1" using lsn by (rule less_trans)
  ultimately show ?thesis
    using rep off \<open>flushed_lsn w < next_lsn ?h\<close>
    by (auto simp: wal_rep_def w' wb_insert_def r add.assoc simp del: of_nat_add)
qed

lemma write_raw_record_rep:
  assumes rep: "wal_rep w done pend" and room: "room_for (length payload) w"
    and r: "r = new_record w x ty p i poff payload"
  shows "\<exists>w' done' pend'. write_raw_record x ty p i poff payload w = (Inr (lsn_of r), w') \<and>
    wal_rep w' done' (pend' @ [r]) \<and> done' @ pend' = done @ pend \<and>
    (if wb_is_full (wal_buf w) then pend' = [] else pend' = pend) \<and>
    next_lsn (wal_hdr w') = next_lsn (wal_hdr w) + 1 \<and>
    last_checkpoint_lsn (wal_hdr w') = last_checkpoint_lsn (wal_hdr w) \<and>
    active_txns w' = active_txns w \<and> flushed_lsn w \<le> flushed_lsn w' \<and>
    wb_max_frames (wal_buf w') = wb_max_frames (wal_buf w)"
proof -
  let ?pend' = "if wb_is_full (wal_buf w) then [] else pend"
  let ?done' = "if wb_is_full (wal_buf w) then done @ pend else done"
  obtain w1 where w1: "only_if (wb_is_full (wal_buf w)) wal_flush_all w = (Inr (), w1)"
    and rep1: "wal_rep w1 ?done' ?pend'"
    and same: "wal_hdr w1 = wal_hdr w" "active_txns w1 = active_txns w" "flushed_lsn w \<le> flushed_lsn w1"
      "wb_max_frames (wal_buf w1) = wb_max_frames (wal_buf w)"
    using wal_flush_all_rep [OF rep] rep by (cases "wb_is_full (wal_buf w)") (auto simp: run_simps)
  have room1: "room_for (length payload) w1" using room same by (simp add: room_for_def)
  have r1: "r = new_record w1 x ty p i poff payload" using r same by (simp add: new_record_def)
  note app = append_rep [OF rep1 room1 r1 refl]
  have img: "record_header_bytes (wr_header r) @ payload = record_bytes r"
    by (simp add: record_bytes_def r)
  have "write_raw_record x ty p i poff payload w =
      (Inr (lsn_of r), w1\<lparr>wal_hdr := (wal_hdr w1)\<lparr>next_lsn := next_lsn (wal_hdr w1) + 1,
          last_wal_len := of_nat (36 + length payload),
          last_wal_offset := last_wal_offset (wal_hdr w1) + ucast (last_wal_len (wal_hdr w1))\<rparr>,
        wal_buf := wb_insert (record_bytes r) (next_lsn (wal_hdr w1))
          (unat (last_wal_offset (wal_hdr w1) + ucast (last_wal_len (wal_hdr w1)))) (wal_buf w1)\<rparr>)"
    unfolding write_raw_record_def img [symmetric] record_header_image [symmetric]
    by (simp add: run_simps andthen_def w1 Let_def r1 new_record_def same del: record_header_image)
  note run = this
  show ?thesis
    by (intro exI conjI, rule run, rule app) (simp_all add: wb_insert_def same)
qed

text \<open>A change of the transaction table or of the checkpoint LSN does not touch the records.\<close>

lemma wal_rep_active [simp]: "wal_rep (w\<lparr>active_txns := a\<rparr>) done pend = wal_rep w done pend"
  by (simp add: wal_rep_def)

lemma wal_rep_checkpoint_lsn [simp]:
  "wal_rep (w\<lparr>wal_hdr := (wal_hdr w)\<lparr>last_checkpoint_lsn := l\<rparr>\<rparr>) done pend = wal_rep w done pend"
  by (simp add: wal_rep_def points_at_def)

lemma set_active_run [run_simps]:
  "set_active t l w = (Inr (), w\<lparr>active_txns := map_insert t l (active_txns w)\<rparr>)"
  by (simp add: set_active_def run_simps)

lemma clear_active_run [run_simps]:
  "clear_active t w = (Inr (), w\<lparr>active_txns := map_remove t (active_txns w)\<rparr>)"
  by (simp add: clear_active_def run_simps)

lemma flush_own_record:
  assumes "wal_rep w done (pend @ [r])"
  shows "\<exists>w'. flush_up_to (lsn_of r) w = (Inr (), w') \<and> wal_rep w' (done @ pend @ [r]) [] \<and>
    wal_hdr w' = wal_hdr w \<and> active_txns w' = active_txns w \<and>
    wb_max_frames (wal_buf w') = wb_max_frames (wal_buf w)"
proof -
  have "\<forall>s \<in> set (pend @ [r]). lsn_of s \<le> lsn_of r"
    using assms by (auto simp: wal_rep_def sorted_wrt_append less_imp_le)
  then have "takeWhile (\<lambda>s. lsn_of s \<le> lsn_of r) (pend @ [r]) = pend @ [r]"
    "dropWhile (\<lambda>s. lsn_of s \<le> lsn_of r) (pend @ [r]) = []"
    by (simp_all only: takeWhile_eq_all_conv dropWhile_eq_Nil_conv)
  then show ?thesis using flush_up_to_rep [OF assms, of "lsn_of r"] by auto
qed

lemma finish_transaction_rep:
  assumes rep: "wal_rep w done pend" and room: "room_for 0 w"
  shows "\<exists>w' r. andthen (write_raw_record t ty 0 False 0 []) (\<lambda>lsn.
      andthen (clear_active t) (\<lambda>_. andthen (flush_up_to lsn) (\<lambda>_. ok lsn))) w =
      (Inr (next_lsn (wal_hdr w)), w') \<and>
    r = new_record w t ty 0 False 0 [] \<and> wal_rep w' (done @ pend @ [r]) [] \<and>
    map_of (active_txns w') = (map_of (active_txns w))(t := None)"
proof -
  define r where "r = new_record w t ty 0 False 0 []"
  obtain w1 done' pend' where w1: "write_raw_record t ty 0 False 0 [] w = (Inr (lsn_of r), w1)"
    and rep1: "wal_rep w1 done' (pend' @ [r])" and eq: "done' @ pend' = done @ pend"
    and act: "active_txns w1 = active_txns w"
    using write_raw_record_rep [OF rep _ r_def] room by auto
  let ?w2 = "w1\<lparr>active_txns := map_remove t (active_txns w)\<rparr>"
  have "wal_rep ?w2 done' (pend' @ [r])" using rep1 by simp
  from flush_own_record [OF this] obtain w3 where "flush_up_to (lsn_of r) ?w2 = (Inr (), w3)"
    "wal_rep w3 (done' @ pend' @ [r]) []" "active_txns w3 = map_remove t (active_txns w)"
    by auto
  then show ?thesis
    using eq act w1 by (auto simp: run_simps andthen_def r_def append_assoc [symmetric] simp del: append_assoc)
qed

lemmas commit_transaction_rep = finish_transaction_rep [where ty = Commit, folded commit_transaction_def]
lemmas abort_transaction_rep = finish_transaction_rep [where ty = Abort, folded abort_transaction_def]


lemma begin_transaction_rep:
  assumes rep: "wal_rep w done pend" and room: "room_for 0 w"
    and r: "r = new_record w t Begin 0 False 0 []"
  shows "\<exists>w' done' pend'. begin_transaction t w = (Inr t, w') \<and>
    wal_rep w' done' (pend' @ [r]) \<and> done' @ pend' = done @ pend \<and>
    active_txns w' = map_insert t (lsn_of r) (active_txns w) \<and>
    next_lsn (wal_hdr w') = next_lsn (wal_hdr w) + 1"
proof -
  obtain w1 done' pend' where "write_raw_record t Begin 0 False 0 [] w = (Inr (lsn_of r), w1)"
    "wal_rep w1 done' (pend' @ [r])" "done' @ pend' = done @ pend" "active_txns w1 = active_txns w"
    "next_lsn (wal_hdr w1) = next_lsn (wal_hdr w) + 1"
    using write_raw_record_rep [OF rep _ r] room by auto
  then show ?thesis
    by (auto simp: begin_transaction_def run_simps andthen_def intro!: exI)
qed

text \<open>Update records and compensation records: appended, and the transaction table points at them.\<close>

lemma tracked_record_rep:
  assumes rep: "wal_rep w done pend" and room: "room_for (length payload) w"
    and r: "r = new_record w t ty p i poff payload"
  shows "\<exists>w' done' pend'. andthen (write_raw_record t ty p i poff payload) (\<lambda>lsn.
      andthen (only_if (t \<noteq> 0) (set_active t lsn)) (\<lambda>_. ok lsn)) w = (Inr (lsn_of r), w') \<and>
    wal_rep w' done' (pend' @ [r]) \<and> done' @ pend' = done @ pend \<and>
    active_txns w' = (if t \<noteq> 0 then map_insert t (lsn_of r) (active_txns w) else active_txns w) \<and>
    next_lsn (wal_hdr w') = next_lsn (wal_hdr w) + 1 \<and> flushed_lsn w \<le> flushed_lsn w'"
proof -
  obtain w1 done' pend' where "write_raw_record t ty p i poff payload w = (Inr (lsn_of r), w1)"
    "wal_rep w1 done' (pend' @ [r])" "done' @ pend' = done @ pend" "active_txns w1 = active_txns w"
    "next_lsn (wal_hdr w1) = next_lsn (wal_hdr w) + 1" "flushed_lsn w \<le> flushed_lsn w1"
    using write_raw_record_rep [OF rep room r] by auto
  then show ?thesis
    by (cases "t = 0") (auto simp: run_simps andthen_def intro!: exI)
qed

lemmas write_record_rep = tracked_record_rep [where payload = "update_payload_serialize u []"
    and poff = "offset_in_page u" for u, folded write_record_def]
lemmas write_clr_rep = tracked_record_rep [where ty = Clr
    and payload = "to_le (0 :: u16) @ to_le (of_nat (length bs) :: u16) @ bs" for bs, folded write_clr_def]

lemma flush_header_rep:
  assumes "wal_rep w done []"
  shows "\<exists>w'. flush_header w = (Inr (), w') \<and> wal_rep w' done [] \<and> wal_hdr w' = wal_hdr w \<and>
    log_file w' = wal_header_bytes (wal_hdr w) @ records_bytes done \<and> active_txns w' = active_txns w"
proof -
  obtain dh where f: "log_file w = wal_header_bytes dh @ records_bytes done"
    using assms by (auto simp: wal_rep_def)
  have "flush_header w = (Inr (), w\<lparr>log_file := wal_header_bytes (wal_hdr w) @ records_bytes done\<rparr>)"
    by (simp add: flush_header_def andthen_def run_simps write_disk_header_run [OF f])
  moreover have "next_lsn (wal_hdr w) \<noteq> 0" using assms by (auto simp: wal_rep_def)
  ultimately show ?thesis using assms by (auto simp: wal_rep_def)
qed

lemma write_checkpoint_rep:
  assumes rep: "wal_rep w done pend" and room: "room_for (length (checkpoint_payload dpt att)) w"
    and r: "r = new_record w 0 Checkpoint 0 False 0 (checkpoint_payload dpt att)"
  shows "\<exists>w'. write_checkpoint dpt att w = (Inr (lsn_of r), w') \<and>
    wal_rep w' (done @ pend @ [r]) [] \<and> active_txns w' = active_txns w \<and>
    (\<exists>h. log_file w' = wal_header_bytes h @ records_bytes (done @ pend @ [r]) \<and>
      last_checkpoint_lsn h = lsn_of r) \<and>
    last_checkpoint_lsn (wal_hdr w') = lsn_of r \<and>
    next_lsn (wal_hdr w') = next_lsn (wal_hdr w) + 1"
proof -
  obtain w1 done' pend' where w1: "write_raw_record 0 Checkpoint 0 False 0
      (checkpoint_payload dpt att) w = (Inr (lsn_of r), w1)"
    and rep1: "wal_rep w1 done' (pend' @ [r])" and eq: "done' @ pend' = done @ pend"
    and act: "active_txns w1 = active_txns w"
    and next1: "next_lsn (wal_hdr w1) = next_lsn (wal_hdr w) + 1"
    using write_raw_record_rep [OF rep room r] by auto
  obtain w2 where w2: "flush_up_to (lsn_of r) w1 = (Inr (), w2)"
    and rep2: "wal_rep w2 (done' @ pend' @ [r]) []" and act2: "active_txns w2 = active_txns w"
    and next2: "next_lsn (wal_hdr w2) = next_lsn (wal_hdr w) + 1"
    using flush_own_record [OF rep1] act next1 by auto
  let ?w3 = "w2\<lparr>wal_hdr := (wal_hdr w2)\<lparr>last_checkpoint_lsn := lsn_of r\<rparr>\<rparr>"
  have eq': "done' @ pend' @ [r] = done @ pend @ [r]"
    using eq by (metis append_assoc)
  have "wal_rep ?w3 (done @ pend @ [r]) []" using rep2 eq' by simp
  from flush_header_rep [OF this] obtain w4 where "flush_header ?w3 = (Inr (), w4)"
    "wal_rep w4 (done @ pend @ [r]) []" "active_txns w4 = active_txns w"
    "log_file w4 = wal_header_bytes (wal_hdr ?w3) @ records_bytes (done @ pend @ [r])"
    "last_checkpoint_lsn (wal_hdr w4) = lsn_of r" "next_lsn (wal_hdr w4) = next_lsn (wal_hdr w) + 1"
    using act2 next2 by auto
  moreover have "wal_hdr_update f w2 = w2\<lparr>wal_hdr := f (wal_hdr w2)\<rparr>" for f by simp
  ultimately show ?thesis
    using w1 w2 by (auto simp: write_checkpoint_def andthen_def run_simps intro!: exI)
qed


section \<open>Reading the file\<close>

lemma read_record_at_file_hit:
  assumes "unat (rh_payload_len (wr_header r)) = length (wr_payload r)" and "off = length pre"
  shows "read_record_at_file (pre @ record_bytes r @ post) off =
    Inr (r, length pre + length (record_bytes r))"
proof -
  let ?f = "pre @ record_bytes r @ post" and ?n = "length (wr_payload r)"
  have h: "read_exact_at 36 off ?f = Inr (record_header_bytes (wr_header r))"
    by (simp add: read_exact_at_within assms(2) record_bytes_def rec_hdr.length_enc slice_def)
  have p: "read_exact_at ?n (off + 36) ?f = Inr (wr_payload r)"
    by (simp add: read_exact_at_within assms(2) record_bytes_def rec_hdr.length_enc slice_def)
  have d: "record_header_deserialize (record_header_bytes (wr_header r)) = Inr (Some (wr_header r))"
    using rec_hdr.deserialize_enc [of "wr_header r" "[]"] by simp
  show ?thesis
    using h p d by (simp add: read_record_at_file_def assms length_record_bytes)
qed

lemma read_all_from_chained:
  assumes "chained prev rs" and "length pre = off"
  shows "read_all_from (pre @ records_bytes rs) off = rs"
  using assms
proof (induction rs arbitrary: prev pre off)
  case Nil
  then show ?case by (simp add: read_all_from.simps)
next
  case (Cons r rs)
  have "read_all_from ((pre @ record_bytes r) @ records_bytes rs) (off + length (record_bytes r)) = rs"
    using Cons.prems by (intro Cons.IH) auto
  moreover have "read_record_at_file (pre @ record_bytes r @ records_bytes rs) off =
      Inr (r, off + length (record_bytes r))"
    using read_record_at_file_hit [of r off pre "records_bytes rs"] Cons.prems by simp
  ultimately show ?case
    using Cons.prems by (subst read_all_from.simps) (simp add: length_record_bytes)
qed

lemma read_all_records_rep: "wal_rep w done pend \<Longrightarrow> read_all_records w = done"
  by (auto simp: read_all_records_def wal_rep_def chained_append wal_hdr.length_enc
      intro!: read_all_from_chained)

lemma read_backward_from_chained:
  assumes "chained 0 rs" and "rs \<noteq> []" and "length pre = 28"
  shows "read_backward_from (pre @ records_bytes rs @ post) (28 + length (records_bytes (butlast rs))) =
    Inr (rev rs)"
  using assms
proof (induction rs arbitrary: post rule: rev_induct)
  case (snoc r rs)
  let ?off = "28 + length (records_bytes rs)"
  let ?f = "pre @ records_bytes (rs @ [r]) @ post"
  have ch: "chained 0 rs" "unat (rh_prev_record_len (wr_header r)) = last_len rs"
    "unat (rh_payload_len (wr_header r)) = length (wr_payload r)"
    using snoc.prems by (simp_all add: chained_snoc)
  have hit: "read_record_at_file ?f ?off = Inr (r, ?off + length (record_bytes r))"
    using read_record_at_file_hit [of r ?off "pre @ records_bytes rs" post] ch(3) snoc.prems(3) by simp
  show ?case
  proof (cases "rs = []")
    case True
    then show ?thesis
      using hit ch(2) by (subst read_backward_from.simps) (simp add: last_len_def)
  next
    case False
    have "?off - last_len rs = 28 + length (records_bytes (butlast rs))"
      using last_off_len [of rs] by (simp add: last_off_def)
    moreover have "0 < last_len rs" using False by (simp add: last_len_def)
    moreover have "28 + last_len rs \<le> ?off"
      using last_off_len [of rs] by (simp add: last_off_def)
    moreover have "read_backward_from ?f (28 + length (records_bytes (butlast rs))) = Inr (rev rs)"
      using snoc.IH [of "record_bytes r @ post"] ch(1) False snoc.prems(3) by simp
    ultimately show ?thesis
      using hit ch(2) by (subst read_backward_from.simps) (simp add: Let_def)
  qed
qed simp

lemma read_records_backward_rep:
  assumes "wal_rep w done []"
  shows "read_records_backward w = Inr (rev done)"
proof (cases "done = []")
  case True
  then show ?thesis
    using assms by (simp add: read_records_backward_def wal_rep_def points_at_def last_len_def
        unat_eq_0)
next
  case False
  have "unat (last_wal_len (wal_hdr w)) = last_len done"
    "unat (last_wal_offset (wal_hdr w)) = last_off done"
    using assms by (simp_all add: wal_rep_def points_at_def)
  moreover have "0 < last_len done" using False by (simp add: last_len_def)
  ultimately show ?thesis
    using assms read_backward_from_chained [of "done" _ "[]"] False
    by (auto simp: read_records_backward_def wal_rep_def wal_hdr.length_enc last_off_def)
qed


section \<open>Opening\<close>

lemma read_header_back:
  "read_exact_at 28 0 (wal_header_bytes h @ rest) = Inr (wal_header_bytes h)"
  by (simp add: read_exact_at_within wal_hdr.length_enc slice_def)

lemma wal_new_fresh:
  "\<exists>v. wal_new [] = Inr v \<and> wal_rep (inner v) [] [] \<and> next_lsn (wal_hdr (inner v)) = 1 \<and>
     active_txns (inner v) = [] \<and> last_checkpoint_lsn (wal_hdr (inner v)) = 0"
proof -
  have "write_all_at (wal_header_bytes h) 0 [] = wal_header_bytes h" for h
    using write_all_at_end [of _ "[]"] by simp
  then show ?thesis
    by (auto simp: wal_new_def wal_rep_def points_at_def Let_def last_off_def last_len_def
        wal_buffer_new_def)
qed

lemma wal_new_rep:
  assumes rep: "wal_rep w done pend"
  shows "\<exists>v. wal_new (log_file w) = Inr v \<and> wal_rep (inner v) done [] \<and>
    log_file (inner v) = log_file w \<and> active_txns (inner v) = [] \<and>
    wb_max_frames (wal_buf (inner v)) = WAL_POOL_CAPACITY"
proof -
  obtain dh where f: "log_file w = wal_header_bytes dh @ records_bytes done"
    and dh: "points_at dh done" "next_lsn dh \<noteq> 0"
    using rep by (auto simp: wal_rep_def)
  have d: "wal_header_deserialize (wal_header_bytes dh) = Inr (Some dh)"
    using wal_hdr.deserialize_enc [of dh "[]"] by simp
  have l: "0 < length (log_file w)" "28 \<le> length (log_file w)"
    by (simp_all add: f wal_hdr.length_enc)
  define v where "v = \<lparr>inner = \<lparr>log_file = log_file w, wal_buf = wal_buffer_new WAL_POOL_CAPACITY,
      wal_hdr = dh, flushed_lsn = next_lsn dh - 1, active_txns = []\<rparr>,
      pub_flushed_lsn = next_lsn dh - 1\<rparr>"
  have "wal_new (log_file w) = Inr v"
    using l dh(2) by (simp add: wal_new_def f read_header_back d v_def Let_def wal_hdr.length_enc)
  moreover have lt: "next_lsn dh - 1 < next_lsn dh"
    using dh(2) u64_less_Suc [of "next_lsn dh - 1"] by auto
  moreover have "l \<le> next_lsn dh - 1" if "l < next_lsn dh" for l
    using that by (simp add: word_le_nat_alt word_less_nat_alt unat_sub_if')
  ultimately show ?thesis
    using rep dh by (intro exI [of _ v]) (auto simp: wal_rep_def v_def f points_at_def wal_buffer_new_def
        chained_append sorted_wrt_append)
qed

end
