(* ===== verification/Wal_Properties.thy ===== *)
theory Wal_Properties
  imports Wal_Log
begin

text \<open>
  The properties of the log: what a crash leaves of it, what the two scans read, and the round trips
  of the payloads of update and checkpoint records.
\<close>

section \<open>The history of a log\<close>

text \<open>
  \<open>log_history w rs\<close>: the log \<open>w\<close> was created empty and the records \<open>rs\<close> are those appended since,
  in order; flushes may come at any time, and a crash followed by reopening the file forgets the
  records that were only buffered.
\<close>

inductive log_history :: "wal_inner \<Rightarrow> wal_record list \<Rightarrow> bool" where
  created: "wal_new [] = Inr v \<Longrightarrow> log_history (inner v) []"
| append: "log_history w rs \<Longrightarrow> room_for (length payload) w \<Longrightarrow>
    write_raw_record t ty p is_index off payload w = (Inr l, w') \<Longrightarrow>
    log_history w' (rs @ [new_record w t ty p is_index off payload])"
| flush: "log_history w rs \<Longrightarrow> flush_up_to l w = (Inr (), w') \<Longrightarrow> log_history w' rs"
| crash: "log_history w rs \<Longrightarrow> wal_new (log_file w) = Inr v \<Longrightarrow>
    log_history (inner v) (read_all_records w)"

lemma log_history_rep:
  "log_history w rs \<Longrightarrow> \<exists>done pend. wal_rep w done pend \<and> rs = done @ pend"
proof (induction rule: log_history.induct)
  case (created v)
  then show ?case using wal_new_fresh by auto
next
  case (append w rs payload t ty p is_index off l w')
  then obtain "done" pend where rep: "wal_rep w done pend" "rs = done @ pend" by blast
  from write_raw_record_rep [OF rep(1) append.hyps(2) refl, of t ty p is_index off]
  show ?case using append.hyps(3) rep(2) by fastforce
next
  case (flush w rs l w')
  then obtain "done" pend where rep: "wal_rep w done pend" "rs = done @ pend" by blast
  from flush_up_to_rep [OF rep(1), of l] show ?case
    using flush.hyps(2) rep(2) by (metis append_assoc takeWhile_dropWhile_id prod.inject)
next
  case (crash w rs v)
  then obtain "done" pend where rep: "wal_rep w done pend" "rs = done @ pend" by blast
  with wal_new_rep [OF rep(1)] crash.hyps(2) read_all_records_rep [OF rep(1)] show ?case by auto
qed

text \<open>C16: After any history, a full flush makes the file hold exactly the records appended since the
log was created (less those lost in a crash): the forward scan reads them in order, the backward
scan, which follows the record lengths from the end, reads them in reverse, and their LSNs are
strictly increasing. Before the flush the forward scan reads a prefix of them.\<close>

theorem log_scans_agree:
  assumes "log_history w rs"
  shows "\<exists>w'. wal_flush_all w = (Inr (), w') \<and> read_all_records w' = rs \<and>
    read_records_backward w' = Inr (rev rs) \<and> sorted_wrt (<) (map lsn_of rs) \<and>
    (\<exists>lost. rs = read_all_records w @ lost)"
proof -
  obtain "done" pend where rep: "wal_rep w done pend" "rs = done @ pend"
    using log_history_rep [OF assms] by blast
  obtain w' where w': "wal_flush_all w = (Inr (), w')" "wal_rep w' (done @ pend) []"
    using wal_flush_all_rep [OF rep(1)] by blast
  show ?thesis
    using w' read_all_records_rep [OF w'(2)] read_records_backward_rep [OF w'(2)] rep
      read_all_records_rep [OF rep(1)] by (auto simp: wal_rep_def)
qed

lemma log_scans_agree_witness:
  "\<exists>w w' r. log_history w [r] \<and> rh_record_type (wr_header r) = Begin \<and>
    wal_flush_all w = (Inr (), w') \<and> read_records_backward w' = Inr [r]"
proof -
  obtain v where v: "wal_new [] = Inr v" "wal_rep (inner v) [] []" "next_lsn (wal_hdr (inner v)) = 1"
    using wal_new_fresh by blast
  have room: "room_for (length []) (inner v)"
    using v(2,3) by (simp add: room_for_def wal_rep_def points_at_def last_off_def last_len_def)
  let ?r = "new_record (inner v) 7 Begin 0 False 0 []"
  obtain w where w: "write_raw_record 7 Begin 0 False 0 [] (inner v) = (Inr (lsn_of ?r), w)"
    using write_raw_record_rep [OF v(2) room refl] by blast
  have h: "log_history w [?r]"
    using log_history.append [OF log_history.created [OF v(1)] room w] by simp
  from log_scans_agree [OF h] h show ?thesis by (metis new_record_simps(3) rev_singleton_conv)
qed

text \<open>C8: Commit is durable: \<open>commit_transaction\<close> succeeds, and if the process dies right after it, the
reopened log contains every record appended before the commit and, last, the commit record of the
transaction. The transaction is no longer active, the others are unchanged.\<close>

theorem commit_durable:
  assumes "log_history w rs" and "room_for 0 w" and "commit_transaction t w = (res, w')"
  shows "\<exists>r v. res = Inr (next_lsn (wal_hdr w)) \<and> wal_new (log_file w') = Inr v \<and>
    read_all_records (inner v) = rs @ [r] \<and> rh_record_type (wr_header r) = Commit \<and>
    rh_txn_id (wr_header r) = t \<and> lsn_of r = next_lsn (wal_hdr w) \<and>
    map_of (active_txns w') = (map_of (active_txns w))(t := None)"
proof -
  obtain "done" pend where rep: "wal_rep w done pend" "rs = done @ pend"
    using log_history_rep [OF assms(1)] by blast
  obtain r where w': "res = Inr (next_lsn (wal_hdr w))" "r = new_record w t Commit 0 False 0 []"
    "wal_rep w' (rs @ [r]) []" "map_of (active_txns w') = (map_of (active_txns w))(t := None)"
    using commit_transaction_rep [OF rep(1) assms(2), of t] assms(3) rep(2) by auto
  obtain v where "wal_new (log_file w') = Inr v" "wal_rep (inner v) (rs @ [r]) []"
    using wal_new_rep [OF w'(3)] by blast
  with w' show ?thesis using read_all_records_rep by fastforce
qed

lemma commit_durable_witness:
  "\<exists>v w' r v'. wal_new [] = Inr v \<and> commit_transaction 7 (inner v) = (Inr 1, w') \<and>
    wal_new (log_file w') = Inr v' \<and> read_all_records (inner v') = [r] \<and>
    rh_record_type (wr_header r) = Commit"
proof -
  obtain v where v: "wal_new [] = Inr v" "wal_rep (inner v) [] []" "next_lsn (wal_hdr (inner v)) = 1"
    using wal_new_fresh by blast
  have room: "room_for 0 (inner v)"
    using v(2,3) by (simp add: room_for_def wal_rep_def points_at_def last_off_def last_len_def)
  obtain res w' where c: "commit_transaction 7 (inner v) = (res, w')" by fastforce
  show ?thesis
    using commit_durable [OF log_history.created [OF v(1)] room c] v(1,3) c by auto
qed

text \<open>\<open>flush_up_to\<close> makes durable exactly the buffered records whose LSN is at most the target: the
file then holds what it held plus these records in order, and a later flush of the rest loses
nothing.\<close>

theorem flush_up_to_exact:
  assumes "log_history w rs" and "flush_up_to l w = (res, w')"
  shows "res = Inr () \<and>
    read_all_records w' = read_all_records w @
      filter (\<lambda>r. lsn_of r \<le> l) (drop (length (read_all_records w)) rs) \<and>
    (\<exists>w''. wal_flush_all w' = (Inr (), w'') \<and> read_all_records w'' = rs)"
proof -
  obtain "done" pend where rep: "wal_rep w done pend" "rs = done @ pend"
    using log_history_rep [OF assms(1)] by blast
  obtain w1 where w1: "flush_up_to l w = (Inr (), w1)"
    "wal_rep w1 (done @ takeWhile (\<lambda>r. lsn_of r \<le> l) pend) (dropWhile (\<lambda>r. lsn_of r \<le> l) pend)"
    using flush_up_to_rep [OF rep(1), of l] by blast
  have "sorted (map lsn_of pend)"
    using rep(1) by (auto simp: wal_rep_def sorted_wrt_append strict_sorted_iff)
  then have "takeWhile (\<lambda>r. lsn_of r \<le> l) pend = filter (\<lambda>r. lsn_of r \<le> l) pend"
    by (induction pend) (auto intro!: filter_False [symmetric] dest: order.trans)
  then show ?thesis
    using w1 assms(2) rep(2) read_all_records_rep [OF rep(1)] read_all_records_rep [OF w1(2)]
      wal_flush_all_rep [OF w1(2)] read_all_records_rep
    by (metis (no_types, lifting) Pair_inject append.assoc append_eq_conv_conj takeWhile_dropWhile_id)
qed

lemma flush_up_to_exact_example:
  "\<exists>v w'. wal_new [] = Inr v \<and> flush_up_to 5 (inner v) = (Inr (), w') \<and> read_all_records w' = []"
proof -
  obtain v where v: "wal_new [] = Inr v" "wal_rep (inner v) [] []" using wal_new_fresh by blast
  obtain res w' where c: "flush_up_to 5 (inner v) = (res, w')" by fastforce
  show ?thesis
    using flush_up_to_exact [OF log_history.created [OF v(1)] c] v c
      read_all_records_rep [OF v(2)] by simp
qed

text \<open>C27: The payload of an update record written by \<open>write_record\<close> and that of a checkpoint record
parse back to what was logged: page offset, old and new bytes; dirty page table and active
transactions.\<close>

theorem payload_roundtrip:
  assumes "length (undo_data u) < 65536" and "length (redo_data u) < 65536"
    and "length dpt < 4294967296" and "length att < 4294967296"
  shows "parse_update (new_record w t Update p is_index off (update_payload_serialize u [])) =
      Some (off, undo_data u, redo_data u) \<and>
    parse_checkpoint (new_record w 0 Checkpoint 0 False 0 (checkpoint_payload dpt att)) =
      Some \<lparr>cd_dpt = dpt, cd_att = att\<rparr>"
proof -
  have "rh_payload_page_offset (wr_header
      (new_record w t Update p is_index off (update_payload_serialize u []))) = off"
    by (simp add: new_record_def)
  then show ?thesis
    using parse_update_serialize [OF new_record_simps(2) assms(1,2)]
      parse_checkpoint_payload [OF new_record_simps(3) new_record_simps(2) assms(3,4)]
    by simp
qed

lemma payload_roundtrip_witness:
  "\<exists>v. wal_new [] = Inr v \<and>
    parse_update (new_record (inner v) 7 Update 2 True 30 (update_payload_serialize
      \<lparr>offset_in_page = 30, undo_data = [1, 2], redo_data = [3, 4]\<rparr> [])) = Some (30, [1, 2], [3, 4])"
proof -
  obtain v where "wal_new [] = Inr v" using wal_new_fresh by blast
  then show ?thesis
    using payload_roundtrip [of "\<lparr>offset_in_page = 30, undo_data = [1, 2], redo_data = [3, 4]\<rparr>" "[]" "[]" "inner v" 7 2
      True 30] by simp
qed

end
