(* ===== verification/Page_Store.thy ===== *)
theory Page_Store
  imports Buffer_Pool Wal_Log
begin

text \<open>
  The page files of \<open>index.rs\<close> and \<open>heap.rs\<close>. Both files keep a file of pages, a buffer pool and the
  next page id, and share the log; their methods are the same code for different page sizes, except
  that the index file panics where the heap file returns an error. The shared code is written once
  over the page size, and \<open>panics\<close> turns an error into the panic of an \<open>expect\<close> or \<open>unwrap\<close>
  (its message is the one of the error).
\<close>

section \<open>State\<close>

record page_store =
  pf_file :: disk_file
  pf_pool :: "bytes pool"
  pf_next_id :: u64

type_synonym 'a on_store = "(page_store \<times> wal, 'a) m"

definition to_panic :: "error \<Rightarrow> error" where
  "to_panic e = (case e of Err msg \<Rightarrow> Panic msg | Panic msg \<Rightarrow> Panic msg | Diverges \<Rightarrow> Diverges)"

definition panics :: "('s, 'a) m \<Rightarrow> ('s, 'a) m" where
  "panics p = (\<lambda>s. case p s of (Inl e, t) \<Rightarrow> (Inl (to_panic e), t) | (Inr a, t) \<Rightarrow> (Inr a, t))"

definition on_pool :: "(bytes pool, 'a) m \<Rightarrow> 'a on_store" where
  "on_pool p = (\<lambda>(st, w). case p (pf_pool st) of (r, b) \<Rightarrow> (r, (st\<lparr>pf_pool := b\<rparr>, w)))"

definition modify_pool :: "(bytes pool \<Rightarrow> bytes pool) \<Rightarrow> unit on_store" where
  "modify_pool f = modify (\<lambda>(st, w). (st\<lparr>pf_pool := f (pf_pool st)\<rparr>, w))"

definition on_wal :: "(wal_inner, 'a) m \<Rightarrow> 'a on_store" where
  "on_wal p = (\<lambda>(st, w). case with_inner p w of (r, w') \<Rightarrow> (r, (st, w')))"

section \<open>Operations\<close>

definition page_offset :: "nat \<Rightarrow> u64 \<Rightarrow> nat" where
  "page_offset sz i = unat (i * of_nat sz)"

definition store_new :: "nat \<Rightarrow> nat \<Rightarrow> disk_file \<Rightarrow> page_store" where
  "store_new sz capacity f =
     \<lparr>pf_file = f, pf_pool = pool_new capacity, pf_next_id = of_nat (length f) div of_nat sz\<rparr>"

definition write_page_at :: "nat \<Rightarrow> u64 \<Rightarrow> bytes \<Rightarrow> unit on_store" where
  "write_page_at sz i data =
     modify (\<lambda>(st, w). (st\<lparr>pf_file := write_all_at data (page_offset sz i) (pf_file st)\<rparr>, w))"

text \<open>Writing an evicted dirty page back, after the log up to its LSN.\<close>

definition write_back :: "nat \<Rightarrow> bytes evicted_page option \<Rightarrow> unit on_store" where
  "write_back sz r =
     (case r of
        None \<Rightarrow> ok ()
      | Some e \<Rightarrow>
          if was_dirty e
          then andthen (only_if (0 < ev_page_lsn e) (on_wal (flush_up_to (ev_page_lsn e)))) (\<lambda>_.
               write_page_at sz (ev_id e) (ev_page e))
          else ok ())"

definition cache_page :: "nat \<Rightarrow> u64 \<Rightarrow> bytes \<Rightarrow> unit on_store" where
  "cache_page sz i page = andthen (on_pool (pool_insert i page)) (write_back sz)"

definition store_fetch :: "nat \<Rightarrow> u64 \<Rightarrow> bytes on_store" where
  "store_fetch sz i =
     andthen (on_pool (\<lambda>b. case pool_get i b of (r, b') \<Rightarrow> (Inr r, b'))) (\<lambda>r.
     case r of
       Some page \<Rightarrow> ok page
     | None \<Rightarrow>
         andthen (reads (\<lambda>(st, w). read_exact_at sz (page_offset sz i) (pf_file st))) (\<lambda>page.
         andthen (cache_page sz i page) (\<lambda>_. ok page)))"

definition store_fetch_mut :: "nat \<Rightarrow> u64 \<Rightarrow> bytes on_store" where
  "store_fetch_mut sz i =
     andthen (store_fetch sz i) (\<lambda>page.
     andthen (modify_pool (pin i)) (\<lambda>_.
     andthen (modify_pool (mark_dirty i)) (\<lambda>_. ok page)))"

text \<open>\<open>drop\<close> of a page guard, and the scope of a guard: it is dropped on every way out.\<close>

definition drop_guard :: "u64 \<Rightarrow> bytes \<Rightarrow> bytes pool \<Rightarrow> bytes pool" where
  "drop_guard i page b = unpin i (update_page i page b)"

definition with_page :: "bytes on_store \<Rightarrow> u64 \<Rightarrow> (bytes, 'a) m \<Rightarrow> 'a on_store" where
  "with_page fetch_mut i body =
     andthen fetch_mut (\<lambda>page.
     case body page of (r, page') \<Rightarrow>
       andthen (modify_pool (drop_guard i page')) (\<lambda>_. of_result r))"

definition store_allocate :: "nat \<Rightarrow> (u64 \<Rightarrow> bytes) \<Rightarrow> u64 on_store" where
  "store_allocate sz init =
     andthen (gets (\<lambda>(st, w). pf_next_id st)) (\<lambda>i.
     andthen (modify (\<lambda>(st, w). (st\<lparr>pf_next_id := i + 1\<rparr>, w))) (\<lambda>_.
     andthen (modify (\<lambda>(st, w). (st\<lparr>pf_file :=
        set_len (unat (of_nat (page_offset sz i) + of_nat sz :: u64)) (pf_file st)\<rparr>, w))) (\<lambda>_.
     andthen (cache_page sz i (init i)) (\<lambda>_.
     andthen (modify_pool (mark_dirty i)) (\<lambda>_. ok i)))))"

definition flush_one :: "nat \<Rightarrow> u64 \<Rightarrow> unit on_store" where
  "flush_one sz i =
     andthen (on_pool (\<lambda>b. case pool_get i b of (r, b') \<Rightarrow> (Inr r, b'))) (\<lambda>r.
     case r of
       None \<Rightarrow> ok ()
     | Some page \<Rightarrow>
         andthen (gets (\<lambda>(st, w). page_lsn i (pf_pool st))) (\<lambda>lsn.
         andthen (only_if (0 < lsn) (on_wal (flush_up_to lsn))) (\<lambda>_.
         write_page_at sz i page)))"

definition store_flush :: "nat \<Rightarrow> u64 \<Rightarrow> unit on_store" where
  "store_flush sz i =
     andthen (gets (\<lambda>(st, w). is_dirty i (pf_pool st))) (\<lambda>d.
     only_if d
       (andthen (on_pool (\<lambda>b. case pool_get i b of (r, b') \<Rightarrow> (Inr r, b'))) (\<lambda>r.
        case r of
          None \<Rightarrow> ok ()
        | Some page \<Rightarrow>
            andthen (gets (\<lambda>(st, w). page_lsn i (pf_pool st))) (\<lambda>lsn.
            andthen (only_if (0 < lsn) (on_wal (flush_up_to lsn))) (\<lambda>_.
            andthen (write_page_at sz i page) (\<lambda>_.
            modify_pool (clear_dirty_single i)))))))"

definition store_flush_all :: "nat \<Rightarrow> unit on_store" where
  "store_flush_all sz =
     andthen (gets (\<lambda>(st, w). dirty_page_ids (pf_pool st))) (\<lambda>ids.
     andthen (for_each (flush_one sz) ids) (\<lambda>_.
     modify_pool clear_dirty))"

definition store_discard_dirty :: "unit on_store" where
  "store_discard_dirty =
     andthen (gets (\<lambda>(st, w). dirty_page_ids (pf_pool st))) (\<lambda>ids.
     for_each (\<lambda>i. modify_pool (\<lambda>b. snd (pool_remove i b))) ids)"

lemma on_pool_run [run_simps]:
  "on_pool p (st, w) = (fst (p (pf_pool st)), (st\<lparr>pf_pool := snd (p (pf_pool st))\<rparr>, w))"
  by (simp add: on_pool_def split: prod.splits)

lemma modify_pool_run [run_simps]:
  "modify_pool f (st, w) = (Inr (), (st\<lparr>pf_pool := f (pf_pool st)\<rparr>, w))"
  by (simp add: modify_pool_def run_simps)

lemma write_page_at_run [run_simps]:
  "write_page_at sz i data (st, w) =
     (Inr (), (st\<lparr>pf_file := write_all_at data (page_offset sz i) (pf_file st)\<rparr>, w))"
  by (simp add: write_page_at_def run_simps)

section \<open>What a store shows\<close>

text \<open>
  \<open>disk_page\<close> is the page on disk, \<open>store_view\<close> the page a client sees. \<open>store_ok\<close> is the invariant
  of a store between two calls: the file has exactly the allocated pages, the cached pages are
  among them, every dirty page is cached and every clean one is on disk.
\<close>

definition disk_page :: "nat \<Rightarrow> disk_file \<Rightarrow> u64 \<Rightarrow> bytes option" where
  "disk_page sz f i =
     (if (unat i + 1) * sz \<le> length f then Some (slice f (unat i * sz) ((unat i + 1) * sz))
      else None)"

definition store_view :: "nat \<Rightarrow> page_store \<Rightarrow> u64 \<Rightarrow> bytes option" where
  "store_view sz st = view (cached (pf_pool st)) (disk_page sz (pf_file st))"

definition store_ok :: "nat \<Rightarrow> page_store \<Rightarrow> bool" where
  "store_ok sz st \<longleftrightarrow> 0 < sz \<and> pool_inv (pf_pool st) \<and>
     length (pf_file st) = unat (pf_next_id st) * sz \<and>
     length (pf_file st) < 18446744073709551616 \<and>
     (\<forall>i p. cached (pf_pool st) i = Some p \<longrightarrow> i < pf_next_id st \<and> length p = sz) \<and>
     (\<forall>i. is_dirty i (pf_pool st) \<longrightarrow> cached (pf_pool st) i \<noteq> None) \<and>
     coherent (cached (pf_pool st)) (\<lambda>i. is_dirty i (pf_pool st)) (disk_page sz (pf_file st)) \<and>
     (\<forall>i. \<not> pinned (pf_pool st) i) \<and> 0 < max_frames (pf_pool st)"

text \<open>The records a log holds, on disk or in its buffer.\<close>

definition wal_holds :: "wal \<Rightarrow> wal_record list \<Rightarrow> bool" where
  "wal_holds w rs \<longleftrightarrow> (\<exists>done pend. rs = done @ pend \<and> wal_rep (inner w) done pend)"

definition store_good :: "nat \<Rightarrow> page_store \<times> wal \<Rightarrow> bool" where
  "store_good sz = (\<lambda>(st, w). store_ok sz st \<and> (\<exists>rs. wal_holds w rs))"

text \<open>Two logs that differ only in how much is flushed.\<close>

definition flushed_more :: "wal_inner \<Rightarrow> wal_inner \<Rightarrow> bool" where
  "flushed_more i i' \<longleftrightarrow> (\<forall>done pend. wal_rep i done pend \<longrightarrow>
     (\<exists>ps qs. pend = ps @ qs \<and> wal_rep i' (done @ ps) qs))"

definition log_same :: "wal \<Rightarrow> wal \<Rightarrow> bool" where
  "log_same w w' \<longleftrightarrow> (\<forall>rs. wal_holds w rs \<longrightarrow> wal_holds w' rs) \<and>
     wal_hdr (inner w') = wal_hdr (inner w) \<and> active_txns (inner w') = active_txns (inner w) \<and>
     flushed_lsn (inner w) \<le> flushed_lsn (inner w') \<and>
     flushed_more (inner w) (inner w')"

text \<open>A step that a client cannot see.\<close>

definition quiet :: "nat \<Rightarrow> page_store \<times> wal \<Rightarrow> page_store \<times> wal \<Rightarrow> bool" where
  "quiet sz = (\<lambda>(st, w) (st', w'). store_good sz (st', w') \<and> store_view sz st' = store_view sz st \<and>
     pf_next_id st' = pf_next_id st \<and> max_frames (pf_pool st') = max_frames (pf_pool st) \<and>
     log_same w w')"

lemma flushed_more_refl: "flushed_more i i"
  unfolding flushed_more_def by (metis append_Nil append_Nil2)

lemma flushed_more_trans:
  assumes "flushed_more i j" and "flushed_more j k"
  shows "flushed_more i k"
  unfolding flushed_more_def
proof (intro allI impI)
  fix "done" pend assume "wal_rep i done pend"
  then obtain ps qs where 1: "pend = ps @ qs" "wal_rep j (done @ ps) qs"
    using assms(1) unfolding flushed_more_def by metis
  then obtain ps' qs' where "qs = ps' @ qs'" "wal_rep k ((done @ ps) @ ps') qs'"
    using assms(2) unfolding flushed_more_def by metis
  then show "\<exists>ps qs. pend = ps @ qs \<and> wal_rep k (done @ ps) qs"
    using 1(1) by (intro exI [of _ "ps @ ps'"] exI [of _ qs']) simp
qed

lemma log_same_refl [simp]: "log_same w w"
  by (simp add: log_same_def flushed_more_refl)

lemma log_same_trans: "log_same u v \<Longrightarrow> log_same v w \<Longrightarrow> log_same u w"
  unfolding log_same_def using flushed_more_trans by (metis order_trans)

lemma quiet_refl: "store_good sz s \<Longrightarrow> quiet sz s s"
  by (cases s) (simp add: quiet_def)

lemma quiet_trans: "quiet sz s t \<Longrightarrow> quiet sz t u \<Longrightarrow> quiet sz s u"
  by (cases s; cases t; cases u) (auto simp: quiet_def intro: log_same_trans)

lemma flush_wal_run:
  assumes "wal_holds w rs"
  shows "\<exists>w'. on_wal (flush_up_to lsn) (st, w) = (Inr (), (st, w')) \<and> log_same w w' \<and>
    wal_holds w' rs \<and> (\<exists>done pend. wal_rep (inner w') done pend \<and> (\<forall>r \<in> set pend. lsn < lsn_of r))"
proof -
  obtain "done" pend where rep: "wal_rep (inner w) done pend" and rs: "rs = done @ pend"
    using assms by (auto simp: wal_holds_def)
  obtain i' where i': "flush_up_to lsn (inner w) = (Inr (), i')"
    "wal_rep i' (done @ takeWhile (\<lambda>r. lsn_of r \<le> lsn) pend) (dropWhile (\<lambda>r. lsn_of r \<le> lsn) pend)"
    "wal_hdr i' = wal_hdr (inner w)" "active_txns i' = active_txns (inner w)"
    "flushed_lsn (inner w) \<le> flushed_lsn i'"
    using flush_up_to_rep [OF rep] by blast
  let ?w' = "w\<lparr>inner := i', pub_flushed_lsn := flushed_lsn i'\<rparr>"
  have run: "on_wal (flush_up_to lsn) (st, w) = (Inr (), (st, ?w'))"
    by (simp add: on_wal_def with_inner_def i'(1))
  have any: "flushed_more (inner w) i'"
    unfolding flushed_more_def
  proof (intro allI impI)
    fix d p assume "wal_rep (inner w) d p"
    then have "wal_rep i' (d @ takeWhile (\<lambda>r. lsn_of r \<le> lsn) p) (dropWhile (\<lambda>r. lsn_of r \<le> lsn) p)"
      using flush_up_to_rep [of "inner w" d p lsn] i'(1) by auto
    then show "\<exists>ps qs. p = ps @ qs \<and> wal_rep i' (d @ ps) qs"
      by (metis takeWhile_dropWhile_id)
  qed
  have same: "log_same w ?w'"
    using any i' unfolding log_same_def wal_holds_def flushed_more_def by (simp, metis append_assoc)
  have "\<forall>r \<in> set (dropWhile (\<lambda>r. lsn_of r \<le> lsn) pend). lsn < lsn_of r"
  proof (cases "dropWhile (\<lambda>r. lsn_of r \<le> lsn) pend")
    case (Cons a as)
    have "sorted_wrt (<) (map lsn_of (a # as))"
      using i'(2) unfolding Cons by (simp add: wal_rep_def sorted_wrt_append)
    moreover have "lsn < lsn_of a"
      using hd_dropWhile [of "\<lambda>r. lsn_of r \<le> lsn" pend] Cons by auto
    ultimately show ?thesis unfolding Cons by auto
  next
    case Nil
    then show ?thesis by (simp only: list.set ball_simps)
  qed
  moreover have "wal_holds ?w' rs" using same assms by (simp add: log_same_def)
  ultimately show ?thesis using run same i'(2) by auto
qed

end
