(* ===== verification/Page_Store_Laws.thy ===== *)
theory Page_Store_Laws
  imports Page_Store
begin

text \<open>
  What a page store does as its clients see it: fetching is invisible (\<open>quiet\<close>), a guard changes
  one page, allocation adds one, flushing makes the disk agree with the view. The proofs use the
  buffer pool through the interface \<open>pinning_cache\<close> only.
\<close>

section \<open>Pages on disk\<close>

lemma mult_Suc_le: "(n::nat) < m \<Longrightarrow> (n + 1) * sz \<le> m * sz"
  by (metis Suc_eq_plus1 Suc_leI mult_le_mono1)

lemma page_offset_exact:
  assumes "unat i * sz < 18446744073709551616" and "sz < 18446744073709551616"
  shows "page_offset sz i = unat i * sz"
proof -
  have "unat (of_nat sz :: u64) = sz" using assms(2) by (rule unat_u64)
  moreover have "unat i * unat (of_nat sz :: u64) < 2 ^ LENGTH(64)" using assms calculation by simp
  then have "unat (i * of_nat sz) = unat i * unat (of_nat sz :: u64)"
    by (rule iffD1 [OF unat_mult_lem])
  ultimately show ?thesis by (simp add: page_offset_def)
qed

lemma store_page_bounds:
  assumes "store_ok sz st" and "i < pf_next_id st"
  shows "(unat i + 1) * sz \<le> length (pf_file st)" and "page_offset sz i = unat i * sz"
    and "sz < 18446744073709551616"
proof -
  have len: "length (pf_file st) = unat (pf_next_id st) * sz" "length (pf_file st) < 18446744073709551616"
    using assms(1) by (auto simp: store_ok_def)
  show le: "(unat i + 1) * sz \<le> length (pf_file st)"
    unfolding len(1) using assms(2) by (intro mult_Suc_le) (simp add: word_less_nat_alt)
  have "unat i * sz + sz < 18446744073709551616" using le len(2) by simp
  then show "page_offset sz i = unat i * sz" "sz < 18446744073709551616"
    by (auto intro: page_offset_exact)
qed

lemma disk_page_Some:
  "(unat i + 1) * sz \<le> length f \<Longrightarrow> disk_page sz f i = Some (slice f (unat i * sz) ((unat i + 1) * sz))"
  by (simp add: disk_page_def)

lemma length_disk_page: "disk_page sz f i = Some p \<Longrightarrow> length p = sz"
  by (auto simp: disk_page_def split: if_splits)

lemma page_ranges_disjoint:
  assumes "(m::nat) \<noteq> n"
  shows "(m + 1) * sz \<le> n * sz \<or> (n + 1) * sz \<le> m * sz"
  using assms mult_Suc_le [of m n sz] mult_Suc_le [of n m sz] by linarith

lemma disk_page_write:
  assumes "length data = sz" and "(unat i + 1) * sz \<le> length f"
  shows "disk_page sz (write_at (unat i * sz) data f) = (disk_page sz f)(i \<mapsto> data)"
proof
  fix j :: u64
  have b: "unat i * sz + length data \<le> length f" using assms by simp
  show "disk_page sz (write_at (unat i * sz) data f) j = ((disk_page sz f)(i \<mapsto> data)) j"
  proof (cases "j = i")
    case True
    then show ?thesis using assms b by (simp add: disk_page_def slice_write_same')
  next
    case False
    then have "unat j \<noteq> unat i" by (metis word_unat_eq_iff)
    from page_ranges_disjoint [OF this, of sz]
    show ?thesis using False b assms(1)
      by (auto simp: disk_page_def slice_write_disjoint)
  qed
qed

lemma store_write_file:
  assumes "store_ok sz st" and "i < pf_next_id st" and "length data = sz"
  shows "disk_page sz (write_all_at data (page_offset sz i) (pf_file st)) =
      (disk_page sz (pf_file st))(i \<mapsto> data)"
    and "length (write_all_at data (page_offset sz i) (pf_file st)) = length (pf_file st)"
proof -
  note b = store_page_bounds [OF assms(1,2)]
  have w: "write_all_at data (page_offset sz i) (pf_file st) = write_at (unat i * sz) data (pf_file st)"
    using b assms(3) by (simp add: write_all_at_within)
  show "disk_page sz (write_all_at data (page_offset sz i) (pf_file st)) =
      (disk_page sz (pf_file st))(i \<mapsto> data)"
    unfolding w using assms(3) b(1) by (rule disk_page_write)
  show "length (write_all_at data (page_offset sz i) (pf_file st)) = length (pf_file st)"
    unfolding w using assms(3) b(1) by simp
qed

lemma store_read_file:
  assumes "store_ok sz st" and "i < pf_next_id st"
  shows "\<exists>p. read_exact_at sz (page_offset sz i) (pf_file st) = Inr p \<and>
    disk_page sz (pf_file st) i = Some p \<and> length p = sz"
  using store_page_bounds [OF assms]
  by (auto simp: disk_page_Some read_exact_at_within add.commute)


section \<open>Caching a page\<close>

text \<open>The log reaches the disk before the page it describes.\<close>

lemma write_back_run:
  assumes ok: "store_ok sz st" and w: "wal_holds w rs"
    and e: "case r of None \<Rightarrow> True | Some e \<Rightarrow> ev_id e < pf_next_id st \<and> length (ev_page e) = sz"
  shows "\<exists>w' f'. write_back sz r (st\<lparr>pf_pool := b\<rparr>, w) = (Inr (), (st\<lparr>pf_pool := b, pf_file := f'\<rparr>, w')) \<and>
    log_same w w' \<and> wal_holds w' rs \<and> length f' = length (pf_file st) \<and>
    disk_page sz f' = written_back ev_id ev_page was_dirty r (disk_page sz (pf_file st)) \<and>
    (case r of None \<Rightarrow> True | Some e \<Rightarrow> was_dirty e \<and> 0 < ev_page_lsn e \<longrightarrow>
      (\<exists>done pend. wal_rep (inner w') done pend \<and> (\<forall>r \<in> set pend. ev_page_lsn e < lsn_of r)))"
proof (cases r)
  case None
  then show ?thesis
    using w by (intro exI [of _ w] exI [of _ "pf_file st"]) (simp add: write_back_def run_simps written_back_def)
next
  case (Some e)
  have b: "ev_id e < pf_next_id st" "length (ev_page e) = sz" using e Some by simp_all
  show ?thesis
  proof (cases "was_dirty e")
    case False
    then show ?thesis using Some w
      by (intro exI [of _ w] exI [of _ "pf_file st"]) (simp add: write_back_def run_simps written_back_def)
  next
    case True
    let ?f = "write_all_at (ev_page e) (page_offset sz (ev_id e)) (pf_file st)"
    note wf = store_write_file [OF ok b]
    obtain w' where w': "only_if (0 < ev_page_lsn e) (on_wal (flush_up_to (ev_page_lsn e)))
        (st\<lparr>pf_pool := b\<rparr>, w) = (Inr (), (st\<lparr>pf_pool := b\<rparr>, w'))" "log_same w w'" "wal_holds w' rs"
      "0 < ev_page_lsn e \<longrightarrow>
        (\<exists>done pend. wal_rep (inner w') done pend \<and> (\<forall>r \<in> set pend. ev_page_lsn e < lsn_of r))"
      using flush_wal_run [OF w, of "ev_page_lsn e" "st\<lparr>pf_pool := b\<rparr>"] w
      by (cases "0 < ev_page_lsn e") (auto simp: run_simps simp del: word_gt_0)
    have "write_back sz r (st\<lparr>pf_pool := b\<rparr>, w) = (Inr (), (st\<lparr>pf_pool := b, pf_file := ?f\<rparr>, w'))"
      using True w'(1) by (simp add: write_back_def Some andthen_def run_simps)
    then show ?thesis
      using w' wf True by (intro exI [of _ w'] exI [of _ ?f]) (simp add: Some written_back_def)
  qed
qed

lemma cache_page_run:
  assumes ok: "store_ok sz st" and w: "wal_holds w rs" and i: "i < pf_next_id st"
    and miss: "cached (pf_pool st) i = None" and len: "length page = sz"
  shows "\<exists>st' w'. cache_page sz i page (st, w) = (Inr (), (st', w')) \<and> log_same w w' \<and>
    wal_holds w' rs \<and> store_view sz st' = (store_view sz st)(i \<mapsto> page) \<and>
    cached (pf_pool st') i = Some page \<and> pf_next_id st' = pf_next_id st \<and>
    max_frames (pf_pool st') = max_frames (pf_pool st) \<and>
    store_ok sz (st'\<lparr>pf_pool := mark_dirty i (pf_pool st')\<rparr>) \<and>
    (disk_page sz (pf_file st) i = Some page \<longrightarrow> store_ok sz st')"
proof -
  let ?b = "pf_pool st"
  let ?disk = "disk_page sz (pf_file st)"
  have inv: "pool_inv ?b" and coh: "coherent (cached ?b) (\<lambda>i. is_dirty i ?b) ?disk"
    and bound: "\<And>j p. cached ?b j = Some p \<Longrightarrow> j < pf_next_id st \<and> length p = sz"
    and dc: "\<And>j. is_dirty j ?b \<Longrightarrow> cached ?b j \<noteq> None"
    and np: "\<And>j. \<not> pinned ?b j" and cap: "0 < max_frames ?b" and sz: "0 < sz"
    and lf: "length (pf_file st) = unat (pf_next_id st) * sz" "length (pf_file st) < 18446744073709551616"
    using ok unfolding store_ok_def by blast+
  have "length (frames ?b) < max_frames ?b \<or> (\<exists>j. cached ?b j \<noteq> None \<and> \<not> pinned ?b j)"
  proof (cases "frames ?b")
    case (Cons x xs)
    then have "cached ?b (fst x) \<noteq> None" by (cases x) (simp add: cached_def)
    then show ?thesis using np by blast
  qed (simp add: cap)
  from pool_cache.insert_succeeds [OF inv this]
  obtain r b' where ins: "pool_insert i page ?b = (Inr r, b')" by blast
  have inv': "pool_inv b'" using pool_cache.insert_inv [OF inv, of i page] ins by simp
  have pin': "\<And>j. \<not> pinned b' j"
    using pool_cache.insert_pinned [OF inv, of i page] ins np by simp
  have hit': "cached b' i = Some page" by (rule pool_cache.insert_cached [OF inv miss ins])
  have e: "case r of None \<Rightarrow> True | Some e \<Rightarrow> ev_id e < pf_next_id st \<and> length (ev_page e) = sz"
  proof (cases r)
    case (Some e)
    then have "cached ?b (ev_id e) = Some (ev_page e)"
      using pool_cache.insert_Some [OF inv miss] ins by blast
    then show ?thesis using bound Some by simp
  qed simp
  have cap': "max_frames b' = max_frames ?b"
    using ins by (auto simp: pool_insert_def Let_def evict_one_def split: if_splits prod.splits option.splits)
  have bound': "j < pf_next_id st \<and> length p = sz" if "cached b' j = Some p" for j p
  proof (cases r)
    case None
    then have "cached b' = (cached ?b)(i \<mapsto> page)"
      using pool_cache.insert_None [OF inv miss] ins by blast
    then show ?thesis using that bound i len by (auto split: if_splits)
  next
    case (Some e)
    then have "cached b' = (cached ?b)(ev_id e := None, i \<mapsto> page)"
      using pool_cache.insert_Some [OF inv miss] ins by blast
    then show ?thesis using that bound i len by (auto split: if_splits)
  qed
  have dc': "cached b' j \<noteq> None" if "is_dirty j b'" for j
  proof (cases r)
    case None
    then have "cached b' = (cached ?b)(i \<mapsto> page)" "is_dirty j b' = is_dirty j ?b"
      using pool_cache.insert_None [OF inv miss] ins by (blast, metis)
    then show ?thesis using that dc by auto
  next
    case (Some e)
    then have *: "cached b' = (cached ?b)(ev_id e := None, i \<mapsto> page)"
      "(\<lambda>i. is_dirty i b') = (\<lambda>i. is_dirty i ?b)(ev_id e := False)"
      using pool_cache.insert_Some [OF inv miss] ins by blast+
    have "is_dirty j b' = ((\<lambda>i. is_dirty i ?b)(ev_id e := False)) j" using fun_cong [OF *(2), of j] .
    then show ?thesis using that dc *(1) by (auto split: if_splits)
  qed
  obtain w' f' where wb: "write_back sz r (st\<lparr>pf_pool := b'\<rparr>, w) =
      (Inr (), (st\<lparr>pf_pool := b', pf_file := f'\<rparr>, w'))"
    "log_same w w'" "wal_holds w' rs" "length f' = length (pf_file st)"
    "disk_page sz f' = written_back ev_id ev_page was_dirty r ?disk"
    using write_back_run [OF ok w e, of b'] by blast
  let ?st' = "st\<lparr>pf_pool := b', pf_file := f'\<rparr>"
  have run: "cache_page sz i page (st, w) = (Inr (), (?st', w'))"
    using wb(1) by (simp add: cache_page_def andthen_def run_simps ins)
  have vw: "store_view sz ?st' = (store_view sz st)(i \<mapsto> page)"
    using pool_cache.insert_view [OF inv coh miss ins] by (simp add: store_view_def wb(5))
  note c = pool_cache.insert_coherent [OF inv coh miss ins]
  have okd: "store_ok sz (?st'\<lparr>pf_pool := mark_dirty i b'\<rparr>)"
    using inv' lf wb(4) bound' dc' pin' cap cap' c(1) hit' sz
    by (auto simp: store_ok_def pinned_def wb(5))
  have okc: "store_ok sz ?st'" if "?disk i = Some page"
    using inv' lf wb(4) bound' dc' pin' cap cap' c(2) that sz by (auto simp: store_ok_def wb(5))
  show ?thesis using run vw okd okc wb(2,3) hit' cap' by (intro exI [of _ ?st'] exI [of _ w']) simp
qed


section \<open>Fetching\<close>

lemma pool_get_run: "pool_get i b = (cached b i, touch i b)"
  by (simp add: pool_get_def cached_def Let_def)

lemma store_ok_touch: "store_ok sz st \<Longrightarrow> store_ok sz (st\<lparr>pf_pool := touch i (pf_pool st)\<rparr>)"
  by (simp add: store_ok_def pinned_def)

lemma store_view_touch: "store_view sz (st\<lparr>pf_pool := touch i (pf_pool st)\<rparr>) = store_view sz st"
  by (simp add: store_view_def)

lemma store_view_Some:
  assumes "store_ok sz st" and "i < pf_next_id st"
  shows "\<exists>p. store_view sz st i = Some p \<and> length p = sz"
proof (cases "cached (pf_pool st) i")
  case None
  then show ?thesis using store_read_file [OF assms] by (auto simp: store_view_def view_def)
next
  case (Some p)
  then show ?thesis using assms by (auto simp: store_view_def view_def store_ok_def)
qed

lemma store_fetch_run:
  assumes "store_good sz (st, w)" and i: "i < pf_next_id st"
  shows "\<exists>p st' w'. store_fetch sz i (st, w) = (Inr p, (st', w')) \<and> quiet sz (st, w) (st', w') \<and>
    store_view sz st i = Some p \<and> length p = sz \<and> cached (pf_pool st') i = Some p"
proof -
  have ok: "store_ok sz st" using assms by (simp add: store_good_def)
  obtain rs where rs: "wal_holds w rs" using assms by (auto simp: store_good_def)
  let ?st1 = "st\<lparr>pf_pool := touch i (pf_pool st)\<rparr>"
  have ok1: "store_ok sz ?st1" using ok by (rule store_ok_touch)
  show ?thesis
  proof (cases "cached (pf_pool st) i")
    case (Some p)
    then have "store_fetch sz i (st, w) = (Inr p, (?st1, w))"
      by (simp add: store_fetch_def andthen_def run_simps pool_get_run)
    moreover have "length p = sz" using ok Some by (simp add: store_ok_def)
    ultimately show ?thesis
      using Some ok1 rs by (auto simp: quiet_def store_good_def store_view_touch) (simp_all add: store_view_def view_def)
  next
    case None
    obtain p where p: "read_exact_at sz (page_offset sz i) (pf_file st) = Inr p"
      "disk_page sz (pf_file st) i = Some p" "length p = sz"
      using store_read_file [OF ok i] by blast
    obtain st' w' where c: "cache_page sz i p (?st1, w) = (Inr (), (st', w'))" "log_same w w'"
      "wal_holds w' rs" "store_view sz st' = (store_view sz ?st1)(i \<mapsto> p)"
      "cached (pf_pool st') i = Some p" "pf_next_id st' = pf_next_id st"
      "max_frames (pf_pool st') = max_frames (pf_pool st)" "store_ok sz st'"
      using cache_page_run [OF ok1 rs, of i p] i None p(2,3) by auto
    have "store_fetch sz i (st, w) = (Inr p, (st', w'))"
      using None p(1) c(1) by (simp add: store_fetch_def andthen_def run_simps pool_get_run)
    moreover have v: "store_view sz st i = Some p"
      using None p(2) by (simp add: store_view_def view_def)
    moreover have "store_view sz st' = store_view sz st"
      using v by (auto simp: c(4) store_view_touch fun_eq_iff)
    ultimately show ?thesis using c p(3) by (auto simp: quiet_def store_good_def)
  qed
qed


section \<open>Guards\<close>

lemma drop_guard_pool:
  assumes inv: "pool_inv b" and c: "cached b i \<noteq> None" and np: "\<forall>j. \<not> pinned b j"
    and b': "b' = drop_guard i p (mark_dirty i (pin i b))"
  shows "pool_inv b'" and "cached b' = (cached b)(i \<mapsto> p)"
    and "\<forall>j. is_dirty j b' \<longleftrightarrow> j = i \<or> is_dirty j b" and "\<forall>j. \<not> pinned b' j"
    and "max_frames b' = max_frames b"
proof -
  obtain e where e: "map_of (frames b) i = Some e" using c by (auto simp: cached_def)
  let ?pinned = "mark_dirty i (update_entry i (\<lambda>e. e\<lparr>pin_count := pin_count e + 1\<rparr>) b)"
  have up: "update_page i p ?pinned =
      touch i (mark_dirty i (update_entry i (fe_page_update (\<lambda>_. p)) ?pinned))"
    using e by (simp add: update_page_def)
  show "pool_inv b'"
    using inv by (simp add: b' drop_guard_def pin_def unpin_def pool_inv_update_page)
  show "cached b' = (cached b)(i \<mapsto> p)"
    using e by (auto simp: b' drop_guard_def up pin_def unpin_def cached_def fun_eq_iff)
  show "\<forall>j. is_dirty j b' \<longleftrightarrow> j = i \<or> is_dirty j b"
    by (simp add: b' drop_guard_def up pin_def unpin_def)
  show "\<forall>j. \<not> pinned b' j"
    using e np by (auto simp: b' drop_guard_def up pin_def unpin_def pinned_def)
  show "max_frames b' = max_frames b"
    by (simp add: b' drop_guard_def up pin_def unpin_def)
qed

lemma store_ok_write_cached:
  assumes ok: "store_ok sz st" and c: "cached (pf_pool st) i \<noteq> None" and len: "length p = sz"
    and b': "pool_inv b'" "cached b' = (cached (pf_pool st))(i \<mapsto> p)"
      "\<forall>j. is_dirty j b' \<longleftrightarrow> j = i \<or> is_dirty j (pf_pool st)" "\<forall>j. \<not> pinned b' j"
      "max_frames b' = max_frames (pf_pool st)"
  shows "store_ok sz (st\<lparr>pf_pool := b'\<rparr>)"
    and "store_view sz (st\<lparr>pf_pool := b'\<rparr>) = (store_view sz st)(i \<mapsto> p)"
  using assms by (auto simp: store_ok_def coherent_def store_view_def view_def fun_eq_iff)

text \<open>
  \<open>changed\<close> is \<open>quiet\<close> except for the contents of one page.
\<close>

definition changed :: "nat \<Rightarrow> u64 \<Rightarrow> bytes \<Rightarrow> page_store \<times> wal \<Rightarrow> page_store \<times> wal \<Rightarrow> bool" where
  "changed sz i p = (\<lambda>(st, w) (st', w'). store_good sz (st', w') \<and>
     store_view sz st' = (store_view sz st)(i \<mapsto> p) \<and> pf_next_id st' = pf_next_id st \<and>
     max_frames (pf_pool st') = max_frames (pf_pool st) \<and> log_same w w')"

lemma panics_Inr: "p s = (Inr a, t) \<Longrightarrow> panics p s = (Inr a, t)"
  by (simp add: panics_def)

lemma with_page_run:
  assumes good: "store_good sz (st, w)" and i: "i < pf_next_id st"
    and fm: "fm = store_fetch_mut sz i \<or> fm = panics (store_fetch_mut sz i)"
    and body: "\<And>p. store_view sz st i = Some p \<Longrightarrow> length p = sz \<Longrightarrow>
      body p = (r, p') \<and> length p' = sz"
  shows "\<exists>s'. with_page fm i body (st, w) = (r, s') \<and> changed sz i p' (st, w) s'"
proof -
  obtain p st1 w1 where f: "store_fetch sz i (st, w) = (Inr p, (st1, w1))"
    and q: "quiet sz (st, w) (st1, w1)" and p: "store_view sz st i = Some p" "length p = sz"
      "cached (pf_pool st1) i = Some p"
    using store_fetch_run [OF good i] by blast
  have fm': "store_fetch_mut sz i (st, w) =
      (Inr p, (st1\<lparr>pf_pool := mark_dirty i (pin i (pf_pool st1))\<rparr>, w1))"
    by (simp add: store_fetch_mut_def andthen_def run_simps f)
  have run: "fm (st, w) = (Inr p, (st1\<lparr>pf_pool := mark_dirty i (pin i (pf_pool st1))\<rparr>, w1))"
    using fm fm' by (auto simp: panics_def)
  have ok1: "store_ok sz st1" using q by (simp add: quiet_def store_good_def)
  let ?b' = "drop_guard i p' (mark_dirty i (pin i (pf_pool st1)))"
  have inv1: "pool_inv (pf_pool st1)" "cached (pf_pool st1) i \<noteq> None" "\<forall>j. \<not> pinned (pf_pool st1) j"
    using ok1 p(3) by (simp_all add: store_ok_def)
  note g = drop_guard_pool [OF inv1 refl, of p']
  have len: "length p' = sz" using body [OF p(1,2)] by simp
  note w = store_ok_write_cached [OF ok1 inv1(2) len g]
  have "with_page fm i body (st, w) = (r, (st1\<lparr>pf_pool := ?b'\<rparr>, w1))"
    using body [OF p(1,2)] by (simp add: with_page_def andthen_def run run_simps)
  then show ?thesis
    using q w g(5) by (auto simp: changed_def quiet_def store_good_def)
qed


section \<open>Allocation\<close>

lemma store_allocate_run:
  assumes good: "store_good sz (st, w)" and len: "length (init (pf_next_id st)) = sz"
    and room: "(unat (pf_next_id st) + 1) * sz < 18446744073709551616"
  shows "\<exists>st' w'. store_allocate sz init (st, w) = (Inr (pf_next_id st), (st', w')) \<and>
    store_good sz (st', w') \<and>
    store_view sz st' = (store_view sz st)(pf_next_id st \<mapsto> init (pf_next_id st)) \<and>
    pf_next_id st' = pf_next_id st + 1 \<and> unat (pf_next_id st') = unat (pf_next_id st) + 1 \<and>
    max_frames (pf_pool st') = max_frames (pf_pool st) \<and> log_same w w'"
proof -
  let ?n = "pf_next_id st" and ?b = "pf_pool st" and ?f = "pf_file st"
  have ok: "store_ok sz st" using good by (simp add: store_good_def)
  obtain rs where rs: "wal_holds w rs" using good by (auto simp: store_good_def)
  have sz: "0 < sz" and lf: "length ?f = unat ?n * sz"
    and bound: "\<And>j p. cached ?b j = Some p \<Longrightarrow> j < ?n \<and> length p = sz"
    and coh: "coherent (cached ?b) (\<lambda>i. is_dirty i ?b) (disk_page sz ?f)"
    using ok unfolding store_ok_def by blast+
  have szl: "sz < 18446744073709551616" using room by (cases "unat ?n") auto
  have off: "page_offset sz ?n = unat ?n * sz"
    using room by (intro page_offset_exact szl) simp
  have end_off: "unat (of_nat (page_offset sz ?n) + of_nat sz :: u64) = (unat ?n + 1) * sz"
    using unat_u64 [OF room] by (simp add: off add.commute)
  have n1: "unat (?n + 1) = unat ?n + 1"
  proof -
    have "unat ?n + 1 < 18446744073709551616"
      using room sz mult_le_mono2 [of 1 sz "unat ?n + 1"] by simp
    then show ?thesis using unat_u64_add [of ?n 1] by simp
  qed
  let ?f1 = "set_len ((unat ?n + 1) * sz) ?f"
  let ?st1 = "st\<lparr>pf_next_id := ?n + 1, pf_file := ?f1\<rparr>"
  have disk: "disk_page sz ?f1 j = disk_page sz ?f j" if "j < ?n" for j
  proof -
    have "(unat j + 1) * sz \<le> length ?f"
      unfolding lf using that by (intro mult_Suc_le) (simp add: word_less_nat_alt)
    moreover have "length ?f \<le> (unat ?n + 1) * sz" by (simp add: lf)
    ultimately have "(unat j + 1) * sz \<le> length ?f" "(unat j + 1) * sz \<le> (unat ?n + 1) * sz"
      by linarith+
    then show ?thesis
      unfolding disk_page_def length_set_len by (simp only: if_True slice_set_len)
  qed
  have disk2: "disk_page sz ?f1 j = disk_page sz ?f j" if "j \<noteq> ?n" for j
  proof (cases "j < ?n")
    case False
    then have "unat ?n < unat j" using that by (simp add: word_less_nat_alt word_unat_eq_iff)
    then have "(unat ?n + 1) * sz < (unat j + 1) * sz" using sz by simp
    moreover have "unat ?n * sz \<le> (unat ?n + 1) * sz" by simp
    ultimately have "\<not> (unat j + 1) * sz \<le> (unat ?n + 1) * sz" "\<not> (unat j + 1) * sz \<le> unat ?n * sz"
      by linarith+
    then show ?thesis unfolding disk_page_def length_set_len lf by (simp only: if_False)
  qed (rule disk)
  have coh1: "coherent (cached ?b) (\<lambda>i. is_dirty i ?b) (disk_page sz ?f1)"
    using coh bound disk unfolding coherent_def by metis
  have le: "j < ?n + 1" if "j < ?n" for j
    using that n1 by (simp add: word_less_nat_alt)
  have ok1: "store_ok sz ?st1"
    using ok coh1 room bound le n1 unfolding store_ok_def by auto
  have miss: "cached ?b ?n = None"
  proof (rule ccontr)
    assume "cached ?b ?n \<noteq> None"
    then obtain p where "cached ?b ?n = Some p" by blast
    then show False using bound by blast
  qed
  have lt: "?n < pf_next_id ?st1" using n1 by (simp add: word_less_nat_alt)
  obtain st' w' where c: "cache_page sz ?n (init ?n) (?st1, w) = (Inr (), (st', w'))" "log_same w w'"
    "wal_holds w' rs" "store_view sz st' = (store_view sz ?st1)(?n \<mapsto> init ?n)"
    "pf_next_id st' = ?n + 1" "max_frames (pf_pool st') = max_frames ?b"
    "store_ok sz (st'\<lparr>pf_pool := mark_dirty ?n (pf_pool st')\<rparr>)"
    using cache_page_run [OF ok1 rs lt _ len] miss by auto
  let ?st2 = "st'\<lparr>pf_pool := mark_dirty ?n (pf_pool st')\<rparr>"
  have "store_allocate sz init (st, w) = (Inr ?n, (?st2, w'))"
    using c(1) by (simp add: store_allocate_def andthen_def run_simps end_off)
  moreover have "store_view sz ?st2 = (store_view sz st)(?n \<mapsto> init ?n)"
  proof -
    have "store_view sz ?st1 j = store_view sz st j" if "j \<noteq> ?n" for j
      using disk2 [OF that] by (simp add: store_view_def view_def split: option.split)
    then show ?thesis using c(4) by (auto simp: store_view_def fun_eq_iff)
  qed
  ultimately show ?thesis
    using c n1 by (intro exI [of _ ?st2] exI [of _ w']) (auto simp: store_good_def)
qed


section \<open>Flushing\<close>

lemma flush_one_run:
  assumes ok: "store_ok sz st" and rs: "wal_holds w rs"
  shows "\<exists>st' w'. flush_one sz i (st, w) = (Inr (), (st', w')) \<and> store_ok sz st' \<and>
    wal_holds w' rs \<and> log_same w w' \<and> cached (pf_pool st') = cached (pf_pool st) \<and>
    dirty (pf_pool st') = dirty (pf_pool st) \<and> pf_next_id st' = pf_next_id st \<and>
    max_frames (pf_pool st') = max_frames (pf_pool st) \<and>
    disk_page sz (pf_file st') = (case cached (pf_pool st) i of None \<Rightarrow> disk_page sz (pf_file st)
      | Some p \<Rightarrow> (disk_page sz (pf_file st))(i \<mapsto> p))"
proof (cases "cached (pf_pool st) i")
  case None
  then show ?thesis
    using ok rs store_ok_touch [OF ok, of i]
    by (intro exI [of _ "st\<lparr>pf_pool := touch i (pf_pool st)\<rparr>"] exI [of _ w])
      (simp add: flush_one_def andthen_def run_simps pool_get_run)
next
  case (Some p)
  let ?st1 = "st\<lparr>pf_pool := touch i (pf_pool st)\<rparr>"
  let ?l = "page_lsn i (pf_pool ?st1)"
  have i: "i < pf_next_id st" "length p = sz" using ok Some by (auto simp: store_ok_def)
  have ok1: "store_ok sz ?st1" using ok by (rule store_ok_touch)
  obtain w' where w': "only_if (0 < ?l) (on_wal (flush_up_to ?l)) (?st1, w) = (Inr (), (?st1, w'))"
    "log_same w w'" "wal_holds w' rs"
    using flush_wal_run [OF rs, of ?l ?st1] rs by (cases "0 < ?l") (auto simp: run_simps simp del: word_gt_0)
  let ?f = "write_all_at p (page_offset sz i) (pf_file st)"
  note wf = store_write_file [OF ok i]
  have run: "flush_one sz i (st, w) = (Inr (), (?st1\<lparr>pf_file := ?f\<rparr>, w'))"
    using w'(1) Some by (simp add: flush_one_def andthen_def run_simps pool_get_run)
  have "store_ok sz (?st1\<lparr>pf_file := ?f\<rparr>)"
    using ok1 wf Some by (auto simp: store_ok_def coherent_def)
  then show ?thesis
    using run w' wf Some by (intro exI [of _ "?st1\<lparr>pf_file := ?f\<rparr>"] exI [of _ w']) simp
qed

lemma flush_each_run:
  assumes "store_ok sz st" and "wal_holds w rs"
  shows "\<exists>st' w'. for_each (flush_one sz) ids (st, w) = (Inr (), (st', w')) \<and> store_ok sz st' \<and>
    wal_holds w' rs \<and> log_same w w' \<and> cached (pf_pool st') = cached (pf_pool st) \<and>
    dirty (pf_pool st') = dirty (pf_pool st) \<and> pf_next_id st' = pf_next_id st \<and>
    max_frames (pf_pool st') = max_frames (pf_pool st) \<and>
    (\<forall>j. disk_page sz (pf_file st') j = (if j \<in> set ids \<and> cached (pf_pool st) j \<noteq> None
      then cached (pf_pool st) j else disk_page sz (pf_file st) j))"
  using assms
proof (induction ids arbitrary: st w)
  case Nil
  then show ?case by (auto simp: run_simps)
next
  case (Cons i ids)
  obtain st1 w1 where 1: "flush_one sz i (st, w) = (Inr (), (st1, w1))" "store_ok sz st1"
    "wal_holds w1 rs" "log_same w w1" "cached (pf_pool st1) = cached (pf_pool st)"
    "dirty (pf_pool st1) = dirty (pf_pool st)" "pf_next_id st1 = pf_next_id st"
    "max_frames (pf_pool st1) = max_frames (pf_pool st)"
    "disk_page sz (pf_file st1) = (case cached (pf_pool st) i of None \<Rightarrow> disk_page sz (pf_file st)
      | Some p \<Rightarrow> (disk_page sz (pf_file st))(i \<mapsto> p))"
    using flush_one_run [OF Cons.prems, of i] by blast
  obtain st2 w2 where 2: "for_each (flush_one sz) ids (st1, w1) = (Inr (), (st2, w2))"
    "store_ok sz st2" "wal_holds w2 rs" "log_same w1 w2"
    "cached (pf_pool st2) = cached (pf_pool st)" "dirty (pf_pool st2) = dirty (pf_pool st)"
    "pf_next_id st2 = pf_next_id st" "max_frames (pf_pool st2) = max_frames (pf_pool st)"
    "\<forall>j. disk_page sz (pf_file st2) j = (if j \<in> set ids \<and> cached (pf_pool st) j \<noteq> None
      then cached (pf_pool st) j else disk_page sz (pf_file st1) j)"
    using Cons.IH [OF 1(2,3)] unfolding 1(5-8) by blast
  have "for_each (flush_one sz) (i # ids) (st, w) = (Inr (), (st2, w2))"
    using 1(1) 2(1) by (simp add: andthen_def)
  then show ?case
    using 2 1(9) log_same_trans [OF 1(4) 2(4)]
    by (intro exI [of _ st2] exI [of _ w2]) (auto split: option.splits)
qed

lemma clear_dirty_pool:
  "cached (clear_dirty b) = cached b" "pinned (clear_dirty b) = pinned b"
  "\<not> is_dirty i (clear_dirty b)" "max_frames (clear_dirty b) = max_frames b"
proof -
  have m: "map_of (map (\<lambda>(i, e). (i, e\<lparr>fe_rec_lsn := 0\<rparr>)) xs) j = map_option (\<lambda>e. e\<lparr>fe_rec_lsn := 0\<rparr>) (map_of xs j)"
    for xs :: "(u64, 'a frame_entry) hmap" and j
    by (induction xs) auto
  show "cached (clear_dirty b) = cached b" "pinned (clear_dirty b) = pinned b"
    "\<not> is_dirty i (clear_dirty b)" "max_frames (clear_dirty b) = max_frames b"
    by (auto simp: clear_dirty_def cached_def pinned_def is_dirty_def m fun_eq_iff option.map_comp comp_def)
qed

lemma is_dirty_in_ids: "is_dirty i b \<Longrightarrow> i \<in> set (dirty_page_ids b)"
  by (auto simp: is_dirty_def dirty_page_ids_def dest: map_of_SomeD split: option.splits intro: rev_image_eqI)

lemma store_flush_all_run:
  assumes good: "store_good sz (st, w)"
  shows "\<exists>st' w'. store_flush_all sz (st, w) = (Inr (), (st', w')) \<and>
    quiet sz (st, w) (st', w') \<and> disk_page sz (pf_file st') = store_view sz st \<and>
    (\<forall>i. \<not> is_dirty i (pf_pool st'))"
proof -
  have ok: "store_ok sz st" using good by (simp add: store_good_def)
  obtain rs where rs: "wal_holds w rs" using good by (auto simp: store_good_def)
  let ?ids = "dirty_page_ids (pf_pool st)"
  obtain st1 w1 where 1: "for_each (flush_one sz) ?ids (st, w) = (Inr (), (st1, w1))" "store_ok sz st1"
    "wal_holds w1 rs" "log_same w w1" "cached (pf_pool st1) = cached (pf_pool st)"
    "pf_next_id st1 = pf_next_id st" "max_frames (pf_pool st1) = max_frames (pf_pool st)"
    and d: "\<forall>j. disk_page sz (pf_file st1) j = (if j \<in> set ?ids \<and> cached (pf_pool st) j \<noteq> None
      then cached (pf_pool st) j else disk_page sz (pf_file st) j)"
    using flush_each_run [OF ok rs] by blast
  let ?st2 = "st1\<lparr>pf_pool := clear_dirty (pf_pool st1)\<rparr>"
  have run: "store_flush_all sz (st, w) = (Inr (), (?st2, w1))"
    using 1(1) by (simp add: store_flush_all_def andthen_def run_simps)
  have disk: "disk_page sz (pf_file st1) = store_view sz st"
  proof
    fix j
    have "coherent (cached (pf_pool st)) (\<lambda>i. is_dirty i (pf_pool st)) (disk_page sz (pf_file st))"
      using ok by (simp add: store_ok_def)
    then show "disk_page sz (pf_file st1) j = store_view sz st j"
      using d is_dirty_in_ids [of j "pf_pool st"]
      by (auto simp: store_view_def view_def coherent_def split: option.splits)
  qed
  have "store_ok sz ?st2"
    using 1(2) disk 1(5) pool_inv_clear_dirty
    by (auto simp: clear_dirty_pool store_ok_def coherent_def store_view_def view_def)
  moreover have "store_view sz ?st2 = store_view sz st"
    using disk 1(5) by (auto simp: store_view_def clear_dirty_pool view_def fun_eq_iff split: option.splits)
  ultimately show ?thesis
    using run 1 disk by (auto simp: quiet_def store_good_def clear_dirty_pool)
qed


lemma clear_single_pool:
  "cached (clear_dirty_single i b) = cached b" "pinned (clear_dirty_single i b) = pinned b"
  "is_dirty j (clear_dirty_single i b) \<longleftrightarrow> j \<noteq> i \<and> is_dirty j b"
  "max_frames (clear_dirty_single i b) = max_frames b"
  by (auto simp: clear_dirty_single_def cached_def pinned_def is_dirty_def fun_eq_iff option.map_comp comp_def)

text \<open>
  \<open>flush\<close> writes one page. When it returns, no record that is still only in memory is as old as the
  LSN of the page: the log went first.
\<close>

lemma store_flush_run:
  assumes good: "store_good sz (st, w)"
  shows "\<exists>st' w'. store_flush sz i (st, w) = (Inr (), (st', w')) \<and> quiet sz (st, w) (st', w') \<and>
    disk_page sz (pf_file st') =
      (if is_dirty i (pf_pool st) then (disk_page sz (pf_file st))(i := store_view sz st i)
       else disk_page sz (pf_file st)) \<and>
    \<not> is_dirty i (pf_pool st') \<and>
    (is_dirty i (pf_pool st) \<and> 0 < page_lsn i (pf_pool st) \<longrightarrow>
      (\<exists>done pend. wal_rep (inner w') done pend \<and>
        (\<forall>r \<in> set pend. page_lsn i (pf_pool st) < lsn_of r)))"
proof (cases "is_dirty i (pf_pool st)")
  case False
  then have "store_flush sz i (st, w) = (Inr (), (st, w))"
    by (simp add: store_flush_def andthen_def run_simps)
  then show ?thesis using quiet_refl [OF good] False by auto
next
  case True
  have ok: "store_ok sz st" using good by (simp add: store_good_def)
  obtain rs where rs: "wal_holds w rs" using good by (auto simp: store_good_def)
  obtain p where p: "cached (pf_pool st) i = Some p" using ok True by (auto simp: store_ok_def)
  let ?b = "touch i (pf_pool st)"
  let ?l = "page_lsn i (pf_pool st)"
  have l: "page_lsn i ?b = ?l" by (simp add: page_lsn_def)
  have i: "i < pf_next_id st" "length p = sz" using ok p by (auto simp: store_ok_def)
  obtain w' where w': "only_if (0 < ?l) (on_wal (flush_up_to ?l)) (st\<lparr>pf_pool := ?b\<rparr>, w) =
      (Inr (), (st\<lparr>pf_pool := ?b\<rparr>, w'))" "log_same w w'" "wal_holds w' rs"
    "0 < ?l \<longrightarrow> (\<exists>done pend. wal_rep (inner w') done pend \<and> (\<forall>r \<in> set pend. ?l < lsn_of r))"
    using flush_wal_run [OF rs, of ?l "st\<lparr>pf_pool := ?b\<rparr>"] rs
    by (cases "0 < ?l") (auto simp: run_simps simp del: word_gt_0)
  let ?f = "write_all_at p (page_offset sz i) (pf_file st)"
  note wf = store_write_file [OF ok i]
  let ?st' = "st\<lparr>pf_pool := clear_dirty_single i ?b, pf_file := ?f\<rparr>"
  have run: "store_flush sz i (st, w) = (Inr (), (?st', w'))"
    using w'(1) True p by (simp add: store_flush_def andthen_def run_simps pool_get_run l)
  have "store_ok sz ?st'"
    using ok wf p pool_inv_clear_single [of ?b i]
    by (auto simp: store_ok_def coherent_def clear_single_pool)
  moreover have "store_view sz ?st' = store_view sz st"
    using wf p by (auto simp: store_view_def view_def clear_single_pool fun_eq_iff split: option.splits)
  moreover have "store_view sz st i = Some p" using p by (simp add: store_view_def view_def)
  ultimately show ?thesis
    using run w' wf True
    by (intro exI [of _ ?st'] exI [of _ w'])
      (simp add: quiet_def store_good_def clear_single_pool exI [of _ rs] del: word_gt_0)
qed


section \<open>Discarding\<close>

lemma pool_remove_pool:
  "cached (snd (pool_remove i b)) = (cached b)(i := None)"
  "is_dirty j (snd (pool_remove i b)) \<longleftrightarrow> j \<noteq> i \<and> is_dirty j b"
  "pinned (snd (pool_remove i b)) j \<longleftrightarrow> j \<noteq> i \<and> pinned b j"
  "max_frames (snd (pool_remove i b)) = max_frames b"
  by (auto simp: pool_remove_def cached_def is_dirty_def pinned_def fun_eq_iff)

lemma discard_each:
  assumes "store_ok sz st"
  shows "\<exists>st'. for_each (\<lambda>i. modify_pool (\<lambda>b. snd (pool_remove i b))) ids (st, w) = (Inr (), (st', w)) \<and>
    store_ok sz st' \<and> pf_file st' = pf_file st \<and> pf_next_id st' = pf_next_id st \<and>
    max_frames (pf_pool st') = max_frames (pf_pool st) \<and>
    (\<forall>j. cached (pf_pool st') j = (if j \<in> set ids then None else cached (pf_pool st) j)) \<and>
    (\<forall>j. is_dirty j (pf_pool st') \<longleftrightarrow> j \<notin> set ids \<and> is_dirty j (pf_pool st))"
  using assms
proof (induction ids arbitrary: st)
  case (Cons i ids)
  let ?st1 = "st\<lparr>pf_pool := snd (pool_remove i (pf_pool st))\<rparr>"
  have "store_ok sz ?st1"
    using Cons.prems pool_inv_remove
    by (auto simp: store_ok_def pool_remove_pool coherent_def)
  from Cons.IH [OF this] obtain st' where
    "for_each (\<lambda>i. modify_pool (\<lambda>b. snd (pool_remove i b))) ids (?st1, w) = (Inr (), (st', w))"
    "store_ok sz st'" "pf_file st' = pf_file st" "pf_next_id st' = pf_next_id st"
    "max_frames (pf_pool st') = max_frames (pf_pool st)"
    "\<forall>j. cached (pf_pool st') j = (if j \<in> set ids then None else ((cached (pf_pool st))(i := None)) j)"
    "\<forall>j. is_dirty j (pf_pool st') \<longleftrightarrow> j \<notin> set ids \<and> j \<noteq> i \<and> is_dirty j (pf_pool st)"
    by (auto simp: pool_remove_pool)
  then show ?case
    by (intro exI [of _ st']) (simp add: andthen_def run_simps, blast)
qed (simp add: run_simps)

lemma store_discard_run:
  assumes good: "store_good sz (st, w)"
  shows "\<exists>st'. store_discard_dirty (st, w) = (Inr (), (st', w)) \<and> store_good sz (st', w) \<and>
    store_view sz st' = disk_page sz (pf_file st) \<and> pf_file st' = pf_file st \<and>
    pf_next_id st' = pf_next_id st \<and> (\<forall>i. \<not> is_dirty i (pf_pool st'))"
proof -
  have ok: "store_ok sz st" using good by (simp add: store_good_def)
  let ?ids = "dirty_page_ids (pf_pool st)"
  obtain st' where s: "for_each (\<lambda>i. modify_pool (\<lambda>b. snd (pool_remove i b))) ?ids (st, w) = (Inr (), (st', w))"
    "store_ok sz st'" "pf_file st' = pf_file st" "pf_next_id st' = pf_next_id st"
    "\<forall>j. cached (pf_pool st') j = (if j \<in> set ?ids then None else cached (pf_pool st) j)"
    "\<forall>j. is_dirty j (pf_pool st') \<longleftrightarrow> j \<notin> set ?ids \<and> is_dirty j (pf_pool st)"
    using discard_each [OF ok, of ?ids w] by blast
  have clean: "\<not> is_dirty j (pf_pool st')" for j
    using s(6) is_dirty_in_ids by blast
  then have "store_view sz st' = disk_page sz (pf_file st)"
    using s(2,3) by (auto simp: store_ok_def coherent_def store_view_def view_def fun_eq_iff split: option.splits)
  then show ?thesis
    using s clean good by (auto simp: store_discard_dirty_def andthen_def run_simps store_good_def)
qed

text \<open>A store that is opened on a file of whole pages shows the pages of the file.\<close>

lemma store_new_ok:
  assumes "length f = n * sz" and "0 < sz" and "length f < 18446744073709551616" and "0 < cap"
  shows "store_ok sz (store_new sz cap f)" and "store_view sz (store_new sz cap f) = disk_page sz f"
    and "unat (pf_next_id (store_new sz cap f)) = n"
proof -
  have c: "cached (pool_new cap :: bytes pool) = (\<lambda>_. None)" "\<not> is_dirty i (pool_new cap :: bytes pool)"
    "\<not> pinned (pool_new cap :: bytes pool) i" for i
    by (auto simp: cached_def is_dirty_def pinned_def pool_new_def)
  show n: "unat (pf_next_id (store_new sz cap f)) = n"
  proof (cases "n = 0")
    case False
    then have "sz < 18446744073709551616"
      using assms(1,3) by (metis le_less_trans mult_le_mono1 nat_mult_1 less_one not_less)
    then show ?thesis
      using assms unat_u64 [of sz] unat_u64 [of "length f"]
      by (simp add: store_new_def unat_div_distrib del: of_nat_mult)
  qed (use assms in \<open>simp add: store_new_def\<close>)
  show "store_ok sz (store_new sz cap f)"
    using assms n c pool_inv_new [of cap]
    by (simp add: store_ok_def coherent_def) (simp add: store_new_def pool_new_def)
  show "store_view sz (store_new sz cap f) = disk_page sz f"
    by (simp add: store_new_def store_view_def c view_def fun_eq_iff)
qed

end
