(* ===== verification/Page_Reader.thy ===== *)
theory Page_Reader
  imports Page_Store_Laws
begin

text \<open>
  The interface of a file of pages that can be read without a visible effect, and its client: a
  loop that follows page pointers (the overflow chains of the heap, the descent in the tree) does
  what the pure walk over the visible pages does.
\<close>

text \<open>
  \<open>pos x\<close> is the page the loop reads in the state \<open>x\<close>, \<open>next x p\<close> what it does with it. \<open>walk\<close> is
  the loop over a fixed set of pages; \<open>None\<close> means that a page is missing.
\<close>

fun walk ::
  "nat \<Rightarrow> (u64 \<Rightarrow> 'p option) \<Rightarrow> ('x \<Rightarrow> u64) \<Rightarrow> ('x \<Rightarrow> 'p \<Rightarrow> error + ('x + 'a)) \<Rightarrow> 'x \<Rightarrow>
    (error + 'a) option"
  where
  "walk 0 v pos step x = Some (Inl Diverges)"
| "walk (Suc n) v pos step x =
     (case v (pos x) of
        None \<Rightarrow> None
      | Some p \<Rightarrow>
          (case step x p of
             Inl e \<Rightarrow> Some (Inl e)
           | Inr (Inl x') \<Rightarrow> walk n v pos step x'
           | Inr (Inr a) \<Rightarrow> Some (Inr a)))"

definition follow ::
  "(u64 \<Rightarrow> ('s, 'p) m) \<Rightarrow> ('x \<Rightarrow> u64) \<Rightarrow> ('x \<Rightarrow> 'p \<Rightarrow> error + ('x + 'a)) \<Rightarrow> 'x \<Rightarrow> ('s, 'x + 'a) m" where
  "follow fetch pos step x = andthen (fetch (pos x)) (\<lambda>p. of_result (step x p))"

locale page_reader =
  fixes good :: "'s \<Rightarrow> bool" and view :: "'s \<Rightarrow> u64 \<Rightarrow> 'p option"
    and fetch :: "u64 \<Rightarrow> ('s, 'p) m" and quiet :: "'s \<Rightarrow> 's \<Rightarrow> bool"
  assumes fetch_page: "good s \<Longrightarrow> view s i = Some p \<Longrightarrow> \<exists>s'. fetch i s = (Inr p, s') \<and> quiet s s'"
    and quiet_good: "quiet s s' \<Longrightarrow> good s'"
    and quiet_view: "quiet s s' \<Longrightarrow> view s' = view s"
    and quiet_self: "good s \<Longrightarrow> quiet s s"
    and quiet_comp: "quiet s s' \<Longrightarrow> quiet s' s'' \<Longrightarrow> quiet s s''"
begin

lemma follow_page:
  assumes "good s" and "view s (pos x) = Some p"
  shows "\<exists>s'. follow fetch pos step x s = (step x p, s') \<and> quiet s s'"
  using fetch_page [OF assms] by (auto simp: follow_def andthen_def run_simps)

lemma iterate_walk:
  assumes "good s" and "walk n (view s) pos step x = Some r"
  shows "\<exists>s'. iterate n (follow fetch pos step) x s = (r, s') \<and> quiet s s'"
  using assms
proof (induction n arbitrary: x s)
  case 0
  then show ?case using quiet_self by (auto simp: run_simps)
next
  case (Suc n)
  obtain p where p: "view s (pos x) = Some p"
    using Suc.prems(2) by (auto split: option.splits)
  obtain s1 where s1: "follow fetch pos step x s = (step x p, s1)" "quiet s s1"
    using follow_page [where pos = pos, OF Suc.prems(1) p] by blast
  show ?case
  proof (cases "step x p")
    case (Inl e)
    then show ?thesis using s1 p Suc.prems(2) by (auto simp: andthen_def)
  next
    case (Inr y)
    show ?thesis
    proof (cases y)
      case (Inl x')
      have "walk n (view s1) pos step x' = Some r"
        using Suc.prems(2) p Inr Inl quiet_view [OF s1(2)] by simp
      from Suc.IH [OF quiet_good [OF s1(2)] this] obtain s2
        where "iterate n (follow fetch pos step) x' s1 = (r, s2)" "quiet s1 s2" by blast
      then show ?thesis using s1 Inr Inl quiet_comp by (auto simp: andthen_def)
    next
      case (Inr a)
      then show ?thesis using s1 p Suc.prems(2) \<open>step x p = Inr y\<close> by (auto simp: andthen_def run_simps)
    qed
  qed
qed

lemma fetch_then:
  assumes "good s" and "view s i = Some p"
    and "\<And>s'. quiet s s' \<Longrightarrow> \<exists>s''. k p s' = (r, s'') \<and> quiet s' s''"
  shows "\<exists>s'. andthen (fetch i) k s = (r, s') \<and> quiet s s'"
proof -
  obtain s1 where s1: "fetch i s = (Inr p, s1)" "quiet s s1" using fetch_page [OF assms(1,2)] by blast
  obtain s2 where "k p s1 = (r, s2)" "quiet s1 s2" using assms(3) [OF s1(2)] by blast
  then show ?thesis using s1 quiet_comp by (auto simp: andthen_def)
qed

end

text \<open>More fuel changes nothing once a walk has ended.\<close>

lemma walk_more:
  assumes "walk n v pos step x = Some r" and "r \<noteq> Inl Diverges" and "n \<le> m"
  shows "walk m v pos step x = Some r"
  using assms
proof (induction n arbitrary: x m)
  case (Suc n)
  then obtain m' where "m = Suc m'" "n \<le> m'" by (cases m) auto
  then show ?case using Suc by (auto split: option.splits sum.splits)
qed simp

text \<open>Every visible page is an allocated one.\<close>

lemma store_view_bound:
  assumes "store_ok sz st" and "store_view sz st i = Some p"
  shows "i < pf_next_id st"
proof (cases "cached (pf_pool st) i")
  case None
  then have "(unat i + 1) * sz \<le> unat (pf_next_id st) * sz" and "0 < sz"
    using assms by (auto simp: store_view_def view_def disk_page_def store_ok_def split: if_splits)
  then have "unat i + 1 \<le> unat (pf_next_id st)" by (simp only: mult_le_cancel2)
  then show ?thesis by (simp add: word_less_nat_alt)
next
  case (Some q)
  then show ?thesis using assms(1) by (simp add: store_ok_def)
qed

interpretation store_reader: page_reader "store_good sz" "\<lambda>s. store_view sz (fst s)"
  "store_fetch sz" "quiet sz" for sz
proof
  fix s s' s'' :: "page_store \<times> wal" and i p
  obtain st w where s: "s = (st, w)" by (cases s)
  show "\<exists>s'. store_fetch sz i s = (Inr p, s') \<and> quiet sz s s'"
    if "store_good sz s" "store_view sz (fst s) i = Some p"
  proof -
    have "i < pf_next_id st" using that store_view_bound by (auto simp: s store_good_def)
    then show ?thesis using store_fetch_run [of sz st w i] that unfolding s by fastforce
  qed
  show "quiet sz s s' \<Longrightarrow> store_good sz s'" by (cases s; cases s') (simp add: quiet_def)
  show "quiet sz s s' \<Longrightarrow> store_view sz (fst s') = store_view sz (fst s)"
    by (cases s; cases s') (simp add: quiet_def)
  show "store_good sz s \<Longrightarrow> quiet sz s s" by (rule quiet_refl)
  show "quiet sz s s' \<Longrightarrow> quiet sz s' s'' \<Longrightarrow> quiet sz s s''" by (rule quiet_trans)
qed

end
