(* ===== verification/Index.thy ===== *)
theory Index
  imports Page_Refinement Page_Reader
begin

text \<open>
  The index file of \<open>index.rs\<close>: the page store of 4096 byte pages behind the tree. Fetching and
  allocating panic where the heap file returns an error.
\<close>

definition INDEX_POOL_CAPACITY :: nat where "INDEX_POOL_CAPACITY = 10000"

definition index_open :: "disk_file \<Rightarrow> nat \<Rightarrow> page_store" where
  "index_open f capacity = store_new PAGE_SIZE capacity f"

definition index_allocate :: "page_kind \<Rightarrow> u64 on_store" where
  "index_allocate page_ty = panics (store_allocate PAGE_SIZE (\<lambda>i.
     snd (index_serialize \<lparr>ih_id = i, ih_free_start = of_nat HEADER_SIZE,
       ih_free_end = of_nat PAGE_SIZE, ih_page_ty = page_ty, ih_flags = 0, ih_ptr = 0\<rparr>
       (replicate PAGE_SIZE 0))))"

definition index_fetch :: "u64 \<Rightarrow> bytes on_store" where
  "index_fetch i = panics (store_fetch PAGE_SIZE i)"

definition index_fetch_mut :: "u64 \<Rightarrow> bytes on_store" where
  "index_fetch_mut i = panics (store_fetch_mut PAGE_SIZE i)"

definition index_with_page :: "u64 \<Rightarrow> (bytes, 'a) m \<Rightarrow> 'a on_store" where
  "index_with_page i body = with_page (index_fetch_mut i) i body"

definition index_write_page :: "u64 \<Rightarrow> bytes \<Rightarrow> unit on_store" where
  "index_write_page i page = modify_pool (update_page i page)"

definition index_flush :: "u64 \<Rightarrow> unit on_store" where
  "index_flush i = store_flush PAGE_SIZE i"

definition index_flush_all :: "unit on_store" where
  "index_flush_all = store_flush_all PAGE_SIZE"

definition index_discard_dirty :: "unit on_store" where
  "index_discard_dirty = store_discard_dirty"

abbreviation index_good :: "page_store \<times> wal \<Rightarrow> bool" where
  "index_good \<equiv> store_good 4096"

abbreviation index_view :: "page_store \<times> wal \<Rightarrow> u64 \<Rightarrow> bytes option" where
  "index_view s \<equiv> store_view 4096 (fst s)"

interpretation index_reader: page_reader index_good index_view index_fetch "quiet 4096"
proof
  fix s s' s'' :: "page_store \<times> wal" and i p
  show "\<exists>s'. index_fetch i s = (Inr p, s') \<and> quiet 4096 s s'"
    if "index_good s" "index_view s i = Some p"
    using store_reader.fetch_page [OF that] by (auto simp: index_fetch_def panics_def)
qed (auto intro: store_reader.quiet_good store_reader.quiet_view store_reader.quiet_self
    store_reader.quiet_comp)

lemma index_with_page_run:
  assumes good: "index_good s" and v: "index_view s i = Some p"
    and body: "body p = (r, p')" "length p' = 4096"
  shows "\<exists>s'. index_with_page i body s = (r, s') \<and> changed 4096 i p' s s'"
proof -
  obtain st w where s: "s = (st, w)" by (cases s)
  have "store_ok 4096 (fst s)" using good by (simp add: s store_good_def)
  then have lt: "i < pf_next_id st"
    using store_view_bound v s by fastforce
  have g: "store_good 4096 (st, w)" using good s by simp
  have b: "\<And>q. store_view 4096 st i = Some q \<Longrightarrow> length q = 4096 \<Longrightarrow> body q = (r, p') \<and> length p' = 4096"
    using v body by (simp add: s)
  show ?thesis
    using with_page_run [OF g lt _ b] by (simp add: s index_with_page_def index_fetch_mut_def)
qed

lemma index_allocate_run:
  assumes good: "index_good s"
    and room: "(unat (pf_next_id (fst s)) + 1) * 4096 < 18446744073709551616"
  shows "\<exists>s' p. index_allocate ty s = (Inr (pf_next_id (fst s)), s') \<and> index_good s' \<and>
    index_view s' = (index_view s)(pf_next_id (fst s) \<mapsto> p) \<and>
    page_rep p (empty_node (pf_next_id (fst s)) ty 0) \<and>
    unat (pf_next_id (fst s')) = unat (pf_next_id (fst s)) + 1 \<and>
    max_frames (pf_pool (fst s')) = max_frames (pf_pool (fst s)) \<and> log_same (snd s) (snd s')"
proof -
  obtain st w where s: "s = (st, w)" by (cases s)
  define init where "init i = snd (index_serialize \<lparr>ih_id = i, ih_free_start = of_nat HEADER_SIZE,
       ih_free_end = of_nat PAGE_SIZE, ih_page_ty = ty, ih_flags = 0, ih_ptr = 0\<rparr>
       (replicate PAGE_SIZE 0))" for i
  have init: "init_header i ty 0 (replicate PAGE_SIZE 0) = (Inr (), init i)" for i
    by (simp add: init_header_def init_def index_hdr.serialize_enc)
  have rep: "page_rep (init i) (empty_node i ty 0)" for i
    using init_header_rep [of "replicate PAGE_SIZE 0" i ty 0] init [of i] by auto
  have len: "length (init i) = 4096" for i using rep by (simp add: page_rep_def)
  have g: "store_good 4096 (st, w)" and r: "(unat (pf_next_id st) + 1) * 4096 < 18446744073709551616"
    using assms by (simp_all add: s)
  obtain st' w' where a: "store_allocate 4096 init (st, w) = (Inr (pf_next_id st), (st', w'))"
    "store_good 4096 (st', w')" "store_view 4096 st' = (store_view 4096 st)(pf_next_id st \<mapsto> init (pf_next_id st))"
    "unat (pf_next_id st') = unat (pf_next_id st) + 1" "max_frames (pf_pool st') = max_frames (pf_pool st)"
    "log_same w w'"
    using store_allocate_run [where init = init, OF g len r] by blast
  have "index_allocate ty = panics (store_allocate 4096 init)"
    by (simp add: index_allocate_def init_def [abs_def])
  then have "index_allocate ty s = (Inr (pf_next_id st), (st', w'))"
    using panics_Inr [where p = "store_allocate 4096 init", OF a(1)] by (simp only: s)
  then show ?thesis using a rep by (auto simp: s)
qed

end
