(* ===== verification/Heap_Page.thy ===== *)
theory Heap_Page
  imports Header
begin

text \<open>
  The heap pages of \<open>slotted_page.rs\<close> (\<open>HeapPage\<close>): a 21 byte header, slots of 4 bytes that grow up
  and records of any length that grow down. The slots keep the order of insertion. \<open>heap_rep\<close>
  relates the bytes to the list of records.
\<close>

section \<open>The code\<close>

record slot =
  sl_offset :: u16
  sl_size :: u16

definition heap_page_header :: "bytes \<Rightarrow> error + heap_header" where
  "heap_page_header data =
     try_r (heap_deserialize data) (\<lambda>x.
     case x of None \<Rightarrow> Inl (Err ''Couldn't deserialze the heap header'') | Some h \<Rightarrow> Inr h)"

definition heap_add_cell :: "bytes \<Rightarrow> (bytes, unit) m" where
  "heap_add_cell data =
     andthen (reads heap_page_header) (\<lambda>header.
     let cell_ptr_offset = hh_free_start header;
         e = unat (hh_free_end header)
     in if e < length data \<or> e - length data < unat cell_ptr_offset + HEAP_SLOT_SIZE
        then fail (Err ''Heap page overflow!'')
        else
          let start = e - length data; c_start = unat cell_ptr_offset in
          andthen (put_slice start e data) (\<lambda>_.
          andthen (put_slice c_start (c_start + 2) (to_le (of_nat start :: u16))) (\<lambda>_.
          andthen (put_slice (c_start + 2) (c_start + 4) (to_le (of_nat (length data) :: u16))) (\<lambda>_.
          let header' = header\<lparr>hh_free_start := hh_free_start header + of_nat HEAP_SLOT_SIZE,
                               hh_free_end := of_nat start\<rparr>
          in put_slice 0 HEAP_HEADER_SIZE (snd (heap_serialize header' (replicate 21 0)))))))"

definition heap_add_records :: "bytes list \<Rightarrow> (bytes, unit) m" where
  "heap_add_records data_records = for_each heap_add_cell data_records"

definition heap_slot :: "u16 \<Rightarrow> bytes \<Rightarrow> error + slot" where
  "heap_slot i buf =
     (let off = HEAP_HEADER_SIZE + unat i * HEAP_SLOT_SIZE in
      try_r (slice_r buf off (off + 2)) (\<lambda>o_bytes.
      try_r (slice_r buf (off + 2) (off + 4)) (\<lambda>s_bytes.
      Inr \<lparr>sl_offset = from_le o_bytes, sl_size = from_le s_bytes\<rparr>)))"

definition get_cell_ptr :: "bytes \<Rightarrow> heap_header \<Rightarrow> error + slot list" where
  "get_cell_ptr buf header =
     (let range = (hh_free_start header - of_nat HEAP_HEADER_SIZE) div 4
      in map_r (\<lambda>i. heap_slot (of_nat i) buf) [0..<unat range])"

text \<open>The loop over the slots of a page that copies the records out.\<close>

definition page_records :: "bytes \<Rightarrow> heap_header \<Rightarrow> error + bytes list" where
  "page_records data header =
     try_r (get_cell_ptr data header) (map_r (\<lambda>c.
       slice_r data (unat (sl_offset c)) (unat (sl_offset c) + unat (sl_size c))))"


section \<open>The abstract view\<close>

record heap_node =
  hn_id :: u64
  hn_flags :: u8
  hn_ptr :: u64
  hn_recs :: "bytes list"

definition heap_hdr_of :: "heap_node \<Rightarrow> heap_header" where
  "heap_hdr_of nd = \<lparr>hh_id = hn_id nd, hh_free_start = of_nat (21 + 4 * length (hn_recs nd)),
     hh_free_end = of_nat (8192 - length (concat (hn_recs nd))), hh_flags = hn_flags nd,
     hh_ptr = hn_ptr nd\<rparr>"

definition heap_fits :: "bytes list \<Rightarrow> bool" where
  "heap_fits rs \<longleftrightarrow> 21 + 4 * length rs + length (concat rs) \<le> HEAP_PAGE_SIZE"

definition rec_at :: "bytes \<Rightarrow> nat \<Rightarrow> nat \<Rightarrow> bytes \<Rightarrow> bool" where
  "rec_at p lo i r \<longleftrightarrow> (\<exists>off. lo \<le> off \<and> off + length r \<le> 8192 \<and>
     slice p (21 + 4 * i) (23 + 4 * i) = to_le (of_nat off :: u16) \<and>
     slice p (23 + 4 * i) (25 + 4 * i) = to_le (of_nat (length r) :: u16) \<and>
     slice p off (off + length r) = r)"

definition heap_rep :: "bytes \<Rightarrow> heap_node \<Rightarrow> bool" where
  "heap_rep p nd \<longleftrightarrow> length p = HEAP_PAGE_SIZE \<and> heap_fits (hn_recs nd) \<and>
     take 21 p = heap_header_bytes (heap_hdr_of nd) \<and>
     (\<forall>i < length (hn_recs nd).
        rec_at p (8192 - length (concat (hn_recs nd))) i (hn_recs nd ! i))"

lemma heap_hdr_of_sel [simp]:
  "hh_id (heap_hdr_of nd) = hn_id nd" "hh_flags (heap_hdr_of nd) = hn_flags nd"
  "hh_ptr (heap_hdr_of nd) = hn_ptr nd"
  by (simp_all add: heap_hdr_of_def)

lemma heap_repD:
  assumes "heap_rep p nd"
  shows "length p = 8192" and "21 + 4 * length (hn_recs nd) + length (concat (hn_recs nd)) \<le> 8192"
    and "i < length (hn_recs nd) \<Longrightarrow> rec_at p (8192 - length (concat (hn_recs nd))) i (hn_recs nd ! i)"
    and "take 21 p = heap_header_bytes (heap_hdr_of nd)"
  using assms by (simp_all add: heap_rep_def heap_fits_def)

lemma unat_heap_free:
  assumes "heap_rep p nd"
  shows "unat (hh_free_start (heap_hdr_of nd)) = 21 + 4 * length (hn_recs nd)"
    and "unat (hh_free_end (heap_hdr_of nd)) = 8192 - length (concat (hn_recs nd))"
proof -
  have "21 + 4 * length (hn_recs nd) < 65536" using heap_repD(2) [OF assms] by linarith
  then show "unat (hh_free_start (heap_hdr_of nd)) = 21 + 4 * length (hn_recs nd)"
    unfolding heap_hdr_of_def heap_header.simps by (rule unat_u16)
  have "8192 - length (concat (hn_recs nd)) < 65536" by simp
  then show "unat (hh_free_end (heap_hdr_of nd)) = 8192 - length (concat (hn_recs nd))"
    unfolding heap_hdr_of_def heap_header.simps by (rule unat_u16)
qed

lemma heap_page_header_take:
  "21 \<le> length p \<Longrightarrow> take 21 p = heap_header_bytes h \<Longrightarrow> heap_page_header p = Inr h"
  using heap_hdr.deserialize_prefix [of p] heap_hdr.deserialize_enc [of h "[]"]
  by (simp add: heap_page_header_def)

lemma heap_page_header_rep: "heap_rep p nd \<Longrightarrow> heap_page_header p = Inr (heap_hdr_of nd)"
  using heap_repD [of p nd] by (intro heap_page_header_take) simp_all

lemma heap_image [simp]: "snd (heap_serialize h (replicate 21 0)) = heap_header_bytes h"
  by (simp add: heap_hdr.serialize_enc)

lemma length_in_concat: "i < length rs \<Longrightarrow> length (rs ! i) \<le> length (concat rs)"
proof (induction rs arbitrary: i)
  case (Cons r rs)
  then show ?case by (cases i) (simp_all add: trans_le_add2)
qed simp

lemma page_records_rep:
  assumes rep: "heap_rep p nd"
  shows "page_records p (heap_hdr_of nd) = Inr (hn_recs nd)"
proof -
  let ?rs = "hn_recs nd"
  note len = heap_repD [OF rep]
  have fs: "hh_free_start (heap_hdr_of nd) - of_nat HEAP_HEADER_SIZE = of_nat (4 * length ?rs)"
    by (simp add: heap_hdr_of_def)
  have n: "unat ((hh_free_start (heap_hdr_of nd) - of_nat HEAP_HEADER_SIZE) div 4) = length ?rs"
  proof -
    have "unat (of_nat (4 * length ?rs) :: u16) = 4 * length ?rs"
      using len(2) by (intro unat_u16) linarith
    then show ?thesis unfolding fs by (simp add: unat_div_distrib del: of_nat_mult)
  qed
  define sl where "sl i = (SOME off. 8192 - length (concat ?rs) \<le> off \<and> off + length (?rs ! i) \<le> 8192 \<and>
     slice p (21 + 4 * i) (23 + 4 * i) = to_le (of_nat off :: u16) \<and>
     slice p (23 + 4 * i) (25 + 4 * i) = to_le (of_nat (length (?rs ! i)) :: u16) \<and>
     slice p off (off + length (?rs ! i)) = ?rs ! i)" for i
  have sl: "sl i + length (?rs ! i) \<le> 8192 \<and>
     slice p (21 + 4 * i) (23 + 4 * i) = to_le (of_nat (sl i) :: u16) \<and>
     slice p (23 + 4 * i) (25 + 4 * i) = to_le (of_nat (length (?rs ! i)) :: u16) \<and>
     slice p (sl i) (sl i + length (?rs ! i)) = ?rs ! i" if "i < length ?rs" for i
    using someI_ex [OF len(3) [OF that, unfolded rec_at_def]] unfolding sl_def by blast
  have slot: "heap_slot (of_nat i) p =
      Inr \<lparr>sl_offset = of_nat (sl i), sl_size = of_nat (length (?rs ! i))\<rparr>" if i: "i < length ?rs" for i
  proof -
    have "unat (of_nat i :: u16) = i" using i len(2) by (intro unat_u16) linarith
    moreover have "25 + 4 * i \<le> 8192" using i len(2) by linarith
    ultimately show ?thesis
      using sl [OF i] len(1) by (simp add: heap_slot_def Let_def mult.commute)
  qed
  have ptrs: "get_cell_ptr p (heap_hdr_of nd) =
      Inr (map (\<lambda>i. \<lparr>sl_offset = of_nat (sl i), sl_size = of_nat (length (?rs ! i))\<rparr>) [0..<length ?rs])"
    unfolding get_cell_ptr_def Let_def n by (rule map_r_Inr) (simp add: slot)
  have cut: "slice_r p (unat (of_nat (sl i) :: u16)) (unat (of_nat (sl i) :: u16) + unat (of_nat (length (?rs ! i)) :: u16)) =
      Inr (?rs ! i)" if i: "i < length ?rs" for i
  proof -
    have "unat (of_nat (sl i) :: u16) = sl i" "unat (of_nat (length (?rs ! i)) :: u16) = length (?rs ! i)"
      using sl [OF i] by (intro unat_u16, linarith)+
    then show ?thesis using sl [OF i] len(1) by simp
  qed
  have "map_r (\<lambda>c. slice_r p (unat (sl_offset c)) (unat (sl_offset c) + unat (sl_size c)))
      (map (\<lambda>i. \<lparr>sl_offset = of_nat (sl i), sl_size = of_nat (length (?rs ! i))\<rparr>) [0..<length ?rs]) =
      Inr (map (\<lambda>i. ?rs ! i) [0..<length ?rs])"
  proof -
    have *: "map_r f (map g xs) = map_r (f \<circ> g) xs" for f :: "slot \<Rightarrow> error + bytes" and g :: "nat \<Rightarrow> slot" and xs
      by (induction xs) simp_all
    show ?thesis unfolding * by (rule map_r_Inr) (use cut in simp)
  qed
  then show ?thesis by (simp add: page_records_def ptrs map_nth)
qed


lemma heap_fits_snoc:
  "heap_fits (rs @ [r]) \<longleftrightarrow> 25 + 4 * length rs + length (concat rs) + length r \<le> 8192"
  by (simp add: heap_fits_def)

lemma heap_add_cell_refines:
  assumes rep: "heap_rep p nd"
  shows "if heap_fits (hn_recs nd @ [r])
    then \<exists>p'. heap_add_cell r p = (Inr (), p') \<and> heap_rep p' (nd\<lparr>hn_recs := hn_recs nd @ [r]\<rparr>)
    else heap_add_cell r p = (Inl (Err ''Heap page overflow!''), p)"
proof -
  let ?rs = "hn_recs nd" and ?h = "heap_hdr_of nd"
  let ?L = "length (concat ?rs)" and ?n = "length ?rs"
  note len = heap_repD [OF rep] and free = unat_heap_free [OF rep]
  have hd: "heap_page_header p = Inr ?h" using rep by (rule heap_page_header_rep)
  show ?thesis
  proof (cases "heap_fits (?rs @ [r])")
    case False
    then have "8192 - ?L < length r \<or> 8192 - ?L - length r < 21 + 4 * ?n + 4"
      unfolding heap_fits_snoc using len(2) by linarith
    then show ?thesis using False
      by (simp add: heap_add_cell_def andthen_def run_simps hd free Let_def)
  next
    case True
    then have fits: "25 + 4 * ?n + ?L + length r \<le> 8192" by (simp add: heap_fits_snoc)
    define start where "start = 8192 - ?L - length r"
    have st: "start + length r = 8192 - ?L" "25 + 4 * ?n \<le> start" "start \<le> 8192"
      "start + length r \<le> 8192"
      using fits by (simp_all add: start_def)
    have start': "8192 - (?L + length r) = start" by (simp add: start_def)
    have notov: "\<not> (8192 - ?L < length r \<or> 8192 - ?L - length r < 21 + 4 * ?n + 4)"
      using fits by linarith
    let ?nd' = "nd\<lparr>hn_recs := ?rs @ [r]\<rparr>"
    have h': "?h\<lparr>hh_free_start := hh_free_start ?h + of_nat HEAP_SLOT_SIZE, hh_free_end := of_nat start\<rparr> =
        heap_hdr_of ?nd'"
      using st(1) by (simp add: heap_hdr_of_def start_def)
    define p1 where "p1 = write_at start r p"
    define p2 where "p2 = write_at (21 + 4 * ?n) (to_le (of_nat start :: u16)) p1"
    define p3 where "p3 = write_at (23 + 4 * ?n) (to_le (of_nat (length r) :: u16)) p2"
    define p4 where "p4 = write_at 0 (heap_header_bytes (heap_hdr_of ?nd')) p3"
    have l: "length p1 = 8192" "length p2 = 8192" "length p3 = 8192"
      using len(1) st fits by (simp_all add: p1_def p2_def p3_def)
    have l4: "length p4 = 8192" using l by (simp add: p4_def heap_hdr.length_enc)
    have s1: "put_slice start (8192 - ?L) r p = (Inr (), p1)"
      unfolding st(1) [symmetric] using st(4) len(1) by (simp add: put_slice_run p1_def)
    have s2: "put_slice (21 + 4 * ?n) (21 + 4 * ?n + 2) (to_le (of_nat start :: u16)) p1 = (Inr (), p2)"
      using l st by (simp add: put_slice_run p2_def)
    have s3: "put_slice (21 + 4 * ?n + 2) (21 + 4 * ?n + 4) (to_le (of_nat (length r) :: u16)) p2 = (Inr (), p3)"
      using l st by (simp add: put_slice_run p3_def)
    have s4: "put_slice 0 21 (heap_header_bytes (heap_hdr_of ?nd')) p3 = (Inr (), p4)"
      using l by (simp add: put_slice_run p4_def heap_hdr.length_enc)
    have run: "heap_add_cell r p = (Inr (), p4)"
      using notov s1 s2 s3 s4 h'
      by (simp add: heap_add_cell_def andthen_def run_simps hd free Let_def start')
    have keep: "slice p4 a b = slice p a b"
      if "21 \<le> a" "b \<le> 21 + 4 * ?n \<or> 8192 - ?L \<le> a" "b \<le> 8192" for a b
    proof -
      have "slice p4 a b = slice p3 a b"
        unfolding p4_def using l that by (intro slice_write_disjoint) (simp_all add: heap_hdr.length_enc)
      also have "\<dots> = slice p2 a b"
        unfolding p3_def using l that st by (intro slice_write_disjoint) auto
      also have "\<dots> = slice p1 a b"
        unfolding p2_def using l that st by (intro slice_write_disjoint) auto
      also have "\<dots> = slice p a b"
        unfolding p1_def using len(1) that st by (intro slice_write_disjoint) auto
      finally show ?thesis .
    qed
    have new: "rec_at p4 start ?n r"
    proof -
      have "slice p4 (21 + 4 * ?n) (23 + 4 * ?n) = slice p3 (21 + 4 * ?n) (23 + 4 * ?n)"
        unfolding p4_def using l st by (intro slice_write_disjoint) (simp_all add: heap_hdr.length_enc)
      also have "\<dots> = slice p2 (21 + 4 * ?n) (23 + 4 * ?n)"
        unfolding p3_def using l st by (intro slice_write_disjoint) auto
      also have "\<dots> = to_le (of_nat start :: u16)"
        unfolding p2_def using l st by (intro slice_write_same') auto
      finally have a: "slice p4 (21 + 4 * ?n) (23 + 4 * ?n) = to_le (of_nat start :: u16)" .
      have "slice p4 (23 + 4 * ?n) (25 + 4 * ?n) = slice p3 (23 + 4 * ?n) (25 + 4 * ?n)"
        unfolding p4_def using l st by (intro slice_write_disjoint) (simp_all add: heap_hdr.length_enc)
      also have "\<dots> = to_le (of_nat (length r) :: u16)"
        unfolding p3_def using l st by (intro slice_write_same') auto
      finally have b: "slice p4 (23 + 4 * ?n) (25 + 4 * ?n) = to_le (of_nat (length r) :: u16)" .
      have "slice p4 start (start + length r) = slice p3 start (start + length r)"
        unfolding p4_def using l st by (intro slice_write_disjoint) (simp_all add: heap_hdr.length_enc)
      also have "\<dots> = slice p2 start (start + length r)"
        unfolding p3_def using l st by (intro slice_write_disjoint) auto
      also have "\<dots> = slice p1 start (start + length r)"
        unfolding p2_def using l st by (intro slice_write_disjoint) auto
      also have "\<dots> = r" unfolding p1_def using len(1) st by (intro slice_write_same) auto
      finally show ?thesis using a b st unfolding rec_at_def by (intro exI [of _ start]) auto
    qed
    have old: "rec_at p4 start i (?rs ! i)" if i: "i < ?n" for i
    proof -
      obtain off where off: "8192 - ?L \<le> off" "off + length (?rs ! i) \<le> 8192"
        "slice p (21 + 4 * i) (23 + 4 * i) = to_le (of_nat off :: u16)"
        "slice p (23 + 4 * i) (25 + 4 * i) = to_le (of_nat (length (?rs ! i)) :: u16)"
        "slice p off (off + length (?rs ! i)) = ?rs ! i"
        using len(3) [OF i] unfolding rec_at_def by blast
      have "slice p4 (21 + 4 * i) (23 + 4 * i) = slice p (21 + 4 * i) (23 + 4 * i)"
        "slice p4 (23 + 4 * i) (25 + 4 * i) = slice p (23 + 4 * i) (25 + 4 * i)"
        "slice p4 off (off + length (?rs ! i)) = slice p off (off + length (?rs ! i))"
        using i len(2) off(1,2) by (intro keep; linarith)+
      then show ?thesis using off st unfolding rec_at_def by (intro exI [of _ off]) auto
    qed
    have "take 21 p4 = heap_header_bytes (heap_hdr_of ?nd')"
      by (simp add: p4_def write_at_def heap_hdr.length_enc)
    moreover have "8192 - length (concat (?rs @ [r])) = start"
      using st(1) by (simp add: start_def)
    ultimately have "heap_rep p4 ?nd'"
      using True l4 new old unfolding heap_rep_def
      by (auto simp: less_Suc_eq nth_append simp del: concat_append)
    then show ?thesis using True run by simp
  qed
qed

lemma heap_add_records_refines:
  assumes "heap_rep p nd" and "heap_fits (hn_recs nd @ rs)"
  shows "\<exists>p'. heap_add_records rs p = (Inr (), p') \<and> heap_rep p' (nd\<lparr>hn_recs := hn_recs nd @ rs\<rparr>)"
  using assms
proof (induction rs arbitrary: p nd)
  case Nil
  then show ?case by (simp add: heap_add_records_def run_simps)
next
  case (Cons r rs)
  have "heap_fits (hn_recs nd @ [r])" using Cons.prems(2) by (simp add: heap_fits_def)
  then obtain p1 where 1: "heap_add_cell r p = (Inr (), p1)" "heap_rep p1 (nd\<lparr>hn_recs := hn_recs nd @ [r]\<rparr>)"
    using heap_add_cell_refines [OF Cons.prems(1), of r] by auto
  then obtain p2 where "heap_add_records rs p1 = (Inr (), p2)"
    "heap_rep p2 (nd\<lparr>hn_recs := hn_recs nd @ r # rs\<rparr>)"
    using Cons.IH [OF 1(2)] Cons.prems(2) by auto
  then show ?case using 1(1) by (simp add: heap_add_records_def andthen_def)
qed

text \<open>Writing a header over a page keeps its records.\<close>

lemma heap_rep_header:
  assumes rep: "heap_rep p nd" and h: "heap_hdr_of nd' = h" "hn_recs nd' = hn_recs nd"
  shows "heap_serialize h p = (Inr (), heap_header_bytes h @ drop 21 p)"
    and "heap_rep (heap_header_bytes h @ drop 21 p) nd'"
proof -
  note len = heap_repD [OF rep]
  show "heap_serialize h p = (Inr (), heap_header_bytes h @ drop 21 p)"
    using len(1) by (intro heap_hdr.serialize_enc) simp
  have sl: "slice (heap_header_bytes h @ drop 21 p) a b = slice p a b" if "21 \<le> a" for a b
    using that by (simp add: slice_append_right heap_hdr.length_enc) (simp add: slice_def)
  have "rec_at (heap_header_bytes h @ drop 21 p) (8192 - length (concat (hn_recs nd))) i (hn_recs nd ! i)"
    if i: "i < length (hn_recs nd)" for i
  proof -
    obtain off where off: "8192 - length (concat (hn_recs nd)) \<le> off"
      "off + length (hn_recs nd ! i) \<le> 8192"
      "slice p (21 + 4 * i) (23 + 4 * i) = to_le (of_nat off :: u16)"
      "slice p (23 + 4 * i) (25 + 4 * i) = to_le (of_nat (length (hn_recs nd ! i)) :: u16)"
      "slice p off (off + length (hn_recs nd ! i)) = hn_recs nd ! i"
      using len(3) [OF i] unfolding rec_at_def by blast
    have "21 \<le> off" using off(1) len(2) by linarith
    then show ?thesis using off unfolding rec_at_def by (intro exI [of _ off]) (simp add: sl)
  qed
  then show "heap_rep (heap_header_bytes h @ drop 21 p) nd'"
    using len h by (simp add: heap_rep_def heap_hdr.length_enc heap_fits_def)
qed

definition empty_heap_node :: "u64 \<Rightarrow> u8 \<Rightarrow> heap_node" where
  "empty_heap_node i fl = \<lparr>hn_id = i, hn_flags = fl, hn_ptr = 0, hn_recs = []\<rparr>"

lemma heap_rep_empty:
  assumes "length p = 8192" and "take 21 p = heap_header_bytes h"
    and "h = \<lparr>hh_id = i, hh_free_start = 21, hh_free_end = 8192, hh_flags = fl, hh_ptr = 0\<rparr>"
  shows "heap_rep p (empty_heap_node i fl)"
  using assms by (simp add: heap_rep_def heap_fits_def heap_hdr_of_def empty_heap_node_def)

end
