(* ===== verification/Heap.thy ===== *)
theory Heap
  imports Heap_Page Page_Reader
begin

text \<open>
  The heap file of \<open>heap.rs\<close>: records in pages that are linked into chains by an overflow pointer.
  \<open>heap_chain\<close> describes a chain by its page ids and nodes; reading a chain returns the records of
  its pages in order, and inserting appends to it.
\<close>

section \<open>The code\<close>

definition HEAP_POOL_CAPACITY :: nat where "HEAP_POOL_CAPACITY = 10000"

definition heap_open :: "disk_file \<Rightarrow> nat \<Rightarrow> page_store" where
  "heap_open f capacity = store_new HEAP_PAGE_SIZE capacity f"

definition heap_fetch :: "u64 \<Rightarrow> bytes on_store" where
  "heap_fetch i = store_fetch HEAP_PAGE_SIZE i"

definition heap_fetch_mut :: "u64 \<Rightarrow> bytes on_store" where
  "heap_fetch_mut i = store_fetch_mut HEAP_PAGE_SIZE i"

definition heap_with_page :: "u64 \<Rightarrow> (bytes, 'a) m \<Rightarrow> 'a on_store" where
  "heap_with_page i body = with_page (heap_fetch_mut i) i body"

definition heap_allocate :: "u64 on_store" where
  "heap_allocate = panics (store_allocate HEAP_PAGE_SIZE (\<lambda>i.
     snd (heap_serialize \<lparr>hh_id = i, hh_free_start = of_nat HEAP_HEADER_SIZE,
       hh_free_end = of_nat HEAP_PAGE_SIZE, hh_flags = 0, hh_ptr = 0\<rparr> (replicate HEAP_PAGE_SIZE 0))))"

definition allocate_primary :: "u64 on_store" where
  "allocate_primary =
     andthen heap_allocate (\<lambda>i.
     andthen (with_page (panics (heap_fetch_mut i)) i (heap_serialize (new_primary i))) (\<lambda>_. ok i))"

definition allocate_overflow :: "u64 on_store" where
  "allocate_overflow =
     andthen heap_allocate (\<lambda>i.
     andthen (with_page (panics (heap_fetch_mut i)) i (heap_serialize (new_overflow i))) (\<lambda>_. ok i))"

definition heap_write_page :: "u64 \<Rightarrow> bytes \<Rightarrow> unit on_store" where
  "heap_write_page i page = modify_pool (update_page i page)"

definition heap_flush :: "u64 \<Rightarrow> unit on_store" where
  "heap_flush i = store_flush HEAP_PAGE_SIZE i"

definition heap_flush_all :: "unit on_store" where
  "heap_flush_all = store_flush_all HEAP_PAGE_SIZE"

definition heap_discard_dirty :: "unit on_store" where
  "heap_discard_dirty = store_discard_dirty"

text \<open>
  The loops that follow overflow pointers run at most as many rounds as there are pages, plus one:
  a loop that runs longer is in a page it has seen before, and never ends.
\<close>

definition page_fuel :: "nat on_store" where
  "page_fuel = gets (\<lambda>(st, w). unat (pf_next_id st) + 1)"

definition collect_step :: "u64 \<times> bytes list \<Rightarrow> bytes \<Rightarrow> error + ((u64 \<times> bytes list) + bytes list)" where
  "collect_step = (\<lambda>(cur_id, records) page.
     try_r (heap_page_header page) (\<lambda>header.
     try_r (page_records page header) (\<lambda>rs.
     Inr (if has_overflow_page header then Inl (hh_ptr header, records @ rs)
          else Inr (records @ rs)))))"

definition collect_overflow_records :: "u64 \<Rightarrow> bytes list \<Rightarrow> bytes list on_store" where
  "collect_overflow_records overflow_id records =
     andthen page_fuel (\<lambda>n.
     iterate n (follow heap_fetch fst collect_step) (overflow_id, records))"

definition get_record :: "u64 \<Rightarrow> bytes list \<Rightarrow> bytes list on_store" where
  "get_record i records =
     andthen (heap_fetch i) (\<lambda>page.
     andthen (of_result (heap_page_header page)) (\<lambda>header.
     andthen (of_result (page_records page header)) (\<lambda>rs.
     if has_overflow_page header
     then collect_overflow_records (hh_ptr header) (records @ rs)
     else ok (records @ rs))))"

definition tail_step :: "u64 \<Rightarrow> bytes \<Rightarrow> error + (u64 + u64)" where
  "tail_step cur_id page =
     try_r (heap_page_header page) (\<lambda>hdr.
     Inr (if has_overflow_page hdr then Inl (hh_ptr hdr) else Inr cur_id))"

definition find_tail_id :: "u64 \<Rightarrow> u64 on_store" where
  "find_tail_id i =
     andthen page_fuel (\<lambda>n. iterate n (follow heap_fetch (\<lambda>x. x) tail_step) i)"

definition chain_step :: "u64 \<times> u64 list \<Rightarrow> bytes \<Rightarrow> error + ((u64 \<times> u64 list) + u64 list)" where
  "chain_step = (\<lambda>(cur_id, ids) page.
     try_r (heap_page_header page) (\<lambda>hdr.
     Inr (if has_overflow_page hdr then Inl (hh_ptr hdr, ids @ [hh_ptr hdr]) else Inr ids)))"

definition free_chain :: "u64 \<Rightarrow> u64 list on_store" where
  "free_chain primary_id =
     andthen page_fuel (\<lambda>n.
     iterate n (follow heap_fetch fst chain_step) (primary_id, [primary_id]))"

fun insert_each :: "u64 \<Rightarrow> bytes list \<Rightarrow> unit on_store" where
  "insert_each current_id [] = ok ()"
| "insert_each current_id (r # rs) =
     andthen (heap_fetch current_id) (\<lambda>page.
     andthen (of_result (heap_page_header page)) (\<lambda>h.
     if length r + HEAP_SLOT_SIZE \<le> remaining_space h then
       andthen (heap_with_page current_id (heap_add_cell r)) (\<lambda>_.
       insert_each current_id rs)
     else
       andthen allocate_overflow (\<lambda>overflow_id.
       andthen (heap_with_page current_id
         (andthen (reads heap_page_header) (\<lambda>hdr.
          heap_serialize (set_has_overflow overflow_id hdr)))) (\<lambda>_.
       andthen (heap_with_page overflow_id (heap_add_cell r)) (\<lambda>_.
       insert_each overflow_id rs)))))"

definition insert_records :: "u64 \<Rightarrow> bytes list \<Rightarrow> unit on_store" where
  "insert_records primary_page_id data_record =
     andthen (heap_fetch primary_page_id) (\<lambda>page.
     andthen (of_result (heap_page_header page)) (\<lambda>header.
     andthen (if is_overflow_page header then find_tail_id (hh_ptr header)
              else ok primary_page_id) (\<lambda>current_id.
     insert_each current_id data_record)))"


section \<open>Chains\<close>

abbreviation heap_good :: "page_store \<times> wal \<Rightarrow> bool" where
  "heap_good \<equiv> store_good 8192"

abbreviation heap_view :: "page_store \<times> wal \<Rightarrow> u64 \<Rightarrow> bytes option" where
  "heap_view s \<equiv> store_view 8192 (fst s)"

definition hn_more :: "heap_node \<Rightarrow> bool" where
  "hn_more nd \<longleftrightarrow> drop_bit 1 (hn_flags nd) = 1"

fun heap_chain :: "(u64 \<Rightarrow> bytes option) \<Rightarrow> u64 \<Rightarrow> (u64 \<times> heap_node) list \<Rightarrow> bool" where
  "heap_chain v i [] = False"
| "heap_chain v i ((j, nd) # ch) \<longleftrightarrow> j = i \<and> (\<exists>p. v i = Some p \<and> heap_rep p nd) \<and>
     (if ch = [] then \<not> hn_more nd else hn_more nd \<and> heap_chain v (hn_ptr nd) ch)"

definition chain_records :: "(u64 \<times> heap_node) list \<Rightarrow> bytes list" where
  "chain_records ch = concat (map (hn_recs \<circ> snd) ch)"

lemma has_overflow_hdr [simp]: "has_overflow_page (heap_hdr_of nd) = hn_more nd"
  by (simp add: has_overflow_page_def hn_more_def)

lemma chain_steps:
  assumes "heap_rep p nd"
  shows "collect_step (i, rs) p = Inr (if hn_more nd then Inl (hn_ptr nd, rs @ hn_recs nd) else Inr (rs @ hn_recs nd))"
    and "tail_step i p = Inr (if hn_more nd then Inl (hn_ptr nd) else Inr i)"
    and "chain_step (i, is) p = Inr (if hn_more nd then Inl (hn_ptr nd, is @ [hn_ptr nd]) else Inr is)"
  using assms by (simp_all add: collect_step_def tail_step_def chain_step_def heap_page_header_rep
      page_records_rep)

lemma heap_chain_visible:
  "heap_chain v i ch \<Longrightarrow> j \<in> set (map fst ch) \<Longrightarrow> \<exists>p. v j = Some p"
proof (induction ch arbitrary: i)
  case (Cons c ch)
  then show ?case by (cases c; cases "j = fst c"; cases "ch = []") auto
qed simp

lemma walk_collect:
  "heap_chain v i ch \<Longrightarrow> length ch \<le> n \<Longrightarrow>
   walk n v fst collect_step (i, rs) = Some (Inr (rs @ chain_records ch))"
proof (induction ch arbitrary: i rs n)
  case (Cons c ch)
  obtain nd where c: "c = (i, nd)" using Cons.prems(1) by (cases c) auto
  obtain p where p: "v i = Some p" "heap_rep p nd" using Cons.prems(1) c by auto
  obtain m where n: "n = Suc m" using Cons.prems(2) by (cases n) auto
  show ?case
    using Cons p c n by (cases "ch = []") (auto simp: chain_steps chain_records_def)
qed simp

lemma walk_tail:
  "heap_chain v i ch \<Longrightarrow> length ch \<le> n \<Longrightarrow> walk n v (\<lambda>x. x) tail_step i = Some (Inr (fst (last ch)))"
proof (induction ch arbitrary: i n)
  case (Cons c ch)
  obtain nd where c: "c = (i, nd)" using Cons.prems(1) by (cases c) auto
  obtain p where p: "v i = Some p" "heap_rep p nd" using Cons.prems(1) c by auto
  obtain m where n: "n = Suc m" using Cons.prems(2) by (cases n) auto
  show ?case
    using Cons p c n by (cases "ch = []") (auto simp: chain_steps)
qed simp

lemma heap_chain_head: "heap_chain v i ch \<Longrightarrow> \<exists>nd ch'. ch = (i, nd) # ch'"
  by (cases ch) auto

lemma walk_chain:
  "heap_chain v i ch \<Longrightarrow> length ch \<le> n \<Longrightarrow>
   walk n v fst chain_step (i, ids @ [i]) = Some (Inr (ids @ map fst ch))"
proof (induction ch arbitrary: i ids n)
  case (Cons c ch)
  obtain nd where c: "c = (i, nd)" using Cons.prems(1) by (cases c) auto
  obtain p where p: "v i = Some p" "heap_rep p nd" using Cons.prems(1) c by auto
  obtain m where n: "n = Suc m" using Cons.prems(2) by (cases n) auto
  show ?case
  proof (cases "ch = []")
    case True
    then show ?thesis using Cons.prems p c n by (simp add: chain_steps)
  next
    case False
    then have "walk m v fst chain_step (hn_ptr nd, (ids @ [i]) @ [hn_ptr nd]) = Some (Inr ((ids @ [i]) @ map fst ch))"
      using Cons.IH [of "hn_ptr nd" m "ids @ [i]"] Cons.prems c n by simp
    then show ?thesis using Cons.prems p c n False by (simp add: chain_steps)
  qed
qed simp

lemma store_good_ok: "store_good sz s \<Longrightarrow> store_ok sz (fst s)"
  by (cases s) (simp add: store_good_def)

text \<open>A chain of distinct allocated pages is no longer than the fuel.\<close>

lemma chain_length:
  assumes "heap_good s" and "heap_chain (heap_view s) i ch" and "distinct (map fst ch)"
  shows "length ch \<le> unat (pf_next_id (fst s))"
proof -
  have lt: "j < pf_next_id (fst s)" if "j \<in> set (map fst ch)" for j
    using heap_chain_visible [OF assms(2) that] store_view_bound [OF store_good_ok [OF assms(1)]]
    by blast
  have "unat ` set (map fst ch) \<subseteq> {..<unat (pf_next_id (fst s))}"
    using lt by (intro image_subsetI) (simp only: lessThan_iff word_less_nat_alt)
  then have "card (unat ` set (map fst ch)) \<le> card {..<unat (pf_next_id (fst s))}"
    by (rule card_mono [OF finite_lessThan])
  then have "card (unat ` set (map fst ch)) \<le> unat (pf_next_id (fst s))"
    by simp
  moreover have "card (unat ` set (map fst ch)) = length ch"
  proof -
    have "inj_on unat (set (map fst ch))" by (rule inj_onI) (simp add: word_unat_eq_iff)
    then have "card (unat ` set (map fst ch)) = card (set (map fst ch))" by (rule card_image)
    also have "\<dots> = length ch" using distinct_card [OF assms(3)] by simp
    finally show ?thesis .
  qed
  ultimately show ?thesis by simp
qed

lemma quiet_next: "quiet sz s s' \<Longrightarrow> pf_next_id (fst s') = pf_next_id (fst s)"
  by (cases s; cases s') (simp add: quiet_def)

lemma page_fuel_run [run_simps]: "page_fuel s = (Inr (unat (pf_next_id (fst s)) + 1), s)"
  by (cases s) (simp add: page_fuel_def run_simps)

lemma heap_fetch_eta: "heap_fetch = store_fetch 8192"
  by (simp add: heap_fetch_def fun_eq_iff)

lemma get_record_chain:
  assumes good: "heap_good s" and ch: "heap_chain (heap_view s) i ch" "distinct (map fst ch)"
  shows "\<exists>s'. get_record i rs s = (Inr (rs @ chain_records ch), s') \<and> quiet 8192 s s'"
proof -
  obtain nd ch' where c: "ch = (i, nd) # ch'" using heap_chain_head [OF ch(1)] by blast
  obtain p where p: "heap_view s i = Some p" "heap_rep p nd" using ch(1) c by auto
  show ?thesis
    unfolding get_record_def heap_fetch_eta
  proof (rule store_reader.fetch_then [OF good p(1)])
    fix s1 assume q: "quiet 8192 s s1"
    have g1: "heap_good s1" and v1: "heap_view s1 = heap_view s"
      using store_reader.quiet_good [OF q] store_reader.quiet_view [OF q] by auto
    show "\<exists>s''. andthen (of_result (heap_page_header p)) (\<lambda>header.
       andthen (of_result (page_records p header)) (\<lambda>rs'.
       if has_overflow_page header then collect_overflow_records (hh_ptr header) (rs @ rs')
       else ok (rs @ rs'))) s1 = (Inr (rs @ chain_records ch), s'') \<and> quiet 8192 s1 s''"
    proof (cases "ch' = []")
      case True
      then show ?thesis
        using p(2) c ch(1) quiet_refl [OF g1]
        by (auto simp: andthen_def run_simps heap_page_header_rep page_records_rep chain_records_def)
    next
      case False
      then have m: "hn_more nd" "heap_chain (heap_view s1) (hn_ptr nd) ch'"
        using ch(1) c v1 by auto
      have "length ch' \<le> unat (pf_next_id (fst s1)) + 1"
        using chain_length [OF g1 m(2)] ch(2) c by simp
      from store_reader.iterate_walk [OF g1 walk_collect [OF m(2) this, of "rs @ hn_recs nd"]]
      show ?thesis
        using p(2) m(1)
        by (auto simp: andthen_def run_simps heap_page_header_rep page_records_rep chain_records_def
            collect_overflow_records_def heap_fetch_eta c)
    qed
  qed
qed

lemma find_tail_chain:
  assumes good: "heap_good s" and ch: "heap_chain (heap_view s) i ch" "distinct (map fst ch)"
  shows "\<exists>s'. find_tail_id i s = (Inr (fst (last ch)), s') \<and> quiet 8192 s s'"
  using store_reader.iterate_walk [OF good walk_tail [OF ch(1)], of "unat (pf_next_id (fst s)) + 1"]
    chain_length [OF good ch]
  by (simp add: find_tail_id_def heap_fetch_eta andthen_def run_simps)

lemma free_chain_chain:
  assumes good: "heap_good s" and ch: "heap_chain (heap_view s) i ch" "distinct (map fst ch)"
  shows "\<exists>s'. free_chain i s = (Inr (map fst ch), s') \<and> quiet 8192 s s'"
  using store_reader.iterate_walk [OF good walk_chain [OF ch(1), of _ "[]"], of "unat (pf_next_id (fst s)) + 1"]
    chain_length [OF good ch]
  by (simp add: free_chain_def heap_fetch_eta andthen_def run_simps)


section \<open>Inserting\<close>

lemma changedD:
  assumes "changed sz i p s s'"
  shows "store_good sz s'" and "store_view sz (fst s') = (store_view sz (fst s))(i \<mapsto> p)"
    and "pf_next_id (fst s') = pf_next_id (fst s)"
  using assms by (cases s; cases s'; simp add: changed_def)+

lemma heap_with_page_run:
  assumes good: "heap_good s" and v: "heap_view s i = Some p"
    and body: "body p = (r, p')" "length p' = 8192"
  shows "\<exists>s'. heap_with_page i body s = (r, s') \<and> changed 8192 i p' s s'"
    and "\<exists>s'. with_page (panics (heap_fetch_mut i)) i body s = (r, s') \<and> changed 8192 i p' s s'"
proof -
  obtain st w where s: "s = (st, w)" by (cases s)
  have lt: "i < pf_next_id st"
    using store_view_bound [OF store_good_ok [OF good]] v by (simp add: s)
  have g: "store_good 8192 (st, w)" using good s by simp
  have b: "\<And>q. store_view 8192 st i = Some q \<Longrightarrow> length q = 8192 \<Longrightarrow> body q = (r, p') \<and> length p' = 8192"
    using v body by (simp add: s)
  show "\<exists>s'. heap_with_page i body s = (r, s') \<and> changed 8192 i p' s s'"
    "\<exists>s'. with_page (panics (heap_fetch_mut i)) i body s = (r, s') \<and> changed 8192 i p' s s'"
    using with_page_run [OF g lt _ b]
    by (simp_all add: s heap_with_page_def heap_fetch_mut_def)
qed

lemma heap_add_run:
  assumes good: "heap_good s" and v: "heap_view s i = Some p" "heap_rep p nd"
    and fits: "heap_fits (hn_recs nd @ [r])"
  shows "\<exists>s' p'. heap_with_page i (heap_add_cell r) s = (Inr (), s') \<and>
    heap_rep p' (nd\<lparr>hn_recs := hn_recs nd @ [r]\<rparr>) \<and> changed 8192 i p' s s'"
proof -
  obtain p' where "heap_add_cell r p = (Inr (), p')" "heap_rep p' (nd\<lparr>hn_recs := hn_recs nd @ [r]\<rparr>)"
    using heap_add_cell_refines [OF v(2), of r] fits by auto
  then show ?thesis using heap_with_page_run(1) [OF good v(1)] heap_repD(1) by blast
qed

lemma heap_allocate_run:
  assumes good: "heap_good s"
    and room: "(unat (pf_next_id (fst s)) + 1) * 8192 < 18446744073709551616"
  shows "\<exists>s' p. heap_allocate s = (Inr (pf_next_id (fst s)), s') \<and> heap_good s' \<and>
    heap_view s' = (heap_view s)(pf_next_id (fst s) \<mapsto> p) \<and>
    heap_rep p (empty_heap_node (pf_next_id (fst s)) 0) \<and>
    unat (pf_next_id (fst s')) = unat (pf_next_id (fst s)) + 1 \<and> log_same (snd s) (snd s')"
proof -
  obtain st w where s: "s = (st, w)" by (cases s)
  define init where "init i = snd (heap_serialize \<lparr>hh_id = i, hh_free_start = 21,
       hh_free_end = 8192, hh_flags = 0, hh_ptr = 0\<rparr> (replicate 8192 0))" for i
  have i: "length (init i) = 8192" "heap_rep (init i) (empty_heap_node i 0)" for i
  proof -
    show "length (init i) = 8192"
      unfolding init_def by (subst heap_hdr.length_serialize) simp_all
    then show "heap_rep (init i) (empty_heap_node i 0)"
      by (rule heap_rep_empty [OF _ _ refl]) (simp add: init_def heap_hdr.serialize_enc heap_hdr.length_enc)
  qed
  have g: "store_good 8192 (st, w)" and r: "(unat (pf_next_id st) + 1) * 8192 < 18446744073709551616"
    using assms by (simp_all add: s)
  obtain st' w' where a: "store_allocate 8192 init (st, w) = (Inr (pf_next_id st), (st', w'))"
    "store_good 8192 (st', w')" "store_view 8192 st' = (store_view 8192 st)(pf_next_id st \<mapsto> init (pf_next_id st))"
    "unat (pf_next_id st') = unat (pf_next_id st) + 1" "log_same w w'"
    using store_allocate_run [where init = init, OF g i(1) r] by blast
  have "heap_allocate = panics (store_allocate 8192 init)"
    by (simp add: heap_allocate_def init_def [abs_def])
  then have "heap_allocate s = (Inr (pf_next_id st), (st', w'))"
    using panics_Inr [where p = "store_allocate 8192 init", OF a(1)] by (simp only: s)
  then show ?thesis using a i(2) by (auto simp: s)
qed

text \<open>Allocating a page and then writing the header \<open>mk i\<close>, which describes an empty page.\<close>

lemma allocate_with_header:
  assumes good: "heap_good s"
    and room: "(unat (pf_next_id (fst s)) + 1) * 8192 < 18446744073709551616"
    and mk: "\<And>i. heap_hdr_of (empty_heap_node i fl) = mk i"
  shows "\<exists>s' p. andthen heap_allocate (\<lambda>i.
      andthen (with_page (panics (heap_fetch_mut i)) i (heap_serialize (mk i))) (\<lambda>_. ok i)) s =
      (Inr (pf_next_id (fst s)), s') \<and> heap_good s' \<and>
    heap_view s' = (heap_view s)(pf_next_id (fst s) \<mapsto> p) \<and>
    heap_rep p (empty_heap_node (pf_next_id (fst s)) fl) \<and>
    unat (pf_next_id (fst s')) = unat (pf_next_id (fst s)) + 1"
proof -
  let ?i = "pf_next_id (fst s)"
  obtain s1 p where 1: "heap_allocate s = (Inr ?i, s1)" "heap_good s1"
    "heap_view s1 = (heap_view s)(?i \<mapsto> p)" "heap_rep p (empty_heap_node ?i 0)"
    "unat (pf_next_id (fst s1)) = unat ?i + 1"
    using heap_allocate_run [OF good room] by blast
  let ?p' = "heap_header_bytes (mk ?i) @ drop 21 p"
  have rep: "heap_serialize (mk ?i) p = (Inr (), ?p')" "heap_rep ?p' (empty_heap_node ?i fl)"
    using heap_rep_header [OF 1(4) mk] by (simp_all add: empty_heap_node_def)
  have v1: "heap_view s1 ?i = Some p" using 1(3) by simp
  obtain s2 where "with_page (panics (heap_fetch_mut ?i)) ?i (heap_serialize (mk ?i)) s1 = (Inr (), s2)"
    "changed 8192 ?i ?p' s1 s2"
    using heap_with_page_run(2) [where body = "heap_serialize (mk ?i)", OF 1(2) v1 rep(1)]
      heap_repD(1) [OF rep(2)] by blast
  then show ?thesis
    using 1 rep(2) changedD [of 8192 ?i ?p' s1 s2]
    by (intro exI [of _ s2] exI [of _ ?p']) (simp add: andthen_def run_simps)
qed

lemma fresh_headers:
  "heap_hdr_of (empty_heap_node i 0) = new_overflow i"
  "heap_hdr_of (empty_heap_node i 1) = new_primary i"
  by (simp_all add: heap_hdr_of_def empty_heap_node_def new_overflow_def new_primary_def)

lemmas allocate_overflow_run =
  allocate_with_header [where mk = new_overflow, OF _ _ fresh_headers(1), folded allocate_overflow_def]
lemmas allocate_primary_run =
  allocate_with_header [where mk = new_primary, OF _ _ fresh_headers(2), folded allocate_primary_def]

lemma heap_chain_cong:
  "heap_chain v i ch \<Longrightarrow> \<forall>j \<in> set (map fst ch). v' j = v j \<Longrightarrow> heap_chain v' i ch"
  by (induction v i ch rule: heap_chain.induct) (auto split: if_splits)

lemma heap_chain_replace:
  assumes "heap_chain v i (xs @ [(c, nd)])" and "\<forall>j \<in> set (map fst xs). v' j = v j"
    and "heap_chain v' c ys"
  shows "heap_chain v' i (xs @ ys)"
  using assms
proof (induction xs arbitrary: i)
  case (Cons x xs)
  have "ys \<noteq> []" using Cons.prems(3) by auto
  then show ?case using Cons by (cases x) (auto split: if_splits)
qed auto

lemma heap_chain_last:
  "heap_chain v i (xs @ [(c, nd)]) \<Longrightarrow> (\<exists>p. v c = Some p \<and> heap_rep p nd) \<and> \<not> hn_more nd"
  by (induction xs arbitrary: i) (auto split: if_splits)

lemma small_flags:
  assumes "(f :: u8) < 2"
  shows "drop_bit 1 (f OR 2) = 1" and "drop_bit 1 f \<noteq> 1"
proof -
  have "unat f < 2" using assms by (simp add: word_less_nat_alt)
  then have "unat f = 0 \<or> unat f = 1" by linarith
  then have "f = 0 \<or> f = 1" by (simp add: word_unat_eq_iff)
  then show "drop_bit 1 (f OR 2) = 1" "drop_bit 1 f \<noteq> 1" by auto
qed

lemma insert_each_chain:
  assumes "heap_good s" and "heap_chain (heap_view s) i (xs @ [(c, nd)])"
    and "distinct (map fst xs @ [c])" and "hn_flags nd < 2"
    and "\<forall>r \<in> set rs. length r \<le> 8167"
    and "(unat (pf_next_id (fst s)) + length rs) * 8192 < 18446744073709551616"
  shows "\<exists>s' ch'. insert_each c rs s = (Inr (), s') \<and> heap_good s' \<and>
    heap_chain (heap_view s') i ch' \<and> distinct (map fst ch') \<and>
    chain_records ch' = chain_records (xs @ [(c, nd)]) @ rs \<and>
    (\<forall>j. j < pf_next_id (fst s) \<and> j \<notin> insert c (set (map fst xs)) \<longrightarrow> heap_view s' j = heap_view s j)"
  using assms
proof (induction rs arbitrary: s xs c nd)
  case Nil
  then show ?case
    by (intro exI [of _ s] exI [of _ "xs @ [(c, nd)]"]) (simp add: run_simps)
next
  case (Cons r rs)
  note good = Cons.prems(1)
  obtain p where p: "heap_view s c = Some p" "heap_rep p nd"
    using heap_chain_last [OF Cons.prems(2)] by blast
  have bound: "j < pf_next_id (fst s)" if "heap_view s j = Some q" for j q
    using store_view_bound [OF store_good_ok [OF good] that] .
  obtain s1 where f: "heap_fetch c s = (Inr p, s1)" and q: "quiet 8192 s s1"
    using store_reader.fetch_page [OF good p(1)] by (auto simp: heap_fetch_eta)
  have g1: "heap_good s1" and v1: "heap_view s1 = heap_view s" and n1: "pf_next_id (fst s1) = pf_next_id (fst s)"
    using store_reader.quiet_good [OF q] store_reader.quiet_view [OF q] quiet_next [OF q] by auto
  have p1: "heap_view s1 c = Some p" using p v1 by simp
  show ?case
  proof (cases "length r + 4 \<le> remaining_space (heap_hdr_of nd)")
    case True
    then have fits: "heap_fits (hn_recs nd @ [r])"
      using heap_repD(2) [OF p(2)]
      by (simp add: remaining_space_def unat_heap_free [OF p(2)] heap_fits_snoc)
    let ?nd' = "nd\<lparr>hn_recs := hn_recs nd @ [r]\<rparr>"
    obtain s2 p' where 2: "heap_with_page c (heap_add_cell r) s1 = (Inr (), s2)" "heap_rep p' ?nd'"
      "changed 8192 c p' s1 s2"
      using heap_add_run [OF g1 p1 p(2) fits] by blast
    note ch2 = changedD [OF 2(3)]
    have chain2: "heap_chain (heap_view s2) i (xs @ [(c, ?nd')])"
      using Cons.prems(2)
    proof (rule heap_chain_replace)
      show "\<forall>j \<in> set (map fst xs). heap_view s2 j = heap_view s j"
        using ch2(2) v1 Cons.prems(3) by auto
      show "heap_chain (heap_view s2) c [(c, ?nd')]"
        using ch2(2) 2(2) heap_chain_last [OF Cons.prems(2)] by (simp add: hn_more_def)
    qed
    obtain s3 ch' where 3: "insert_each c rs s2 = (Inr (), s3)" "heap_good s3"
      "heap_chain (heap_view s3) i ch'" "distinct (map fst ch')"
      "chain_records ch' = chain_records (xs @ [(c, ?nd')]) @ rs"
      "\<forall>j. j < pf_next_id (fst s2) \<and> j \<notin> insert c (set (map fst xs)) \<longrightarrow> heap_view s3 j = heap_view s2 j"
      using Cons.IH [OF ch2(1) chain2 Cons.prems(3)] Cons.prems(4-6) ch2(3) n1 by auto
    have "insert_each c (r # rs) s = (Inr (), s3)"
      using f 2(1) 3(1) True p(2) by (simp add: andthen_def run_simps heap_page_header_rep)
    then show ?thesis
      using 3 ch2(2,3) v1 n1 by (intro exI [of _ s3] exI [of _ ch']) (auto simp: chain_records_def)
  next
    case False
    let ?o = "pf_next_id (fst s)"
    have room1: "(unat (pf_next_id (fst s1)) + 1) * 8192 < 18446744073709551616"
      using Cons.prems(6) n1 by simp
    obtain s2 po where 2: "allocate_overflow s1 = (Inr ?o, s2)" "heap_good s2"
      "heap_view s2 = (heap_view s)(?o \<mapsto> po)" "heap_rep po (empty_heap_node ?o 0)"
      "unat (pf_next_id (fst s2)) = unat ?o + 1"
      using allocate_overflow_run [OF g1 room1] n1 v1 by auto
    have co: "c < ?o" by (rule bound [OF p(1)])
    have xo: "j < ?o" if "j \<in> set (map fst xs)" for j
      using heap_chain_visible [OF Cons.prems(2), of j] that bound by auto
    have p2: "heap_view s2 c = Some p" using 2(3) p(1) co by auto
    let ?ndc = "nd\<lparr>hn_flags := hn_flags nd OR 2, hn_ptr := ?o\<rparr>"
    let ?pc = "heap_header_bytes (heap_hdr_of ?ndc) @ drop 21 p"
    have hc: "heap_hdr_of ?ndc = set_has_overflow ?o (heap_hdr_of nd)"
      by (simp add: heap_hdr_of_def set_has_overflow_def)
    note hw = heap_rep_header [OF p(2) refl, of ?ndc]
    have body: "andthen (reads heap_page_header) (\<lambda>hdr. heap_serialize (set_has_overflow ?o hdr)) p =
        (Inr (), ?pc)"
      using hw(1) p(2) by (simp add: andthen_def run_simps heap_page_header_rep hc)
    have repc: "heap_rep ?pc ?ndc" using hw(2) by simp
    obtain s3 where 3: "heap_with_page c (andthen (reads heap_page_header) (\<lambda>hdr.
          heap_serialize (set_has_overflow ?o hdr))) s2 = (Inr (), s3)" "changed 8192 c ?pc s2 s3"
      using heap_with_page_run(1) [where body = "andthen (reads heap_page_header)
          (\<lambda>hdr. heap_serialize (set_has_overflow ?o hdr))", OF 2(2) p2 body heap_repD(1) [OF repc]]
      by blast
    note ch3 = changedD [OF 3(2)]
    have p3: "heap_view s3 ?o = Some po" using ch3(2) 2(3) co by auto
    have fits: "heap_fits (hn_recs (empty_heap_node ?o 0) @ [r])"
      using Cons.prems(5) by (simp add: heap_fits_def empty_heap_node_def)
    let ?ndo = "(empty_heap_node ?o 0)\<lparr>hn_recs := hn_recs (empty_heap_node ?o 0) @ [r]\<rparr>"
    obtain s4 p4 where 4: "heap_with_page ?o (heap_add_cell r) s3 = (Inr (), s4)" "heap_rep p4 ?ndo"
      "changed 8192 ?o p4 s3 s4"
      using heap_add_run [OF ch3(1) p3 2(4) fits] by blast
    note ch4 = changedD [OF 4(3)]
    have v4: "heap_view s4 = (heap_view s)(c \<mapsto> ?pc, ?o \<mapsto> p4)"
      using ch4(2) ch3(2) 2(3) co by (auto simp: fun_eq_iff)
    have chain4: "heap_chain (heap_view s4) i ((xs @ [(c, ?ndc)]) @ [(?o, ?ndo)])"
      unfolding append_assoc using Cons.prems(2)
    proof (rule heap_chain_replace)
      show "\<forall>j \<in> set (map fst xs). heap_view s4 j = heap_view s j"
        using v4 Cons.prems(3) xo by fastforce
      have "hn_more ?ndc" "\<not> hn_more ?ndo"
        using small_flags [OF Cons.prems(4)] by (simp_all add: hn_more_def empty_heap_node_def)
      then show "heap_chain (heap_view s4) c ([(c, ?ndc)] @ [(?o, ?ndo)])"
        using v4 repc 4(2) co by auto
    qed
    have dist4: "distinct (map fst (xs @ [(c, ?ndc)]) @ [?o])"
      using Cons.prems(3) co xo by fastforce
    have room4: "(unat (pf_next_id (fst s4)) + length rs) * 8192 < 18446744073709551616"
      using Cons.prems(6) 2(5) ch3(3) ch4(3) by simp
    obtain s5 ch' where 5: "insert_each ?o rs s4 = (Inr (), s5)" "heap_good s5"
      "heap_chain (heap_view s5) i ch'" "distinct (map fst ch')"
      "chain_records ch' = chain_records ((xs @ [(c, ?ndc)]) @ [(?o, ?ndo)]) @ rs"
      "\<forall>j. j < pf_next_id (fst s4) \<and> j \<notin> insert ?o (set (map fst (xs @ [(c, ?ndc)]))) \<longrightarrow>
        heap_view s5 j = heap_view s4 j"
      using Cons.IH [OF ch4(1) chain4 dist4 _ _ room4] Cons.prems(5)
      by (auto simp: empty_heap_node_def)
    have "insert_each c (r # rs) s = (Inr (), s5)"
      using f 2(1) 3(1) 4(1) 5(1) False p(2) by (simp add: andthen_def run_simps heap_page_header_rep)
    moreover have "heap_view s5 j = heap_view s j"
      if "j < ?o" "j \<notin> insert c (set (map fst xs))" for j
    proof -
      have "j < pf_next_id (fst s4)"
        using that(1) 2(5) ch3(3) ch4(3) by (simp add: word_less_nat_alt)
      then show ?thesis using 5(6) that v4 by auto
    qed
    ultimately show ?thesis
      using 5 by (intro exI [of _ s5] exI [of _ ch']) (simp add: chain_records_def empty_heap_node_def)
  qed
qed


lemma insert_records_start:
  assumes good: "heap_good s" and v: "heap_view s i = Some p" "heap_rep p nd"
    and cur: "if is_overflow_page (heap_hdr_of nd)
      then heap_chain (heap_view s) (hn_ptr nd) ch \<and> distinct (map fst ch) \<and> c = fst (last ch)
      else c = i"
  shows "\<exists>s'. insert_records i rs s = insert_each c rs s' \<and> quiet 8192 s s'"
proof -
  obtain s1 where f: "heap_fetch i s = (Inr p, s1)" and q: "quiet 8192 s s1"
    using store_reader.fetch_page [OF good v(1)] by (auto simp: heap_fetch_eta)
  show ?thesis
  proof (cases "is_overflow_page (heap_hdr_of nd)")
    case False
    then show ?thesis
      using f q v(2) cur
      by (intro exI [of _ s1]) (simp add: insert_records_def andthen_def run_simps heap_page_header_rep)
  next
    case True
    have g1: "heap_good s1" and v1: "heap_view s1 = heap_view s"
      using store_reader.quiet_good [OF q] store_reader.quiet_view [OF q] by auto
    obtain s2 where s2: "find_tail_id (hn_ptr nd) s1 = (Inr c, s2)" "quiet 8192 s1 s2"
      using find_tail_chain [OF g1, of "hn_ptr nd" ch] cur True v1 by auto
    then show ?thesis
      using f s2 quiet_trans [OF q s2(2)] True v(2)
      by (intro exI [of _ s2]) (simp add: insert_records_def andthen_def run_simps heap_page_header_rep)
  qed
qed

lemma heap_flags_small: "drop_bit 1 (f :: u8) \<noteq> 1 \<Longrightarrow> f < 4 \<Longrightarrow> f < 2"
proof -
  assume a: "drop_bit 1 f \<noteq> 1" "f < 4"
  have "unat f < 4" using a(2) by (simp add: word_less_nat_alt)
  then have "unat f = 0 \<or> unat f = 1 \<or> unat f = 2 \<or> unat f = 3" by linarith
  then have "f = 0 \<or> f = 1 \<or> f = 2 \<or> f = 3" by (simp add: word_unat_eq_iff)
  then show "f < 2" using a(1) by auto
qed

end
