(* ===== verification/Store_Properties.thy ===== *)
theory Store_Properties
  imports Index Heap Wal_Properties
begin

text \<open>
  The properties of the page files: reads are transparent, a page guard changes its page and nothing
  else, and what is on disk after a flush, an eviction or a crash. They are stated for the index
  file (4096 byte pages) and, where the heap file has an operation of its own, for the heap file.
\<close>

lemma open_store_good:
  assumes "length f = n * sz" and "0 < sz" and "length f < 18446744073709551616" and "0 < cap"
    and "wal_new [] = Inr w"
  shows "store_good sz (store_new sz cap f, w)"
    and "store_view sz (store_new sz cap f) = disk_page sz f"
    and "unat (pf_next_id (store_new sz cap f)) = n"
proof -
  have "wal_rep (inner w) [] []" using wal_new_fresh assms(5) by auto
  then have "wal_holds w []" unfolding wal_holds_def by auto
  with store_new_ok [OF assms(1-4)]
  show "store_good sz (store_new sz cap f, w)"
    and "store_view sz (store_new sz cap f) = disk_page sz f"
    and "unat (pf_next_id (store_new sz cap f)) = n"
    by (auto simp: store_good_def)
qed

lemma open_one_page:
  assumes "wal_new [] = Inr w"
  shows "index_good (index_open (replicate 4096 0) 10, w)"
    and "store_view 4096 (index_open (replicate 4096 0) 10) 0 = Some (replicate 4096 0)"
    and "0 < pf_next_id (index_open (replicate 4096 0) 10)"
proof -
  note op = open_store_good [of "replicate 4096 0" 1 4096 10, OF _ _ _ _ assms]
  show "index_good (index_open (replicate 4096 0) 10, w)"
    using op(1) by (simp add: index_open_def)
  show "store_view 4096 (index_open (replicate 4096 0) 10) 0 = Some (replicate 4096 0)"
    using op(2) by (simp add: index_open_def disk_page_def slice_def)
  show "0 < pf_next_id (index_open (replicate 4096 0) 10)"
    using op(3) by (simp add: index_open_def word_less_nat_alt)
qed

text \<open>C15: Fetching an index or a heap page that was allocated succeeds and returns the page a client
sees (the cached page, else the page on disk); whichever page the cache evicts for it, no page a
client sees changes, no page is lost, and the log keeps every record.\<close>

theorem fetch_transparent:
  assumes "index_good (st, w)" and "i < pf_next_id st"
    and "heap_good (hst, hw)" and "j < pf_next_id hst"
  shows "\<exists>p st' w' hp hst' hw'. index_fetch i (st, w) = (Inr p, (st', w')) \<and>
    store_view 4096 st i = Some p \<and> store_view 4096 st' = store_view 4096 st \<and>
    pf_next_id st' = pf_next_id st \<and> (\<forall>rs. wal_holds w rs \<longrightarrow> wal_holds w' rs) \<and>
    index_good (st', w') \<and>
    heap_fetch j (hst, hw) = (Inr hp, (hst', hw')) \<and> store_view 8192 hst j = Some hp \<and>
    store_view 8192 hst' = store_view 8192 hst \<and> (\<forall>rs. wal_holds hw rs \<longrightarrow> wal_holds hw' rs) \<and>
    heap_good (hst', hw')"
proof -
  obtain p st' w' where 1: "store_fetch 4096 i (st, w) = (Inr p, (st', w'))"
    "quiet 4096 (st, w) (st', w')" "store_view 4096 st i = Some p"
    using store_fetch_run [OF assms(1,2)] by blast
  obtain hp hst' hw' where 2: "store_fetch 8192 j (hst, hw) = (Inr hp, (hst', hw'))"
    "quiet 8192 (hst, hw) (hst', hw')" "store_view 8192 hst j = Some hp"
    using store_fetch_run [OF assms(3,4)] by blast
  have "index_fetch i (st, w) = (Inr p, (st', w'))" using panics_Inr [where p = "store_fetch 4096 i", OF 1(1)] by (simp add: index_fetch_def)
  moreover have "heap_fetch j (hst, hw) = (Inr hp, (hst', hw'))" using 2(1) by (simp add: heap_fetch_def)
  ultimately show ?thesis
    using 1(2,3) 2(2,3) unfolding quiet_def log_same_def by fastforce
qed

lemma fetch_transparent_witness:
  "\<exists>w s'. wal_new [] = Inr w \<and>
    index_fetch 0 (index_open (replicate 4096 0) 10, w) = (Inr (replicate 4096 0), s')"
proof -
  obtain w where w: "wal_new [] = Inr w" using wal_new_fresh by blast
  note h = open_store_good [of "replicate 8192 0" 1 8192 10, OF _ _ _ _ w]
  have heap: "heap_good (heap_open (replicate 8192 0) 10, w)"
    "0 < pf_next_id (heap_open (replicate 8192 0) 10)"
    using h(1,3) by (simp_all add: heap_open_def word_less_nat_alt)
  show ?thesis
    using fetch_transparent [OF open_one_page(1,3) [OF w] heap] open_one_page(2) [OF w] w by auto
qed

text \<open>C14: Modifying a page through a guard (\<open>fetch_mut\<close>, the body, the write back when the guard is
dropped) runs the body on the page a client sees and returns its result, even an error; afterwards
that page is what the body left and every other page is as it was.\<close>

theorem guard_changes_one_page:
  assumes "index_good s" and "store_view 4096 (fst s) i = Some p" and "body p = (r, p')"
    and "length p' = 4096"
  shows "\<exists>s'. index_with_page i body s = (r, s') \<and> index_good s' \<and>
    store_view 4096 (fst s') = (store_view 4096 (fst s))(i \<mapsto> p') \<and>
    (\<forall>rs. wal_holds (snd s) rs \<longrightarrow> wal_holds (snd s') rs)"
  using index_with_page_run [where body = body, OF assms] unfolding changed_def log_same_def by fastforce

lemma guard_changes_one_page_witness:
  "\<exists>w s'. wal_new [] = Inr w \<and>
    index_with_page 0 (put_slice 0 1 [9]) (index_open (replicate 4096 0) 10, w) = (Inr (), s') \<and>
    store_view 4096 (fst s') 0 = Some (9 # replicate 4095 0)"
proof -
  obtain w where w: "wal_new [] = Inr w" using wal_new_fresh by blast
  have r: "replicate 4096 (0 :: u8) = 0 # replicate 4095 0"
    using replicate_Suc [of 4095 "0 :: u8"] by simp
  have run: "put_slice 0 1 [9] (replicate 4096 0) = (Inr (), 9 # replicate 4095 0)"
    by (simp add: r put_slice_def write_at_def)
  have v: "store_view 4096 (fst (index_open (replicate 4096 0) 10, w)) 0 = Some (replicate 4096 0)"
    using open_one_page(2) [OF w] by simp
  obtain s' where "index_with_page 0 (put_slice 0 1 [9]) (index_open (replicate 4096 0) 10, w) =
      (Inr (), s')" "store_view 4096 (fst s') =
      (store_view 4096 (fst (index_open (replicate 4096 0) 10, w)))(0 \<mapsto> 9 # replicate 4095 0)"
    using guard_changes_one_page [where body = "put_slice 0 1 [9]", OF open_one_page(1) [OF w] v run]
    by auto
  with w show ?thesis by fastforce
qed

text \<open>Allocation hands out the next page id, with room for it in the address space: the new index
page is an empty node of the requested kind, every page that existed is unchanged, and the id is
not given out again.\<close>

theorem allocate_fresh_page:
  assumes "index_good s" and "(unat (pf_next_id (fst s)) + 1) * 4096 < 2 ^ 64"
    and "index_allocate ty s = (r, s')"
  shows "\<exists>p. r = Inr (pf_next_id (fst s)) \<and> index_good s' \<and>
    store_view 4096 (fst s') = (store_view 4096 (fst s))(pf_next_id (fst s) \<mapsto> p) \<and>
    get_cells p = Inr [] \<and> page_header p = Inr (hdr_of (empty_node (pf_next_id (fst s)) ty 0)) \<and>
    unat (pf_next_id (fst s')) = unat (pf_next_id (fst s)) + 1"
proof -
  have room: "(unat (pf_next_id (fst s)) + 1) * 4096 < 18446744073709551616" using assms(2) by simp
  obtain p where "r = Inr (pf_next_id (fst s))" "index_good s'"
    "store_view 4096 (fst s') = (store_view 4096 (fst s))(pf_next_id (fst s) \<mapsto> p)"
    "page_rep p (empty_node (pf_next_id (fst s)) ty 0)"
    "unat (pf_next_id (fst s')) = unat (pf_next_id (fst s)) + 1"
    using index_allocate_run [OF assms(1) room, of ty] assms(3) by auto
  moreover from this(4) have "get_cells p = Inr []"
    "page_header p = Inr (hdr_of (empty_node (pf_next_id (fst s)) ty 0))"
    using get_cells_rep page_header_rep by (fastforce simp: empty_node_def)+
  ultimately show ?thesis by blast
qed

lemma allocate_fresh_page_example:
  "\<exists>w s'. wal_new [] = Inr w \<and>
    index_allocate Leaf (index_open (replicate 4096 0) 10, w) = (Inr 1, s')"
proof -
  obtain w where w: "wal_new [] = Inr w" using wal_new_fresh by blast
  let ?s = "(index_open (replicate 4096 0) 10, w)"
  have n: "unat (pf_next_id (fst ?s)) = 1"
    using open_store_good(3) [of "replicate 4096 0" 1 4096 10, OF _ _ _ _ w]
    by (simp add: index_open_def)
  then have n': "pf_next_id (fst ?s) = 1" by (simp add: word_unat_eq_iff)
  obtain r s' where "index_allocate Leaf ?s = (r, s')"
    by (cases "index_allocate Leaf ?s")
  with allocate_fresh_page [OF open_one_page(1) [OF w] _ this] n n' w show ?thesis by auto
qed


section \<open>Flushing, crashing\<close>

text \<open>A log that cannot be flushed: its buffer lost the bytes of the records it still lists. (The code also
fails here when the device does; the caller's \<open>?\<close> treats both alike.)\<close>

definition broken_log :: "wal \<Rightarrow> wal" where
  "broken_log w = w\<lparr>inner := (inner w)\<lparr>flushed_lsn := 0,
     wal_buf := \<lparr>wb_buffer = [], wb_offsets = [(1, 28), (9, 64)], wb_max_frames = 4\<rparr>\<rparr>\<rparr>"

lemma broken_log_fails:
  "\<exists>err w'. with_inner (flush_up_to 1) (broken_log w) = (Inl err, w')"
proof -
  have "\<not> (9 :: u64) \<le> 1" by (simp add: word_le_nat_alt)
  then show ?thesis
    by (simp add: broken_log_def with_inner_def flush_up_to_def Let_def index_r_def slice_r_def)
qed

text \<open>C22: The write-ahead rule for \<open>flush\<close>. A dirty page with a page LSN is written only after the log was
flushed up to that LSN: when this fails, \<open>flush\<close> fails the same way and the file of pages is untouched and
the page still dirty. Else the page alone changes on disk, it becomes clean, nothing a client
sees changes, and no log record with an LSN up to the page's LSN is still only in the log buffer.\<close>

theorem flush_obeys_wal_rule:
  assumes "store_ok 4096 st" and "index_flush i (st, w) = (r, (st', w'))"
  shows "(\<forall>err w1. is_dirty i (pf_pool st) \<and> 0 < page_lsn i (pf_pool st) \<and>
      with_inner (flush_up_to (page_lsn i (pf_pool st))) w = (Inl err, w1) \<longrightarrow>
      r = Inl err \<and> w' = w1 \<and> pf_file st' = pf_file st \<and> is_dirty i (pf_pool st')) \<and>
    (\<forall>rs. wal_holds w rs \<longrightarrow>
      r = Inr () \<and> index_good (st', w') \<and> store_view 4096 st' = store_view 4096 st \<and>
      disk_page 4096 (pf_file st') =
        (if is_dirty i (pf_pool st) then (disk_page 4096 (pf_file st))(i := store_view 4096 st i)
         else disk_page 4096 (pf_file st)) \<and>
      \<not> is_dirty i (pf_pool st') \<and>
      (is_dirty i (pf_pool st) \<and> 0 < page_lsn i (pf_pool st) \<longrightarrow>
        (\<exists>done pend. wal_rep (inner w') done pend \<and>
          (\<forall>r \<in> set pend. page_lsn i (pf_pool st) < lsn_of r))))"
proof (intro conjI allI impI)
  fix rs assume "wal_holds w rs"
  then have "store_good 4096 (st, w)" using assms(1) by (auto simp: store_good_def)
  from store_flush_run [OF this, of i] assms(2)
  show "r = Inr ()" "index_good (st', w')" "store_view 4096 st' = store_view 4096 st"
    "disk_page 4096 (pf_file st') =
      (if is_dirty i (pf_pool st) then (disk_page 4096 (pf_file st))(i := store_view 4096 st i)
       else disk_page 4096 (pf_file st))"
    "\<not> is_dirty i (pf_pool st')"
    by (auto simp: index_flush_def quiet_def)
  show "\<exists>done pend. wal_rep (inner w') done pend \<and> (\<forall>r \<in> set pend. page_lsn i (pf_pool st) < lsn_of r)"
    if "is_dirty i (pf_pool st) \<and> 0 < page_lsn i (pf_pool st)"
    using store_flush_run [OF \<open>store_good 4096 (st, w)\<close>, of i] assms(2) that
    by (auto simp: index_flush_def)
next
  fix err w1
  assume f: "is_dirty i (pf_pool st) \<and> 0 < page_lsn i (pf_pool st) \<and>
    with_inner (flush_up_to (page_lsn i (pf_pool st))) w = (Inl err, w1)"
  then obtain p where "cached (pf_pool st) i = Some p" using assms(1) by (auto simp: store_ok_def)
  moreover have "page_lsn i (touch i (pf_pool st)) = page_lsn i (pf_pool st)"
    by (simp add: page_lsn_def)
  ultimately have "index_flush i (st, w) = (Inl err, (st\<lparr>pf_pool := touch i (pf_pool st)\<rparr>, w1))"
    using f by (simp add: index_flush_def store_flush_def andthen_def run_simps pool_get_run on_wal_def)
  then have "r = Inl err" "w' = w1" "st' = st\<lparr>pf_pool := touch i (pf_pool st)\<rparr>"
    using assms(2) by simp_all
  then show "r = Inl err" "w' = w1" "pf_file st' = pf_file st" "is_dirty i (pf_pool st')"
    using f by simp_all
qed

lemma flush_obeys_wal_rule_witness:
  "\<exists>w st' w'. wal_new [] = Inr w \<and>
    index_flush 0 (index_open (replicate 4096 0) 10, w) = (Inr (), (st', w')) \<and>
    \<not> is_dirty 0 (pf_pool st')"
proof -
  obtain w where w: "wal_new [] = Inr w" using wal_new_fresh by blast
  have ok: "store_ok 4096 (index_open (replicate 4096 0) 10)" "wal_holds w []"
    using open_one_page(1) [OF w] wal_new_fresh w by (auto simp: store_good_def wal_holds_def)
  obtain r st' w' where f: "index_flush 0 (index_open (replicate 4096 0) 10, w) = (r, (st', w'))"
    by (metis prod.exhaust)
  show ?thesis
    using flush_obeys_wal_rule [OF ok(1) f] ok(2) f w by blast
qed

lemma wal_rep_unique:
  assumes "wal_rep w done pend" and "wal_rep w done' pend'"
  shows "done = done'" and "pend = pend'"
proof -
  show "done = done'" using assms read_all_records_rep by metis
  have "chained (last_len done) pend" "chained (last_len done') pend'"
    using assms by (auto simp: wal_rep_def chained_append last_len_def)
  moreover have "records_bytes pend = records_bytes pend'"
    using assms by (simp add: wal_rep_def)
  ultimately show "pend = pend'"
    using read_all_from_chained [of _ _ "[]" 0] by (metis append_Nil list.size(3))
qed

text \<open>C13: The write-ahead rule for STEAL. When the pool hands out an evicted dirty page with a page LSN, the
page is written only after the log was flushed up to that LSN: when this fails, writing back fails the
same way and the store is untouched. Else the page changes on disk and no other, and no log record
with an LSN up to the page's LSN is still only in the log buffer.\<close>

theorem eviction_obeys_wal_rule:
  assumes "store_ok sz st" and "ev_id e < pf_next_id st" and "length (ev_page e) = sz"
    and "was_dirty e" and "0 < ev_page_lsn e"
  shows "(\<forall>w err w1. with_inner (flush_up_to (ev_page_lsn e)) w = (Inl err, w1) \<longrightarrow>
      write_back sz (Some e) (st, w) = (Inl err, (st, w1))) \<and>
    (\<forall>w rs. wal_holds w rs \<longrightarrow>
      (\<exists>st' w' done pend. write_back sz (Some e) (st, w) = (Inr (), (st', w')) \<and>
        disk_page sz (pf_file st') = (disk_page sz (pf_file st))(ev_id e \<mapsto> ev_page e) \<and>
        pf_pool st' = pf_pool st \<and> rs = done @ pend \<and> wal_rep (inner w') done pend \<and>
        (\<forall>r \<in> set pend. ev_page_lsn e < lsn_of r)))"
proof (intro conjI allI impI)
  fix w err w1 assume "with_inner (flush_up_to (ev_page_lsn e)) w = (Inl err, w1)"
  then show "write_back sz (Some e) (st, w) = (Inl err, (st, w1))"
    using assms(4,5) by (simp add: write_back_def andthen_def run_simps on_wal_def)
next
  fix w rs assume holds: "wal_holds w rs"
  obtain w' f' "done" pend where run: "write_back sz (Some e) (st\<lparr>pf_pool := pf_pool st\<rparr>, w) =
      (Inr (), (st\<lparr>pf_pool := pf_pool st, pf_file := f'\<rparr>, w'))"
    "wal_holds w' rs" "wal_rep (inner w') done pend" "\<forall>r \<in> set pend. ev_page_lsn e < lsn_of r"
    "disk_page sz f' = (disk_page sz (pf_file st))(ev_id e \<mapsto> ev_page e)"
    using write_back_run [OF assms(1) holds, of "Some e" "pf_pool st"] assms(2-5)
    by (auto simp: written_back_def)
  have "rs = done @ pend"
    using run(2,3) wal_rep_unique by (metis wal_holds_def)
  with run show "\<exists>st' w' done pend. write_back sz (Some e) (st, w) = (Inr (), (st', w')) \<and>
      disk_page sz (pf_file st') = (disk_page sz (pf_file st))(ev_id e \<mapsto> ev_page e) \<and>
      pf_pool st' = pf_pool st \<and> rs = done @ pend \<and> wal_rep (inner w') done pend \<and>
      (\<forall>r \<in> set pend. ev_page_lsn e < lsn_of r)"
    by (intro exI [of _ "st\<lparr>pf_file := f'\<rparr>"] exI [of _ w']) auto
qed

lemma eviction_obeys_wal_rule_witness:
  "\<exists>w st' w' err v. wal_new [] = Inr w \<and>
    write_back 4096 (Some \<lparr>ev_id = 0, ev_page = replicate 4096 5, was_dirty = True, ev_page_lsn = 1,
      ev_rec_lsn = 1\<rparr>) (index_open (replicate 4096 0) 10, w) = (Inr (), (st', w')) \<and>
    disk_page 4096 (pf_file st') 0 = Some (replicate 4096 5) \<and>
    write_back 4096 (Some \<lparr>ev_id = 0, ev_page = replicate 4096 5, was_dirty = True, ev_page_lsn = 1,
      ev_rec_lsn = 1\<rparr>) (index_open (replicate 4096 0) 10, broken_log w) =
      (Inl err, (index_open (replicate 4096 0) 10, v))"
proof -
  obtain w where w: "wal_new [] = Inr w" using wal_new_fresh by blast
  let ?e = "\<lparr>ev_id = 0, ev_page = replicate 4096 5, was_dirty = True, ev_page_lsn = 1,
    ev_rec_lsn = 1\<rparr> :: bytes evicted_page"
  obtain rs where good: "store_ok 4096 (index_open (replicate 4096 0) 10)" "wal_holds w rs"
    using open_one_page(1) [OF w] by (auto simp: store_good_def)
  obtain err v where "with_inner (flush_up_to 1) (broken_log w) = (Inl err, v)"
    using broken_log_fails by blast
  then show ?thesis
    using eviction_obeys_wal_rule [OF good(1), of ?e] open_one_page(3) [OF w] good(2) w by fastforce
qed

text \<open>C23: After \<open>flush_all\<close> every page a client sees is on disk and no page is dirty: opening the file
anew, with an empty cache of any capacity, shows exactly the same pages.\<close>

theorem flush_all_survives_restart:
  assumes "index_good (st, w)" and "index_flush_all (st, w) = (r, (st', w'))" and "0 < cap"
  shows "r = Inr () \<and> index_good (st', w') \<and> store_view 4096 st' = store_view 4096 st \<and>
    (\<forall>i. \<not> is_dirty i (pf_pool st')) \<and>
    store_view 4096 (index_open (pf_file st') cap) = store_view 4096 st"
proof -
  have run: "r = Inr ()" "index_good (st', w')" "store_view 4096 st' = store_view 4096 st"
    "disk_page 4096 (pf_file st') = store_view 4096 st" "\<forall>i. \<not> is_dirty i (pf_pool st')"
    using store_flush_all_run [OF assms(1)] assms(2) by (auto simp: index_flush_all_def quiet_def)
  then have "length (pf_file st') = unat (pf_next_id st') * 4096"
    "length (pf_file st') < 18446744073709551616"
    by (auto simp: store_good_def store_ok_def)
  with run store_new_ok(2) [of "pf_file st'" "unat (pf_next_id st')" 4096 cap] assms(3)
  show ?thesis by (simp add: index_open_def)
qed

lemma flush_all_survives_restart_witness:
  "\<exists>w st' w'. wal_new [] = Inr w \<and>
    index_flush_all (index_open (replicate 4096 0) 10, w) = (Inr (), (st', w')) \<and>
    store_view 4096 (index_open (pf_file st') 3) 0 = Some (replicate 4096 0)"
proof -
  obtain w where w: "wal_new [] = Inr w" using wal_new_fresh by blast
  obtain r st' w' where f: "index_flush_all (index_open (replicate 4096 0) 10, w) = (r, (st', w'))"
    by (metis prod.exhaust)
  show ?thesis
    using flush_all_survives_restart [OF open_one_page(1) [OF w] f, of 3] open_one_page(2) [OF w] f w
    by auto
qed

text \<open>\<open>discard_dirty\<close> of the heap file drops exactly the unflushed modifications: afterwards a
client sees the pages as they are on disk, the file and the log are untouched, and no page is
dirty.\<close>

theorem discard_reverts_to_disk:
  assumes "heap_good (st, w)" and "heap_discard_dirty (st, w) = (r, (st', w'))"
  shows "r = Inr () \<and> heap_good (st', w') \<and> w' = w \<and> pf_file st' = pf_file st \<and>
    store_view 8192 st' = disk_page 8192 (pf_file st) \<and> (\<forall>i. \<not> is_dirty i (pf_pool st'))"
  using store_discard_run [OF assms(1)] assms(2) by (auto simp: heap_discard_dirty_def)

lemma discard_reverts_to_disk_example:
  "\<exists>w st'. wal_new [] = Inr w \<and>
    heap_discard_dirty (heap_open (replicate 8192 0) 10, w) = (Inr (), (st', w)) \<and>
    store_view 8192 st' 0 = Some (replicate 8192 0)"
proof -
  obtain w where w: "wal_new [] = Inr w" using wal_new_fresh by blast
  have good: "heap_good (heap_open (replicate 8192 0) 10, w)"
    using open_store_good(1) [of "replicate 8192 0" 1 8192 10, OF _ _ _ _ w] by (simp add: heap_open_def)
  obtain r st' w' where f: "heap_discard_dirty (heap_open (replicate 8192 0) 10, w) = (r, (st', w'))"
    by (metis prod.exhaust)
  have "pf_file (heap_open (replicate 8192 0) 10) = replicate 8192 0"
    by (simp add: heap_open_def store_new_def)
  with discard_reverts_to_disk [OF good f] f w show ?thesis
    by (auto simp: disk_page_def slice_def)
qed

end
