(* ===== verification/Heap_Properties.thy ===== *)
theory Heap_Properties
  imports Store_Properties
begin

text \<open>
  The properties of the heap: records appended to a page, chains of overflow pages, and the round
  trip of a record list through \<open>insert_records\<close> and \<open>get_record\<close>.
\<close>

text \<open>\<open>add_cell\<close> of a heap page appends the record to those the page holds exactly when the record,
its slot and the header fit into 8192 bytes; then reading the page gives the old records and the
new one, in order. Otherwise it fails and the page is byte for byte what it was.\<close>

theorem heap_append_exact:
  assumes "heap_rep p nd"
  shows "if 21 + 4 * (length (hn_recs nd) + 1) + length (concat (hn_recs nd)) + length r \<le> 8192
    then \<exists>p' h. heap_add_cell r p = (Inr (), p') \<and> heap_page_header p' = Inr h \<and>
      page_records p' h = Inr (hn_recs nd @ [r]) \<and> hh_id h = hn_id nd \<and> hh_ptr h = hn_ptr nd \<and>
      hh_flags h = hn_flags nd
    else heap_add_cell r p = (Inl (Err ''Heap page overflow!''), p)"
proof (cases "heap_fits (hn_recs nd @ [r])")
  case True
  then obtain p' where p': "heap_add_cell r p = (Inr (), p')"
    "heap_rep p' (nd\<lparr>hn_recs := hn_recs nd @ [r]\<rparr>)"
    using heap_add_cell_refines [OF assms, of r] by auto
  then show ?thesis
    using True heap_page_header_rep [OF p'(2)] page_records_rep [OF p'(2)]
    by (auto simp: heap_fits_snoc)
next
  case False
  then have "heap_add_cell r p = (Inl (Err ''Heap page overflow!''), p)"
    using heap_add_cell_refines [OF assms, of r] by (simp del: heap_fits_snoc)
  then show ?thesis using False by (simp add: heap_fits_snoc)
qed

lemma fresh_heap_page:
  "\<exists>p. heap_rep p (empty_heap_node i fl)"
proof -
  let ?h = "\<lparr>hh_id = i, hh_free_start = 21, hh_free_end = 8192, hh_flags = fl, hh_ptr = 0\<rparr>"
  have "length (heap_header_bytes ?h) = 21" by (rule heap_hdr.length_enc)
  then have "heap_rep (heap_header_bytes ?h @ replicate 8171 0) (empty_heap_node i fl)"
    by (intro heap_rep_empty [OF _ _ refl]) auto
  then show ?thesis by blast
qed

lemma heap_append_exact_example:
  "\<exists>p p' h. heap_rep p (empty_heap_node 4 0) \<and> heap_add_cell [1, 2, 3] p = (Inr (), p') \<and>
    heap_page_header p' = Inr h \<and> page_records p' h = Inr [[1, 2, 3]]"
proof -
  obtain p where p: "heap_rep p (empty_heap_node 4 0)" using fresh_heap_page by blast
  show ?thesis
    using heap_append_exact [OF p, of "[1, 2, 3]"] p by (auto simp: empty_heap_node_def)
qed

text \<open>C24: Following a chain of overflow pages terminates and is complete: \<open>get_record\<close> returns the
given records followed by those of every page of the chain in order, and \<open>free_chain\<close> the ids of the
pages of the chain, whatever the cache evicts meanwhile; no page changes.\<close>

theorem chain_read_completely:
  assumes "heap_good s" and "heap_chain (heap_view s) i ch" and "distinct (map fst ch)"
  shows "\<exists>s' s''. get_record i acc s = (Inr (acc @ concat (map (hn_recs \<circ> snd) ch)), s') \<and>
    heap_good s' \<and> heap_view s' = heap_view s \<and>
    free_chain i s = (Inr (map fst ch), s'') \<and> heap_good s'' \<and> heap_view s'' = heap_view s"
proof -
  have q: "quiet 8192 s t \<Longrightarrow> heap_good t \<and> heap_view t = heap_view s" for t
    by (auto simp: quiet_def split: prod.splits)
  obtain s' where "get_record i acc s = (Inr (acc @ chain_records ch), s')" "quiet 8192 s s'"
    using get_record_chain [OF assms] by blast
  moreover obtain s'' where "free_chain i s = (Inr (map fst ch), s'')" "quiet 8192 s s''"
    using free_chain_chain [OF assms] by blast
  ultimately show ?thesis using q by (auto simp: chain_records_def)
qed

lemma open_heap_page:
  assumes "heap_rep p nd" and "wal_new [] = Inr w"
  shows "heap_good (heap_open p 10, w)" and "heap_view (heap_open p 10, w) 0 = Some p"
    and "pf_next_id (heap_open p 10) = 1"
proof -
  have l: "length p = 8192" using assms(1) by (rule heap_repD)
  then have p: "length p = 1 * 8192" "length p < 18446744073709551616" by simp_all
  note op = open_store_good [OF p(1) _ p(2) _ assms(2), of 10]
  show "heap_good (heap_open p 10, w)" using op(1) by (simp add: heap_open_def)
  show "heap_view (heap_open p 10, w) 0 = Some p"
    using op(2) l by (simp add: heap_open_def disk_page_def slice_def)
  show "pf_next_id (heap_open p 10) = 1"
    using op(3) by (simp add: heap_open_def word_unat_eq_iff)
qed

lemma chain_read_completely_witness:
  "\<exists>p w s'. heap_rep p (empty_heap_node 0 0) \<and> wal_new [] = Inr w \<and>
    get_record 0 [[7]] (heap_open p 10, w) = (Inr [[7]], s')"
proof -
  obtain p where p: "heap_rep p (empty_heap_node 0 0)" using fresh_heap_page by blast
  obtain w where w: "wal_new [] = Inr w" using wal_new_fresh by blast
  have ch: "heap_chain (heap_view (heap_open p 10, w)) 0 [(0, empty_heap_node 0 0)]"
    using open_heap_page(2) [OF p w] p by (simp add: hn_more_def empty_heap_node_def)
  show ?thesis
    using chain_read_completely [OF open_heap_page(1) [OF p w] ch, of "[[7]]"] p w
    by (auto simp: empty_heap_node_def)
qed

text \<open>C10: A list of records stored with \<open>allocate\<close> and \<open>insert_records\<close>, as the tree does, is read back by
\<open>get_record\<close> unchanged and in order, however many overflow pages it takes, when every record fits
into one page; all pages that existed before keep their content.\<close>

theorem insert_records_roundtrip:
  assumes "heap_good s" and "\<forall>r \<in> set rs. length r \<le> 8167"
    and "(unat (pf_next_id (fst s)) + 1 + length rs) * 8192 < 2 ^ 64"
  shows "\<exists>s1 s2 s3. heap_allocate s = (Inr (pf_next_id (fst s)), s1) \<and>
    insert_records (pf_next_id (fst s)) rs s1 = (Inr (), s2) \<and>
    get_record (pf_next_id (fst s)) [] s2 = (Inr rs, s3) \<and> heap_good s3 \<and>
    heap_view s3 = heap_view s2 \<and>
    (\<forall>j < pf_next_id (fst s). heap_view s2 j = heap_view s j)"
proof -
  let ?i = "pf_next_id (fst s)" and ?nd = "empty_heap_node (pf_next_id (fst s)) 0"
  have room: "(unat ?i + 1) * 8192 < 18446744073709551616"
    "(unat ?i + 1 + length rs) * 8192 < 18446744073709551616" using assms(3) by simp_all
  obtain s1 p where s1: "heap_allocate s = (Inr ?i, s1)" "heap_good s1"
    "heap_view s1 = (heap_view s)(?i \<mapsto> p)" "heap_rep p ?nd"
    "unat (pf_next_id (fst s1)) = unat ?i + 1"
    using heap_allocate_run [OF assms(1) room(1)] by blast
  have v: "heap_view s1 ?i = Some p" using s1(3) by simp
  have "\<not> is_overflow_page (heap_hdr_of ?nd)"
    by (simp add: is_overflow_page_def heap_hdr_of_def empty_heap_node_def)
  then obtain t where t: "insert_records ?i rs s1 = insert_each ?i rs t" "quiet 8192 s1 t"
    using insert_records_start [OF s1(2) v s1(4), of _ ?i rs] by auto
  have q: "heap_good t" "heap_view t = heap_view s1" "pf_next_id (fst t) = pf_next_id (fst s1)"
    using t(2) by (auto simp: quiet_def split: prod.splits)
  have ch: "heap_chain (heap_view t) ?i ([] @ [(?i, ?nd)])"
    using v s1(4) q(2) by (simp add: hn_more_def empty_heap_node_def)
  have "(unat (pf_next_id (fst t)) + length rs) * 8192 < 18446744073709551616"
    using room(2) s1(5) q(3) by simp
  then obtain s2 ch' where s2: "insert_each ?i rs t = (Inr (), s2)" "heap_good s2"
    "heap_chain (heap_view s2) ?i ch'" "distinct (map fst ch')"
    "chain_records ch' = chain_records ([] @ [(?i, ?nd)]) @ rs"
    "\<forall>j. j < pf_next_id (fst t) \<and> j \<notin> insert ?i (set (map fst [])) \<longrightarrow> heap_view s2 j = heap_view t j"
    using insert_each_chain [OF q(1) ch _ _ assms(2)] by (auto simp: empty_heap_node_def)
  have recs: "chain_records ch' = rs" using s2(5) by (simp add: chain_records_def empty_heap_node_def)
  obtain s3 where s3: "get_record ?i [] s2 = (Inr rs, s3)" "quiet 8192 s2 s3"
    using get_record_chain [OF s2(2-4), of "[]"] recs by auto
  have "?i < pf_next_id (fst s1)" using s1(5) by (simp add: word_less_nat_alt)
  then have old: "heap_view s2 j = heap_view s j" if "j < ?i" for j
    using s2(6) [rule_format, of j] that q(2,3) s1(3) order.strict_trans [OF that] by simp
  show ?thesis
    using old s1(1) t(1) s2(1) s3 by (auto simp: quiet_def split: prod.splits)
qed

lemma insert_records_roundtrip_witness:
  "\<exists>p w s1 s2 s3. heap_rep p (empty_heap_node 0 0) \<and> wal_new [] = Inr w \<and>
    heap_allocate (heap_open p 10, w) = (Inr 1, s1) \<and>
    insert_records 1 [replicate 5000 1, replicate 5000 2] s1 = (Inr (), s2) \<and>
    get_record 1 [] s2 = (Inr [replicate 5000 1, replicate 5000 2], s3)"
proof -
  obtain p where p: "heap_rep p (empty_heap_node 0 0)" using fresh_heap_page by blast
  obtain w where w: "wal_new [] = Inr w" using wal_new_fresh by blast
  have "\<exists>s1 s2 s3. heap_allocate (heap_open p 10, w) = (Inr 1, s1) \<and>
    insert_records 1 [replicate 5000 1, replicate 5000 2] s1 = (Inr (), s2) \<and>
    get_record 1 [] s2 = (Inr [replicate 5000 1, replicate 5000 2], s3)"
    using insert_records_roundtrip [OF open_heap_page(1) [OF p w],
        of "[replicate 5000 1, replicate 5000 2]"] open_heap_page(3) [OF p w]
    by fastforce
  with p w show ?thesis by blast
qed

section \<open>Which pages \<open>insert_records\<close> writes to\<close>

text \<open>C31: \<open>HeapHeader::is_overflow_page\<close> is true of primary pages, so \<open>insert_records\<close> on a fresh page
from \<open>allocate_primary\<close> follows its pointer, which is 0: the records end up behind those of the chain
of page 0, and the primary page they were meant for stays empty.\<close>

theorem primary_insert_misdirected:
  assumes "heap_good s" and "heap_chain (heap_view s) 0 (xs @ [(c, nd)])"
    and "distinct (map fst (xs @ [(c, nd)]))" and "hn_flags nd < 2"
    and "\<forall>r \<in> set rs. length r \<le> 8167"
    and "(unat (pf_next_id (fst s)) + 1 + length rs) * 8192 < 2 ^ 64"
  shows "\<exists>s1 s2 s3 s4. allocate_primary s = (Inr (pf_next_id (fst s)), s1) \<and>
    insert_records (pf_next_id (fst s)) rs s1 = (Inr (), s2) \<and>
    get_record (pf_next_id (fst s)) [] s2 = (Inr [], s3) \<and>
    get_record 0 [] s2 = (Inr (chain_records (xs @ [(c, nd)]) @ rs), s4)"
proof -
  let ?i = "pf_next_id (fst s)" and ?ch = "xs @ [(c, nd)]"
  let ?nd = "empty_heap_node ?i 1"
  have room: "(unat ?i + 1) * 8192 < 18446744073709551616"
    "(unat ?i + 1 + length rs) * 8192 < 18446744073709551616" using assms(6) by simp_all
  obtain s1 p where s1: "allocate_primary s = (Inr ?i, s1)" "heap_good s1"
    "heap_view s1 = (heap_view s)(?i \<mapsto> p)" "heap_rep p ?nd"
    "unat (pf_next_id (fst s1)) = unat ?i + 1"
    using allocate_primary_run [OF assms(1) room(1)] by blast
  have old: "j < ?i" if "j \<in> set (map fst ?ch)" for j
    using heap_chain_visible [OF assms(2) that] store_view_bound [OF store_good_ok [OF assms(1)]] by blast
  then have ne: "?i \<notin> set (map fst ?ch)" by blast
  have v: "heap_view s1 ?i = Some p" using s1(3) by simp
  have ch1: "heap_chain (heap_view s1) 0 ?ch"
    by (rule heap_chain_cong [OF assms(2)]) (use ne s1(3) in \<open>metis fun_upd_other\<close>)
  have prim: "is_overflow_page (heap_hdr_of ?nd)" "hn_ptr ?nd = 0"
    by (simp_all add: is_overflow_page_def empty_heap_node_def)
  obtain t where t: "insert_records ?i rs s1 = insert_each c rs t" "quiet 8192 s1 t"
    using insert_records_start [OF s1(2) v s1(4), of ?ch c rs] prim ch1 assms(3) by auto
  have q: "heap_good t" "heap_view t = heap_view s1" "pf_next_id (fst t) = pf_next_id (fst s1)"
    using t(2) by (auto simp: quiet_def split: prod.splits)
  obtain s2 ch' where s2: "insert_each c rs t = (Inr (), s2)" "heap_good s2"
    "heap_chain (heap_view s2) 0 ch'" "distinct (map fst ch')"
    "chain_records ch' = chain_records ?ch @ rs"
    "\<forall>j. j < pf_next_id (fst t) \<and> j \<notin> insert c (set (map fst xs)) \<longrightarrow> heap_view s2 j = heap_view t j"
    using insert_each_chain [OF q(1), of 0 xs c nd rs] ch1 q(2,3) s1(5) room(2) assms(3-5) by auto
  have "?i < pf_next_id (fst t)" using s1(5) q(3) by (simp add: word_less_nat_alt)
  then have "heap_view s2 ?i = Some p" using s2(6) ne v q(2) by auto
  then have one: "heap_chain (heap_view s2) ?i [(?i, ?nd)]"
    using s1(4) by (simp add: hn_more_def empty_heap_node_def)
  obtain s3 where "get_record ?i [] s2 = (Inr [], s3)"
    using get_record_chain [OF s2(2) one, of "[]"]
    by (auto simp: chain_records_def empty_heap_node_def)
  moreover obtain s4 where "get_record 0 [] s2 = (Inr (chain_records ?ch @ rs), s4)"
    using get_record_chain [OF s2(2-4), of "[]"] s2(5) by auto
  ultimately show ?thesis using s1(1) t(1) s2(1) by metis
qed

lemma primary_insert_misdirected_witness:
  "\<exists>p w s1 s2 s3 s4. heap_rep p (empty_heap_node 0 0) \<and> wal_new [] = Inr w \<and>
    allocate_primary (heap_open p 10, w) = (Inr 1, s1) \<and>
    insert_records 1 [[42]] s1 = (Inr (), s2) \<and>
    get_record 1 [] s2 = (Inr [], s3) \<and> get_record 0 [] s2 = (Inr [[42]], s4)"
proof -
  obtain p where p: "heap_rep p (empty_heap_node 0 0)" using fresh_heap_page by blast
  obtain w where w: "wal_new [] = Inr w" using wal_new_fresh by blast
  have ch: "heap_chain (heap_view (heap_open p 10, w)) 0 ([] @ [(0, empty_heap_node 0 0)])"
    using open_heap_page(2) [OF p w] p by (simp add: hn_more_def empty_heap_node_def)
  have "\<exists>s1 s2 s3 s4. allocate_primary (heap_open p 10, w) = (Inr 1, s1) \<and>
    insert_records 1 [[42]] s1 = (Inr (), s2) \<and>
    get_record 1 [] s2 = (Inr [], s3) \<and> get_record 0 [] s2 = (Inr [[42]], s4)"
    using primary_insert_misdirected [OF open_heap_page(1) [OF p w] ch, of "[[42]]"]
      open_heap_page(3) [OF p w]
    by (auto simp: empty_heap_node_def chain_records_def)
  with p w show ?thesis by blast
qed

end
