(* ===== verification/Pager.thy ===== *)
theory Pager
  imports Heap Index
begin

text \<open>
  The pager of \<open>pager.rs\<close>: the index file, the heap file and the log they share. It logs page
  changes as byte ranges, takes fuzzy checkpoints and recovers from the log (analysis, redo, undo).
\<close>

section \<open>State\<close>

record pager =
  p_index :: page_store
  p_heap :: page_store
  p_wal :: wal

definition on_index :: "'a on_store \<Rightarrow> (pager, 'a) m" where
  "on_index p = (\<lambda>s. case p (p_index s, p_wal s) of
     (r, (st, w)) \<Rightarrow> (r, s\<lparr>p_index := st, p_wal := w\<rparr>))"

definition on_heap :: "'a on_store \<Rightarrow> (pager, 'a) m" where
  "on_heap p = (\<lambda>s. case p (p_heap s, p_wal s) of
     (r, (st, w)) \<Rightarrow> (r, s\<lparr>p_heap := st, p_wal := w\<rparr>))"

definition on_log :: "(wal_inner, 'a) m \<Rightarrow> (pager, 'a) m" where
  "on_log p = (\<lambda>s. case with_inner p (p_wal s) of (r, w) \<Rightarrow> (r, s\<lparr>p_wal := w\<rparr>))"

definition pager_new_with_wal :: "disk_file \<Rightarrow> disk_file \<Rightarrow> disk_file \<Rightarrow> error + pager" where
  "pager_new_with_wal index_file heap_file wal_file =
     try_r (wal_new wal_file) (\<lambda>w.
     Inr \<lparr>p_index = index_open index_file INDEX_POOL_CAPACITY,
          p_heap = heap_open heap_file HEAP_POOL_CAPACITY, p_wal = w\<rparr>)"

section \<open>Reading and flushing\<close>

definition fetch_heap_data :: "cell \<Rightarrow> bytes list \<Rightarrow> (pager, bytes list) m" where
  "fetch_heap_data c data_record =
     (case h_ptr c of
        Some heap_ptr \<Rightarrow> on_heap (get_record (hp_index heap_ptr) data_record)
      | None \<Rightarrow> fail (Err ''Couldn't find the header pointer''))"

definition pager_flush_all :: "(pager, unit) m" where
  "pager_flush_all =
     andthen (on_log wal_flush_all) (\<lambda>_.
     andthen (on_index index_flush_all) (\<lambda>_.
     on_heap heap_flush_all))"

definition flush_index_page :: "u64 \<Rightarrow> (pager, unit) m" where
  "flush_index_page i =
     andthen (gets (\<lambda>s. page_lsn i (pf_pool (p_index s)))) (\<lambda>lsn.
     andthen (only_if (0 < lsn) (on_log (flush_up_to lsn))) (\<lambda>_.
     on_index (index_flush i)))"

definition flush_heap_page :: "u64 \<Rightarrow> (pager, unit) m" where
  "flush_heap_page i =
     andthen (gets (\<lambda>s. page_lsn i (pf_pool (p_heap s)))) (\<lambda>lsn.
     andthen (only_if (0 < lsn) (on_log (flush_up_to lsn))) (\<lambda>_.
     on_heap (heap_flush i)))"

definition discard_all_dirty :: "(pager, unit) m" where
  "discard_all_dirty = andthen (on_index index_discard_dirty) (\<lambda>_. on_heap heap_discard_dirty)"

definition dirty_pages :: "pager \<Rightarrow> u64 list \<times> u64 list" where
  "dirty_pages s = (dirty_page_ids (pf_pool (p_index s)), dirty_page_ids (pf_pool (p_heap s)))"


section \<open>Logging page changes\<close>

text \<open>The first and the last position where two pages differ.\<close>

fun first_diff :: "nat \<Rightarrow> bytes \<Rightarrow> bytes \<Rightarrow> error + nat option" where
  "first_diff i [] new = Inr None"
| "first_diff i (a # as) [] = Inl (Panic ''index out of bounds'')"
| "first_diff i (a # as) (b # bs) = (if a \<noteq> b then Inr (Some i) else first_diff (i + 1) as bs)"

fun last_diff :: "bytes \<Rightarrow> bytes \<Rightarrow> nat \<Rightarrow> nat \<Rightarrow> error + nat" where
  "last_diff old new start 0 = Inr (start + 1)"
| "last_diff old new start (Suc i) =
     (if i < start then Inr (start + 1)
      else try_r (index_r new i) (\<lambda>b.
        if old ! i \<noteq> b then Inr (i + 1) else last_diff old new start i))"

definition page_diff :: "bytes \<Rightarrow> bytes \<Rightarrow> error + (u16 \<times> nat \<times> nat) option" where
  "page_diff old new =
     try_r (first_diff 0 old new) (\<lambda>r.
     case r of
       None \<Rightarrow> Inr None
     | Some start \<Rightarrow> try_r (last_diff old new start (length old)) (\<lambda>e.
         Inr (Some (of_nat start, start, e))))"

definition log_index_update :: "u64 \<Rightarrow> u64 \<Rightarrow> u16 \<Rightarrow> bytes \<Rightarrow> bytes \<Rightarrow> (pager, u64) m" where
  "log_index_update txn_id page_id offset undo redo =
     andthen (on_log (write_record txn_id Update page_id True
       \<lparr>offset_in_page = offset, undo_data = undo, redo_data = redo\<rparr>)) (\<lambda>lsn.
     andthen (on_index (modify_pool (update_lsn page_id lsn))) (\<lambda>_. ok lsn))"

definition log_heap_update :: "u64 \<Rightarrow> u64 \<Rightarrow> u16 \<Rightarrow> bytes \<Rightarrow> bytes \<Rightarrow> (pager, u64) m" where
  "log_heap_update txn_id page_id offset undo redo =
     andthen (on_log (write_record txn_id Update page_id False
       \<lparr>offset_in_page = offset, undo_data = undo, redo_data = redo\<rparr>)) (\<lambda>lsn.
     andthen (on_heap (modify_pool (update_lsn page_id lsn))) (\<lambda>_. ok lsn))"

definition log_index_diff :: "u64 \<Rightarrow> u64 \<Rightarrow> bytes \<Rightarrow> bytes \<Rightarrow> (pager, u64 option) m" where
  "log_index_diff txn_id page_id old_data new_data =
     andthen (of_result (page_diff old_data new_data)) (\<lambda>d.
     case d of
       None \<Rightarrow> ok None
     | Some (offset, start, e) \<Rightarrow>
         andthen (of_result (slice_r old_data start e)) (\<lambda>undo.
         andthen (of_result (slice_r new_data start e)) (\<lambda>redo.
         andthen (log_index_update txn_id page_id offset undo redo) (\<lambda>lsn. ok (Some lsn)))))"

definition log_heap_diff :: "u64 \<Rightarrow> u64 \<Rightarrow> bytes \<Rightarrow> bytes \<Rightarrow> (pager, u64 option) m" where
  "log_heap_diff txn_id page_id old_data new_data =
     andthen (of_result (page_diff old_data new_data)) (\<lambda>d.
     case d of
       None \<Rightarrow> ok None
     | Some (offset, start, e) \<Rightarrow>
         andthen (of_result (slice_r old_data start e)) (\<lambda>undo.
         andthen (of_result (slice_r new_data start e)) (\<lambda>redo.
         andthen (log_heap_update txn_id page_id offset undo redo) (\<lambda>lsn. ok (Some lsn)))))"

definition fuzzy_checkpoint :: "(pager, u64) m" where
  "fuzzy_checkpoint =
     andthen (gets (\<lambda>s.
       map (\<lambda>(i, l). \<lparr>dp_is_index = True, dp_page_id = i, dp_rec_lsn = l\<rparr>)
         (dirty_page_table (pf_pool (p_index s))) @
       map (\<lambda>(i, l). \<lparr>dp_is_index = False, dp_page_id = i, dp_rec_lsn = l\<rparr>)
         (dirty_page_table (pf_pool (p_heap s))))) (\<lambda>dpt.
     andthen (gets (\<lambda>s. active_transaction_table (inner (p_wal s)))) (\<lambda>att.
     on_log (write_checkpoint dpt att)))"


section \<open>Recovery\<close>

type_synonym dirty_table = "(bool \<times> u64, u64) hmap"
type_synonym txn_table = "(u64, u64) hmap"

record recovery_report =
  checkpoint_lsn :: u64
  redone_records :: nat
  undone_records :: nat
  active_txn_ids :: "u64 list"

definition page_key :: "wal_record \<Rightarrow> bool \<times> u64" where
  "page_key r = (rh_is_index (wr_header r), rh_page_id (wr_header r))"

text \<open>The analysis of one record: \<open>dpt.entry(..).or_insert(..)\<close> keeps an entry that is there.\<close>

definition or_insert :: "'k \<Rightarrow> 'v \<Rightarrow> ('k, 'v) hmap \<Rightarrow> ('k, 'v) hmap" where
  "or_insert k v h = (if map_of h k = None then map_insert k v h else h)"

definition analyze_record :: "wal_record \<Rightarrow> dirty_table \<times> txn_table \<Rightarrow> dirty_table \<times> txn_table" where
  "analyze_record r = (\<lambda>(dpt, att).
     let h = wr_header r in
     case rh_record_type h of
       Begin \<Rightarrow> (dpt, map_insert (rh_txn_id h) (rh_lsn h) att)
     | Update \<Rightarrow> (or_insert (page_key r) (rh_lsn h) dpt,
         if rh_txn_id h \<noteq> 0 then map_insert (rh_txn_id h) (rh_lsn h) att else att)
     | Commit \<Rightarrow> (dpt, map_remove (rh_txn_id h) att)
     | Abort \<Rightarrow> (dpt, map_remove (rh_txn_id h) att)
     | Clr \<Rightarrow> (or_insert (page_key r) (rh_lsn h) dpt,
         if rh_txn_id h \<noteq> 0 then map_insert (rh_txn_id h) (rh_lsn h) att else att)
     | Checkpoint \<Rightarrow> (dpt, att))"

text \<open>The tables of the last checkpoint, and the LSN the analysis starts from.\<close>

definition checkpoint_tables :: "u64 \<Rightarrow> wal_record list \<Rightarrow> dirty_table \<times> txn_table \<times> u64" where
  "checkpoint_tables chk_lsn rs =
     (if 0 < chk_lsn
      then case find (\<lambda>r. rh_lsn (wr_header r) = chk_lsn) rs of
             None \<Rightarrow> ([], [], 0)
           | Some r \<Rightarrow>
               (case parse_checkpoint r of
                  None \<Rightarrow> ([], [], 0)
                | Some d \<Rightarrow>
                    (fold (\<lambda>e. map_insert (dp_is_index e, dp_page_id e) (dp_rec_lsn e)) (cd_dpt d) [],
                     fold (\<lambda>e. map_insert (at_txn_id e) (at_last_lsn e)) (cd_att d) [],
                     chk_lsn + 1))
      else ([], [], 0))"

definition analysis :: "u64 \<Rightarrow> wal_record list \<Rightarrow> dirty_table \<times> txn_table" where
  "analysis chk_lsn rs =
     (case checkpoint_tables chk_lsn rs of
        (dpt, att, start_lsn) \<Rightarrow>
          fold analyze_record (filter (\<lambda>r. start_lsn \<le> rh_lsn (wr_header r)) rs) (dpt, att))"

definition min_rec_lsn :: "u64 \<Rightarrow> dirty_table \<Rightarrow> u64" where
  "min_rec_lsn chk_lsn dpt =
     (case map snd dpt of [] \<Rightarrow> chk_lsn | l # ls \<Rightarrow> fold min ls l)"

text \<open>Writing a byte range into a page: \<open>page.data[off..off + len].copy_from_slice(bs)\<close>.\<close>

definition patch :: "u16 \<Rightarrow> bytes \<Rightarrow> (bytes, unit) m" where
  "patch offset bs = put_slice (unat offset) (unat offset + length bs) bs"

definition grow_store :: "nat \<Rightarrow> u64 \<Rightarrow> unit on_store" where
  "grow_store sz page_id =
     modify (\<lambda>(st, w).
       let req_len = unat ((page_id + 1) * of_nat sz);
           st1 = (if length (pf_file st) < req_len
                  then st\<lparr>pf_file := set_len req_len (pf_file st)\<rparr> else st)
       in (if pf_next_id st1 \<le> page_id then st1\<lparr>pf_next_id := page_id + 1\<rparr> else st1, w))"

definition redo_page :: "wal_record \<Rightarrow> u16 \<Rightarrow> bytes \<Rightarrow> (pager, unit) m" where
  "redo_page r offset redo =
     (let page_id = rh_page_id (wr_header r); lsn = rh_lsn (wr_header r) in
      if rh_is_index (wr_header r)
      then on_index
        (andthen (grow_store PAGE_SIZE page_id) (\<lambda>_.
         andthen (index_with_page page_id (patch offset redo)) (\<lambda>_.
         modify_pool (update_lsn page_id lsn))))
      else on_heap
        (andthen (grow_store HEAP_PAGE_SIZE page_id) (\<lambda>_.
         andthen (heap_with_page page_id (patch offset redo)) (\<lambda>_.
         modify_pool (update_lsn page_id lsn)))))"

definition redo_target :: "dirty_table \<Rightarrow> wal_record \<Rightarrow> (u16 \<times> bytes) option" where
  "redo_target dpt r =
     (if rh_record_type (wr_header r) \<noteq> Update \<and> rh_record_type (wr_header r) \<noteq> Clr then None
      else
        case map_of dpt (page_key r) of
          None \<Rightarrow> None
        | Some rlsn \<Rightarrow>
            if rlsn \<le> rh_lsn (wr_header r)
            then case parse_update r of None \<Rightarrow> None | Some (offset, _, redo) \<Rightarrow> Some (offset, redo)
            else None)"

fun redo_records :: "dirty_table \<Rightarrow> wal_record list \<Rightarrow> (pager, nat) m" where
  "redo_records dpt [] = ok 0"
| "redo_records dpt (r # rs) =
     (case redo_target dpt r of
        None \<Rightarrow> redo_records dpt rs
      | Some (offset, redo) \<Rightarrow>
          andthen (redo_page r offset redo) (\<lambda>_.
          andthen (redo_records dpt rs) (\<lambda>n. ok (n + 1))))"

definition undo_page :: "wal_record \<Rightarrow> u16 \<Rightarrow> bytes \<Rightarrow> (pager, unit) m" where
  "undo_page r offset undo =
     (let page_id = rh_page_id (wr_header r) in
      andthen (if rh_is_index (wr_header r)
               then on_index (index_with_page page_id (patch offset undo))
               else on_heap (heap_with_page page_id (patch offset undo))) (\<lambda>_.
      andthen (on_log (write_clr (rh_txn_id (wr_header r)) (rh_is_index (wr_header r)) page_id
        offset undo)) (\<lambda>_. ok ())))"

definition undo_target :: "u64 list \<Rightarrow> wal_record \<Rightarrow> (u16 \<times> bytes) option" where
  "undo_target losers r =
     (if rh_txn_id (wr_header r) \<in> set losers \<and> rh_record_type (wr_header r) = Update
      then case parse_update r of None \<Rightarrow> None | Some (offset, undo, _) \<Rightarrow> Some (offset, undo)
      else None)"

fun undo_records :: "u64 list \<Rightarrow> wal_record list \<Rightarrow> (pager, nat) m" where
  "undo_records losers [] = ok 0"
| "undo_records losers (r # rs) =
     (case undo_target losers r of
        None \<Rightarrow> undo_records losers rs
      | Some (offset, undo) \<Rightarrow>
          andthen (undo_page r offset undo) (\<lambda>_.
          andthen (undo_records losers rs) (\<lambda>n. ok (n + 1))))"

definition undo_losers :: "u64 list \<Rightarrow> (pager, nat) m" where
  "undo_losers losers =
     (if losers = [] then ok 0
      else
        andthen (reads (\<lambda>s. read_records_backward (inner (p_wal s)))) (\<lambda>backward.
        andthen (undo_records losers backward) (\<lambda>n.
        andthen (for_each (\<lambda>t. andthen (on_log (abort_transaction t)) (\<lambda>_. ok ())) losers) (\<lambda>_.
        ok n))))"

definition recover :: "(pager, recovery_report) m" where
  "recover =
     andthen (gets (\<lambda>s. last_checkpoint_lsn (wal_hdr (inner (p_wal s))))) (\<lambda>chk_lsn.
     andthen (gets (\<lambda>s. read_all_records (inner (p_wal s)))) (\<lambda>all_records.
     let (dpt, att) = analysis chk_lsn all_records;
         start = min_rec_lsn chk_lsn dpt;
         losers = filter (\<lambda>t. t \<noteq> 0) (keys att)
     in
     andthen (redo_records dpt (filter (\<lambda>r. start \<le> rh_lsn (wr_header r)) all_records)) (\<lambda>redone.
     andthen (undo_losers losers) (\<lambda>undone.
     andthen (on_log wal_flush_all) (\<lambda>_.
     ok \<lparr>checkpoint_lsn = chk_lsn, redone_records = redone, undone_records = undone,
         active_txn_ids = sort losers\<rparr>)))))"

end
