(* ===== verification/Pager_Diff.thy ===== *)
theory Pager_Diff
  imports Pager
begin

text \<open>
  The difference of two page images, and what logging it does: the pages do not change, and the log
  grows by the update record that turns the old image into the new one.
\<close>

section \<open>The difference of two pages\<close>

lemma first_diff_spec:
  assumes "length old = length new"
  shows "first_diff i old new = Inr None \<and> old = new \<or>
    (\<exists>k < length old. first_diff i old new = Inr (Some (i + k)) \<and>
       take k old = take k new \<and> old ! k \<noteq> new ! k)"
  using assms
proof (induction old arbitrary: i new)
  case (Cons a as)
  then obtain b bs where new: "new = b # bs" by (cases new) auto
  show ?case
  proof (cases "a = b")
    case True
    from Cons.IH [of bs "i + 1"] Cons.prems new
    consider "first_diff (i + 1) as bs = Inr None" "as = bs"
      | k where "k < length as" "first_diff (i + 1) as bs = Inr (Some (i + 1 + k))"
        "take k as = take k bs" "as ! k \<noteq> bs ! k"
      by auto
    then show ?thesis
    proof cases
      case 1
      then show ?thesis using True new by simp
    next
      case (2 k)
      then show ?thesis using True new by (intro disjI2 exI [of _ "Suc k"]) simp
    qed
  qed (use new in auto)
qed simp

lemma last_diff_spec:
  assumes "length old = length new" and "start < n" and "n \<le> length old" and "old ! start \<noteq> new ! start"
    and "drop n old = drop n new"
  shows "\<exists>e. last_diff old new start n = Inr e \<and> start < e \<and> e \<le> n \<and> drop e old = drop e new \<and>
    old ! (e - 1) \<noteq> new ! (e - 1)"
  using assms(2-)
proof (induction n)
  case (Suc i)
  show ?case
  proof (cases "old ! i = new ! i")
    case True
    then have "start < i" using Suc.prems by (cases "start = i") auto
    moreover have "drop i old = drop i new"
      using Suc.prems True assms(1) by (metis Cons_nth_drop_Suc Suc_le_eq)
    ultimately show ?thesis using Suc True assms(1) by fastforce
  next
    case False
    then show ?thesis using Suc.prems assms(1) by auto
  qed
qed simp

lemma page_diff_cases:
  assumes "length old = length new" and "length old < 65536"
  obtains (same) "page_diff old new = Inr None" "old = new"
  | (range) s e where "page_diff old new = Inr (Some (of_nat s, s, e))" "s < e" "e \<le> length old"
      "unat (of_nat s :: u16) = s" "old ! s \<noteq> new ! s" "old ! (e - 1) \<noteq> new ! (e - 1)"
      "take s old = take s new" "drop e old = drop e new"
proof -
  from first_diff_spec [OF assms(1), of 0]
  consider "first_diff 0 old new = Inr None" "old = new"
    | s where "s < length old" "first_diff 0 old new = Inr (Some s)" "take s old = take s new"
      "old ! s \<noteq> new ! s"
    by auto
  then show ?thesis
  proof cases
    case 1
    then show ?thesis by (intro same) (simp_all add: page_diff_def)
  next
    case (2 s)
    obtain e where "last_diff old new s (length old) = Inr e" "s < e" "e \<le> length old"
      "drop e old = drop e new" "old ! (e - 1) \<noteq> new ! (e - 1)"
      using last_diff_spec [OF assms(1), of s "length old"] 2 assms(1) by auto
    then show ?thesis
      using 2 assms(2) by (intro range [of s e]) (simp_all add: page_diff_def unat_u16)
  qed
qed

lemma write_difference:
  fixes old new :: "'a list"
  assumes "length old = length new" and "s < e" and "e \<le> length old"
    and "take s old = take s new" and "drop e old = drop e new"
  shows "write_at s (slice new s e) old = new" and "write_at s (slice old s e) new = old"
proof -
  have parts: "take s xs @ slice xs s e @ drop e xs = xs" for xs :: "'a list"
  proof -
    have "slice xs s e @ drop e xs = drop s xs"
      using assms(2) append_take_drop_id [of "e - s" "drop s xs"] by (simp add: slice_def)
    then show ?thesis by simp
  qed
  have "write_at s (slice new s e) old = take s new @ slice new s e @ drop e new"
    "write_at s (slice old s e) new = take s old @ slice old s e @ drop e old"
    using assms by (simp_all add: write_at_def)
  then show "write_at s (slice new s e) old = new" "write_at s (slice old s e) new = old"
    by (simp_all only: parts)
qed


section \<open>Logging\<close>

text \<open>The state of a pager between two calls.\<close>

definition pager_good :: "pager \<Rightarrow> bool" where
  "pager_good s \<longleftrightarrow> store_good 4096 (p_index s, p_wal s) \<and> store_good 8192 (p_heap s, p_wal s)"

definition p_index_view :: "pager \<Rightarrow> u64 \<Rightarrow> bytes option" where
  "p_index_view s = store_view 4096 (p_index s)"

definition p_heap_view :: "pager \<Rightarrow> u64 \<Rightarrow> bytes option" where
  "p_heap_view s = store_view 8192 (p_heap s)"

text \<open>Room for \<open>n\<close> more records, each of which describes a change of at most one page.\<close>

definition wal_room :: "nat \<Rightarrow> wal \<Rightarrow> bool" where
  "wal_room n w \<longleftrightarrow>
     unat (last_wal_offset (wal_hdr (inner w))) + unat (last_wal_len (wal_hdr (inner w))) + n * 20000
       < 18446744073709551616 \<and>
     unat (next_lsn (wal_hdr (inner w))) + n < 18446744073709551616"

lemma wal_room_mono: "wal_room n w \<Longrightarrow> m \<le> n \<Longrightarrow> wal_room m w"
  using mult_le_mono1 [of m n 20000] unfolding wal_room_def by linarith

lemma wal_room_hdr: "wal_hdr (inner w') = wal_hdr (inner w) \<Longrightarrow> wal_room n w' = wal_room n w"
  by (simp add: wal_room_def)

lemma room_for_wal_room:
  assumes "wal_room (Suc n) w" and "k \<le> 19964"
  shows "room_for k (inner w)"
proof -
  have "next_lsn (wal_hdr (inner w)) \<noteq> - 1"
  proof
    assume "next_lsn (wal_hdr (inner w)) = - 1"
    then have "unat (next_lsn (wal_hdr (inner w))) = 18446744073709551615"
      by (simp add: unsigned_minus_1_eq_mask mask_eq_exp_minus_1)
    then show False using assms(1) by (simp add: wal_room_def)
  qed
  then show ?thesis using assms by (simp add: wal_room_def room_for_def)
qed

text \<open>One more record has been appended.\<close>

definition log_grows :: "wal_record list \<Rightarrow> wal \<Rightarrow> wal \<Rightarrow> bool" where
  "log_grows new w w' \<longleftrightarrow> (\<forall>rs. wal_holds w rs \<longrightarrow> wal_holds w' (rs @ new)) \<and>
     (\<forall>n. wal_room (n + length new) w \<longrightarrow> wal_room n w')"

lemma log_same_grows: "log_same w w' \<Longrightarrow> log_grows [] w w'"
  using wal_room_hdr [of w' w] by (simp add: log_same_def log_grows_def)

lemma log_grows_trans:
  assumes "log_grows a u v" and "log_grows b v w"
  shows "log_grows (a @ b) u w"
  unfolding log_grows_def
proof (intro conjI allI impI)
  fix rs assume "wal_holds u rs"
  then have "wal_holds v (rs @ a)" using assms(1) by (simp add: log_grows_def)
  then have "wal_holds w ((rs @ a) @ b)" using assms(2) unfolding log_grows_def by blast
  then show "wal_holds w (rs @ a @ b)" by simp
next
  fix n assume "wal_room (n + length (a @ b)) u"
  then have "wal_room ((n + length b) + length a) u" by (simp add: add.commute add.left_commute)
  then have "wal_room (n + length b) v" using assms(1) unfolding log_grows_def by blast
  then show "wal_room n w" using assms(2) unfolding log_grows_def by blast
qed

lemma write_record_grows:
  assumes holds: "wal_holds w rs" and room: "wal_room (Suc n) w"
    and len: "length (undo_data u) \<le> 8192" "length (redo_data u) \<le> 8192"
  shows "\<exists>w' r. with_inner (write_record t Update pid ix u) w = (Inr (lsn_of r), w') \<and>
    r = new_record (inner w) t Update pid ix (offset_in_page u) (update_payload_serialize u []) \<and>
    log_grows [r] w w' \<and> wal_holds w' (rs @ [r])"
proof -
  define r where "r = new_record (inner w) t Update pid ix (offset_in_page u) (update_payload_serialize u [])"
  let ?p = "update_payload_serialize u []"
  have pl: "length ?p \<le> 16388" using len by (simp add: update_payload_serialize_def)
  have rf: "room_for (length ?p) (inner w)" using room by (rule room_for_wal_room) (use pl in simp)
  have run: "\<exists>i' d' p'. write_record t Update pid ix u (inner w) = (Inr (lsn_of r), i') \<and>
      wal_rep i' d' (p' @ [r]) \<and> d' @ p' = done @ pend \<and>
      next_lsn (wal_hdr i') = next_lsn (wal_hdr (inner w)) + 1"
    if "wal_rep (inner w) done pend" for "done" pend
    using write_record_rep [OF that rf r_def] by blast
  obtain "done" pend where rep: "wal_rep (inner w) done pend" "rs = done @ pend"
    using holds by (auto simp: wal_holds_def)
  obtain i' d' p' where i': "write_record t Update pid ix u (inner w) = (Inr (lsn_of r), i')"
    "wal_rep i' d' (p' @ [r])" "d' @ p' = done @ pend"
    "next_lsn (wal_hdr i') = next_lsn (wal_hdr (inner w)) + 1"
    using run [OF rep(1)] by blast
  let ?w' = "w\<lparr>inner := i', pub_flushed_lsn := flushed_lsn i'\<rparr>"
  have hol: "wal_holds ?w' (qs @ [r])" if h: "wal_holds w qs" for qs
  proof -
    obtain d p where dp: "wal_rep (inner w) d p" "qs = d @ p" using h by (auto simp: wal_holds_def)
    obtain d2 p2 where "wal_rep i' d2 (p2 @ [r])" "d2 @ p2 = d @ p"
      using run [OF dp(1)] i'(1) by auto
    then show ?thesis
      unfolding wal_holds_def by (intro exI [of _ d2] exI [of _ "p2 @ [r]"]) (simp add: dp(2))
  qed
  have "wal_room k ?w'" if "wal_room (k + 1) w" for k
  proof -
    have tot: "unat (last_wal_offset (wal_hdr i)) + unat (last_wal_len (wal_hdr i)) =
        28 + length (records_bytes (d @ p))" if "wal_rep i d p" for i d p
      using that last_off_len [of "d @ p"] by (simp add: wal_rep_def points_at_def)
    have "length (records_bytes (d' @ p' @ [r])) = length (records_bytes (done @ pend)) + 36 + length ?p"
      by (simp add: append_assoc [symmetric] i'(3) r_def del: append_assoc)
    moreover have "unat (next_lsn (wal_hdr i')) = unat (next_lsn (wal_hdr (inner w))) + 1"
      unfolding i'(4) using room unat_u64_add [of _ "1 :: u64"] by (simp add: wal_room_def)
    ultimately show ?thesis
      using that tot [OF i'(2)] tot [OF rep(1)] pl by (simp add: wal_room_def)
  qed
  then have "log_grows [r] w ?w'" using hol by (simp add: log_grows_def)
  moreover have "with_inner (write_record t Update pid ix u) w = (Inr (lsn_of r), ?w')"
    by (simp add: with_inner_def i'(1))
  ultimately show ?thesis using r_def hol [OF holds] by blast
qed

text \<open>Setting the LSN of a cached page marks it dirty and leaves what it shows.\<close>

lemma update_lsn_store:
  assumes "store_ok sz st"
  shows "store_ok sz (st\<lparr>pf_pool := update_lsn i l (pf_pool st)\<rparr>)"
    and "store_view sz (st\<lparr>pf_pool := update_lsn i l (pf_pool st)\<rparr>) = store_view sz st"
proof -
  let ?b = "pf_pool st" and ?b' = "update_lsn i l (pf_pool st)"
  have c: "cached ?b' = cached ?b"
    by (auto simp: update_lsn_def cached_def fun_eq_iff)
  moreover have "is_dirty j ?b' \<longleftrightarrow> is_dirty j ?b \<or> (j = i \<and> cached ?b i \<noteq> None)" for j
    by (auto simp: update_lsn_def cached_def)
  moreover have "\<not> pinned ?b' j" for j
    using assms by (auto simp: update_lsn_def pinned_def store_ok_def)
  moreover have "max_frames ?b' = max_frames ?b" by (simp add: update_lsn_def)
  ultimately show "store_ok sz (st\<lparr>pf_pool := ?b'\<rparr>)"
    using assms by (auto simp: store_ok_def coherent_def pool_inv_update_lsn)
  show "store_view sz (st\<lparr>pf_pool := ?b'\<rparr>) = store_view sz st"
    by (simp add: store_view_def c)
qed


text \<open>The record \<open>r\<close> describes the change of page \<open>i\<close> from \<open>old\<close> to \<open>new\<close> by transaction \<open>t\<close>.\<close>

definition update_of :: "bool \<Rightarrow> u64 \<Rightarrow> u64 \<Rightarrow> bytes \<Rightarrow> bytes \<Rightarrow> wal_record \<Rightarrow> bool" where
  "update_of ix t i old new r \<longleftrightarrow>
     rh_record_type (wr_header r) = Update \<and> rh_txn_id (wr_header r) = t \<and>
     page_key r = (ix, i) \<and>
     (\<exists>off undo redo. parse_update r = Some (off, undo, redo) \<and> length undo = length redo \<and>
        unat off + length redo \<le> length old \<and>
        write_at (unat off) redo old = new \<and> write_at (unat off) undo new = old)"

lemma new_update_record:
  assumes d: "s < e" "e \<le> length old" "unat (of_nat s :: u16) = s" "length old = length new"
      "length old \<le> 8192" "take s old = take s new" "drop e old = drop e new"
    and r: "r = new_record w t Update i ix (offset_in_page u) (update_payload_serialize u [])"
    and u: "u = \<lparr>offset_in_page = of_nat s, undo_data = slice old s e, redo_data = slice new s e\<rparr>"
  shows "update_of ix t i old new r"
proof -
  have l: "length (slice old s e) = e - s" "length (slice new s e) = e - s"
    using d by simp_all
  have "parse_update r = Some (of_nat s, slice old s e, slice new s e)"
    using parse_update_serialize [of r u] d l by (simp add: r u new_record_def)
  then show ?thesis
    using write_difference [OF d(4,1,2,6,7)] d(3) l d(1,2)
    by (simp add: update_of_def r new_record_def page_key_def)
qed

lemma on_log_run: "with_inner p (p_wal s) = (r, w) \<Longrightarrow> on_log p s = (r, s\<lparr>p_wal := w\<rparr>)"
  by (simp add: on_log_def)

lemma on_index_modify_run [run_simps]:
  "on_index (modify_pool f) s = (Inr (), s\<lparr>p_index := (p_index s)\<lparr>pf_pool := f (pf_pool (p_index s))\<rparr>\<rparr>)"
  by (cases s) (simp add: on_index_def modify_pool_run)

lemma on_heap_modify_run [run_simps]:
  "on_heap (modify_pool f) s = (Inr (), s\<lparr>p_heap := (p_heap s)\<lparr>pf_pool := f (pf_pool (p_heap s))\<rparr>\<rparr>)"
  by (cases s) (simp add: on_heap_def modify_pool_run)

lemma wal_holds_good:
  "pager_good s \<Longrightarrow> \<exists>rs. wal_holds (p_wal s) rs"
  by (auto simp: pager_good_def store_good_def)

text \<open>What does not change when a page change is logged.\<close>

definition logged :: "wal_record list \<Rightarrow> pager \<Rightarrow> pager \<Rightarrow> bool" where
  "logged rs s s' \<longleftrightarrow> pager_good s' \<and> p_index_view s' = p_index_view s \<and>
     p_heap_view s' = p_heap_view s \<and> pf_next_id (p_index s') = pf_next_id (p_index s) \<and>
     pf_next_id (p_heap s') = pf_next_id (p_heap s) \<and> log_grows rs (p_wal s) (p_wal s')"

lemma log_index_diff_run:
  assumes good: "pager_good s" and room: "wal_room (Suc n) (p_wal s)"
    and len: "length old = 4096" "length new = 4096"
  shows "\<exists>s' r rs. log_index_diff t i old new s = (Inr r, s') \<and> logged rs s s' \<and>
    (if old = new then r = None \<and> rs = [] else \<exists>rec. r = Some (lsn_of rec) \<and> rs = [rec] \<and>
      update_of True t i old new rec)"
proof -
  obtain rs where rs: "wal_holds (p_wal s) rs" using wal_holds_good [OF good] by blast
  have l: "length old = length new" "length old < 65536" using len by simp_all
  from l show ?thesis
  proof (cases rule: page_diff_cases)
    case same
    then show ?thesis
      using good rs by (intro exI [of _ s] exI [of _ None] exI [of _ "[]"])
        (simp add: log_index_diff_def andthen_def run_simps logged_def log_same_grows)
  next
    case (range a b)
    have ne: "old \<noteq> new" using range by auto
    let ?u = "\<lparr>offset_in_page = of_nat a, undo_data = slice old a b, redo_data = slice new a b\<rparr>"
    have lu: "length (undo_data ?u) \<le> 8192" "length (redo_data ?u) \<le> 8192"
      using range len by simp_all
    obtain w' r where w': "with_inner (write_record t Update i True ?u) (p_wal s) = (Inr (lsn_of r), w')"
      "r = new_record (inner (p_wal s)) t Update i True (offset_in_page ?u) (update_payload_serialize ?u [])"
      "log_grows [r] (p_wal s) w'" "wal_holds w' (rs @ [r])"
      using write_record_grows [OF rs room lu] by blast
    let ?st = "(p_index s)\<lparr>pf_pool := update_lsn i (lsn_of r) (pf_pool (p_index s))\<rparr>"
    have ok: "store_ok 4096 (p_index s)" using good by (simp add: pager_good_def store_good_def)
    have run: "log_index_diff t i old new s = (Inr (Some (lsn_of r)), s\<lparr>p_wal := w', p_index := ?st\<rparr>)"
      using range len on_log_run [OF w'(1)]
      by (simp add: log_index_diff_def log_index_update_def andthen_def run_simps)
    have upd: "update_of True t i old new r"
      by (rule new_update_record [OF range(2,3,4) l(1) _ range(7,8) w'(2) refl]) (simp add: len)
    have "logged [r] s (s\<lparr>p_wal := w', p_index := ?st\<rparr>)"
      using good update_lsn_store [OF ok] w'(3,4)
      by (auto simp: logged_def pager_good_def store_good_def p_index_view_def p_heap_view_def)
    then show ?thesis using run upd ne by auto
  qed
qed

lemma log_heap_diff_run:
  assumes good: "pager_good s" and room: "wal_room (Suc n) (p_wal s)"
    and len: "length old = 8192" "length new = 8192"
  shows "\<exists>s' r rs. log_heap_diff t i old new s = (Inr r, s') \<and> logged rs s s' \<and>
    (if old = new then r = None \<and> rs = [] else \<exists>rec. r = Some (lsn_of rec) \<and> rs = [rec] \<and>
      update_of False t i old new rec)"
proof -
  obtain rs where rs: "wal_holds (p_wal s) rs" using wal_holds_good [OF good] by blast
  have l: "length old = length new" "length old < 65536" using len by simp_all
  from l show ?thesis
  proof (cases rule: page_diff_cases)
    case same
    then show ?thesis
      using good rs by (intro exI [of _ s] exI [of _ None] exI [of _ "[]"])
        (simp add: log_heap_diff_def andthen_def run_simps logged_def log_same_grows)
  next
    case (range a b)
    have ne: "old \<noteq> new" using range by auto
    let ?u = "\<lparr>offset_in_page = of_nat a, undo_data = slice old a b, redo_data = slice new a b\<rparr>"
    have lu: "length (undo_data ?u) \<le> 8192" "length (redo_data ?u) \<le> 8192"
      using range len by simp_all
    obtain w' r where w': "with_inner (write_record t Update i False ?u) (p_wal s) = (Inr (lsn_of r), w')"
      "r = new_record (inner (p_wal s)) t Update i False (offset_in_page ?u) (update_payload_serialize ?u [])"
      "log_grows [r] (p_wal s) w'" "wal_holds w' (rs @ [r])"
      using write_record_grows [OF rs room lu] by blast
    let ?st = "(p_heap s)\<lparr>pf_pool := update_lsn i (lsn_of r) (pf_pool (p_heap s))\<rparr>"
    have ok: "store_ok 8192 (p_heap s)" using good by (simp add: pager_good_def store_good_def)
    have run: "log_heap_diff t i old new s = (Inr (Some (lsn_of r)), s\<lparr>p_wal := w', p_heap := ?st\<rparr>)"
      using range len on_log_run [OF w'(1)]
      by (simp add: log_heap_diff_def log_heap_update_def andthen_def run_simps)
    have upd: "update_of False t i old new r"
      by (rule new_update_record [OF range(2,3,4) l(1) _ range(7,8) w'(2) refl]) (simp add: len)
    have "logged [r] s (s\<lparr>p_wal := w', p_heap := ?st\<rparr>)"
      using good update_lsn_store [OF ok] w'(3,4)
      by (auto simp: logged_def pager_good_def store_good_def p_index_view_def p_heap_view_def)
    then show ?thesis using run upd ne by auto
  qed
qed

end
