(* ===== verification/Replay.thy ===== *)
theory Replay
  imports Pager_Diff
begin

text \<open>
  Replaying byte ranges, without files, caches and errors: the specification of the redo and undo
  passes. \<open>replay\<close> applies patches to total page contents; it does not matter from which
  intermediate state a replay starts, and undo images applied backwards take a replay back.
\<close>

section \<open>Patches of one page\<close>

type_synonym range = "nat \<times> bytes"

definition put :: "range \<Rightarrow> bytes \<Rightarrow> bytes" where
  "put = (\<lambda>(off, bs) p. write_at off bs p)"

definition covers :: "range \<Rightarrow> nat \<Rightarrow> bool" where
  "covers = (\<lambda>(off, bs) x. off \<le> x \<and> x < off + length bs)"

definition in_page :: "nat \<Rightarrow> range \<Rightarrow> bool" where
  "in_page n = (\<lambda>(off, bs). off + length bs \<le> n)"

lemma length_put [simp]: "in_page (length p) a \<Longrightarrow> length (put a p) = length p"
  by (cases a) (simp add: put_def in_page_def)

lemma length_puts: "\<forall>a \<in> set as. in_page (length p) a \<Longrightarrow> length (fold put as p) = length p"
  by (induction as arbitrary: p) simp_all

lemma nth_put:
  "in_page (length p) a \<Longrightarrow> x < length p \<Longrightarrow>
   put a p ! x = (if covers a x then snd a ! (x - fst a) else p ! x)"
  by (cases a) (auto simp: put_def in_page_def covers_def nth_write_at)

lemma puts_agree:
  assumes "\<forall>a \<in> set as. in_page n a" and "length p = n" and "length q = n" and "x < n"
    and "p ! x = q ! x \<or> (\<exists>a \<in> set as. covers a x)"
  shows "fold put as p ! x = fold put as q ! x"
  using assms
proof (induction as arbitrary: p q)
  case (Cons a as)
  have "length (put a p) = n" "length (put a q) = n" using Cons.prems by simp_all
  moreover have "put a p ! x = put a q ! x \<or> (\<exists>a \<in> set as. covers a x)"
    using Cons.prems by (auto simp: nth_put)
  ultimately show ?case using Cons by simp
qed simp

lemma puts_outside:
  assumes "\<forall>a \<in> set as. in_page (length p) a" and "x < length p" and "\<forall>a \<in> set as. \<not> covers a x"
  shows "fold put as p ! x = p ! x"
  using assms by (induction as arbitrary: p) (simp_all add: nth_put)

text \<open>A page that already has some of the changes comes out the same.\<close>

lemma puts_from_stale:
  assumes n: "\<forall>a \<in> set as. in_page (length p) a" and sub: "set bs \<subseteq> set as"
  shows "fold put as (fold put bs p) = fold put as p"
proof (rule nth_equalityI)
  have bs: "\<forall>a \<in> set bs. in_page (length p) a" using n sub by blast
  note l = length_puts [OF bs]
  have as': "\<forall>a \<in> set as. in_page (length (fold put bs p)) a" using n l by simp
  show "length (fold put as (fold put bs p)) = length (fold put as p)"
    using length_puts [OF as'] length_puts [OF n] l by simp
  fix x assume "x < length (fold put as (fold put bs p))"
  then have x: "x < length p" using length_puts [OF as'] l by simp
  show "fold put as (fold put bs p) ! x = fold put as p ! x"
    using n l x puts_outside [OF bs x] sub
    by (intro puts_agree [where n = "length p"]) auto
qed


section \<open>Replaying a log\<close>

type_synonym contents = "bool \<times> u64 \<Rightarrow> bytes"

definition page_size :: "bool \<Rightarrow> nat" where
  "page_size ix = (if ix then 4096 else 8192)"

text \<open>A change: the page, and the byte range it gets.\<close>

type_synonym change = "(bool \<times> u64) \<times> range"

definition apply_change :: "change \<Rightarrow> contents \<Rightarrow> contents" where
  "apply_change = (\<lambda>(k, a) c. c(k := put a (c k)))"

definition replay :: "change list \<Rightarrow> contents \<Rightarrow> contents" where
  "replay cs c = fold apply_change cs c"

definition on_page :: "bool \<times> u64 \<Rightarrow> change list \<Rightarrow> range list" where
  "on_page k cs = map snd (filter (\<lambda>c. fst c = k) cs)"

lemma replay_simps [simp]:
  "replay [] c = c" "replay (x # cs) c = replay cs (apply_change x c)"
  "replay (cs @ ds) c = replay ds (replay cs c)"
  by (simp_all add: replay_def)

lemma replay_page: "replay cs c k = fold put (on_page k cs) (c k)"
  by (induction cs arbitrary: c) (auto simp: on_page_def apply_change_def)

definition sized :: "contents \<Rightarrow> bool" where
  "sized c \<longleftrightarrow> (\<forall>k. length (c k) = page_size (fst k))"

definition change_ok :: "change \<Rightarrow> bool" where
  "change_ok = (\<lambda>(k, a). in_page (page_size (fst k)) a)"

lemma on_page_ok: "\<forall>x \<in> set cs. change_ok x \<Longrightarrow> a \<in> set (on_page k cs) \<Longrightarrow> in_page (page_size (fst k)) a"
  by (auto simp: on_page_def change_ok_def)

lemma sizedD: "sized c \<Longrightarrow> length (c k) = page_size (fst k)"
  unfolding sized_def by blast

lemma sized_replay:
  assumes "sized c" and "\<forall>x \<in> set cs. change_ok x"
  shows "sized (replay cs c)"
  unfolding sized_def
proof
  fix k
  have "\<forall>a \<in> set (on_page k cs). in_page (length (c k)) a"
    using on_page_ok [OF assms(2)] by (simp add: sizedD [OF assms(1)])
  then show "length (replay cs c k) = page_size (fst k)"
    by (simp add: replay_page length_puts sizedD [OF assms(1)])
qed

text \<open>
  A crash leaves every page at the state of some earlier point of the log, different pages at
  different points; replaying the whole log gives the same contents as if nothing had been written.
\<close>

definition stale :: "change list \<Rightarrow> contents \<Rightarrow> contents \<Rightarrow> bool" where
  "stale cs c0 c \<longleftrightarrow> (\<forall>k. \<exists>n. c k = replay (take n cs) c0 k)"

lemma replay_from_stale:
  assumes "sized c0" and "\<forall>x \<in> set cs. change_ok x" and "stale cs c0 c"
  shows "replay cs c = replay cs c0"
proof
  fix k
  obtain n where n: "c k = replay (take n cs) c0 k" using assms(3) unfolding stale_def by blast
  have sub: "set (on_page k (take n cs)) \<subseteq> set (on_page k cs)"
    using set_take_subset [of n cs] by (auto simp: on_page_def)
  have "\<forall>a \<in> set (on_page k cs). in_page (length (c0 k)) a"
    using on_page_ok [OF assms(2)] by (simp add: sizedD [OF assms(1)])
  then show "replay cs c k = replay cs c0 k"
    unfolding replay_page n using puts_from_stale sub by (simp add: replay_page)
qed

lemma replay_idempotent:
  assumes "sized c" and "\<forall>x \<in> set cs. change_ok x"
  shows "replay cs (replay cs c) = replay cs c"
  by (rule replay_from_stale [OF assms]) (auto simp: stale_def intro: exI [of _ "length cs"])


section \<open>Undoing\<close>

text \<open>A list of changes with their undo images, each taken from the contents it changes.\<close>

fun undoable :: "(change \<times> range) list \<Rightarrow> contents \<Rightarrow> bool" where
  "undoable [] c = True"
| "undoable (((k, a), u) # cs) c \<longleftrightarrow> put u (put a (c k)) = c k \<and> undoable cs (apply_change (k, a) c)"

lemma undo_replay:
  assumes "undoable cs c"
  shows "replay (map (\<lambda>((k, a), u). (k, u)) (rev cs)) (replay (map fst cs) c) = c"
  using assms
proof (induction cs arbitrary: c)
  case (Cons x cs)
  obtain k a u where x: "x = ((k, a), u)" by (metis surj_pair)
  have "undoable cs (apply_change (k, a) c)" and u: "put u (put a (c k)) = c k"
    using Cons.prems by (simp_all add: x)
  from Cons.IH [OF this(1)]
  have "replay (map (\<lambda>((k, a), u). (k, u)) (rev cs)) (replay (map fst cs) (apply_change (k, a) c)) =
      apply_change (k, a) c" .
  then show ?case using u by (auto simp: x apply_change_def fun_eq_iff)
qed simp

end
