(* ===== verification/Recovery.thy ===== *)
theory Recovery
  imports Replay
begin

text \<open>
  Recovery on files and caches does what replaying does on contents: the redo pass of \<open>recover\<close>
  applies the redo images of the log, the undo pass the undo images of the losers backwards.
\<close>

section \<open>Contents\<close>

definition p_view :: "pager \<Rightarrow> bool \<times> u64 \<Rightarrow> bytes option" where
  "p_view s = (\<lambda>(ix, i). if ix then p_index_view s i else p_heap_view s i)"

text \<open>A page that does not exist yet counts as a page of zeros, which is what it is created as.\<close>

definition contents :: "pager \<Rightarrow> contents" where
  "contents s = (\<lambda>k. case p_view s k of Some p \<Rightarrow> p | None \<Rightarrow> replicate (page_size (fst k)) 0)"

lemma store_view_length:
  assumes "store_ok sz st" and "store_view sz st i = Some p"
  shows "length p = sz"
  using store_view_Some [OF assms(1) store_view_bound [OF assms]] assms(2) by auto

lemma sized_contents: "pager_good s \<Longrightarrow> sized (contents s)"
  unfolding sized_def
proof
  fix k assume "pager_good s"
  then have "store_ok 4096 (p_index s)" "store_ok 8192 (p_heap s)"
    by (simp_all add: pager_good_def store_good_def)
  then show "length (contents s k) = page_size (fst k)"
    by (cases k) (auto simp: contents_def p_view_def page_size_def p_index_view_def p_heap_view_def
        store_view_length split: option.splits)
qed


section \<open>Growing a file\<close>

definition zero_filled :: "nat \<Rightarrow> page_store \<Rightarrow> u64 \<Rightarrow> bytes" where
  "zero_filled sz st i = (case store_view sz st i of Some p \<Rightarrow> p | None \<Rightarrow> replicate sz 0)"

lemma disk_page_grow:
  assumes "length f = n * sz" and "n \<le> m" and "0 < sz"
  shows "disk_page sz (set_len (m * sz) f) j =
    (if unat j < n then disk_page sz f j else if unat j < m then Some (replicate sz 0) else None)"
proof -
  have le: "(unat j + 1) * sz \<le> k * sz \<longleftrightarrow> unat j < k" for k
    using assms(3) by (simp only: mult_le_cancel2) auto
  have nm: "n * sz \<le> m * sz" using assms(2) by simp
  consider "unat j < n" | "n \<le> unat j" "unat j < m" | "m \<le> unat j" by linarith
  then show ?thesis
  proof cases
    case 1
    then have "(unat j + 1) * sz \<le> n * sz" "(unat j + 1) * sz \<le> m * sz"
      using assms(2) by (simp_all only: le)
    then show ?thesis
      using 1 assms(1) unfolding disk_page_def length_set_len by (simp only: if_True slice_set_len)
  next
    case 2
    then have "(unat j + 1) * sz \<le> m * sz" "n * sz \<le> unat j * sz" by (simp_all only: le mult_le_mono1)
    then have "disk_page sz (set_len (m * sz) f) j = Some (slice (set_len (m * sz) f) (unat j * sz) ((unat j + 1) * sz))"
      "slice (set_len (m * sz) f) (unat j * sz) ((unat j + 1) * sz) = replicate ((unat j + 1) * sz - unat j * sz) 0"
      using assms(1) by (simp_all only: disk_page_def length_set_len if_True) (rule slice_set_len_beyond, simp_all)
    then show ?thesis using 2 by simp
  next
    case 3
    then have "\<not> (unat j + 1) * sz \<le> m * sz" by (simp only: le)
    then show ?thesis using 3 assms(2) unfolding disk_page_def length_set_len by simp
  qed
qed

lemma grow_store_run:
  assumes good: "store_good sz (st, w)" and room: "(unat i + 1) * sz < 18446744073709551616"
  shows "\<exists>st'. grow_store sz i (st, w) = (Inr (), (st', w)) \<and> store_good sz (st', w) \<and>
    zero_filled sz st' = zero_filled sz st \<and> i < pf_next_id st' \<and> pf_next_id st \<le> pf_next_id st'"
proof -
  let ?n = "pf_next_id st" and ?b = "pf_pool st" and ?f = "pf_file st"
  have ok: "store_ok sz st" using good by (simp add: store_good_def)
  have sz: "0 < sz" and lf: "length ?f = unat ?n * sz"
    and bound: "\<And>j p. cached ?b j = Some p \<Longrightarrow> j < ?n \<and> length p = sz"
    and coh: "coherent (cached ?b) (\<lambda>i. is_dirty i ?b) (disk_page sz ?f)"
    using ok unfolding store_ok_def by blast+
  have szl: "sz < 18446744073709551616" using room by (cases "unat i") auto
  have i1: "unat (i + 1) = unat i + 1"
  proof -
    have "unat i + 1 < 18446744073709551616"
      using room sz mult_le_mono2 [of 1 sz "unat i + 1"] by simp
    then show ?thesis using unat_u64_add [of i 1] by simp
  qed
  have req: "unat ((i + 1) * of_nat sz) = (unat i + 1) * sz"
    using page_offset_exact [of "i + 1" sz] room szl by (simp add: i1 page_offset_def)
  show ?thesis
  proof (cases "i < ?n")
    case True
    then have "\<not> length ?f < (unat i + 1) * sz"
      unfolding lf using mult_Suc_le [of "unat i" "unat ?n" sz] by (simp add: word_less_nat_alt not_less)
    then have "grow_store sz i (st, w) = (Inr (), (st, w))"
      using True by (simp add: grow_store_def modify_run Let_def req not_less [symmetric] del: not_less)
    then show ?thesis using good True by auto
  next
    case False
    then have ni: "unat ?n \<le> unat i" by (simp add: word_less_nat_alt)
    have lt: "length ?f < (unat i + 1) * sz"
      unfolding lf add_mult_distrib using sz mult_le_mono1 [OF ni, of sz] by linarith
    let ?f1 = "set_len ((unat i + 1) * sz) ?f"
    let ?st1 = "st\<lparr>pf_file := ?f1, pf_next_id := i + 1\<rparr>"
    have run: "grow_store sz i (st, w) = (Inr (), (?st1, w))"
      using lt False by (simp add: grow_store_def modify_run Let_def req)
    note disk = disk_page_grow [OF lf _ sz, of "unat i + 1"]
    have below: "disk_page sz ?f1 j = disk_page sz ?f j" if "j < ?n" for j
      using disk [of j] ni that by (simp add: word_less_nat_alt)
    have coh1: "coherent (cached ?b) (\<lambda>i. is_dirty i ?b) (disk_page sz ?f1)"
      using coh bound below unfolding coherent_def by metis
    have le: "j < i + 1" if "j < ?n" for j
      using that ni i1 by (simp add: word_less_nat_alt)
    have "store_ok sz ?st1"
      using ok coh1 room bound le i1 unfolding store_ok_def by auto
    moreover have "zero_filled sz ?st1 j = zero_filled sz st j" for j
    proof (cases "cached ?b j")
      case None
      have old: "disk_page sz ?f j = None" if "\<not> unat j < unat ?n"
      proof -
        have "\<not> (unat j + 1) * sz \<le> unat ?n * sz" using that sz by (simp only: mult_le_cancel2) auto
        then show ?thesis by (simp add: disk_page_def lf)
      qed
      show ?thesis
        using None disk [of j] ni old
        by (auto simp: zero_filled_def store_view_def view_def)
    qed (simp add: zero_filled_def store_view_def view_def)
    moreover have "i < i + 1" "?n \<le> i + 1" using i1 ni by (simp_all add: word_less_nat_alt word_le_nat_alt)
    ultimately show ?thesis
      using run good by (auto simp: store_good_def fun_eq_iff)
  qed
qed


lemma contents_zero_filled:
  "contents s (True, i) = zero_filled 4096 (p_index s) i"
  "contents s (False, i) = zero_filled 8192 (p_heap s) i"
  by (auto simp: contents_def zero_filled_def p_view_def p_index_view_def p_heap_view_def page_size_def
      split: option.splits)

lemma contents_eqI:
  assumes "\<And>i. c (True, i) = d (True, i)" and "\<And>i. c (False, i) = d (False, i)"
  shows "c = (d :: contents)"
  using assms by (auto simp: fun_eq_iff) (metis (full_types))

text \<open>A step in one of the two files, as seen from the pager.\<close>

lemma on_index_step:
  assumes "p (p_index s, p_wal s) = (r, (st, w))" and "pager_good s" and "store_good 4096 (st, w)"
    and "log_same (p_wal s) w"
  shows "on_index p s = (r, s\<lparr>p_index := st, p_wal := w\<rparr>)"
    and "pager_good (s\<lparr>p_index := st, p_wal := w\<rparr>)"
  using assms by (auto simp: on_index_def pager_good_def store_good_def log_same_def)

lemma on_heap_step:
  assumes "p (p_heap s, p_wal s) = (r, (st, w))" and "pager_good s" and "store_good 8192 (st, w)"
    and "log_same (p_wal s) w"
  shows "on_heap p s = (r, s\<lparr>p_heap := st, p_wal := w\<rparr>)"
    and "pager_good (s\<lparr>p_heap := st, p_wal := w\<rparr>)"
  using assms by (auto simp: on_heap_def pager_good_def store_good_def log_same_def)

lemma patch_run:
  assumes "unat off + length bs \<le> length p"
  shows "patch off bs p = (Inr (), put (unat off, bs) p)"
  using assms by (simp add: patch_def put_slice_run put_def)

text \<open>Growing the file, patching the page under a guard, and setting its LSN.\<close>

lemma redo_store:
  assumes good: "store_good sz (st, w)" and room: "(unat i + 1) * sz < 18446744073709551616"
    and fits: "unat off + length bs \<le> sz"
    and wp: "\<forall>st1 p p'. store_good sz (st1, w) \<and> store_view sz st1 i = Some p \<and>
      patch off bs p = (Inr (), p') \<and> length p' = sz \<longrightarrow>
      (\<exists>s'. wpage (st1, w) = (Inr (), s') \<and> changed sz i p' (st1, w) s')"
  shows "\<exists>st' w'. andthen (grow_store sz i) (\<lambda>_. andthen wpage (\<lambda>_. modify_pool (update_lsn i l))) (st, w) =
      (Inr (), (st', w')) \<and> store_good sz (st', w') \<and> log_same w w' \<and>
    zero_filled sz st' = (zero_filled sz st)(i := put (unat off, bs) (zero_filled sz st i)) \<and>
    i < pf_next_id st' \<and> pf_next_id st \<le> pf_next_id st'"
proof -
  obtain st1 where 1: "grow_store sz i (st, w) = (Inr (), (st1, w))" "store_good sz (st1, w)"
    "zero_filled sz st1 = zero_filled sz st" "i < pf_next_id st1" "pf_next_id st \<le> pf_next_id st1"
    using grow_store_run [OF good room] by blast
  have ok1: "store_ok sz st1" using 1(2) by (simp add: store_good_def)
  obtain p where p: "store_view sz st1 i = Some p" "length p = sz"
    using store_view_Some [OF ok1 1(4)] by blast
  have fp: "unat off + length bs \<le> length p" using fits p(2) by simp
  then have lp: "length (put (unat off, bs) p) = sz" using p(2) by (simp add: in_page_def)
  obtain st2 w2 where 2: "wpage (st1, w) = (Inr (), (st2, w2))"
    "changed sz i (put (unat off, bs) p) (st1, w) (st2, w2)"
    using wp 1(2) p(1) patch_run [OF fp] lp by fastforce
  have g2: "store_good sz (st2, w2)" and v2: "store_view sz st2 = (store_view sz st1)(i \<mapsto> put (unat off, bs) p)"
    and n2: "pf_next_id st2 = pf_next_id st1" and l2: "log_same w w2"
    using 2(2) by (auto simp: changed_def)
  let ?st3 = "st2\<lparr>pf_pool := update_lsn i l (pf_pool st2)\<rparr>"
  have ok2: "store_ok sz st2" using g2 by (simp add: store_good_def)
  note u = update_lsn_store [OF ok2, of i l]
  have "zero_filled sz ?st3 = (zero_filled sz st)(i := put (unat off, bs) (zero_filled sz st i))"
  proof -
    have "zero_filled sz st i = p" using fun_cong [OF 1(3), of i] p(1) by (simp add: zero_filled_def)
    moreover have "zero_filled sz st j = (case store_view sz st1 j of Some p \<Rightarrow> p | None \<Rightarrow> replicate sz 0)" for j
      using fun_cong [OF 1(3), of j] by (simp add: zero_filled_def)
    ultimately show ?thesis by (auto simp: fun_eq_iff zero_filled_def u(2) v2)
  qed
  moreover have "store_good sz (?st3, w2)" using u(1) g2 by (simp add: store_good_def)
  ultimately show ?thesis
    using 1 2(1) n2 l2 by (intro exI [of _ ?st3] exI [of _ w2]) (simp add: andthen_def run_simps)
qed

definition page_room :: "bool \<times> u64 \<Rightarrow> bool" where
  "page_room k \<longleftrightarrow> (unat (snd k) + 1) * page_size (fst k) < 18446744073709551616"

text \<open>Pages that exist stay.\<close>

definition keeps :: "pager \<Rightarrow> pager \<Rightarrow> bool" where
  "keeps s s' \<longleftrightarrow> (\<forall>k. p_view s k \<noteq> None \<longrightarrow> p_view s' k \<noteq> None)"

lemma store_present:
  assumes "store_ok sz st"
  shows "store_view sz st i \<noteq> None \<longleftrightarrow> i < pf_next_id st"
proof
  assume "store_view sz st i \<noteq> None"
  then obtain p where "store_view sz st i = Some p" by blast
  then show "i < pf_next_id st" by (rule store_view_bound [OF assms])
next
  assume "i < pf_next_id st"
  then show "store_view sz st i \<noteq> None" using store_view_Some [OF assms] by force
qed

lemma p_view_present:
  assumes "pager_good s"
  shows "p_view s (True, i) \<noteq> None \<longleftrightarrow> i < pf_next_id (p_index s)"
    and "p_view s (False, i) \<noteq> None \<longleftrightarrow> i < pf_next_id (p_heap s)"
proof -
  have "store_ok 4096 (p_index s)" "store_ok 8192 (p_heap s)"
    using assms by (simp_all add: pager_good_def store_good_def)
  then show "p_view s (True, i) \<noteq> None \<longleftrightarrow> i < pf_next_id (p_index s)"
    "p_view s (False, i) \<noteq> None \<longleftrightarrow> i < pf_next_id (p_heap s)"
    using store_present by (simp_all add: p_view_def p_index_view_def p_heap_view_def)
qed

lemma keepsI:
  assumes "pager_good s" and "pager_good s'" and "pf_next_id (p_index s) \<le> pf_next_id (p_index s')"
    and "pf_next_id (p_heap s) \<le> pf_next_id (p_heap s')"
  shows "keeps s s'"
  unfolding keeps_def
proof (intro allI impI)
  fix k assume k: "p_view s k \<noteq> None"
  obtain ix i where ki: "k = (ix, i)" by (cases k)
  show "p_view s' k \<noteq> None"
  proof (cases ix)
    case True
    have "i < pf_next_id (p_index s)" using k p_view_present(1) [OF assms(1), of i] ki True by simp
    then have "i < pf_next_id (p_index s')" using assms(3) by (rule less_le_trans)
    then show ?thesis using p_view_present(1) [OF assms(2), of i] ki True by simp
  next
    case False
    have "i < pf_next_id (p_heap s)" using k p_view_present(2) [OF assms(1), of i] ki False by simp
    then have "i < pf_next_id (p_heap s')" using assms(4) by (rule less_le_trans)
    then show ?thesis using p_view_present(2) [OF assms(2), of i] ki False by simp
  qed
qed

lemma redo_page_run:
  assumes good: "pager_good s" and room: "page_room (page_key r)"
    and fits: "unat off + length bs \<le> page_size (rh_is_index (wr_header r))"
  shows "\<exists>s'. redo_page r off bs s = (Inr (), s') \<and> pager_good s' \<and>
    contents s' = apply_change (page_key r, (unat off, bs)) (contents s) \<and>
    p_view s' (page_key r) \<noteq> None \<and> keeps s s' \<and> log_same (p_wal s) (p_wal s')"
proof -
  let ?i = "rh_page_id (wr_header r)" and ?l = "rh_lsn (wr_header r)"
  have gi: "store_good 4096 (p_index s, p_wal s)" and gh: "store_good 8192 (p_heap s, p_wal s)"
    using good by (simp_all add: pager_good_def)
  show ?thesis
  proof (cases "rh_is_index (wr_header r)")
    case True
    have wp: "\<forall>st1 p p'. store_good 4096 (st1, p_wal s) \<and> store_view 4096 st1 ?i = Some p \<and>
        patch off bs p = (Inr (), p') \<and> length p' = 4096 \<longrightarrow>
        (\<exists>s'. index_with_page ?i (patch off bs) (st1, p_wal s) = (Inr (), s') \<and>
          changed 4096 ?i p' (st1, p_wal s) s')"
      using index_with_page_run [where body = "patch off bs"] by simp
    have ri: "(unat ?i + 1) * 4096 < 18446744073709551616" and fi: "unat off + length bs \<le> 4096"
      using room fits True by (simp_all add: page_room_def page_key_def page_size_def)
    obtain st' w' where 1: "andthen (grow_store 4096 ?i) (\<lambda>_. andthen (index_with_page ?i (patch off bs))
        (\<lambda>_. modify_pool (update_lsn ?i ?l))) (p_index s, p_wal s) = (Inr (), (st', w'))"
      "store_good 4096 (st', w')" "log_same (p_wal s) w'"
      "zero_filled 4096 st' = (zero_filled 4096 (p_index s))(?i := put (unat off, bs) (zero_filled 4096 (p_index s) ?i))"
      "?i < pf_next_id st'" "pf_next_id (p_index s) \<le> pf_next_id st'"
      using redo_store [where l = ?l, OF gi ri fi wp] by blast
    let ?s' = "s\<lparr>p_index := st', p_wal := w'\<rparr>"
    note step = on_index_step [where p = "andthen (grow_store 4096 ?i) (\<lambda>_. andthen (index_with_page ?i
      (patch off bs)) (\<lambda>_. modify_pool (update_lsn ?i ?l)))", OF 1(1) good 1(2,3)]
    have "contents ?s' = apply_change (page_key r, (unat off, bs)) (contents s)"
      by (rule contents_eqI) (simp_all add: contents_zero_filled apply_change_def page_key_def True 1(4))
    moreover have "keeps s ?s'" by (rule keepsI [OF good step(2)]) (simp_all add: 1(6))
    ultimately show ?thesis
      using step 1(3,5) p_view_present(1) [OF step(2), of ?i] True
      by (intro exI [of _ ?s']) (simp add: redo_page_def page_key_def Let_def)
  next
    case False
    have wp: "\<forall>st1 p p'. store_good 8192 (st1, p_wal s) \<and> store_view 8192 st1 ?i = Some p \<and>
        patch off bs p = (Inr (), p') \<and> length p' = 8192 \<longrightarrow>
        (\<exists>s'. heap_with_page ?i (patch off bs) (st1, p_wal s) = (Inr (), s') \<and>
          changed 8192 ?i p' (st1, p_wal s) s')"
      using heap_with_page_run(1) [where body = "patch off bs"] by simp
    have ri: "(unat ?i + 1) * 8192 < 18446744073709551616" and fi: "unat off + length bs \<le> 8192"
      using room fits False by (simp_all add: page_room_def page_key_def page_size_def)
    obtain st' w' where 1: "andthen (grow_store 8192 ?i) (\<lambda>_. andthen (heap_with_page ?i (patch off bs))
        (\<lambda>_. modify_pool (update_lsn ?i ?l))) (p_heap s, p_wal s) = (Inr (), (st', w'))"
      "store_good 8192 (st', w')" "log_same (p_wal s) w'"
      "zero_filled 8192 st' = (zero_filled 8192 (p_heap s))(?i := put (unat off, bs) (zero_filled 8192 (p_heap s) ?i))"
      "?i < pf_next_id st'" "pf_next_id (p_heap s) \<le> pf_next_id st'"
      using redo_store [where l = ?l, OF gh ri fi wp] by blast
    let ?s' = "s\<lparr>p_heap := st', p_wal := w'\<rparr>"
    note step = on_heap_step [where p = "andthen (grow_store 8192 ?i) (\<lambda>_. andthen (heap_with_page ?i
      (patch off bs)) (\<lambda>_. modify_pool (update_lsn ?i ?l)))", OF 1(1) good 1(2,3)]
    have "contents ?s' = apply_change (page_key r, (unat off, bs)) (contents s)"
      by (rule contents_eqI) (simp_all add: contents_zero_filled apply_change_def page_key_def False 1(4))
    moreover have "keeps s ?s'" by (rule keepsI [OF good step(2)]) (simp_all add: 1(6))
    ultimately show ?thesis
      using step 1(3,5) p_view_present(2) [OF step(2), of ?i] False
      by (intro exI [of _ ?s']) (simp add: redo_page_def page_key_def Let_def)
  qed
qed


section \<open>The redo pass\<close>

definition redo_change :: "dirty_table \<Rightarrow> wal_record \<Rightarrow> change option" where
  "redo_change dpt r = map_option (\<lambda>(off, bs). (page_key r, (unat off, bs))) (redo_target dpt r)"

definition redo_changes :: "dirty_table \<Rightarrow> wal_record list \<Rightarrow> change list" where
  "redo_changes dpt rs = List.map_filter (redo_change dpt) rs"

definition undo_change :: "u64 list \<Rightarrow> wal_record \<Rightarrow> change option" where
  "undo_change losers r = map_option (\<lambda>(off, bs). (page_key r, (unat off, bs))) (undo_target losers r)"

definition undo_changes :: "u64 list \<Rightarrow> wal_record list \<Rightarrow> change list" where
  "undo_changes losers rs = List.map_filter (undo_change losers) rs"

lemma map_filter_Cons:
  "List.map_filter f (x # xs) =
     (case f x of None \<Rightarrow> List.map_filter f xs | Some y \<Rightarrow> y # List.map_filter f xs)"
  by (simp add: List.map_filter_def split: option.split)

lemma keeps_trans: "keeps s t \<Longrightarrow> keeps t u \<Longrightarrow> keeps s u"
  unfolding keeps_def by blast

lemma redo_records_run:
  assumes "pager_good s" and "\<forall>c \<in> set (redo_changes dpt rs). change_ok c \<and> page_room (fst c)"
  shows "\<exists>s'. redo_records dpt rs s = (Inr (length (redo_changes dpt rs)), s') \<and> pager_good s' \<and>
    contents s' = replay (redo_changes dpt rs) (contents s) \<and>
    (\<forall>c \<in> set (redo_changes dpt rs). p_view s' (fst c) \<noteq> None) \<and> keeps s s' \<and>
    log_same (p_wal s) (p_wal s')"
  using assms
proof (induction rs arbitrary: s)
  case Nil
  then show ?case by (simp add: run_simps redo_changes_def List.map_filter_def keeps_def)
next
  case (Cons r rs)
  show ?case
  proof (cases "redo_target dpt r")
    case None
    then have "redo_changes dpt (r # rs) = redo_changes dpt rs"
      by (simp add: redo_changes_def map_filter_Cons redo_change_def)
    then show ?thesis using Cons None by simp
  next
    case (Some t)
    obtain off bs where t: "t = (off, bs)" by (cases t)
    have cs: "redo_changes dpt (r # rs) = (page_key r, (unat off, bs)) # redo_changes dpt rs"
      using Some t by (simp add: redo_changes_def map_filter_Cons redo_change_def)
    have "page_room (page_key r)" "unat off + length bs \<le> page_size (rh_is_index (wr_header r))"
      using Cons.prems(2) by (auto simp: cs change_ok_def in_page_def page_key_def)
    from redo_page_run [OF Cons.prems(1) this] obtain s1 where
      1: "redo_page r off bs s = (Inr (), s1)" "pager_good s1"
      "contents s1 = apply_change (page_key r, (unat off, bs)) (contents s)"
      "p_view s1 (page_key r) \<noteq> None" "keeps s s1" "log_same (p_wal s) (p_wal s1)" by blast
    obtain s2 where 2: "redo_records dpt rs s1 = (Inr (length (redo_changes dpt rs)), s2)" "pager_good s2"
      "contents s2 = replay (redo_changes dpt rs) (contents s1)"
      "\<forall>c \<in> set (redo_changes dpt rs). p_view s2 (fst c) \<noteq> None" "keeps s1 s2"
      "log_same (p_wal s1) (p_wal s2)"
      using Cons.IH [OF 1(2)] Cons.prems(2) unfolding cs by auto
    have "redo_records dpt (r # rs) s = (Inr (length (redo_changes dpt (r # rs))), s2)"
      using 1(1) 2(1) Some t by (simp add: andthen_def run_simps cs)
    moreover have "p_view s2 (page_key r) \<noteq> None" using 1(4) 2(5) unfolding keeps_def by blast
    ultimately show ?thesis
      using 1 2 keeps_trans [OF 1(5) 2(5)] log_same_trans [OF 1(6) 2(6)] by (auto simp: cs)
  qed
qed


section \<open>The undo pass\<close>

lemma with_inner_run:
  "p (inner w) = (Inr a, i) \<Longrightarrow>
   with_inner p w = (Inr a, w\<lparr>inner := i, pub_flushed_lsn := flushed_lsn i\<rparr>)"
  by (simp add: with_inner_def)

text \<open>Appending a record through \<open>Wal\<close>, whatever it is.\<close>

lemma append_grows:
  assumes holds: "wal_holds w rs" and room: "wal_room (Suc n) w" and pl: "k \<le> 16388"
    and run: "\<And>done pend. wal_rep (inner w) done pend \<Longrightarrow>
      \<exists>i' d' p'. q (inner w) = (Inr a, i') \<and> wal_rep i' d' p' \<and> d' @ p' = done @ pend @ [r] \<and>
        next_lsn (wal_hdr i') = next_lsn (wal_hdr (inner w)) + 1"
    and len: "length (record_bytes r) = 36 + k"
  shows "\<exists>w'. with_inner q w = (Inr a, w') \<and> log_grows [r] w w' \<and> wal_holds w' (rs @ [r])"
proof -
  obtain "done" pend where rep: "wal_rep (inner w) done pend" "rs = done @ pend"
    using holds by (auto simp: wal_holds_def)
  obtain i' d' p' where i': "q (inner w) = (Inr a, i')" "wal_rep i' d' p'" "d' @ p' = done @ pend @ [r]"
    "next_lsn (wal_hdr i') = next_lsn (wal_hdr (inner w)) + 1"
    using run [OF rep(1)] by blast
  let ?w' = "w\<lparr>inner := i', pub_flushed_lsn := flushed_lsn i'\<rparr>"
  have hol: "wal_holds ?w' (qs @ [r])" if h: "wal_holds w qs" for qs
  proof -
    obtain d p where dp: "wal_rep (inner w) d p" "qs = d @ p" using h by (auto simp: wal_holds_def)
    obtain d2 p2 where "wal_rep i' d2 p2" "d2 @ p2 = d @ p @ [r]"
      using run [OF dp(1)] i'(1) by auto
    then show ?thesis unfolding wal_holds_def by (intro exI [of _ d2] exI [of _ p2]) (simp add: dp(2))
  qed
  have "wal_room m ?w'" if "wal_room (m + 1) w" for m
  proof -
    have tot: "unat (last_wal_offset (wal_hdr i)) + unat (last_wal_len (wal_hdr i)) =
        28 + length (records_bytes (d @ p))" if "wal_rep i d p" for i d p
      using that last_off_len [of "d @ p"] by (simp add: wal_rep_def points_at_def)
    have "length (records_bytes (d' @ p')) = length (records_bytes (done @ pend)) + 36 + k"
      unfolding i'(3) by (simp add: len)
    moreover have "unat (next_lsn (wal_hdr i')) = unat (next_lsn (wal_hdr (inner w))) + 1"
      unfolding i'(4) using room unat_u64_add [of _ "1 :: u64"] by (simp add: wal_room_def)
    ultimately show ?thesis
      using that tot [OF i'(2)] tot [OF rep(1)] pl by (simp add: wal_room_def)
  qed
  then show ?thesis
    using hol [OF holds] hol with_inner_run [of q, OF i'(1)] by (auto simp: log_grows_def)
qed

lemma write_clr_grows:
  assumes holds: "wal_holds w rs" and room: "wal_room (Suc n) w" and len: "length bs \<le> 8192"
  shows "\<exists>w' r. with_inner (write_clr t ix pid off bs) w = (Inr (lsn_of r), w') \<and> log_grows [r] w w' \<and>
    wal_holds w' (rs @ [r]) \<and> rh_record_type (wr_header r) = Clr \<and> rh_txn_id (wr_header r) = t"
proof -
  let ?pl = "to_le (0 :: u16) @ to_le (of_nat (length bs) :: u16) @ bs"
  define r where "r = new_record (inner w) t Clr pid ix off ?pl"
  have k: "length ?pl \<le> 16388" using len by simp
  have rf: "room_for (length ?pl) (inner w)" using room by (rule room_for_wal_room) (use k in simp)
  have run: "\<exists>i' d' p'. write_clr t ix pid off bs (inner w) = (Inr (lsn_of r), i') \<and> wal_rep i' d' p' \<and>
      d' @ p' = done @ pend @ [r] \<and> next_lsn (wal_hdr i') = next_lsn (wal_hdr (inner w)) + 1"
    if h: "wal_rep (inner w) done pend" for "done" pend
  proof -
    obtain i' d' p' where 1: "write_clr t ix pid off bs (inner w) = (Inr (lsn_of r), i')"
      "wal_rep i' d' (p' @ [r])" "d' @ p' = done @ pend"
      "next_lsn (wal_hdr i') = next_lsn (wal_hdr (inner w)) + 1"
      using write_clr_rep [OF h rf r_def] by blast
    have "d' @ (p' @ [r]) = done @ pend @ [r]" using 1(3) by simp
    then show ?thesis using 1 by blast
  qed
  have "\<exists>w'. with_inner (write_clr t ix pid off bs) w = (Inr (lsn_of r), w') \<and> log_grows [r] w w' \<and>
      wal_holds w' (rs @ [r])"
    by (rule append_grows [where q = "write_clr t ix pid off bs", OF holds room k run]) (simp_all add: r_def)
  moreover have "rh_record_type (wr_header r) = Clr" "rh_txn_id (wr_header r) = t"
    by (simp_all add: r_def)
  ultimately show ?thesis by blast
qed

lemma finish_grows:
  fixes t ty
  assumes holds: "wal_holds w rs" and room: "wal_room (Suc n) w"
  defines "q \<equiv> andthen (write_raw_record t ty 0 False 0 []) (\<lambda>lsn.
      andthen (clear_active t) (\<lambda>_. andthen (flush_up_to lsn) (\<lambda>_. ok lsn)))"
  shows "\<exists>w' r l. with_inner q w = (Inr l, w') \<and> log_grows [r] w w' \<and>
    wal_holds w' (rs @ [r]) \<and> rh_record_type (wr_header r) = ty \<and> rh_txn_id (wr_header r) = t"
proof -
  define r where "r = new_record (inner w) t ty 0 False 0 []"
  have rf: "room_for 0 (inner w)" using room by (rule room_for_wal_room) simp
  have nxt: "next_lsn (wal_hdr i') = next_lsn (wal_hdr (inner w)) + 1"
    if a: "q (inner w) = (Inr l, i')" and rep: "wal_rep (inner w) done pend"
    for i' l "done" pend
  proof -
    obtain w1 done' pend' where 1: "write_raw_record t ty 0 False 0 [] (inner w) = (Inr (lsn_of r), w1)"
      "wal_rep w1 done' (pend' @ [r])" "next_lsn (wal_hdr w1) = next_lsn (wal_hdr (inner w)) + 1"
      using write_raw_record_rep [OF rep _ r_def] rf by auto
    let ?w2 = "w1\<lparr>active_txns := map_remove t (active_txns w1)\<rparr>"
    have "wal_rep ?w2 done' (pend' @ [r])" using 1(2) by simp
    from flush_own_record [OF this] show ?thesis
      using a 1 by (auto simp: q_def andthen_def run_simps)
  qed
  have run: "\<exists>i' d' p'. q (inner w) = (Inr (next_lsn (wal_hdr (inner w))), i') \<and>
      wal_rep i' d' p' \<and> d' @ p' = done @ pend @ [r] \<and>
      next_lsn (wal_hdr i') = next_lsn (wal_hdr (inner w)) + 1"
    if h: "wal_rep (inner w) done pend" for "done" pend
    using finish_transaction_rep [OF h rf, of t ty, folded q_def] nxt [OF _ h] unfolding r_def by fastforce
  have "\<exists>w'. with_inner q w = (Inr (next_lsn (wal_hdr (inner w))), w') \<and>
      log_grows [r] w w' \<and> wal_holds w' (rs @ [r])"
    by (rule append_grows [where q = q and k = 0, OF holds room _ run])
      (simp_all add: r_def)
  moreover have "rh_record_type (wr_header r) = ty" "rh_txn_id (wr_header r) = t"
    by (simp_all add: r_def)
  ultimately show ?thesis by blast
qed

lemmas commit_grows = finish_grows [where ty = Commit, folded commit_transaction_def]
lemmas abort_grows = finish_grows [where ty = Abort, folded abort_transaction_def]

lemma begin_grows:
  assumes holds: "wal_holds w rs" and room: "wal_room (Suc n) w"
  shows "\<exists>w' r. with_inner (begin_transaction t) w = (Inr t, w') \<and> log_grows [r] w w' \<and>
    wal_holds w' (rs @ [r]) \<and> rh_record_type (wr_header r) = Begin \<and> rh_txn_id (wr_header r) = t"
proof -
  define r where "r = new_record (inner w) t Begin 0 False 0 []"
  have rf: "room_for 0 (inner w)" using room by (rule room_for_wal_room) simp
  have run: "\<exists>i' d' p'. begin_transaction t (inner w) = (Inr t, i') \<and> wal_rep i' d' p' \<and>
      d' @ p' = done @ pend @ [r] \<and> next_lsn (wal_hdr i') = next_lsn (wal_hdr (inner w)) + 1"
    if h: "wal_rep (inner w) done pend" for "done" pend
  proof -
    obtain i' d' p' where 1: "begin_transaction t (inner w) = (Inr t, i')" "wal_rep i' d' (p' @ [r])"
      "d' @ p' = done @ pend" "next_lsn (wal_hdr i') = next_lsn (wal_hdr (inner w)) + 1"
      using begin_transaction_rep [OF h rf r_def] by blast
    have "d' @ (p' @ [r]) = done @ pend @ [r]" using 1(3) by simp
    then show ?thesis using 1 by blast
  qed
  have "\<exists>w'. with_inner (begin_transaction t) w = (Inr t, w') \<and> log_grows [r] w w' \<and> wal_holds w' (rs @ [r])"
    by (rule append_grows [where q = "begin_transaction t" and k = 0, OF holds room _ run])
      (simp_all add: r_def)
  moreover have "rh_record_type (wr_header r) = Begin" "rh_txn_id (wr_header r) = t"
    by (simp_all add: r_def)
  ultimately show ?thesis by blast
qed

lemma log_grows_room: "log_grows rs w w' \<Longrightarrow> wal_room (n + length rs) w \<Longrightarrow> wal_room n w'"
  unfolding log_grows_def by blast

lemma pager_good_wal:
  "pager_good s \<Longrightarrow> wal_holds w rs \<Longrightarrow> pager_good (s\<lparr>p_wal := w\<rparr>)"
  by (auto simp: pager_good_def store_good_def)

lemma on_wal_view [simp]:
  "contents (s\<lparr>p_wal := w\<rparr>) = contents s" "p_view (s\<lparr>p_wal := w\<rparr>) = p_view s"
  by (simp_all add: contents_def p_view_def p_index_view_def p_heap_view_def fun_eq_iff)

lemma keeps_wal [simp]: "keeps s (s'\<lparr>p_wal := w\<rparr>) = keeps s s'"
  by (simp add: keeps_def)

lemma patch_page_run:
  assumes good: "pager_good s" and pv: "p_view s (ix, i) \<noteq> None"
    and fits: "unat off + length bs \<le> page_size ix"
  shows "\<exists>s'. (if ix then on_index (index_with_page i (patch off bs))
      else on_heap (heap_with_page i (patch off bs))) s = (Inr (), s') \<and> pager_good s' \<and>
    contents s' = apply_change ((ix, i), (unat off, bs)) (contents s) \<and> keeps s s' \<and>
    log_same (p_wal s) (p_wal s')"
proof (cases ix)
  case True
  obtain p where p: "store_view 4096 (p_index s) i = Some p"
    using pv True by (auto simp: p_view_def p_index_view_def)
  have ok: "store_ok 4096 (p_index s)" using good by (simp add: pager_good_def store_good_def)
  have lp: "length p = 4096" using store_view_length [OF ok p] .
  have b: "patch off bs p = (Inr (), put (unat off, bs) p)" "length (put (unat off, bs) p) = 4096"
    using fits True lp by (simp_all add: patch_run page_size_def in_page_def)
  have g: "index_good (p_index s, p_wal s)" using good by (simp add: pager_good_def)
  obtain st w where 1: "index_with_page i (patch off bs) (p_index s, p_wal s) = (Inr (), (st, w))"
    "changed 4096 i (put (unat off, bs) p) (p_index s, p_wal s) (st, w)"
    using index_with_page_run [where body = "patch off bs", OF g _ b] p by fastforce
  have c: "store_good 4096 (st, w)" "log_same (p_wal s) w" "pf_next_id st = pf_next_id (p_index s)"
    "store_view 4096 st = (store_view 4096 (p_index s))(i \<mapsto> put (unat off, bs) p)"
    using 1(2) by (simp_all add: changed_def)
  note step = on_index_step [where p = "index_with_page i (patch off bs)", OF 1(1) good c(1,2)]
  have "contents (s\<lparr>p_index := st, p_wal := w\<rparr>) = apply_change ((ix, i), (unat off, bs)) (contents s)"
    by (rule contents_eqI)
      (auto simp: contents_zero_filled apply_change_def True zero_filled_def c(4) p)
  moreover have "keeps s (s\<lparr>p_index := st, p_wal := w\<rparr>)"
    by (rule keepsI [OF good step(2)]) (simp_all add: c(3))
  ultimately show ?thesis using step c True by auto
next
  case False
  obtain p where p: "store_view 8192 (p_heap s) i = Some p"
    using pv False by (auto simp: p_view_def p_heap_view_def)
  have ok: "store_ok 8192 (p_heap s)" using good by (simp add: pager_good_def store_good_def)
  have lp: "length p = 8192" using store_view_length [OF ok p] .
  have b: "patch off bs p = (Inr (), put (unat off, bs) p)" "length (put (unat off, bs) p) = 8192"
    using fits False lp by (simp_all add: patch_run page_size_def in_page_def)
  have g: "heap_good (p_heap s, p_wal s)" using good by (simp add: pager_good_def)
  obtain st w where 1: "heap_with_page i (patch off bs) (p_heap s, p_wal s) = (Inr (), (st, w))"
    "changed 8192 i (put (unat off, bs) p) (p_heap s, p_wal s) (st, w)"
    using heap_with_page_run(1) [where body = "patch off bs", OF g _ b] p by fastforce
  have c: "store_good 8192 (st, w)" "log_same (p_wal s) w" "pf_next_id st = pf_next_id (p_heap s)"
    "store_view 8192 st = (store_view 8192 (p_heap s))(i \<mapsto> put (unat off, bs) p)"
    using 1(2) by (simp_all add: changed_def)
  note step = on_heap_step [where p = "heap_with_page i (patch off bs)", OF 1(1) good c(1,2)]
  have "contents (s\<lparr>p_heap := st, p_wal := w\<rparr>) = apply_change ((ix, i), (unat off, bs)) (contents s)"
    by (rule contents_eqI)
      (auto simp: contents_zero_filled apply_change_def False zero_filled_def c(4) p)
  moreover have "keeps s (s\<lparr>p_heap := st, p_wal := w\<rparr>)"
    by (rule keepsI [OF good step(2)]) (simp_all add: c(3))
  ultimately show ?thesis using step c False by auto
qed

lemma undo_page_run:
  assumes good: "pager_good s" and pv: "p_view s (page_key r) \<noteq> None"
    and fits: "unat off + length bs \<le> page_size (rh_is_index (wr_header r))"
    and room: "wal_room (n + 1) (p_wal s)"
  shows "\<exists>s'. undo_page r off bs s = (Inr (), s') \<and> pager_good s' \<and>
    contents s' = apply_change (page_key r, (unat off, bs)) (contents s) \<and> keeps s s' \<and>
    wal_room n (p_wal s')"
proof -
  let ?ix = "rh_is_index (wr_header r)" and ?i = "rh_page_id (wr_header r)"
  obtain s1 where 1: "(if ?ix then on_index (index_with_page ?i (patch off bs))
      else on_heap (heap_with_page ?i (patch off bs))) s = (Inr (), s1)" "pager_good s1"
    "contents s1 = apply_change ((?ix, ?i), (unat off, bs)) (contents s)" "keeps s s1"
    "log_same (p_wal s) (p_wal s1)"
    using patch_page_run [OF good _ fits, of ?i] pv by (auto simp: page_key_def)
  obtain rs where rs: "wal_holds (p_wal s1) rs" using wal_holds_good [OF 1(2)] by blast
  have "wal_hdr (inner (p_wal s1)) = wal_hdr (inner (p_wal s))" using 1(5) by (simp add: log_same_def)
  then have r1: "wal_room (Suc n) (p_wal s1)" using room wal_room_hdr [of "p_wal s1" "p_wal s"] by simp
  have lb: "length bs \<le> 8192" using fits by (auto simp: page_size_def split: if_splits)
  obtain w c where w: "with_inner (write_clr (rh_txn_id (wr_header r)) ?ix ?i off bs) (p_wal s1) = (Inr (lsn_of c), w)"
    "log_grows [c] (p_wal s1) w" "wal_holds w (rs @ [c])"
    using write_clr_grows [OF rs r1 lb] by blast
  have "undo_page r off bs s = (Inr (), s1\<lparr>p_wal := w\<rparr>)"
    using 1(1) on_log_run [OF w(1)] by (simp add: undo_page_def andthen_def run_simps Let_def)
  moreover have "wal_room n w" using log_grows_room [OF w(2), of n] r1 by simp
  ultimately show ?thesis
    using 1 pager_good_wal [OF 1(2) w(3)] by (auto simp: page_key_def)
qed

lemma undo_records_run:
  assumes "pager_good s" and "\<forall>c \<in> set (undo_changes losers rs). change_ok c \<and> p_view s (fst c) \<noteq> None"
    and "wal_room (n + length (undo_changes losers rs)) (p_wal s)"
  shows "\<exists>s'. undo_records losers rs s = (Inr (length (undo_changes losers rs)), s') \<and> pager_good s' \<and>
    contents s' = replay (undo_changes losers rs) (contents s) \<and> keeps s s' \<and> wal_room n (p_wal s')"
  using assms
proof (induction rs arbitrary: s)
  case Nil
  then show ?case by (simp add: run_simps undo_changes_def List.map_filter_def keeps_def)
next
  case (Cons r rs)
  show ?case
  proof (cases "undo_target losers r")
    case None
    then have "undo_changes losers (r # rs) = undo_changes losers rs"
      by (simp add: undo_changes_def map_filter_Cons undo_change_def)
    then show ?thesis using Cons None by simp
  next
    case (Some t)
    obtain off bs where t: "t = (off, bs)" by (cases t)
    let ?cs = "undo_changes losers rs"
    have cs: "undo_changes losers (r # rs) = (page_key r, (unat off, bs)) # ?cs"
      using Some t by (simp add: undo_changes_def map_filter_Cons undo_change_def)
    have pre: "p_view s (page_key r) \<noteq> None" "unat off + length bs \<le> page_size (rh_is_index (wr_header r))"
      "wal_room (n + length ?cs + 1) (p_wal s)"
      using Cons.prems(2,3) by (auto simp: cs change_ok_def in_page_def page_key_def add.commute)
    from undo_page_run [OF Cons.prems(1) pre] obtain s1 where
      1: "undo_page r off bs s = (Inr (), s1)" "pager_good s1"
      "contents s1 = apply_change (page_key r, (unat off, bs)) (contents s)" "keeps s s1"
      "wal_room (n + length ?cs) (p_wal s1)" by blast
    have "\<forall>c \<in> set ?cs. change_ok c \<and> p_view s1 (fst c) \<noteq> None"
      using Cons.prems(2) 1(4) unfolding cs keeps_def list.set by blast
    from Cons.IH [OF 1(2) this 1(5)] obtain s2 where
      2: "undo_records losers rs s1 = (Inr (length ?cs), s2)" "pager_good s2"
      "contents s2 = replay ?cs (contents s1)" "keeps s1 s2" "wal_room n (p_wal s2)" by blast
    have "undo_records losers (r # rs) s = (Inr (length (undo_changes losers (r # rs))), s2)"
      using 1(1) 2(1) Some t by (simp add: andthen_def run_simps cs)
    then show ?thesis using 1 2 keeps_trans [OF 1(4) 2(4)] by (auto simp: cs)
  qed
qed

lemma abort_losers_run:
  assumes "pager_good s" and "wal_room (n + length losers) (p_wal s)"
  shows "\<exists>w. for_each (\<lambda>t. andthen (on_log (abort_transaction t)) (\<lambda>_. ok ())) losers s =
      (Inr (), s\<lparr>p_wal := w\<rparr>) \<and> pager_good (s\<lparr>p_wal := w\<rparr>) \<and> wal_room n w"
  using assms
proof (induction losers arbitrary: s)
  case Nil
  then show ?case by (intro exI [of _ "p_wal s"]) (simp add: run_simps)
next
  case (Cons t ts)
  obtain rs where rs: "wal_holds (p_wal s) rs" using wal_holds_good [OF Cons.prems(1)] by blast
  have r: "wal_room (Suc (n + length ts)) (p_wal s)" using Cons.prems(2) by simp
  obtain w a l where w: "with_inner (abort_transaction t) (p_wal s) = (Inr l, w)"
    "log_grows [a] (p_wal s) w" "wal_holds w (rs @ [a])"
    using abort_grows [OF rs r] by blast
  have "wal_room (n + length ts) w" using log_grows_room [OF w(2), of "n + length ts"] r by simp
  then obtain w2 where "for_each (\<lambda>t. andthen (on_log (abort_transaction t)) (\<lambda>_. ok ())) ts (s\<lparr>p_wal := w\<rparr>) =
      (Inr (), s\<lparr>p_wal := w2\<rparr>)" "pager_good (s\<lparr>p_wal := w2\<rparr>)" "wal_room n w2"
    using Cons.IH [OF pager_good_wal [OF Cons.prems(1) w(3)]] by auto
  moreover have "andthen (on_log (abort_transaction t)) (\<lambda>_. ok ()) s = (Inr (), s\<lparr>p_wal := w\<rparr>)"
    using on_log_run [OF w(1)] by (simp add: andthen_def run_simps)
  ultimately show ?case
    by (intro exI [of _ w2]) (simp only: for_each.simps andthen_Inr simp_thms)
qed



section \<open>Recovery\<close>

lemma flush_all_log:
  assumes "pager_good s"
  shows "\<exists>w. on_log wal_flush_all s = (Inr (), s\<lparr>p_wal := w\<rparr>) \<and> pager_good (s\<lparr>p_wal := w\<rparr>)"
proof -
  obtain rs where rs: "wal_holds (p_wal s) rs" using wal_holds_good [OF assms] by blast
  obtain w st where w: "on_wal (flush_up_to (- 1)) (st, p_wal s) = (Inr (), (st, w))" "wal_holds w rs"
    using flush_wal_run [OF rs, of "- 1" "p_index s"] by blast
  have "with_inner wal_flush_all (p_wal s) = (Inr (), w)"
    using w(1) by (simp add: on_wal_def wal_flush_all_def split: prod.splits)
  then show ?thesis using on_log_run pager_good_wal [OF assms w(2)] by blast
qed

lemma recover_run:
  assumes good: "pager_good s" and log: "wal_rep (inner (p_wal s)) rs []"
    and chk: "chk = last_checkpoint_lsn (wal_hdr (inner (p_wal s)))"
    and ana: "analysis chk rs = (dpt, att)"
    and losers: "losers = filter (\<lambda>t. t \<noteq> 0) (keys att)"
    and redo: "redos = redo_changes dpt (filter (\<lambda>r. min_rec_lsn chk dpt \<le> lsn_of r) rs)"
      "\<forall>c \<in> set redos. change_ok c \<and> page_room (fst c)"
    and und: "undos = (if losers = [] then [] else undo_changes losers (rev rs))"
      "\<forall>c \<in> set undos. change_ok c \<and> (fst c \<in> fst ` set redos \<or> p_view s (fst c) \<noteq> None)"
    and room: "wal_room (length undos + length losers) (p_wal s)"
  shows "\<exists>s'. recover s = (Inr \<lparr>checkpoint_lsn = chk, redone_records = length redos,
        undone_records = length undos, active_txn_ids = sort losers\<rparr>, s') \<and> pager_good s' \<and>
    contents s' = replay undos (replay redos (contents s))"
proof -
  have all: "read_all_records (inner (p_wal s)) = rs" using log by (rule read_all_records_rep)
  obtain s1 where 1: "redo_records dpt (filter (\<lambda>r. min_rec_lsn chk dpt \<le> lsn_of r) rs) s = (Inr (length redos), s1)"
    "pager_good s1" "contents s1 = replay redos (contents s)"
    "\<forall>c \<in> set redos. p_view s1 (fst c) \<noteq> None" "log_same (p_wal s) (p_wal s1)" "keeps s s1"
    using redo_records_run [OF good] redo by blast
  have log1: "wal_rep (inner (p_wal s1)) rs []"
    using log 1(5) unfolding log_same_def flushed_more_def by fastforce
  have bwd: "read_records_backward (inner (p_wal s1)) = Inr (rev rs)"
    using log1 by (rule read_records_backward_rep)
  have "wal_hdr (inner (p_wal s1)) = wal_hdr (inner (p_wal s))" using 1(5) by (simp add: log_same_def)
  then have room1: "wal_room (length undos + length losers) (p_wal s1)"
    using room wal_room_hdr [of "p_wal s1" "p_wal s"] by simp
  have "\<exists>s2. undo_losers losers s1 = (Inr (length undos), s2) \<and> pager_good s2 \<and>
      contents s2 = replay undos (contents s1)"
  proof (cases "losers = []")
    case True
    then show ?thesis using 1(2) und(1) by (auto simp: undo_losers_def run_simps)
  next
    case False
    then have u: "undos = undo_changes losers (rev rs)" using und(1) by simp
    have "\<forall>c \<in> set (undo_changes losers (rev rs)). change_ok c \<and> p_view s1 (fst c) \<noteq> None"
      using und(2) 1(4,6) unfolding u keeps_def by fastforce
    moreover have "wal_room (length losers + length (undo_changes losers (rev rs))) (p_wal s1)"
      using room1 unfolding u by (simp add: add.commute)
    ultimately obtain s2 where 2: "undo_records losers (rev rs) s1 = (Inr (length undos), s2)" "pager_good s2"
      "contents s2 = replay undos (contents s1)" "wal_room (length losers) (p_wal s2)"
      using undo_records_run [OF 1(2)] unfolding u by blast
    obtain w where "for_each (\<lambda>t. andthen (on_log (abort_transaction t)) (\<lambda>_. ok ())) losers s2 =
        (Inr (), s2\<lparr>p_wal := w\<rparr>)" "pager_good (s2\<lparr>p_wal := w\<rparr>)"
      using abort_losers_run [OF 2(2), of 0 losers] 2(4) by auto
    note ab = this
    have "undo_losers losers s1 = (Inr (length undos), s2\<lparr>p_wal := w\<rparr>)"
    proof -
      have "andthen (undo_records losers (rev rs)) (\<lambda>n.
          andthen (for_each (\<lambda>t. andthen (on_log (abort_transaction t)) (\<lambda>_. ok ())) losers) (\<lambda>_. ok n)) s1 =
          (Inr (length undos), s2\<lparr>p_wal := w\<rparr>)"
        unfolding andthen_Inr [where p = "undo_records losers (rev rs)", OF 2(1)]
          andthen_Inr [where p = "for_each (\<lambda>t. andthen (on_log (abort_transaction t)) (\<lambda>_. ok ())) losers", OF ab(1)]
        by (rule ok_run)
      then show ?thesis
        unfolding undo_losers_def using False by (simp add: andthen_def [of "reads _"] reads_run bwd)
    qed
    with ab(2) have "undo_losers losers s1 = (Inr (length undos), s2\<lparr>p_wal := w\<rparr>)"
      "pager_good (s2\<lparr>p_wal := w\<rparr>)" by simp_all
    then show ?thesis using 2(3) by (intro exI [of _ "s2\<lparr>p_wal := w\<rparr>"]) simp
  qed
  then obtain s2 where 2: "undo_losers losers s1 = (Inr (length undos), s2)" "pager_good s2"
    "contents s2 = replay undos (contents s1)" by blast
  obtain w where 3: "on_log wal_flush_all s2 = (Inr (), s2\<lparr>p_wal := w\<rparr>)" "pager_good (s2\<lparr>p_wal := w\<rparr>)"
    using flush_all_log [OF 2(2)] by blast
  have "recover s = (Inr \<lparr>checkpoint_lsn = chk, redone_records = length redos,
        undone_records = length undos, active_txn_ids = sort losers\<rparr>, s2\<lparr>p_wal := w\<rparr>)"
    using 1(1) 2(1) 3(1)
    by (simp add: recover_def andthen_def run_simps all ana Let_def flip: chk losers)
  then show ?thesis using 3(2) 2(3) 1(3) by (intro exI [of _ "s2\<lparr>p_wal := w\<rparr>"]) simp
qed

end
