(* ===== verification/Recovery_Analysis.thy ===== *)
theory Recovery_Analysis
  imports Recovery
begin

text \<open>
  The analysis pass of \<open>recover\<close>, from the beginning of the log or from the last checkpoint: which
  transactions it takes for open, and which changes the redo pass repeats.
\<close>

section \<open>Analysis\<close>

definition is_change :: "wal_record \<Rightarrow> bool" where
  "is_change r \<longleftrightarrow> rh_record_type (wr_header r) = Update \<or> rh_record_type (wr_header r) = Clr"

text \<open>A transaction is open when its last record neither commits nor aborts it.\<close>

definition touches :: "u64 \<Rightarrow> wal_record \<Rightarrow> bool" where
  "touches t r \<longleftrightarrow> rh_txn_id (wr_header r) = t \<and> rh_record_type (wr_header r) \<noteq> Checkpoint"

definition ends :: "wal_record \<Rightarrow> bool" where
  "ends r \<longleftrightarrow> rh_record_type (wr_header r) = Commit \<or> rh_record_type (wr_header r) = Abort"

definition open_txn :: "u64 \<Rightarrow> wal_record list \<Rightarrow> bool" where
  "open_txn t rs \<longleftrightarrow> filter (touches t) rs \<noteq> [] \<and> \<not> ends (last (filter (touches t) rs))"

lemma map_of_or_insert:
  "map_of (or_insert k v h) j = (if j = k \<and> map_of h k = None then Some v else map_of h j)"
  by (auto simp: or_insert_def)

text \<open>The transaction table: whoever has records after the start is judged by the last of them.\<close>

lemma analyze_att:
  assumes "t \<noteq> 0"
  shows "t \<in> fst ` set (snd (fold analyze_record rs x)) \<longleftrightarrow>
    (if filter (touches t) rs = [] then t \<in> fst ` set (snd x)
     else \<not> ends (last (filter (touches t) rs)))"
proof (induction rs rule: rev_induct)
  case (snoc r rs)
  obtain dpt att where f: "fold analyze_record rs x = (dpt, att)" by (metis surj_pair)
  have "t \<in> fst ` set (snd (analyze_record r (dpt, att))) \<longleftrightarrow>
      (if touches t r then \<not> ends r else t \<in> fst ` set att)"
    using assms
    by (cases "rh_record_type (wr_header r)")
      (auto simp: analyze_record_def Let_def touches_def ends_def)
  then show ?case using snoc f by auto
qed simp

lemma analyze_distinct:
  "distinct (keys (snd x)) \<Longrightarrow> distinct (keys (snd (fold analyze_record rs x)))"
proof (induction rs arbitrary: x)
  case (Cons r rs)
  have "distinct (keys (snd (analyze_record r x)))"
    using Cons.prems
    by (cases x; cases "rh_record_type (wr_header r)") (auto simp: analyze_record_def Let_def)
  then show ?case using Cons.IH by simp
qed simp

text \<open>The page table: an entry from before the start stays, else the first change after it counts.\<close>

lemma fst_analyze:
  "fst (analyze_record r x) =
     (if is_change r then or_insert (page_key r) (lsn_of r) (fst x) else fst x)"
  by (cases x; cases "rh_record_type (wr_header r)") (auto simp: analyze_record_def Let_def is_change_def)

lemma analyze_dpt:
  assumes "sorted_wrt (<) (map lsn_of rs)"
  shows "map_of (fst (fold analyze_record rs x)) k = Some l \<longleftrightarrow>
    map_of (fst x) k = Some l \<or> map_of (fst x) k = None \<and>
      (\<exists>r \<in> set rs. is_change r \<and> page_key r = k \<and> lsn_of r = l \<and>
        (\<forall>q \<in> set rs. is_change q \<and> page_key q = k \<longrightarrow> l \<le> lsn_of q))"
  using assms
proof (induction rs arbitrary: x)
  case (Cons r rs)
  have srt: "sorted_wrt (<) (map lsn_of rs)" "\<forall>q \<in> set rs. lsn_of r < lsn_of q"
    using Cons.prems by auto
  show ?case
  proof (cases "is_change r \<and> page_key r = k")
    case True
    have "lsn_of q = lsn_of r" if "\<forall>p \<in> set (r # rs). is_change p \<and> page_key p = k \<longrightarrow> lsn_of q \<le> lsn_of p"
      "q \<in> set (r # rs)" for q
      using that True srt(2) by (force simp: not_le [symmetric])
    then show ?thesis
      using True srt(2) Cons.IH [OF srt(1), of "analyze_record r x"]
      by (auto simp: fst_analyze map_of_or_insert intro: less_imp_le)
  next
    case False
    then show ?thesis
      using Cons.IH [OF srt(1), of "analyze_record r x"]
      by (auto simp: fst_analyze map_of_or_insert)
  qed
qed simp


section \<open>Checkpoints\<close>

text \<open>
  The records that the redo pass repeats: all without a checkpoint; else those behind it and those
  at or behind the recovery LSN that the checkpoint has for their page.
\<close>

definition due :: "u64 \<Rightarrow> dirty_table \<Rightarrow> wal_record \<Rightarrow> bool" where
  "due chk dpt r \<longleftrightarrow> chk = 0 \<or> chk < lsn_of r \<or>
     (\<exists>l. map_of dpt (page_key r) = Some l \<and> l \<le> lsn_of r)"

text \<open>
  What the header of the log may say: no checkpoint, or one that is in the log. Its recovery LSNs
  are from before it and its transactions are those that were open.
\<close>

definition checkpoint_ok :: "u64 \<Rightarrow> wal_record list \<Rightarrow> bool" where
  "checkpoint_ok chk rs \<longleftrightarrow> chk = 0 \<or>
     (\<exists>before ck after d. rs = before @ ck # after \<and> lsn_of ck = chk \<and>
        rh_record_type (wr_header ck) = Checkpoint \<and> parse_checkpoint ck = Some d \<and>
        (\<forall>e \<in> set (cd_dpt d). dp_rec_lsn e \<le> chk) \<and>
        (\<forall>t. t \<noteq> 0 \<longrightarrow> (t \<in> at_txn_id ` set (cd_att d) \<longleftrightarrow> open_txn t before)))"

lemma checkpoint_ok_append: "checkpoint_ok chk rs \<Longrightarrow> checkpoint_ok chk (rs @ later)"
  unfolding checkpoint_ok_def by (metis append.assoc append_Cons)

definition checkpoint_dpt :: "u64 \<Rightarrow> wal_record list \<Rightarrow> dirty_table" where
  "checkpoint_dpt chk rs = fst (checkpoint_tables chk rs)"

lemma map_of_fold_insert:
  "map_of (fold (\<lambda>e. map_insert (f e) (g e)) es h) k = Some l \<Longrightarrow>
   map_of h k = Some l \<or> (\<exists>e \<in> set es. f e = k \<and> g e = l)"
  by (induction es arbitrary: h) (force split: if_splits)+

lemma keys_fold_insert:
  "fst ` set (fold (\<lambda>e. map_insert (f e) (g e)) es h) = f ` set es \<union> fst ` set h"
  by (induction es arbitrary: h) auto

lemma distinct_fold_insert:
  "distinct (keys h) \<Longrightarrow> distinct (keys (fold (\<lambda>e. map_insert (f e) (g e)) es h))"
  by (induction es arbitrary: h) auto

lemma sorted_after:
  assumes "sorted_wrt (<) (map lsn_of (before @ ck # after))"
  shows "\<forall>r \<in> set before. lsn_of r < lsn_of ck" and "\<forall>r \<in> set after. lsn_of ck < lsn_of r"
  using assms by (auto simp: sorted_wrt_append)

lemma find_checkpoint:
  assumes "sorted_wrt (<) (map lsn_of (before @ ck # after))"
  shows "List.find (\<lambda>r. lsn_of r = lsn_of ck) (before @ ck # after) = Some ck"
proof -
  have "List.find (\<lambda>r. lsn_of r = lsn_of ck) (bs @ ck # after) = Some ck"
    if "\<forall>r \<in> set bs. lsn_of r < lsn_of ck" for bs
    using that by (induction bs) auto
  then show ?thesis using sorted_after(1) [OF assms] by blast
qed

lemma analysis_start:
  assumes srt: "sorted_wrt (<) (map lsn_of rs)" and ok: "checkpoint_ok chk rs" and top: "chk \<noteq> - 1"
  obtains dpt0 att0 after where "checkpoint_tables chk rs = (dpt0, att0, if chk = 0 then 0 else chk + 1)"
    and "analysis chk rs = fold analyze_record after (dpt0, att0)"
    and "after = filter (\<lambda>r. chk = 0 \<or> chk < lsn_of r) rs"
    and "\<forall>k l. map_of dpt0 k = Some l \<longrightarrow> chk \<noteq> 0 \<and> l \<le> chk" and "distinct (keys att0)"
    and "\<forall>t. t \<noteq> 0 \<longrightarrow> (t \<in> fst ` set att0 \<longleftrightarrow> chk \<noteq> 0 \<and>
      open_txn t (filter (\<lambda>r. lsn_of r < chk) rs))"
    and "\<forall>t. filter (touches t) rs =
      (if chk = 0 then [] else filter (touches t) (filter (\<lambda>r. lsn_of r < chk) rs)) @
      filter (touches t) after"
proof (cases "chk = 0")
  case True
  show ?thesis
    by (rule that [of "[]" "[]" rs]) (simp_all add: True checkpoint_tables_def analysis_def)
next
  case False
  then obtain before ck after d where rs: "rs = before @ ck # after" "lsn_of ck = chk"
    "parse_checkpoint ck = Some d" "rh_record_type (wr_header ck) = Checkpoint" "\<forall>e \<in> set (cd_dpt d). dp_rec_lsn e \<le> chk"
    "\<forall>t. t \<noteq> 0 \<longrightarrow> (t \<in> at_txn_id ` set (cd_att d) \<longleftrightarrow> open_txn t before)"
    using ok unfolding checkpoint_ok_def by blast
  let ?dpt = "fold (\<lambda>e. map_insert (dp_is_index e, dp_page_id e) (dp_rec_lsn e)) (cd_dpt d) []"
  let ?att = "fold (\<lambda>e. map_insert (at_txn_id e) (at_last_lsn e)) (cd_att d) []"
  have "List.find (\<lambda>r. lsn_of r = chk) rs = Some ck"
    using find_checkpoint srt rs(1,2) by blast
  then have tabs: "checkpoint_tables chk rs = (?dpt, ?att, chk + 1)"
    using False rs(3) by (simp add: checkpoint_tables_def word_gt_0)
  have le: "chk + 1 \<le> l \<longleftrightarrow> chk < l" for l
  proof -
    have "unat (- 1 :: u64) = 18446744073709551615"
      by (simp add: unsigned_minus_1_eq_mask mask_eq_exp_minus_1)
    moreover have "unat chk \<noteq> unat (- 1 :: u64)" using top word_unat_eq_iff by blast
    ultimately have "unat chk + unat (1 :: u64) < 18446744073709551616" using u64_lt [of chk] by simp
    then have "unat (chk + 1) = unat chk + 1" by (simp add: unat_u64_add)
    then show ?thesis by (simp add: word_le_nat_alt word_less_nat_alt Suc_le_eq)
  qed
  have b: "filter (\<lambda>r. lsn_of r < chk) rs = before" and a: "filter (\<lambda>r. chk < lsn_of r) rs = after"
    using sorted_after [of before ck after] srt rs(2)
    by (auto simp: rs(1) filter_id_conv filter_empty_conv)
  show ?thesis
  proof (rule that [of ?dpt ?att after])
    show "checkpoint_tables chk rs = (?dpt, ?att, if chk = 0 then 0 else chk + 1)"
      using tabs False by simp
    show "analysis chk rs = fold analyze_record after (?dpt, ?att)"
      using a by (simp add: analysis_def tabs le)
    show "after = filter (\<lambda>r. chk = 0 \<or> chk < lsn_of r) rs" using a False by simp
    show "\<forall>k l. map_of ?dpt k = Some l \<longrightarrow> chk \<noteq> 0 \<and> l \<le> chk"
      using map_of_fold_insert rs(5) False by fastforce
    show "distinct (keys ?att)" by (rule distinct_fold_insert) simp
    show "\<forall>t. t \<noteq> 0 \<longrightarrow> (t \<in> fst ` set ?att \<longleftrightarrow> chk \<noteq> 0 \<and> open_txn t (filter (\<lambda>r. lsn_of r < chk) rs))"
      using rs(6) False by (simp add: keys_fold_insert b)
    have "\<not> touches t ck" for t using rs(4) by (simp add: touches_def)
    then show "\<forall>t. filter (touches t) rs =
      (if chk = 0 then [] else filter (touches t) (filter (\<lambda>r. lsn_of r < chk) rs)) @
      filter (touches t) after"
      using False by (simp only: b) (simp add: rs(1))
  qed
qed

text \<open>The two results: the open transactions, and the changes to repeat.\<close>

lemma analysis_open:
  assumes "sorted_wrt (<) (map lsn_of rs)" and "checkpoint_ok chk rs" and "chk \<noteq> - 1"
    and ana: "analysis chk rs = (dpt, att)"
  shows "set (filter (\<lambda>t. t \<noteq> 0) (keys att)) = {t. t \<noteq> 0 \<and> open_txn t rs}"
    and "distinct (keys att)"
proof -
  obtain dpt0 att0 after where st: "analysis chk rs = fold analyze_record after (dpt0, att0)"
    "distinct (keys att0)"
    "\<forall>t. t \<noteq> 0 \<longrightarrow> (t \<in> fst ` set att0 \<longleftrightarrow> chk \<noteq> 0 \<and> open_txn t (filter (\<lambda>r. lsn_of r < chk) rs))"
    "\<forall>t. filter (touches t) rs =
      (if chk = 0 then [] else filter (touches t) (filter (\<lambda>r. lsn_of r < chk) rs)) @
      filter (touches t) after"
    using analysis_start [OF assms(1-3)] by metis
  have att: "att = snd (fold analyze_record after (dpt0, att0))" using st(1) ana by (metis snd_conv)
  have "t \<in> fst ` set att \<longleftrightarrow> open_txn t rs" if "t \<noteq> 0" for t
    using analyze_att [OF that, of after "(dpt0, att0)"] st(3,4) that
    by (auto simp: att open_txn_def)
  then show "set (filter (\<lambda>t. t \<noteq> 0) (keys att)) = {t. t \<noteq> 0 \<and> open_txn t rs}" by auto
  show "distinct (keys att)" using analyze_distinct [of "(dpt0, att0)" after] st(2) by (simp add: att)
qed

lemma analysis_due:
  assumes srt: "sorted_wrt (<) (map lsn_of rs)" and "checkpoint_ok chk rs" and "chk \<noteq> - 1"
    and ana: "analysis chk rs = (dpt, att)" and r: "r \<in> set rs" "is_change r"
  shows "(\<exists>l. map_of dpt (page_key r) = Some l \<and> l \<le> lsn_of r) \<longleftrightarrow> due chk (checkpoint_dpt chk rs) r"
proof -
  have "\<exists>dpt0 att0 after. checkpoint_dpt chk rs = dpt0 \<and>
    analysis chk rs = fold analyze_record after (dpt0, att0) \<and>
    after = filter (\<lambda>r. chk = 0 \<or> chk < lsn_of r) rs \<and>
    (\<forall>k l. map_of dpt0 k = Some l \<longrightarrow> chk \<noteq> 0 \<and> l \<le> chk)"
    by (rule analysis_start [OF assms(1-3)]) (auto simp: checkpoint_dpt_def)
  then obtain dpt0 att0 after where st: "checkpoint_dpt chk rs = dpt0"
    "analysis chk rs = fold analyze_record after (dpt0, att0)"
    "after = filter (\<lambda>r. chk = 0 \<or> chk < lsn_of r) rs"
    "\<forall>k l. map_of dpt0 k = Some l \<longrightarrow> chk \<noteq> 0 \<and> l \<le> chk"
    by blast
  have dpt: "dpt = fst (fold analyze_record after (dpt0, att0))" using st(2) ana by (metis fst_conv)
  have srt': "sorted_wrt (<) (map lsn_of after)"
    using srt by (simp add: st(3) sorted_wrt_map sorted_wrt_filter)
  note look = analyze_dpt [OF srt', of "(dpt0, att0)", folded dpt, simplified]
  show ?thesis
  proof
    assume "\<exists>l. map_of dpt (page_key r) = Some l \<and> l \<le> lsn_of r"
    then show "due chk (checkpoint_dpt chk rs) r"
      unfolding look by (auto simp: due_def st(1,3) intro: less_le_trans)
  next
    assume d: "due chk (checkpoint_dpt chk rs) r"
    show "\<exists>l. map_of dpt (page_key r) = Some l \<and> l \<le> lsn_of r"
    proof (cases "map_of dpt0 (page_key r)")
      case (Some l)
      then have "chk \<noteq> 0 \<and> l \<le> chk" using st(4) by blast
      then have "l \<le> lsn_of r" using d Some st(1) by (auto simp: due_def)
      then show ?thesis unfolding look using Some by blast
    next
      case None
      let ?on = "\<lambda>q. is_change q \<and> page_key q = page_key r"
      let ?ls = "lsn_of ` {q \<in> set after. ?on q}"
      have in_after: "r \<in> {q \<in> set after. ?on q}" using d r None by (auto simp: due_def st(1,3))
      then have "Min ?ls \<in> ?ls" by (intro Min_in) auto
      then obtain q where "q \<in> set after" "?on q" "lsn_of q = Min ?ls" by auto
      moreover have "\<forall>p \<in> set after. ?on p \<longrightarrow> Min ?ls \<le> lsn_of p" by auto
      moreover have "Min ?ls \<le> lsn_of r" using in_after by (intro Min_le) auto
      ultimately show ?thesis unfolding look using None by blast
    qed
  qed
qed

lemma analysis_no_checkpoint: "analysis 0 rs = fold analyze_record rs ([], [])"
  by (simp add: analysis_def checkpoint_tables_def)

text \<open>
  \<open>fuzzy_checkpoint\<close> writes a checkpoint that tells the truth, when the transaction table of the log is the
  set of open transactions and the recovery LSNs of the pools are LSNs given out so far.
\<close>

definition pool_dpt :: "pager \<Rightarrow> dirty_page_entry list" where
  "pool_dpt s =
     map (\<lambda>(i, l). \<lparr>dp_is_index = True, dp_page_id = i, dp_rec_lsn = l\<rparr>)
       (dirty_page_table (pf_pool (p_index s))) @
     map (\<lambda>(i, l). \<lparr>dp_is_index = False, dp_page_id = i, dp_rec_lsn = l\<rparr>)
       (dirty_page_table (pf_pool (p_heap s)))"

lemma fuzzy_checkpoint_ok:
  assumes holds: "wal_holds (p_wal s) rs"
    and room: "room_for (length (checkpoint_payload (pool_dpt s) att)) (inner (p_wal s))"
    and att: "att = active_transaction_table (inner (p_wal s))"
    and small: "length (pool_dpt s) < 4294967296" "length att < 4294967296"
    and lsns: "\<forall>e \<in> set (pool_dpt s). dp_rec_lsn e \<le> next_lsn (wal_hdr (inner (p_wal s)))"
    and txns: "\<forall>t. t \<noteq> 0 \<longrightarrow> (t \<in> fst ` set (active_txns (inner (p_wal s))) \<longleftrightarrow> open_txn t rs)"
  shows "\<exists>w r. fuzzy_checkpoint s = (Inr (lsn_of r), s\<lparr>p_wal := w\<rparr>) \<and>
    wal_rep (inner w) (rs @ [r]) [] \<and> checkpoint_ok (lsn_of r) (rs @ [r]) \<and>
    last_checkpoint_lsn (wal_hdr (inner w)) = lsn_of r \<and>
    lsn_of r = next_lsn (wal_hdr (inner (p_wal s))) \<and>
    next_lsn (wal_hdr (inner w)) = next_lsn (wal_hdr (inner (p_wal s))) + 1 \<and>
    rh_record_type (wr_header r) = Checkpoint \<and>
    wr_payload r = checkpoint_payload (pool_dpt s) att \<and>
    parse_checkpoint r = Some \<lparr>cd_dpt = pool_dpt s, cd_att = att\<rparr>"
proof -
  obtain rs1 rs2 where rep: "wal_rep (inner (p_wal s)) rs1 rs2" "rs = rs1 @ rs2"
    using holds by (auto simp: wal_holds_def)
  let ?pl = "checkpoint_payload (pool_dpt s) att"
  let ?r = "new_record (inner (p_wal s)) 0 Checkpoint 0 False 0 ?pl"
  obtain w' where w': "write_checkpoint (pool_dpt s) att (inner (p_wal s)) = (Inr (lsn_of ?r), w')"
    "wal_rep w' (rs @ [?r]) []" "last_checkpoint_lsn (wal_hdr w') = lsn_of ?r"
    "next_lsn (wal_hdr w') = next_lsn (wal_hdr (inner (p_wal s))) + 1"
    using write_checkpoint_rep [OF rep(1) room refl] rep(2) by auto
  have "with_inner (write_checkpoint (pool_dpt s) att) (p_wal s) =
      (Inr (lsn_of ?r), (p_wal s)\<lparr>inner := w', pub_flushed_lsn := flushed_lsn w'\<rparr>)"
    using w'(1) by (simp add: with_inner_def)
  then have "fuzzy_checkpoint s = (Inr (lsn_of ?r), s\<lparr>p_wal := (p_wal s)\<lparr>inner := w', pub_flushed_lsn := flushed_lsn w'\<rparr>\<rparr>)"
    using on_log_run by (simp add: fuzzy_checkpoint_def andthen_def run_simps pool_dpt_def att)
  moreover have parse: "parse_checkpoint ?r = Some \<lparr>cd_dpt = pool_dpt s, cd_att = att\<rparr>"
    by (rule parse_checkpoint_payload) (simp_all add: small)
  moreover have "at_txn_id ` set att = fst ` set (active_txns (inner (p_wal s)))"
    by (force simp: att active_transaction_table_def)
  then have "checkpoint_ok (lsn_of ?r) (rs @ [?r])"
    unfolding checkpoint_ok_def using lsns txns parse
    by (intro disjI2 exI [of _ rs] exI [of _ ?r] exI [of _ "[]"]) auto
  ultimately show ?thesis
    using w'(2-4)
    by (intro exI [of _ "(p_wal s)\<lparr>inner := w', pub_flushed_lsn := flushed_lsn w'\<rparr>"] exI [of _ ?r]) simp
qed

end
