(* ===== verification/Recovery_Spec.thy ===== *)
theory Recovery_Spec
  imports Recovery_Analysis
begin

text \<open>
  What recovery achieves after a crash, with or without a checkpoint: without losers the contents are
  those of the whole log, whichever pages had reached the disk; a loser at the end of the log leaves
  no trace.
\<close>

section \<open>Redo\<close>

lemma fold_min_le: "fold min ls (l :: u64) \<le> l \<and> (\<forall>x \<in> set ls. fold min ls l \<le> x)"
proof (induction ls arbitrary: l)
  case (Cons a ls)
  have "fold min ls (min a l) \<le> min a l" "\<forall>x \<in> set ls. fold min ls (min a l) \<le> x"
    using Cons [of "min a l"] by simp_all
  then show ?case by auto
qed simp

lemma min_rec_lsn_le: "map_of dpt k = Some l \<Longrightarrow> min_rec_lsn chk dpt \<le> l"
proof -
  assume "map_of dpt k = Some l"
  then have "l \<in> set (map snd dpt)" by (force dest: map_of_SomeD)
  then show ?thesis
    using fold_min_le by (cases "map snd dpt") (auto simp: min_rec_lsn_def)
qed


text \<open>All changes a log describes.\<close>

definition record_change :: "wal_record \<Rightarrow> change option" where
  "record_change r =
     (if is_change r
      then map_option (\<lambda>(off, _, redo). (page_key r, (unat off, redo))) (parse_update r) else None)"

definition log_changes :: "wal_record list \<Rightarrow> change list" where
  "log_changes rs = List.map_filter record_change rs"

lemma in_log_changes: "c \<in> set (log_changes rs) \<longleftrightarrow> (\<exists>r \<in> set rs. record_change r = Some c)"
  by (induction rs) (auto simp: log_changes_def map_filter_Cons List.map_filter_simps(2) split: option.splits)

lemma map_filter_filter:
  "(\<And>x. x \<in> set xs \<Longrightarrow> f x \<noteq> None \<Longrightarrow> P x) \<Longrightarrow>
   List.map_filter f (filter P xs) = List.map_filter f xs"
  by (induction xs) (auto simp: List.map_filter_def split: option.splits)

lemma map_filter_cong': "(\<And>x. x \<in> set xs \<Longrightarrow> f x = g x) \<Longrightarrow> List.map_filter f xs = List.map_filter g xs"
  by (induction xs) (auto simp: List.map_filter_def)

lemma map_filter_append: "List.map_filter f (xs @ ys) = List.map_filter f xs @ List.map_filter f ys"
  by (simp add: List.map_filter_def)

lemma map_filter_restrict:
  "List.map_filter f (filter P xs) = List.map_filter (\<lambda>x. if P x then f x else None) xs"
  by (induction xs) (simp_all add: map_filter_Cons List.map_filter_def)

lemma redo_due:
  assumes "sorted_wrt (<) (map lsn_of rs)" and "checkpoint_ok chk rs" and "chk \<noteq> - 1"
    and "analysis chk rs = (dpt, att)"
  shows "redo_changes dpt (filter (\<lambda>r. min_rec_lsn chk dpt \<le> lsn_of r) rs) =
    log_changes (filter (due chk (checkpoint_dpt chk rs)) rs)"
proof -
  let ?due = "due chk (checkpoint_dpt chk rs)"
  have same: "redo_change dpt r = (if ?due r then record_change r else None)" if r: "r \<in> set rs" for r
  proof (cases "is_change r")
    case True
    show ?thesis
      using analysis_due [OF assms r True] True
      by (auto simp: redo_change_def redo_target_def record_change_def is_change_def
          split: option.splits)
  qed (auto simp: redo_change_def redo_target_def record_change_def is_change_def)
  have "min_rec_lsn chk dpt \<le> lsn_of r" if r: "r \<in> set rs" and s: "redo_change dpt r \<noteq> None" for r
  proof -
    obtain l where "map_of dpt (page_key r) = Some l" "l \<le> lsn_of r"
      using s by (auto simp: redo_change_def redo_target_def split: if_splits option.splits)
    then show ?thesis using min_rec_lsn_le by (metis order_trans)
  qed
  then have "redo_changes dpt (filter (\<lambda>r. min_rec_lsn chk dpt \<le> lsn_of r) rs) = redo_changes dpt rs"
    unfolding redo_changes_def by (rule map_filter_filter)
  also have "\<dots> = log_changes (filter ?due rs)"
    unfolding redo_changes_def log_changes_def map_filter_restrict
    by (rule map_filter_cong') (rule same)
  finally show ?thesis .
qed


section \<open>Undo\<close>

text \<open>The update records of a transaction, with redo and undo ranges.\<close>

definition update_ranges :: "wal_record \<Rightarrow> (change \<times> range) option" where
  "update_ranges r =
     (if rh_record_type (wr_header r) = Update
      then map_option (\<lambda>(off, old, new). ((page_key r, (unat off, new)), (unat off, old))) (parse_update r)
      else None)"

lemma map_filter_rev: "List.map_filter f (rev xs) = rev (List.map_filter f xs)"
  by (induction xs) (simp_all add: map_filter_append map_filter_Cons List.map_filter_def split: option.split)

lemma map_filter_map: "List.map_filter (\<lambda>x. map_option g (f x)) xs = map g (List.map_filter f xs)"
  by (induction xs) (auto simp: map_filter_Cons List.map_filter_def split: option.split)

lemma undo_everything:
  assumes winners: "\<forall>r \<in> set ws. rh_txn_id (wr_header r) \<noteq> t"
    and loser: "\<forall>r \<in> set ls. rh_record_type (wr_header r) = Checkpoint \<or>
      rh_txn_id (wr_header r) = t \<and> rh_record_type (wr_header r) \<noteq> Clr"
  shows "undo_changes [t] (rev (ws @ ls)) =
      map (\<lambda>((k, a), u). (k, u)) (rev (List.map_filter update_ranges ls))"
    and "log_changes ls = map fst (List.map_filter update_ranges ls)"
proof -
  have none: "undo_change [t] r = None" if "r \<in> set (rev ws)" for r
    using winners that by (auto simp: undo_change_def undo_target_def)
  have "undo_changes [t] (rev ws) = []"
    unfolding undo_changes_def using map_filter_cong' [OF none, of "rev ws"] by (simp add: List.map_filter_def)
  moreover have "undo_changes [t] (rev ls) =
      List.map_filter (\<lambda>r. map_option (\<lambda>((k, a), u). (k, u)) (update_ranges r)) (rev ls)"
    unfolding undo_changes_def
  proof (rule map_filter_cong')
    fix r assume "r \<in> set (rev ls)"
    then show "undo_change [t] r = map_option (\<lambda>((k, a), u). (k, u)) (update_ranges r)"
      using loser by (auto simp: undo_change_def undo_target_def update_ranges_def split: option.splits)
  qed
  ultimately show "undo_changes [t] (rev (ws @ ls)) =
      map (\<lambda>((k, a), u). (k, u)) (rev (List.map_filter update_ranges ls))"
    by (simp add: undo_changes_def map_filter_append map_filter_map map_filter_rev)
  have "log_changes ls = List.map_filter (\<lambda>r. map_option fst (update_ranges r)) ls"
    unfolding log_changes_def
  proof (rule map_filter_cong')
    fix r assume "r \<in> set ls"
    then show "record_change r = map_option fst (update_ranges r)"
      using loser
      by (cases "parse_update r") (auto simp: record_change_def is_change_def update_ranges_def)
  qed
  then show "log_changes ls = map fst (List.map_filter update_ranges ls)" by (simp add: map_filter_map)
qed



section \<open>Recovery\<close>

text \<open>
  The state a crash leaves, as it is reopened. The log holds \<open>rs\<close>, every change lies in a page, and the
  header names no checkpoint or one that tells the truth (\<open>checkpoint_ok\<close>). Every page on disk is one of the
  versions the log leads through from \<open>c0\<close>, and not one from before the changes that a checkpoint
  lets the redo pass skip; such a page exists.
\<close>

abbreviation crash_checkpoint :: "pager \<Rightarrow> u64" where
  "crash_checkpoint s \<equiv> last_checkpoint_lsn (wal_hdr (inner (p_wal s)))"

definition to_redo :: "pager \<Rightarrow> wal_record list \<Rightarrow> wal_record \<Rightarrow> bool" where
  "to_redo s rs = due (crash_checkpoint s) (checkpoint_dpt (crash_checkpoint s) rs)"

definition crashed :: "pager \<Rightarrow> wal_record list \<Rightarrow> contents \<Rightarrow> bool" where
  "crashed s rs c0 \<longleftrightarrow> pager_good s \<and> wal_rep (inner (p_wal s)) rs [] \<and>
     checkpoint_ok (crash_checkpoint s) rs \<and>
     (\<forall>c \<in> set (log_changes rs). change_ok c \<and> page_room (fst c)) \<and> sized c0 \<and>
     (\<forall>k. \<exists>n. contents s k = replay (log_changes (take n rs)) c0 k \<and>
       (\<forall>r \<in> set (drop n rs). is_change r \<and> page_key r = k \<longrightarrow> to_redo s rs r)) \<and>
     (\<forall>r \<in> set rs. is_change r \<and> \<not> to_redo s rs r \<longrightarrow> p_view s (page_key r) \<noteq> None)"

lemma crash_checkpoint_bound:
  assumes "wal_rep (inner (p_wal s)) rs []" and "checkpoint_ok (crash_checkpoint s) rs"
  shows "crash_checkpoint s \<noteq> - 1"
proof (cases "crash_checkpoint s = 0")
  case False
  then obtain ck where "ck \<in> set rs" "lsn_of ck = crash_checkpoint s"
    using assms(2) unfolding checkpoint_ok_def by force
  moreover have "\<forall>r \<in> set rs. lsn_of r < next_lsn (wal_hdr (inner (p_wal s)))"
    using assms(1) by (simp add: wal_rep_def points_at_def)
  ultimately have "crash_checkpoint s < next_lsn (wal_hdr (inner (p_wal s)))" by fastforce
  then show ?thesis using word_order.extremum_strict by fastforce
qed simp

text \<open>On one page: what is repeated is the end of the changes of the page.\<close>

lemma split_up:
  "sorted_wrt (\<lambda>a b. P a \<longrightarrow> P b) xs \<Longrightarrow> filter (\<lambda>x. \<not> P x) xs @ filter P xs = xs"
proof (induction xs)
  case (Cons x xs)
  show ?case
  proof (cases "P x")
    case True
    then have "filter (\<lambda>x. \<not> P x) xs = []" using Cons.prems by (auto simp: filter_empty_conv)
    then show ?thesis using True Cons by simp
  qed (use Cons in simp)
qed simp

abbreviation page_puts :: "bool \<times> u64 \<Rightarrow> wal_record list \<Rightarrow> range list" where
  "page_puts k rs \<equiv> on_page k (log_changes rs)"

lemma page_puts_append: "page_puts k (xs @ ys) = page_puts k xs @ page_puts k ys"
  by (simp add: log_changes_def map_filter_append on_page_def)

lemma page_puts_filter:
  assumes "\<forall>r \<in> set rs. is_change r \<and> page_key r = k \<longrightarrow> P r"
  shows "page_puts k (filter P rs) = page_puts k rs"
  using assms
proof (induction rs)
  case (Cons r rs)
  have "P r \<or> page_puts k [r] = []"
    using Cons.prems
    by (auto simp: log_changes_def List.map_filter_def record_change_def on_page_def split: option.splits)
  moreover have "page_puts k (r # rs) = page_puts k [r] @ page_puts k rs"
    "page_puts k (r # filter P rs) = page_puts k [r] @ page_puts k (filter P rs)"
    using page_puts_append [of k "[r]" rs] page_puts_append [of k "[r]" "filter P rs"] by simp_all
  moreover have "page_puts k (filter P rs) = page_puts k rs" using Cons by simp
  ultimately show ?case by (cases "P r") simp_all
qed simp

lemma redo_due_contents:
  assumes c: "crashed s rs c0"
  shows "replay (log_changes (filter (to_redo s rs) rs)) (contents s) = replay (log_changes rs) c0"
proof
  fix k
  let ?P = "to_redo s rs" and ?on = "\<lambda>r. is_change r \<and> page_key r = k"
  obtain n where n: "contents s k = replay (log_changes (take n rs)) c0 k"
    "\<forall>r \<in> set (drop n rs). is_change r \<and> page_key r = k \<longrightarrow> ?P r"
    using c unfolding crashed_def by blast
  define xs where "xs = filter ?on (take n rs)"
  define old where "old = page_puts k (filter (\<lambda>r. \<not> ?P r) xs)"
  define done_again where "done_again = page_puts k (filter ?P xs)"
  define rest where "rest = page_puts k (drop n rs)"
  have "sorted_wrt (<) (map lsn_of rs)" using c by (simp add: crashed_def wal_rep_def)
  then have "sorted_wrt (\<lambda>a b. lsn_of a < lsn_of b) xs"
    unfolding xs_def sorted_wrt_map by (intro sorted_wrt_filter sorted_wrt_take)
  then have "sorted_wrt (\<lambda>a b. ?P a \<longrightarrow> ?P b) xs"
  proof (rule sorted_wrt_mono_rel [rotated])
    fix a b assume "a \<in> set xs" "b \<in> set xs" "lsn_of a < lsn_of b"
    then show "?P a \<longrightarrow> ?P b" by (auto simp: xs_def to_redo_def due_def)
  qed
  from split_up [OF this] have "page_puts k xs = old @ done_again"
    by (simp add: old_def done_again_def flip: page_puts_append)
  moreover have "page_puts k xs = page_puts k (take n rs)"
    unfolding xs_def by (rule page_puts_filter) simp
  ultimately have before: "page_puts k (take n rs) = old @ done_again" by simp
  have "page_puts k (filter ?P (take n rs)) = page_puts k (filter ?on (filter ?P (take n rs)))"
    by (rule page_puts_filter [symmetric]) simp
  also have "\<dots> = done_again"
    unfolding done_again_def xs_def filter_filter by (simp only: conj_commute)
  finally have again: "page_puts k (filter ?P rs) = done_again @ rest"
    using page_puts_filter [OF n(2)] page_puts_append [of k "filter ?P (take n rs)" "filter ?P (drop n rs)"]
    by (simp add: rest_def flip: filter_append)
  have all: "page_puts k rs = old @ done_again @ rest"
    using page_puts_append [of k "take n rs" "drop n rs"] before by (simp add: rest_def)
  have ok: "\<forall>a \<in> set (page_puts k rs). in_page (length (c0 k)) a"
    using c on_page_ok [of "log_changes rs"] by (auto simp: crashed_def sizedD)
  then have len: "length (fold put old (c0 k)) = length (c0 k)"
    by (intro length_puts) (simp add: all)
  have "fold put (done_again @ rest) (fold put done_again (fold put old (c0 k))) =
      fold put (done_again @ rest) (fold put old (c0 k))"
    using ok by (intro puts_from_stale) (simp_all add: len all)
  then show "replay (log_changes (filter ?P rs)) (contents s) k = replay (log_changes rs) c0 k"
    by (simp add: replay_page again all n(1) before)
qed

lemma recover_crashed:
  assumes c: "crashed s rs c0" and ana: "analysis (crash_checkpoint s) rs = (dpt, att)"
    and losers: "losers = filter (\<lambda>t. t \<noteq> 0) (keys att)"
    and undos: "undos = (if losers = [] then [] else undo_changes losers (rev rs))"
      "\<forall>c \<in> set undos. change_ok c \<and> fst c \<in> fst ` set (log_changes rs)"
    and room: "wal_room (length undos + length losers) (p_wal s)"
  shows "\<exists>s'. recover s = (Inr \<lparr>checkpoint_lsn = crash_checkpoint s,
        redone_records = length (log_changes (filter (to_redo s rs) rs)),
        undone_records = length undos, active_txn_ids = sort losers\<rparr>, s') \<and> pager_good s' \<and>
    contents s' = replay undos (replay (log_changes rs) c0)"
proof -
  have srt: "sorted_wrt (<) (map lsn_of rs)" and good: "pager_good s"
    and rep: "wal_rep (inner (p_wal s)) rs []" and chk: "checkpoint_ok (crash_checkpoint s) rs"
    using c by (simp_all add: crashed_def wal_rep_def)
  let ?redos = "log_changes (filter (to_redo s rs) rs)"
  note redo = redo_due [OF srt chk crash_checkpoint_bound [OF rep chk] ana, folded to_redo_def]
  have sub: "set ?redos \<subseteq> set (log_changes rs)" by (auto simp: in_log_changes)
  have pages: "fst c \<in> fst ` set ?redos \<or> p_view s (fst c) \<noteq> None"
    if in_log: "fst c \<in> fst ` set (log_changes rs)" for c :: change
  proof -
    obtain r d where r: "r \<in> set rs" "record_change r = Some d" "fst d = fst c"
      using in_log by (auto simp: in_log_changes)
    then have key: "is_change r" "page_key r = fst c"
      by (auto simp: record_change_def split: if_splits)
    show ?thesis
    proof (cases "to_redo s rs r")
      case True
      then have "d \<in> set ?redos" using r(1,2) by (auto simp: in_log_changes)
      then show ?thesis using r(3) by (metis imageI)
    next
      case False
      then show ?thesis using c r(1) key by (auto simp: crashed_def)
    qed
  qed
  have "\<forall>c \<in> set ?redos. change_ok c \<and> page_room (fst c)" using c sub by (auto simp: crashed_def)
  moreover have "\<forall>c \<in> set undos. change_ok c \<and> (fst c \<in> fst ` set ?redos \<or> p_view s (fst c) \<noteq> None)"
    using undos(2) pages by blast
  ultimately show ?thesis
    using recover_run [OF good rep refl ana losers redo [symmetric] _ undos(1) _ room]
    by (simp add: redo_due_contents [OF c])
qed

end
