(* ===== verification/Recovery_Properties.thy ===== *)
theory Recovery_Properties
  imports Recovery_Spec Store_Properties
begin

text \<open>
  The properties of the pager's logging and of crash recovery.
\<close>

section \<open>Logging page differences\<close>

text \<open>A pager over an index file of one page, an empty heap file and a given log.\<close>

definition one_page_pager :: "bytes \<Rightarrow> wal \<Rightarrow> pager" where
  "one_page_pager p w = \<lparr>p_index = index_open p 10, p_heap = heap_open [] 10, p_wal = w\<rparr>"

lemma one_page_pager:
  assumes "wal_holds w rs" and "length p = 4096"
  shows "pager_good (one_page_pager p w)" and "p_view (one_page_pager p w) (True, 0) = Some p"
    and "pool_dpt (one_page_pager p w) = []"
proof -
  have "store_ok 8192 (heap_open [] 10)" using store_new_ok(1) [of "[]" 0 8192 10] by (simp add: heap_open_def)
  moreover note i = store_new_ok [of p 1 4096 10, folded index_open_def, simplified, OF assms(2)]
  ultimately show "pager_good (one_page_pager p w)"
    using assms by (auto simp: pager_good_def one_page_pager_def store_good_def index_open_def)
  show "p_view (one_page_pager p w) (True, 0) = Some p"
    using store_new_ok(2) [of p 1 4096 10] assms(2)
    by (simp add: p_view_def p_index_view_def one_page_pager_def index_open_def disk_page_def slice_def)
  show "pool_dpt (one_page_pager p w) = []"
    by (simp add: pool_dpt_def dirty_page_table_def one_page_pager_def index_open_def heap_open_def
        store_new_def pool_new_def)
qed

lemma fresh_log_holds: "wal_new [] = Inr w \<Longrightarrow> wal_holds w []"
  using wal_new_fresh unfolding wal_holds_def by auto

lemma fresh_log_room:
  assumes "wal_new [] = Inr w" and "n < 1000000"
  shows "wal_room n w"
proof -
  have "wal_rep (inner w) [] []" "next_lsn (wal_hdr (inner w)) = 1"
    using wal_new_fresh assms(1) by auto
  then show ?thesis
    using assms(2) by (simp add: wal_room_def wal_rep_def points_at_def last_off_def last_len_def)
qed

text \<open>C25: \<open>page_diff\<close> finds the smallest byte range in which two page images differ: \<open>None\<close> only for equal
images, else both ends of the range differ, nothing outside does, and copying the range of one image
into the other turns it into that image.\<close>

theorem page_diff_minimal:
  assumes "length old = length new" and "length old < 65536"
  shows "if old = new then page_diff old new = Inr None
    else \<exists>s e. page_diff old new = Inr (Some (of_nat s, s, e)) \<and> s < e \<and> e \<le> length old \<and>
      old ! s \<noteq> new ! s \<and> old ! (e - 1) \<noteq> new ! (e - 1) \<and>
      take s old = take s new \<and> drop e old = drop e new \<and>
      write_at s (slice new s e) old = new \<and> write_at s (slice old s e) new = old"
  using assms
proof (cases rule: page_diff_cases)
  case (range s e)
  then show ?thesis using write_difference [OF assms(1) range(2,3) range(7,8)] by auto
qed simp

lemma page_diff_minimal_witness:
  "\<exists>s e. page_diff [1, 2, 3, 4] [1, 9, 3, 8] = Inr (Some (of_nat s, s, e)) \<and> s < e"
  using page_diff_minimal [of "[1, 2, 3, 4]" "[1, 9, 3, 8]"] by auto

text \<open>Logging the change of an index page appends nothing when the page did not change, and else
exactly one update record of the transaction for that page, whose redo range turns the old image
into the new one and whose undo range turns the new one back into the old one; the pages a client
sees do not change.\<close>

theorem index_diff_logged:
  assumes "pager_good s" and "wal_room (Suc n) (p_wal s)" and "length old = 4096"
    and "length new = 4096" and "wal_holds (p_wal s) rs"
  shows "\<exists>s' res new_recs. log_index_diff t i old new s = (Inr res, s') \<and> pager_good s' \<and>
    p_index_view s' = p_index_view s \<and> p_heap_view s' = p_heap_view s \<and>
    wal_holds (p_wal s') (rs @ new_recs) \<and>
    (if old = new then res = None \<and> new_recs = []
     else \<exists>r off undo redo. new_recs = [r] \<and> res = Some (lsn_of r) \<and>
       rh_record_type (wr_header r) = Update \<and> rh_txn_id (wr_header r) = t \<and>
       page_key r = (True, i) \<and> parse_update r = Some (off, undo, redo) \<and>
       write_at (unat off) redo old = new \<and> write_at (unat off) undo new = old)"
proof -
  obtain s' res recs where 1: "log_index_diff t i old new s = (Inr res, s')" "logged recs s s'"
    "if old = new then res = None \<and> recs = [] else \<exists>rec. res = Some (lsn_of rec) \<and> recs = [rec] \<and>
      update_of True t i old new rec"
    using log_index_diff_run [OF assms(1-4)] by blast
  have 2: "pager_good s'" "p_index_view s' = p_index_view s" "p_heap_view s' = p_heap_view s"
    "wal_holds (p_wal s') (rs @ recs)"
    using 1(2) assms(5) by (auto simp: logged_def log_grows_def)
  show ?thesis
  proof (cases "old = new")
    case True
    then show ?thesis using 1 2 by auto
  next
    case False
    then obtain r where r: "res = Some (lsn_of r)" "recs = [r]" "update_of True t i old new r"
      using 1(3) by auto
    then show ?thesis
      using False 1(1) 2 unfolding update_of_def by (intro exI [of _ s'] exI [of _ res] exI [of _ recs]) auto
  qed
qed

lemma index_diff_logged_example:
  "\<exists>w s' r. wal_new [] = Inr w \<and>
    log_index_diff 7 0 (replicate 4096 0) (replicate 4096 1) (one_page_pager (replicate 4096 0) w) =
      (Inr (Some (lsn_of r)), s') \<and>
    wal_holds (p_wal s') [r] \<and> rh_txn_id (wr_header r) = 7"
proof -
  obtain w where w: "wal_new [] = Inr w" using wal_new_fresh by blast
  have ne: "replicate 4096 (0 :: u8) \<noteq> replicate 4096 1" by (simp add: replicate_eq_replicate)
  have room: "wal_room (Suc 0) (p_wal (one_page_pager (replicate 4096 0) w))" and
    holds: "wal_holds (p_wal (one_page_pager (replicate 4096 0) w)) []"
    using fresh_log_room [OF w] fresh_log_holds [OF w] by (simp_all add: one_page_pager_def)
  have good: "pager_good (one_page_pager (replicate 4096 0) w)"
    using one_page_pager(1) [OF fresh_log_holds [OF w]] by simp
  have len: "length (replicate 4096 (0 :: u8)) = 4096" "length (replicate 4096 (1 :: u8)) = 4096"
    by simp_all
  from index_diff_logged [OF good room len holds, of 7 0] ne w show ?thesis by fastforce
qed



section \<open>Crash recovery\<close>

text \<open>C26: The analysis of a log without checkpoint finds exactly the transactions to roll back: a
transaction other than 0 is in the table iff the log has records of it and the last of them is
neither a commit nor an abort record.\<close>

theorem analysis_finds_losers:
  assumes "analysis 0 rs = (dpt, att)" and "t \<noteq> 0"
  shows "t \<in> fst ` set att \<longleftrightarrow>
    (let own = filter (\<lambda>r. rh_txn_id (wr_header r) = t \<and> rh_record_type (wr_header r) \<noteq> Checkpoint) rs
     in own \<noteq> [] \<and> rh_record_type (wr_header (last own)) \<notin> {Commit, Abort})"
proof -
  have "att = snd (fold analyze_record rs ([], []))"
    using assms(1) by (simp add: analysis_no_checkpoint)
  then have "t \<in> fst ` set att \<longleftrightarrow> open_txn t rs"
    using analyze_att [OF assms(2), of rs "([], [])"] by (simp add: open_txn_def)
  then show ?thesis by (auto simp: open_txn_def touches_def [abs_def] ends_def Let_def)
qed

lemma analysis_finds_losers_witness:
  "\<exists>r dpt att. rh_record_type (wr_header r) = Begin \<and> analysis 0 [r] = (dpt, att) \<and>
    (7 \<in> fst ` set att)"
proof -
  let ?r = "\<lparr>wr_header = \<lparr>rh_lsn = 1, rh_prev_record_len = 0, rh_txn_id = 7, rh_record_type = Begin,
    rh_page_id = 0, rh_is_index = False, rh_payload_len = 0, rh_payload_page_offset = 0\<rparr>,
    wr_payload = []\<rparr>"
  obtain dpt att where a: "analysis 0 [?r] = (dpt, att)" by fastforce
  show ?thesis using analysis_finds_losers [OF a, of 7] a by (intro exI [of _ ?r]) (simp add: Let_def)
qed

lemma losers_crashed:
  assumes "crashed s rs c0" and "analysis (crash_checkpoint s) rs = (dpt, att)"
  shows "set (filter (\<lambda>t. t \<noteq> 0) (keys att)) = {t. t \<noteq> 0 \<and> open_txn t rs}" and "distinct (keys att)"
proof -
  have rep: "wal_rep (inner (p_wal s)) rs []" and chk: "checkpoint_ok (crash_checkpoint s) rs"
    using assms(1) by (simp_all add: crashed_def)
  then have "sorted_wrt (<) (map lsn_of rs)" by (simp add: wal_rep_def)
  from analysis_open [OF this chk crash_checkpoint_bound [OF rep chk] assms(2)]
  show "set (filter (\<lambda>t. t \<noteq> 0) (keys att)) = {t. t \<noteq> 0 \<and> open_txn t rs}" and "distinct (keys att)"
    by blast+
qed

lemma distinct_single: "distinct xs \<Longrightarrow> set xs = {t} \<Longrightarrow> xs = [t]"
  by (cases xs) (auto simp: subset_singleton_iff)


text \<open>C6: Undo: when the only open transaction \<open>t\<close> made all changes of the end \<open>ls\<close> of the log and none
before, recovery rolls it back: the contents afterwards are those after the changes of all other
transactions, as if \<open>t\<close> had never run. The records of \<open>t\<close> are no compensation records, so no earlier
recovery was cut short, and its update records hold the bytes that were overwritten, which is how the
pager logs them; the log has room for the rollback. Truthful checkpoints may lie anywhere in the log, also amid the changes of \<open>t\<close>.\<close>

theorem recovery_rolls_back_loser:
  assumes "crashed s (ws @ ls) c0" and "t \<noteq> 0"
    and "\<forall>u. u \<noteq> 0 \<longrightarrow> (open_txn u (ws @ ls) \<longleftrightarrow> u = t)"
    and "\<forall>r \<in> set ws. rh_txn_id (wr_header r) \<noteq> t"
    and "\<forall>r \<in> set ls. rh_record_type (wr_header r) = Checkpoint \<or>
      rh_txn_id (wr_header r) = t \<and> rh_record_type (wr_header r) \<noteq> Clr"
    and "undoable (List.map_filter update_ranges ls) (replay (log_changes ws) c0)"
    and "\<forall>r \<in> set ls. rh_record_type (wr_header r) = Update \<longrightarrow>
      (\<forall>off u d. parse_update r = Some (off, u, d) \<longrightarrow> length u = length d)"
    and "wal_room (length ls + 1) (p_wal s)"
  shows "\<exists>s' n. recover s = (Inr \<lparr>checkpoint_lsn = crash_checkpoint s,
      redone_records = length (log_changes (filter (to_redo s (ws @ ls)) (ws @ ls))),
      undone_records = n, active_txn_ids = [t]\<rparr>, s') \<and> pager_good s' \<and>
    contents s' = replay (log_changes ws) c0"
proof -
  let ?us = "List.map_filter update_ranges ls"
  let ?undos = "undo_changes [t] (rev (ws @ ls))"
  obtain dpt att where ana: "analysis (crash_checkpoint s) (ws @ ls) = (dpt, att)" by fastforce
  have losers: "filter (\<lambda>t. t \<noteq> 0) (keys att) = [t]"
    using losers_crashed [OF assms(1) ana] assms(2,3)
    by (intro distinct_single distinct_filter) auto
  note und = undo_everything [OF assms(4,5)]
  have lc: "log_changes (ws @ ls) = log_changes ws @ map fst ?us"
    using und(2) by (simp add: log_changes_def map_filter_append)
  have ok: "change_ok c" if "c \<in> set (log_changes (ws @ ls))" for c
    using assms(1) that by (simp add: crashed_def)
  have "change_ok c \<and> fst c \<in> fst ` set (log_changes (ws @ ls))" if "c \<in> set ?undos" for c
  proof -
    from that obtain k a u where c: "((k, a), u) \<in> set ?us" "c = (k, u)" using und(1) by auto
    then obtain r where r: "r \<in> set ls" "update_ranges r = Some ((k, a), u)"
      by (auto simp: List.map_filter_def)
    then have "length (snd u) = length (snd a)" "fst u = fst a"
      using assms(7) by (auto simp: update_ranges_def split: if_splits)
    moreover have in_log: "(k, a) \<in> set (log_changes (ws @ ls))" using c(1) lc by force
    ultimately show ?thesis
      using ok [OF in_log] c(2) by (cases a; cases u) (force simp: change_ok_def in_page_def)
  qed
  moreover have "wal_room (length ?undos + 1) (p_wal s)"
    using wal_room_mono [OF assms(8)] und(1) by (simp add: List.map_filter_def)
  ultimately obtain s' where "recover s = (Inr \<lparr>checkpoint_lsn = crash_checkpoint s,
      redone_records = length (log_changes (filter (to_redo s (ws @ ls)) (ws @ ls))),
      undone_records = length ?undos, active_txn_ids = sort [t]\<rparr>, s')" "pager_good s'"
    "contents s' = replay ?undos (replay (log_changes (ws @ ls)) c0)"
    using recover_crashed [OF assms(1) ana, of "[t]" ?undos] unfolding losers by force
  moreover have "replay ?undos (replay (log_changes (ws @ ls)) c0) = replay (log_changes ws) c0"
    using undo_replay [OF assms(6)] by (simp add: und(1) [simplified] lc)
  ultimately show ?thesis by auto
qed


text \<open>
  A state for the witnesses, built by logging an update, taking a checkpoint, and logging a second update
  of the same page and transaction. The page reached the disk after the first update only, so recovery
  starts from the checkpoint and repeats the second one.
\<close>

definition byte_update :: "u16 \<Rightarrow> u8 \<Rightarrow> bytes" where
  "byte_update off b = update_payload_serialize \<lparr>offset_in_page = off, undo_data = [0], redo_data = [b]\<rparr> []"

lemma length_byte_update [simp]: "length (byte_update off b) = 6"
  by (simp add: byte_update_def update_payload_serialize_def)

lemma byte_record:
  "parse_update (new_record w t Update 0 True off (byte_update off b)) = Some (off, [0], [b])"
  "page_key (new_record w t Update 0 True off (byte_update off b)) = (True, 0)"
  using parse_update_serialize [of _ "\<lparr>offset_in_page = off, undo_data = [0], redo_data = [b]\<rparr>"]
  by (simp_all add: new_record_def byte_update_def page_key_def)

lemma small_log_room:
  assumes "wal_rep w done pend" and "length (records_bytes (done @ pend)) < 1000"
    and "unat (next_lsn (wal_hdr w)) < 1000" and "n < 1000"
  shows "room_for n w"
proof -
  have "next_lsn (wal_hdr w) \<noteq> - 1" using assms(3) by (auto simp: unsigned_minus_1_eq_mask mask_eq_exp_minus_1)
  then show ?thesis
    using assms last_off_len [of "done @ pend"] by (simp add: room_for_def wal_rep_def points_at_def)
qed

lemma checkpoint_log:
  "\<exists>w r ck r2. wal_rep (inner w) [r, ck, r2] [] \<and> last_checkpoint_lsn (wal_hdr (inner w)) = 2 \<and>
     checkpoint_ok 2 [r, ck, r2] \<and> checkpoint_dpt 2 [r, ck, r2] = [] \<and> wal_room 4 w \<and>
     rh_record_type (wr_header ck) = Checkpoint \<and>
     (\<exists>v v2. r = new_record v t Update 0 True 30 (byte_update 30 9) \<and>
       r2 = new_record v2 t Update 0 True 31 (byte_update 31 8)) \<and>
     lsn_of r = 1 \<and> lsn_of ck = 2 \<and> lsn_of r2 = 3"
proof -
  obtain v where v: "wal_new [] = Inr v" "wal_rep (inner v) [] []" "next_lsn (wal_hdr (inner v)) = 1"
    "active_txns (inner v) = []"
    using wal_new_fresh by blast
  define r where "r = new_record (inner v) t Update 0 True 30 (byte_update 30 9)"
  have "room_for (length (byte_update 30 9)) (inner v)" using v(3) by (intro small_log_room [OF v(2)]) simp_all
  from tracked_record_rep [OF v(2) this r_def] obtain w1 d p where w1: "wal_rep w1 d (p @ [r])" "d @ p = []"
    "active_txns w1 = (if t \<noteq> 0 then [(t, 1)] else [])" "next_lsn (wal_hdr w1) = 2"
    using v(3,4) by (auto simp: r_def)
  let ?s = "one_page_pager (replicate 4096 0) (v\<lparr>inner := w1\<rparr>)"
  let ?att = "active_transaction_table w1"
  have holds: "wal_holds (p_wal ?s) [r]"
    using w1(1,2) by (force simp: wal_holds_def one_page_pager_def)
  have dpt: "pool_dpt ?s = []"
    using one_page_pager(3) [of "v\<lparr>inner := w1\<rparr>" "[r]"] holds by (simp add: one_page_pager_def)
  have att: "length ?att \<le> 1" using w1(3) by (simp add: active_transaction_table_def)
  have len: "length (checkpoint_payload [] ?att) \<le> 100"
    using att by (simp add: checkpoint_payload_def length_concat_entries)
  have wal: "inner (p_wal ?s) = w1" by (simp add: one_page_pager_def)
  have room: "room_for (length (checkpoint_payload (pool_dpt ?s) ?att)) (inner (p_wal ?s))"
    unfolding dpt wal using w1(2,4) len by (intro small_log_room [OF w1(1)]) (simp_all add: r_def)
  have txns: "\<forall>u. u \<noteq> 0 \<longrightarrow> (u \<in> fst ` set (active_txns (inner (p_wal ?s))) \<longleftrightarrow> open_txn u [r])"
    unfolding wal using w1(3) by (auto simp: open_txn_def touches_def ends_def r_def)
  have "?att = active_transaction_table (inner (p_wal ?s))" "length (pool_dpt ?s) < 4294967296"
    "length ?att < 4294967296" "\<forall>e \<in> set (pool_dpt ?s). dp_rec_lsn e \<le> next_lsn (wal_hdr (inner (p_wal ?s)))"
    using att by (simp_all add: wal dpt)
  from fuzzy_checkpoint_ok [OF holds room this txns, unfolded wal w1(4) dpt]
  obtain w2 :: wal and ck where "wal_rep (inner w2) ([r] @ [ck]) []" "checkpoint_ok (lsn_of ck) ([r] @ [ck])"
    "last_checkpoint_lsn (wal_hdr (inner w2)) = lsn_of ck" "lsn_of ck = 2"
    "next_lsn (wal_hdr (inner w2)) = 2 + 1" "rh_record_type (wr_header ck) = Checkpoint"
    "parse_checkpoint ck = Some \<lparr>cd_dpt = [], cd_att = ?att\<rparr>"
    "wr_payload ck = checkpoint_payload [] ?att"
    by blast
  then have w2: "wal_rep (inner w2) [r, ck] []" "checkpoint_ok 2 [r, ck]"
    "last_checkpoint_lsn (wal_hdr (inner w2)) = 2" "lsn_of ck = 2" "next_lsn (wal_hdr (inner w2)) = 3"
    "rh_record_type (wr_header ck) = Checkpoint" "parse_checkpoint ck = Some \<lparr>cd_dpt = [], cd_att = ?att\<rparr>"
    "wr_payload ck = checkpoint_payload [] ?att"
    by simp_all
  have short: "length (record_bytes ck) \<le> 136" using w2(8) len by (simp add: length_record_bytes)
  define r2 where "r2 = new_record (inner w2) t Update 0 True 31 (byte_update 31 8)"
  have "room_for (length (byte_update 31 8)) (inner w2)"
    using w2(5) short by (intro small_log_room [OF w2(1)]) (simp_all add: r_def)
  from write_raw_record_rep [OF w2(1) this r2_def] obtain w3 :: wal_inner and d3 p3 where
    w3: "wal_rep w3 d3 (p3 @ [r2])" "d3 @ p3 = [r, ck]" "last_checkpoint_lsn (wal_hdr w3) = 2"
      "next_lsn (wal_hdr w3) = 4"
    unfolding w2(3,5) by (fastforce split: if_splits)
  obtain w4 :: wal_inner where w4: "wal_rep w4 (d3 @ p3 @ [r2]) []" "wal_hdr w4 = wal_hdr w3"
    using wal_flush_all_rep [OF w3(1)] by auto
  have rs: "d3 @ p3 @ [r2] = [r, ck, r2]" using w3(2) by (simp flip: append_assoc)
  have lsns: "lsn_of r = 1" "lsn_of r2 = 3" using v(3) w2(5) by (simp_all add: r_def r2_def)
  have "checkpoint_ok 2 [r, ck, r2]"
    using checkpoint_ok_append [OF w2(2), of "[r2]"] by simp
  moreover have "checkpoint_dpt 2 [r, ck, r2] = []"
    using w2(4,7) lsns by (simp add: checkpoint_dpt_def checkpoint_tables_def)
  moreover have "wal_room 4 (v\<lparr>inner := w4\<rparr>)"
    using w4(1) [unfolded rs] w4(2) w3(4) short last_off_len [of "[r, ck, r2]"]
    by (simp add: wal_room_def wal_rep_def points_at_def r_def r2_def)
  ultimately show ?thesis
    using w4(1) w4(2) w3(3) w2(4,6) lsns unfolding rs
    by (intro exI [of _ "v\<lparr>inner := w4\<rparr>"] exI [of _ r] exI [of _ ck] exI [of _ r2]) (auto simp: r_def r2_def)
qed

lemma crashed_example:
  "\<exists>s r ck r2 c0. crashed s [r, ck, r2] c0 \<and> c0 (True, 0) = replicate 4096 0 \<and>
     contents s (True, 0) = write_at 30 [9] (replicate 4096 0) \<and>
     log_changes [r, ck, r2] = [((True, 0), (30, [9])), ((True, 0), (31, [8]))] \<and>
     filter (to_redo s [r, ck, r2]) [r, ck, r2] = [r2] \<and> log_changes [r2] = [((True, 0), (31, [8]))] \<and>
     List.map_filter update_ranges [r, ck, r2] =
       [(((True, 0), (30, [9])), (30, [0])), (((True, 0), (31, [8])), (31, [0]))] \<and>
     rh_txn_id (wr_header r) = t \<and> rh_txn_id (wr_header r2) = t \<and>
     rh_record_type (wr_header r) = Update \<and> rh_record_type (wr_header r2) = Update \<and>
     rh_record_type (wr_header ck) = Checkpoint \<and> crash_checkpoint s = 2 \<and>
     parse_update r = Some (30, [0], [9]) \<and> parse_update r2 = Some (31, [0], [8]) \<and> wal_room 4 (p_wal s)"
proof -
  obtain w r ck r2 v v2 where w: "wal_rep (inner w) [r, ck, r2] []"
    "last_checkpoint_lsn (wal_hdr (inner w)) = 2" "checkpoint_ok 2 [r, ck, r2]"
    "checkpoint_dpt 2 [r, ck, r2] = []" "wal_room 4 w"
    and ty: "rh_record_type (wr_header ck) = Checkpoint"
    and r: "r = new_record v t Update 0 True 30 (byte_update 30 9)"
    and r2: "r2 = new_record v2 t Update 0 True 31 (byte_update 31 8)"
    and lsns: "lsn_of r = 1" "lsn_of ck = 2" "lsn_of r2 = 3"
    using checkpoint_log [of t] by blast
  let ?zeros = "replicate 4096 (0 :: u8)"
  let ?s = "one_page_pager (write_at 30 [9] ?zeros) w" and ?rs = "[r, ck, r2]"
  let ?c0 = "(contents ?s)((True, 0) := ?zeros)"
  have "wal_holds w ?rs" unfolding wal_holds_def using w(1) by force
  from one_page_pager [OF this, of "write_at 30 [9] ?zeros"]
  have s: "pager_good ?s" "contents ?s (True, 0) = write_at 30 [9] ?zeros"
    "p_view ?s (True, 0) \<noteq> None"
    by (simp_all add: contents_def)
  have wal: "p_wal ?s = w" by (simp add: one_page_pager_def)
  have rec: "parse_update r = Some (30, [0], [9])" "page_key r = (True, 0)"
    "parse_update r2 = Some (31, [0], [8])" "page_key r2 = (True, 0)"
    "rh_record_type (wr_header r) = Update" "rh_record_type (wr_header r2) = Update"
    "rh_txn_id (wr_header r) = t" "rh_txn_id (wr_header r2) = t"
    unfolding r r2 by (simp_all add: byte_record)
  note logs = log_changes_def List.map_filter_simps record_change_def is_change_def
  have lc: "log_changes [r] = [((True, 0), (30, [9]))]" "log_changes [r2] = [((True, 0), (31, [8]))]"
    "log_changes ?rs = [((True, 0), (30, [9])), ((True, 0), (31, [8]))]"
    using rec ty by (simp_all add: logs)
  have redo: "to_redo ?s ?rs x \<longleftrightarrow> 2 < lsn_of x" for x
    by (simp add: to_redo_def wal w(2,4) due_def)
  have "\<exists>n. contents ?s k = replay (log_changes (take n ?rs)) ?c0 k \<and>
      (\<forall>x \<in> set (drop n ?rs). is_change x \<and> page_key x = k \<longrightarrow> to_redo ?s ?rs x)" for k
  proof (cases "k = (True, 0)")
    case True
    then show ?thesis
      using s(2) lc(1) lsns(3) ty by (intro exI [of _ 1]) (simp add: apply_change_def put_def redo is_change_def)
  next
    case False
    then show ?thesis using ty rec by (intro exI [of _ 0]) (simp add: logs)
  qed
  moreover have "sized ?c0" using sized_contents [OF s(1)] by (auto simp: sized_def page_size_def)
  ultimately have "crashed ?s ?rs ?c0"
    unfolding crashed_def redo wal w(2) using s w(1,3) lc(3) rec ty lsns
    by (auto simp: change_ok_def in_page_def page_size_def page_room_def is_change_def)
  moreover have "List.map_filter update_ranges ?rs =
       [(((True, 0), (30, [9])), (30, [0])), (((True, 0), (31, [8])), (31, [0]))]"
    using rec ty by (simp add: List.map_filter_simps update_ranges_def)
  moreover have "filter (to_redo ?s ?rs) ?rs = [r2]" using lsns by (simp add: redo)
  ultimately show ?thesis
    using s(2) lc rec ty w(2,5) wal by (intro exI [of _ ?s] exI [of _ r] exI [of _ ck] exI [of _ r2] exI [of _ ?c0]) simp
qed


lemma recovery_rolls_back_loser_witness:
  "\<exists>s s' rep. contents s (True, 0) = write_at 30 [9] (replicate 4096 0) \<and> recover s = (Inr rep, s') \<and>
    checkpoint_lsn rep = 2 \<and> active_txn_ids rep = [7] \<and> contents s' (True, 0) = replicate 4096 0"
proof -
  obtain s r ck r2 c0 where c: "crashed s [r, ck, r2] c0" "c0 (True, 0) = replicate 4096 0"
    "contents s (True, 0) = write_at 30 [9] (replicate 4096 0)"
    "List.map_filter update_ranges [r, ck, r2] =
      [(((True, 0), (30, [9])), (30, [0])), (((True, 0), (31, [8])), (31, [0]))]"
    "rh_txn_id (wr_header r) = 7" "rh_txn_id (wr_header r2) = 7" "rh_record_type (wr_header r) = Update"
    "rh_record_type (wr_header r2) = Update" "rh_record_type (wr_header ck) = Checkpoint"
    "crash_checkpoint s = 2" "parse_update r = Some (30, [0], [9])"
    "parse_update r2 = Some (31, [0], [8])" "wal_room 4 (p_wal s)"
    using crashed_example [of 7] by blast
  have "put (30, [0]) (put (30, [9]) (replicate 4096 (0 :: u8))) = replicate 4096 0"
    "put (31, [0]) (put (31, [8]) (put (30, [9]) (replicate 4096 (0 :: u8)))) =
      put (30, [9]) (replicate 4096 (0 :: u8))"
    by (rule nth_equalityI; auto simp: put_def nth_write_at nth_append)+
  then have undo: "undoable (List.map_filter update_ranges [r, ck, r2]) (replay (log_changes []) c0)"
    using c(2) unfolding c(4) by (simp add: log_changes_def List.map_filter_simps apply_change_def)
  have losers: "\<forall>u. u \<noteq> 0 \<longrightarrow> open_txn u ([] @ [r, ck, r2]) \<longleftrightarrow> u = 7"
    using c(5-9) by (auto simp: open_txn_def touches_def ends_def)
  have "\<forall>x \<in> set [r, ck, r2]. rh_record_type (wr_header x) = Update \<longrightarrow>
      (\<forall>off u d. parse_update x = Some (off, u, d) \<longrightarrow> length u = length d)"
    using c(9,11,12) by simp
  moreover have "crashed s ([] @ [r, ck, r2]) c0" "wal_room (length [r, ck, r2] + 1) (p_wal s)"
    using c(1,13) by (simp_all add: eval_nat_numeral)
  ultimately obtain s' n where "recover s = (Inr \<lparr>checkpoint_lsn = crash_checkpoint s, redone_records =
      length (log_changes (filter (to_redo s ([] @ [r, ck, r2])) ([] @ [r, ck, r2]))),
      undone_records = n, active_txn_ids = [7]\<rparr>, s')" "contents s' = replay (log_changes []) c0"
    using recovery_rolls_back_loser [of s "[]" "[r, ck, r2]" c0 7] losers undo c(5-9) by auto
  then show ?thesis
    using c(2,3,10) by (intro exI [of _ s] exI [of _ s']) (simp add: log_changes_def List.map_filter_simps)
qed

end
