(* ===== verification/Bplus_Tree.thy ===== *)
theory Bplus_Tree
  imports Pager
begin

text \<open>
  The B+ tree of \<open>bplus_tree.rs\<close>: the operations of \<open>BplusTree\<close> as state transformers on the root id
  and the pager. The lock of the tree makes every operation atomic, so an operation is one step.
  A \<open>Vec\<close> of page ids used as a stack is the list with the top first.
\<close>

section \<open>State\<close>

definition ORDER :: nat where
  "ORDER = (PAGE_SIZE - HEADER_SIZE) div (KEY_SIZE + PTR_SIZE + SLOT_SIZE)"

definition FANOUT :: nat where "FANOUT = ORDER + 1"

definition DEGREE :: nat where "DEGREE = FANOUT div 2"

lemma tree_consts: "ORDER = 203" "FANOUT = 204" "DEGREE = 102"
  by (simp_all add: ORDER_def FANOUT_def DEGREE_def)

record bplus_tree =
  root_id :: u64
  t_pager :: pager

definition on_pager :: "(pager, 'a) m \<Rightarrow> (bplus_tree, 'a) m" where
  "on_pager p = (\<lambda>t. case p (t_pager t) of (r, s) \<Rightarrow> (r, t\<lparr>t_pager := s\<rparr>))"

definition set_root :: "u64 \<Rightarrow> (bplus_tree, unit) m" where
  "set_root i = modify (\<lambda>t. t\<lparr>root_id := i\<rparr>)"

text \<open>Shorthands for the calls into the pager.\<close>

definition t_fetch :: "u64 \<Rightarrow> (bplus_tree, bytes) m" where
  "t_fetch i = on_pager (on_index (index_fetch i))"

definition t_with_page :: "u64 \<Rightarrow> (bytes, 'a) m \<Rightarrow> (bplus_tree, 'a) m" where
  "t_with_page i body = on_pager (on_index (index_with_page i body))"

definition t_allocate :: "page_kind \<Rightarrow> (bplus_tree, u64) m" where
  "t_allocate ty = on_pager (on_index (index_allocate ty))"

definition t_log_diff :: "u64 \<Rightarrow> u64 \<Rightarrow> bytes \<Rightarrow> bytes \<Rightarrow> (bplus_tree, unit) m" where
  "t_log_diff txn_id i old_data new_data =
     andthen (on_pager (log_index_diff txn_id i old_data new_data)) (\<lambda>_. ok ())"

text \<open>
  The two ways the code changes a page and logs the difference: the new bytes are taken from the
  guard, or fetched again after the guard is gone.
\<close>

definition rewrite_page :: "u64 \<Rightarrow> u64 \<Rightarrow> (bytes, 'a) m \<Rightarrow> (bplus_tree, 'a) m" where
  "rewrite_page txn_id i body =
     andthen (t_fetch i) (\<lambda>old_data.
     andthen (t_with_page i (andthen body (\<lambda>r. gets (\<lambda>page. (r, page))))) (\<lambda>(r, new_data).
     andthen (t_log_diff txn_id i old_data new_data) (\<lambda>_. ok r)))"

definition rewrite_page_refetch :: "u64 \<Rightarrow> u64 \<Rightarrow> (bytes, 'a) m \<Rightarrow> (bplus_tree, 'a) m" where
  "rewrite_page_refetch txn_id i body =
     andthen (t_fetch i) (\<lambda>old_data.
     andthen (t_with_page i body) (\<lambda>r.
     andthen (t_fetch i) (\<lambda>new_data.
     andthen (t_log_diff txn_id i old_data new_data) (\<lambda>_. ok r))))"

text \<open>Header and cells of a fetched page.\<close>

definition t_read :: "u64 \<Rightarrow> (bplus_tree, index_header \<times> cell list) m" where
  "t_read i =
     andthen (t_fetch i) (\<lambda>page.
     andthen (of_result (page_header page)) (\<lambda>hdr.
     andthen (of_result (get_cells page)) (\<lambda>cells. ok (hdr, cells))))"


section \<open>Searching\<close>

text \<open>
  \<open>slice::binary_search_by\<close> on the keys: \<open>Inr i\<close> is \<open>Ok(i)\<close>, the key is at \<open>i\<close>; \<open>Inl i\<close> is
  \<open>Err(i)\<close>, the key would be inserted at \<open>i\<close>.
\<close>

function bsearch_base :: "cell list \<Rightarrow> u64 \<Rightarrow> nat \<Rightarrow> nat \<Rightarrow> nat" where
  "bsearch_base cells key base n =
     (if 1 < n then
        let half = n div 2; mid = base + half
        in bsearch_base cells key (if key < c_key (cells ! mid) then base else mid) (n - half)
      else base)"
  by pat_completeness auto
termination by (relation "measure (\<lambda>(cells, key, base, n). n)") auto

declare bsearch_base.simps [simp del]

definition search_cells :: "u64 \<Rightarrow> cell list \<Rightarrow> nat + nat" where
  "search_cells key cells =
     (if cells = [] then Inl 0
      else
        let base = bsearch_base cells key 0 (length cells)
        in if c_key (cells ! base) = key then Inr base
           else Inl (base + (if c_key (cells ! base) < key then 1 else 0)))"

text \<open>The child at a position: a cell's pointer, which must be there, or the rightmost pointer.\<close>

definition child_at :: "cell list \<Rightarrow> index_header \<Rightarrow> nat \<Rightarrow> error + u64" where
  "child_at cells hdr i =
     (if i < length cells
      then case c_ptr (cells ! i) of None \<Rightarrow> Inl (Panic ''unwrap on None'') | Some p \<Rightarrow> Inr p
      else Inr (ih_ptr hdr))"

definition get_step :: "u64 \<Rightarrow> u64 \<Rightarrow> bytes \<Rightarrow> error + (u64 + u64)" where
  "get_step key page_id page =
     try_r (page_header page) (\<lambda>p_hdr.
     try_r (get_cells page) (\<lambda>cells.
     case search_cells key cells of
       Inr i \<Rightarrow>
         if is_leaf_level p_hdr
         then case h_ptr (cells ! i) of
                None \<Rightarrow> Inl (Err ''Couldn't find the header pointer'')
              | Some h \<Rightarrow> Inr (Inr (hp_index h))
         else try_r (child_at cells p_hdr (i + 1)) (\<lambda>c. Inr (Inl c))
     | Inl i \<Rightarrow>
         if is_leaf_level p_hdr then Inl (Err ''Entry not found'')
         else try_r (child_at cells p_hdr i) (\<lambda>c. Inr (Inl c))))"

text \<open>The fuel of a descent: a path of distinct pages is never longer.\<close>

definition tree_fuel :: "(bplus_tree, nat) m" where
  "tree_fuel = gets (\<lambda>t. unat (pf_next_id (p_index (t_pager t))) + 1)"

definition tree_get :: "u64 \<Rightarrow> u64 \<Rightarrow> (bplus_tree, bytes list) m" where
  "tree_get txn_id key =
     andthen (gets root_id) (\<lambda>root.
     andthen tree_fuel (\<lambda>n.
     andthen (iterate n (follow t_fetch (\<lambda>x. x) (get_step key)) root) (\<lambda>heap_id.
     on_pager (on_heap (get_record heap_id [])))))"

definition crumb_step ::
  "u64 \<Rightarrow> u64 \<times> u64 list \<Rightarrow> bytes \<Rightarrow> error + ((u64 \<times> u64 list) + (u64 list \<times> bool))" where
  "crumb_step key = (\<lambda>(page_id, trail) page.
     try_r (page_header page) (\<lambda>p_hdr.
     try_r (get_cells page) (\<lambda>cells.
     let trail' = page_id # trail in
     case search_cells key cells of
       Inr i \<Rightarrow>
         if is_leaf_level p_hdr then Inr (Inr (trail', True))
         else try_r (child_at cells p_hdr (i + 1)) (\<lambda>c. Inr (Inl (c, trail')))
     | Inl i \<Rightarrow>
         if is_leaf_level p_hdr then Inr (Inr (trail', False))
         else try_r (child_at cells p_hdr i) (\<lambda>c. Inr (Inl (c, trail'))))))"

definition breadcrumbs :: "u64 \<Rightarrow> (bplus_tree, u64 list \<times> bool) m" where
  "breadcrumbs key =
     andthen (gets root_id) (\<lambda>root.
     andthen tree_fuel (\<lambda>n.
     iterate n (follow t_fetch fst (crumb_step key)) (root, [])))"


section \<open>Opening\<close>

text \<open>The scan for the first page of kind \<open>Root\<close>; pages whose header does not decode are skipped.\<close>

fun scan_root :: "nat \<Rightarrow> u64 \<Rightarrow> (pager, u64 option) m" where
  "scan_root 0 i = ok None"
| "scan_root (Suc n) i =
     andthen (on_index (index_fetch i)) (\<lambda>page.
     case page_header page of
       Inl (Panic msg) \<Rightarrow> fail (Panic msg)
     | Inl e \<Rightarrow> scan_root n (i + 1)
     | Inr hdr \<Rightarrow> if ih_page_ty hdr = Root then ok (Some i) else scan_root n (i + 1))"

definition make_root :: "(pager, u64) m" where
  "make_root =
     andthen (on_index (index_allocate Root)) (\<lambda>i.
     andthen (on_index (index_with_page i
       (andthen (reads page_header) (\<lambda>hdr.
        andthen (index_serialize (set_root_leaf hdr)) (\<lambda>_. gets (\<lambda>page. page)))))) (\<lambda>new_data.
     andthen (log_index_diff 0 i (replicate PAGE_SIZE 0) new_data) (\<lambda>_. ok i)))"

definition tree_open :: "pager \<Rightarrow> error + bplus_tree" where
  "tree_open p =
     (let next_id = pf_next_id (p_index p) in
      case (if 0 < next_id
            then andthen (scan_root (unat next_id) 0) (\<lambda>r. ok (case r of None \<Rightarrow> 0 | Some i \<Rightarrow> i))
            else make_root) p of
        (Inl e, _) \<Rightarrow> Inl e
      | (Inr i, p') \<Rightarrow> Inr \<lparr>root_id = i, t_pager = p'\<rparr>)"

definition tree_new_with_wal :: "disk_file \<Rightarrow> disk_file \<Rightarrow> disk_file \<Rightarrow> error + bplus_tree" where
  "tree_new_with_wal index_file heap_file wal_file =
     try_r (pager_new_with_wal index_file heap_file wal_file) tree_open"

definition tree_begin :: "u64 \<Rightarrow> (bplus_tree, u64) m" where
  "tree_begin txn_id = on_pager (on_log (begin_transaction txn_id))"

definition tree_commit :: "u64 \<Rightarrow> (bplus_tree, u64) m" where
  "tree_commit txn_id = on_pager (on_log (commit_transaction txn_id))"

definition tree_abort :: "u64 \<Rightarrow> (bplus_tree, u64) m" where
  "tree_abort txn_id = on_pager (on_log (abort_transaction txn_id))"

definition tree_checkpoint :: "(bplus_tree, u64) m" where
  "tree_checkpoint = on_pager fuzzy_checkpoint"

definition tree_recover :: "(bplus_tree, recovery_report) m" where
  "tree_recover =
     andthen (on_pager recover) (\<lambda>report.
     andthen (gets (\<lambda>t. pf_next_id (p_index (t_pager t)))) (\<lambda>next_id.
     andthen (on_pager (scan_root (unat next_id) 0)) (\<lambda>r.
     andthen (case r of None \<Rightarrow> ok () | Some i \<Rightarrow> set_root i) (\<lambda>_. ok report))))"

end
