(* ===== verification/Bplus_Update.thy ===== *)
theory Bplus_Update
  imports Bplus_Tree
begin

text \<open>
  Insertion with page splits and deletion with redistribution and merging, from \<open>bplus_tree.rs\<close>.
\<close>

section \<open>Insertion\<close>

text \<open>Replacing a child pointer, as the parents' cells are fixed after a split or a merge.\<close>

definition fix_child :: "u64 \<Rightarrow> u64 \<Rightarrow> cell \<Rightarrow> cell" where
  "fix_child old new c =
     \<lparr>c_key = c_key c, c_ptr = map_option (\<lambda>p. if p = old then new else p) (c_ptr c), h_ptr = h_ptr c\<rparr>"

definition fix_ptr :: "u64 \<Rightarrow> u64 \<Rightarrow> u64 \<Rightarrow> u64" where
  "fix_ptr old new p = (if p = old then new else p)"

text \<open>Distributing the cells of an overfull page between the page and its new right sibling.\<close>

definition split_leaf ::
  "u64 \<Rightarrow> u64 \<Rightarrow> u64 \<Rightarrow> index_header \<Rightarrow> cell list \<Rightarrow> cell \<Rightarrow> cell list \<Rightarrow> (bplus_tree, unit) m" where
  "split_leaf txn_id overflow_page_id right_page_id overflow_hdr left_cells promote_cell right_cells =
     andthen (rewrite_page txn_id overflow_page_id
       (rebuild_from_cells left_cells Leaf overflow_page_id right_page_id)) (\<lambda>_.
     rewrite_page txn_id right_page_id
       (rebuild_from_cells (promote_cell # right_cells) Leaf right_page_id (ih_ptr overflow_hdr)))"

definition split_internal ::
  "u64 \<Rightarrow> u64 \<Rightarrow> u64 \<Rightarrow> index_header \<Rightarrow> cell list \<Rightarrow> cell \<Rightarrow> cell list \<Rightarrow> (bplus_tree, unit) m" where
  "split_internal txn_id overflow_page_id right_page_id overflow_hdr left_cells promote_cell right_cells =
     andthen (of_option (Err ''Internal promote cell missing c_ptr'') (c_ptr promote_cell)) (\<lambda>promote_c_ptr.
     andthen (rewrite_page txn_id overflow_page_id
       (rebuild_from_cells left_cells Internal overflow_page_id promote_c_ptr)) (\<lambda>_.
     rewrite_page txn_id right_page_id
       (rebuild_from_cells (map (\<lambda>c. c\<lparr>h_ptr := None\<rparr>) right_cells) Internal right_page_id
         (ih_ptr overflow_hdr))))"

text \<open>Entering the new right sibling in the parent; the result is the parent's number of cells.\<close>

definition link_parent :: "u64 \<Rightarrow> u64 \<Rightarrow> u64 \<Rightarrow> u64 \<Rightarrow> u64 \<Rightarrow> (bplus_tree, nat) m" where
  "link_parent txn_id parent_id overflow_page_id right_page_id key =
     rewrite_page txn_id parent_id
       (andthen (reads page_header) (\<lambda>parent_hdr.
        andthen (reads get_cells) (\<lambda>parent_cells.
        andthen (rebuild_from_cells (map (fix_child overflow_page_id right_page_id) parent_cells)
          (ih_page_ty parent_hdr) parent_id
          (fix_ptr overflow_page_id right_page_id (ih_ptr parent_hdr))) (\<lambda>_.
        add_cell key overflow_page_id))))"

definition grow_root :: "u64 \<Rightarrow> u64 \<Rightarrow> u64 \<Rightarrow> u64 \<Rightarrow> (bplus_tree, u64) m" where
  "grow_root txn_id overflow_page_id right_page_id key =
     andthen (t_allocate Root) (\<lambda>new_root_id.
     andthen (rewrite_page txn_id new_root_id
       (andthen (init_header new_root_id Root right_page_id) (\<lambda>_.
        andthen (add_cell key overflow_page_id) (\<lambda>_. ok ())))) (\<lambda>_.
     andthen (rewrite_page txn_id overflow_page_id
       (andthen (reads page_header) (\<lambda>hdr.
        only_if (ih_page_ty hdr = Root) (set_page_kind Internal)))) (\<lambda>_.
     ok new_root_id)))"

fun handle_overfull :: "u64 \<Rightarrow> u64 list \<Rightarrow> (bplus_tree, u64 option) m" where
  "handle_overfull txn_id [] = fail (Err ''Overflow page not found!?'')"
| "handle_overfull txn_id (overflow_page_id # crumbs) =
     andthen (t_read overflow_page_id) (\<lambda>(overflow_hdr, overflow_cells).
     let split = (length overflow_cells + 1) div 2;
         left_cells = take split overflow_cells;
         right_cells = drop (split + 1) overflow_cells;
         leaf = is_leaf_level overflow_hdr
     in
     andthen (of_result (index_r overflow_cells split)) (\<lambda>promote_cell.
     andthen (t_allocate (if leaf then Leaf else Internal)) (\<lambda>right_page_id.
     andthen ((if leaf then split_leaf else split_internal) txn_id overflow_page_id right_page_id
       overflow_hdr left_cells promote_cell right_cells) (\<lambda>_.
     case crumbs of
       parent_id # _ \<Rightarrow>
         andthen (link_parent txn_id parent_id overflow_page_id right_page_id (c_key promote_cell)) (\<lambda>n_slot.
         if ORDER \<le> n_slot then handle_overfull txn_id crumbs else ok None)
     | [] \<Rightarrow>
         andthen (grow_root txn_id overflow_page_id right_page_id (c_key promote_cell)) (\<lambda>new_root_id.
         ok (Some new_root_id))))))"

text \<open>The record goes to a page of the heap, its id into the leaf.\<close>

definition store_records :: "u64 \<Rightarrow> bytes list \<Rightarrow> (bplus_tree, u64) m" where
  "store_records txn_id data_records =
     andthen (on_pager (on_heap heap_allocate)) (\<lambda>heap_page_id.
     andthen (on_pager (on_heap (heap_with_page heap_page_id
       (andthen (gets (\<lambda>page. page)) (\<lambda>old_data.
        andthen (heap_add_records data_records) (\<lambda>_.
        gets (\<lambda>new_data. (old_data, new_data)))))))) (\<lambda>(old_data, new_data).
     andthen (on_pager (log_heap_diff txn_id heap_page_id old_data new_data)) (\<lambda>_. ok heap_page_id)))"

definition tree_insert :: "u64 \<Rightarrow> u64 \<Rightarrow> bytes list \<Rightarrow> (bplus_tree, unit) m" where
  "tree_insert txn_id key data_records =
     andthen (breadcrumbs key) (\<lambda>(crumbs, found).
     if found then fail (Err ''Key already exists'')
     else
       case crumbs of
         [] \<Rightarrow> fail (Err ''No page found'')
       | index_page_id # rest \<Rightarrow>
           andthen (store_records txn_id data_records) (\<lambda>heap_page_id.
           andthen (t_with_page index_page_id
             (andthen (gets (\<lambda>page. page)) (\<lambda>old_data.
              andthen (add_cell key heap_page_id) (\<lambda>n_slot.
              gets (\<lambda>new_data. (n_slot, old_data, new_data)))))) (\<lambda>(n_slot, old_data, new_data).
           andthen (t_log_diff txn_id index_page_id old_data new_data) (\<lambda>_.
           if ORDER \<le> n_slot
           then andthen (handle_overfull txn_id (index_page_id # rest)) (\<lambda>r.
             case r of Some new_id \<Rightarrow> set_root new_id | None \<Rightarrow> ok ())
           else ok ()))))"


section \<open>Deletion\<close>

fun propagate_key_update_from :: "u64 \<Rightarrow> u64 \<Rightarrow> u64 \<Rightarrow> u64 list \<Rightarrow> (bplus_tree, unit) m" where
  "propagate_key_update_from txn_id old_key new_first_key [] = ok ()"
| "propagate_key_update_from txn_id old_key new_first_key (ancestor_id # ancestors) =
     andthen (t_fetch ancestor_id) (\<lambda>page.
     andthen (of_result (get_cells page)) (\<lambda>cells.
     case search_cells old_key cells of
       Inl _ \<Rightarrow> propagate_key_update_from txn_id old_key new_first_key ancestors
     | Inr idx \<Rightarrow>
         rewrite_page txn_id ancestor_id
           (andthen (reads page_header) (\<lambda>hdr.
            andthen (reads get_cells) (\<lambda>cells.
            rebuild_from_cells (cells[idx := (cells ! idx)\<lparr>c_key := new_first_key\<rparr>])
              (ih_page_ty hdr) (ih_id hdr) (ih_ptr hdr))))))"

definition propagate_key_update :: "u64 \<Rightarrow> u64 \<Rightarrow> u64 \<Rightarrow> u64 list \<Rightarrow> (bplus_tree, unit) m" where
  "propagate_key_update txn_id old_key child_id ancestors =
     andthen (t_fetch child_id) (\<lambda>leaf_page.
     andthen (of_result (get_cells leaf_page)) (\<lambda>leaf_cells.
     case leaf_cells of
       [] \<Rightarrow> ok ()
     | c # _ \<Rightarrow> propagate_key_update_from txn_id old_key (c_key c) ancestors))"

record sibling =
  child_idx :: nat
  left_sib :: "u64 option"
  right_sib :: "u64 option"

definition find_siblings :: "u64 \<Rightarrow> cell list \<Rightarrow> index_header \<Rightarrow> sibling" where
  "find_siblings child_id parent_cells parent_hdr =
     (let n = length parent_cells;
          i = length (takeWhile (\<lambda>c. c_ptr c \<noteq> Some child_id) parent_cells)
      in if i = n \<and> ih_ptr parent_hdr = child_id
         then \<lparr>child_idx = i,
               left_sib = (if parent_cells = [] then None else c_ptr (last parent_cells)),
               right_sib = None\<rparr>
         else \<lparr>child_idx = i,
               left_sib = (if 0 < i then c_ptr (parent_cells ! (i - 1)) else None),
               right_sib = (if i + 1 < n then c_ptr (parent_cells ! (i + 1))
                            else if i < n then Some (ih_ptr parent_hdr) else None)\<rparr>)"

definition first_key :: "string \<Rightarrow> cell list \<Rightarrow> error + u64" where
  "first_key msg cells = (case cells of [] \<Rightarrow> Inl (Err msg) | c # _ \<Rightarrow> Inr (c_key c))"

definition heap_value :: "cell \<Rightarrow> error + u64" where
  "heap_value c = (case h_ptr c of None \<Rightarrow> Inl (Panic ''unwrap on None'') | Some h \<Rightarrow> Inr (hp_index h))"

text \<open>Replacing the separator of two siblings in the parent.\<close>

definition replace_separator :: "u64 \<Rightarrow> u64 \<Rightarrow> nat \<Rightarrow> u64 \<Rightarrow> u64 \<Rightarrow> (bplus_tree, unit) m" where
  "replace_separator txn_id parent_id separator_idx key child_id =
     rewrite_page_refetch txn_id parent_id
       (andthen (remove_cell_at separator_idx) (\<lambda>_.
        andthen (add_cell key child_id) (\<lambda>_. ok ())))"

definition redistribute_from_left ::
  "u64 \<Rightarrow> u64 \<Rightarrow> u64 \<Rightarrow> u64 \<Rightarrow> nat \<Rightarrow> index_header \<Rightarrow> (bplus_tree, unit) m" where
  "redistribute_from_left txn_id left_id underfull_id parent_id i underfull_hdr =
     andthen (t_fetch left_id) (\<lambda>old_left_data.
     andthen (t_with_page left_id
       (andthen (reads get_cells) (\<lambda>left_cells. remove_cell_at (length left_cells - 1)))) (\<lambda>borrowed_cell.
     let separator_idx = i - 1 in
     if ih_page_ty underfull_hdr = Leaf then
       andthen (t_fetch left_id) (\<lambda>new_left_data.
       andthen (t_log_diff txn_id left_id old_left_data new_left_data) (\<lambda>_.
       andthen (rewrite_page_refetch txn_id underfull_id
         (andthen (of_result (heap_value borrowed_cell)) (\<lambda>v.
          andthen (add_cell (c_key borrowed_cell) v) (\<lambda>_. ok ())))) (\<lambda>_.
       andthen (t_fetch underfull_id) (\<lambda>underfull_page.
       andthen (of_result (get_cells underfull_page)) (\<lambda>cells.
       andthen (of_result (first_key ''Empty underfull after redistribute'' cells)) (\<lambda>new_separator.
       replace_separator txn_id parent_id separator_idx new_separator left_id))))))
     else
       andthen (t_fetch parent_id) (\<lambda>parent_page.
       andthen (of_result (get_cells parent_page)) (\<lambda>parent_cells.
       andthen (of_result (index_r parent_cells separator_idx)) (\<lambda>sep.
       andthen (t_fetch left_id) (\<lambda>left_page.
       andthen (of_result (page_header left_page)) (\<lambda>left_hdr.
       andthen (rewrite_page_refetch txn_id underfull_id
         (andthen (reads get_cells) (\<lambda>underfull_cells.
          rebuild_from_cells
            (\<lparr>c_key = c_key sep, c_ptr = Some (ih_ptr left_hdr), h_ptr = None\<rparr> # underfull_cells)
            (ih_page_ty underfull_hdr) underfull_id (ih_ptr underfull_hdr)))) (\<lambda>_.
       andthen (replace_separator txn_id parent_id separator_idx (c_key borrowed_cell) left_id) (\<lambda>_.
       andthen (t_with_page left_id
         (case c_ptr borrowed_cell of None \<Rightarrow> ok () | Some c \<Rightarrow> set_header_ptr c)) (\<lambda>_.
       andthen (t_fetch left_id) (\<lambda>new_left_data.
       t_log_diff txn_id left_id old_left_data new_left_data)))))))))))"

definition redistribute_from_right ::
  "u64 \<Rightarrow> u64 \<Rightarrow> u64 \<Rightarrow> u64 \<Rightarrow> nat \<Rightarrow> index_header \<Rightarrow> (bplus_tree, unit) m" where
  "redistribute_from_right txn_id underfull_id right_id parent_id i underfull_hdr =
     andthen (t_fetch right_id) (\<lambda>old_right_data.
     andthen (t_with_page right_id (remove_cell_at 0)) (\<lambda>borrowed_cell.
     let separator_idx = i in
     if ih_page_ty underfull_hdr = Leaf then
       andthen (t_fetch right_id) (\<lambda>new_right_data.
       andthen (t_log_diff txn_id right_id old_right_data new_right_data) (\<lambda>_.
       andthen (rewrite_page_refetch txn_id underfull_id
         (andthen (of_result (heap_value borrowed_cell)) (\<lambda>v.
          andthen (add_cell (c_key borrowed_cell) v) (\<lambda>_. ok ())))) (\<lambda>_.
       andthen (t_fetch right_id) (\<lambda>right_page.
       andthen (of_result (get_cells right_page)) (\<lambda>cells.
       andthen (of_result (first_key ''Empty right after redistribute'' cells)) (\<lambda>new_separator.
       replace_separator txn_id parent_id separator_idx new_separator underfull_id))))))
     else
       andthen (t_fetch right_id) (\<lambda>new_right_data.
       andthen (t_log_diff txn_id right_id old_right_data new_right_data) (\<lambda>_.
       andthen (t_fetch parent_id) (\<lambda>parent_page.
       andthen (of_result (get_cells parent_page)) (\<lambda>parent_cells.
       andthen (of_result (index_r parent_cells separator_idx)) (\<lambda>sep.
       andthen (of_option (Err ''Missing c_ptr'') (c_ptr borrowed_cell)) (\<lambda>borrowed_left_child.
       andthen (rewrite_page_refetch txn_id underfull_id
         (andthen (reads page_header) (\<lambda>hdr.
          andthen (add_cell (c_key sep) (ih_ptr hdr)) (\<lambda>_.
          set_header_ptr borrowed_left_child)))) (\<lambda>_.
       replace_separator txn_id parent_id separator_idx (c_key borrowed_cell) underfull_id)))))))))"

text \<open>
  Taking a merged child out of the parent: its separator goes, and the pointer to the page that
  disappears is redirected to the one that stays. The two branches of the code differ in whether
  the heap pointers of the cells are kept.
\<close>

definition unlink_parent :: "u64 \<Rightarrow> u64 \<Rightarrow> nat \<Rightarrow> u64 \<Rightarrow> u64 \<Rightarrow> bool \<Rightarrow> (bplus_tree, unit) m" where
  "unlink_parent txn_id parent_id separator_idx gone kept keep_heap_ptrs =
     rewrite_page_refetch txn_id parent_id
       (andthen (remove_cell_at separator_idx) (\<lambda>_.
        andthen (reads page_header) (\<lambda>parent_hdr_after.
        andthen (reads get_cells) (\<lambda>parent_cells_after.
        rebuild_from_cells
          (map (\<lambda>c. if keep_heap_ptrs then fix_child gone kept c
                    else (fix_child gone kept c)\<lparr>h_ptr := None\<rparr>) parent_cells_after)
          (ih_page_ty parent_hdr_after) parent_id (fix_ptr gone kept (ih_ptr parent_hdr_after))))))"

text \<open>\<open>merge_with_left\<close> and \<open>merge_with_right\<close> without their last call, \<open>check_parent_underfull\<close>.\<close>

definition merge_with_left :: "u64 \<Rightarrow> u64 \<Rightarrow> u64 \<Rightarrow> u64 \<Rightarrow> nat \<Rightarrow> (bplus_tree, unit) m" where
  "merge_with_left txn_id left_id underfull_id parent_id i =
     andthen (t_fetch underfull_id) (\<lambda>page.
     andthen (of_result (page_header page)) (\<lambda>hdr.
     let leaf = (ih_page_ty hdr = Leaf); separator_idx = i - 1 in
     andthen (t_fetch left_id) (\<lambda>left_page.
     andthen (of_result (get_cells left_page)) (\<lambda>left_cells.
     andthen (of_result (page_header left_page)) (\<lambda>left_hdr.
     andthen (t_fetch underfull_id) (\<lambda>underfull_page.
     andthen (of_result (get_cells underfull_page)) (\<lambda>underfull_cells.
     andthen (of_result (page_header underfull_page)) (\<lambda>underfull_hdr.
     if leaf then
       andthen (rewrite_page_refetch txn_id left_id
         (rebuild_from_cells (left_cells @ underfull_cells) Leaf left_id (ih_ptr underfull_hdr))) (\<lambda>_.
       unlink_parent txn_id parent_id separator_idx underfull_id left_id True)
     else
       andthen (t_fetch parent_id) (\<lambda>parent_page.
       andthen (of_result (get_cells parent_page)) (\<lambda>parent_cells.
       andthen (of_result (index_r parent_cells separator_idx)) (\<lambda>sep.
       andthen (rewrite_page_refetch txn_id left_id
         (rebuild_from_cells
           (left_cells @ \<lparr>c_key = c_key sep, c_ptr = Some (ih_ptr left_hdr), h_ptr = None\<rparr> #
            underfull_cells) Internal left_id (ih_ptr underfull_hdr))) (\<lambda>_.
       unlink_parent txn_id parent_id separator_idx underfull_id left_id False))))))))))))"

definition merge_with_right :: "u64 \<Rightarrow> u64 \<Rightarrow> u64 \<Rightarrow> u64 \<Rightarrow> nat \<Rightarrow> (bplus_tree, unit) m" where
  "merge_with_right txn_id underfull_id right_id parent_id i =
     andthen (t_fetch underfull_id) (\<lambda>page.
     andthen (of_result (page_header page)) (\<lambda>hdr.
     let leaf = (ih_page_ty hdr = Leaf); separator_idx = i in
     andthen (t_fetch underfull_id) (\<lambda>underfull_page.
     andthen (of_result (get_cells underfull_page)) (\<lambda>underfull_cells.
     andthen (of_result (page_header underfull_page)) (\<lambda>underfull_hdr.
     andthen (t_fetch right_id) (\<lambda>right_page.
     andthen (of_result (get_cells right_page)) (\<lambda>right_cells.
     andthen (of_result (page_header right_page)) (\<lambda>right_hdr.
     if leaf then
       andthen (rewrite_page_refetch txn_id underfull_id
         (rebuild_from_cells (underfull_cells @ right_cells) Leaf underfull_id (ih_ptr right_hdr))) (\<lambda>_.
       unlink_parent txn_id parent_id separator_idx right_id underfull_id True)
     else
       andthen (t_fetch parent_id) (\<lambda>parent_page.
       andthen (of_result (get_cells parent_page)) (\<lambda>parent_cells.
       andthen (of_result (index_r parent_cells separator_idx)) (\<lambda>sep.
       andthen (rewrite_page_refetch txn_id underfull_id
         (rebuild_from_cells
           (underfull_cells @ \<lparr>c_key = c_key sep, c_ptr = Some (ih_ptr underfull_hdr), h_ptr = None\<rparr> #
            right_cells) Internal underfull_id (ih_ptr right_hdr))) (\<lambda>_.
       unlink_parent txn_id parent_id separator_idx right_id underfull_id False))))))))))))"

text \<open>
  \<open>up\<close> is the call \<open>handle_underfull\<close> on the parent, with the parent popped off the ancestors.
\<close>

definition check_parent_underfull ::
  "u64 \<Rightarrow> u64 \<Rightarrow> (bplus_tree, unit) m \<Rightarrow> (bplus_tree, unit) m" where
  "check_parent_underfull txn_id parent_id up =
     andthen (gets root_id) (\<lambda>root.
     if parent_id = root then
       andthen (t_fetch parent_id) (\<lambda>root_page.
       andthen (of_result (get_cells root_page)) (\<lambda>root_cells.
       andthen (of_result (page_header root_page)) (\<lambda>root_hdr.
       only_if (root_cells = [])
         (let new_root_id = ih_ptr root_hdr in
          andthen (rewrite_page_refetch txn_id new_root_id (set_page_kind Root)) (\<lambda>_.
          set_root new_root_id)))))
     else
       andthen (t_fetch parent_id) (\<lambda>page.
       andthen (of_result (num_cells page)) (\<lambda>remaining.
       only_if (remaining < DEGREE) up)))"

fun handle_underfull :: "u64 \<Rightarrow> u64 \<Rightarrow> u64 list \<Rightarrow> (bplus_tree, unit) m" where
  "handle_underfull txn_id underfull_id [] = ok ()"
| "handle_underfull txn_id underfull_id (parent_id # ancestors) =
     andthen (t_read parent_id) (\<lambda>(parent_hdr, parent_cells).
     let s = find_siblings underfull_id parent_cells parent_hdr; i = child_idx s in
     andthen (t_fetch underfull_id) (\<lambda>underfull_page.
     andthen (of_result (page_header underfull_page)) (\<lambda>underfull_hdr.
     andthen (case left_sib s of
         None \<Rightarrow> ok 0
       | Some left_id \<Rightarrow>
           andthen (t_fetch left_id) (\<lambda>page.
           andthen (of_result (get_cells page)) (\<lambda>cells. ok (length cells)))) (\<lambda>n_left.
     case (if DEGREE < n_left then left_sib s else None) of
       Some left_id \<Rightarrow>
         redistribute_from_left txn_id left_id underfull_id parent_id i underfull_hdr
     | None \<Rightarrow>
     andthen (case right_sib s of
         None \<Rightarrow> ok 0
       | Some right_id \<Rightarrow>
           andthen (t_fetch right_id) (\<lambda>page.
           andthen (of_result (get_cells page)) (\<lambda>cells. ok (length cells)))) (\<lambda>n_right.
     case (if DEGREE < n_right then right_sib s else None) of
       Some right_id \<Rightarrow>
         redistribute_from_right txn_id underfull_id right_id parent_id i underfull_hdr
     | None \<Rightarrow>
         (case left_sib s of
            Some left_id \<Rightarrow>
              andthen (merge_with_left txn_id left_id underfull_id parent_id i) (\<lambda>_.
              check_parent_underfull txn_id parent_id (handle_underfull txn_id parent_id ancestors))
          | None \<Rightarrow>
              (case right_sib s of
                 Some right_id \<Rightarrow>
                   andthen (merge_with_right txn_id underfull_id right_id parent_id i) (\<lambda>_.
                   check_parent_underfull txn_id parent_id
                     (handle_underfull txn_id parent_id ancestors))
               | None \<Rightarrow> ok ())))))))"

definition tree_delete :: "u64 \<Rightarrow> u64 \<Rightarrow> (bplus_tree, unit) m" where
  "tree_delete txn_id key =
     andthen (breadcrumbs key) (\<lambda>(crumbs, found).
     if \<not> found then fail (Err ''Key not found'')
     else
       case crumbs of
         [] \<Rightarrow> fail (Err ''Empty breadcrumb trail'')
       | leaf_id # trail \<Rightarrow>
           andthen (rewrite_page_refetch txn_id leaf_id
             (andthen (reads get_cells) (\<lambda>cells.
              case search_cells key cells of
                Inl _ \<Rightarrow> fail (Err ''Key not found in leaf page'')
              | Inr idx \<Rightarrow>
                  andthen (remove_cell_at idx) (\<lambda>_. reads num_cells)))) (\<lambda>remaining.
           andthen (gets root_id) (\<lambda>root.
           if leaf_id = root then ok ()
           else if DEGREE \<le> remaining then propagate_key_update txn_id key leaf_id trail
           else handle_underfull txn_id leaf_id trail)))"

end
