(* ===== verification/Tree_Model.thy ===== *)
theory Tree_Model
  imports Bplus_Update "HOL-Library.Multiset"
begin

text \<open>
  The abstract view of the B+ tree: trees with page ids, the pages that store them, and the map they
  stand for. A leaf is a \<open>Tip\<close> with its key/value pairs, an inner page a \<open>Fork\<close> whose children are
  separated by keys. Read from left to right, the pairs and separators of a search tree form one
  sorted list, the \<open>items\<close>; splitting a page moves or adds a separator and nothing else.
\<close>

section \<open>Trees and their items\<close>

datatype tree = Tip u64 "(u64 \<times> u64) list" | Fork u64 "u64 list" "tree list"

fun tid :: "tree \<Rightarrow> u64" where
  "tid (Tip i kvs) = i"
| "tid (Fork i ks ts) = i"

text \<open>A pair with key \<open>k\<close> is at \<open>2 * k + 1\<close>, the separator \<open>k\<close>, which is below its pair, at \<open>2 * k\<close>.\<close>

type_synonym item = "nat \<times> u64 option"

definition entry_place :: "u64 \<Rightarrow> nat" where
  "entry_place k = 2 * unat k + 1"

definition entry_item :: "u64 \<times> u64 \<Rightarrow> item" where
  "entry_item kv = (entry_place (fst kv), Some (snd kv))"

definition sep_item :: "u64 \<Rightarrow> item" where
  "sep_item k = (2 * unat k, None)"

fun weave :: "'a list list \<Rightarrow> 'a list \<Rightarrow> 'a list" where
  "weave (xs # xss) (k # ks) = xs @ k # weave xss ks"
| "weave xss [] = concat xss"
| "weave [] (k # ks) = k # ks"

fun behind :: "'a list \<Rightarrow> 'a list list \<Rightarrow> 'a list" where
  "behind (k # ks) (xs # xss) = k # xs @ behind ks xss"
| "behind _ _ = []"

fun items :: "tree \<Rightarrow> item list" where
  "items (Tip i kvs) = map entry_item kvs"
| "items (Fork i ks ts) = weave (map items ts) (map sep_item ks)"

fun entries :: "tree \<Rightarrow> (u64 \<times> u64) list" where
  "entries (Tip i kvs) = kvs"
| "entries (Fork i ks ts) = concat (map entries ts)"

fun ids :: "tree \<Rightarrow> u64 list" where
  "ids (Tip i kvs) = [i]"
| "ids (Fork i ks ts) = i # concat (map ids ts)"

fun fits :: "nat \<Rightarrow> tree \<Rightarrow> bool" where
  "fits n (Tip i kvs) \<longleftrightarrow> length kvs \<le> n"
| "fits n (Fork i ks ts) \<longleftrightarrow> length ks \<le> n \<and> length ts = Suc (length ks) \<and> list_all (fits n) ts"

definition sorted_items :: "item list \<Rightarrow> bool" where
  "sorted_items xs \<longleftrightarrow> sorted_wrt (<) (map fst xs)"

text \<open>The value a list of items gives to a key.\<close>

definition content :: "item list \<Rightarrow> u64 \<Rightarrow> u64 option" where
  "content xs k = Option.bind (map_of xs (entry_place k)) (\<lambda>v. v)"

lemma weave_append:
  "length xs = length ks \<Longrightarrow> weave (xs @ ys) (ks @ ls) = weave xs ks @ weave ys ls"
  by (induction xs ks rule: list_induct2) simp_all

lemma weave_Cons: "length xss = length ks \<Longrightarrow> weave (xs # xss) ks = xs @ behind ks xss"
  by (induction xss ks arbitrary: xs rule: list_induct2) simp_all

lemma entry_place_inj [simp]: "entry_place j = entry_place k \<longleftrightarrow> j = k"
  by (simp add: entry_place_def word_unat_eq_iff)

lemma place_sep [simp]: "entry_place k \<noteq> 2 * unat j" "2 * unat j \<noteq> entry_place k"
  by (simp_all add: entry_place_def) presburger+

lemma entry_less [simp]: "entry_place j < entry_place k \<longleftrightarrow> j < k"
  by (simp add: entry_place_def word_less_nat_alt)

lemma sep_below_entry [simp]: "2 * unat j < entry_place k \<longleftrightarrow> j \<le> k"
  by (auto simp: entry_place_def word_le_nat_alt)

lemma entry_below_sep [simp]: "entry_place k < 2 * unat j \<longleftrightarrow> k < j"
  by (auto simp: entry_place_def word_less_nat_alt)

lemma fst_items [simp]:
  "fst (entry_item kv) = entry_place (fst kv)" "fst (sep_item k) = 2 * unat k"
  by (simp_all add: entry_item_def sep_item_def)

lemma sorted_items_append:
  "sorted_items (xs @ ys) \<longleftrightarrow> sorted_items xs \<and> sorted_items ys \<and>
     (\<forall>x \<in> set xs. \<forall>y \<in> set ys. fst x < fst y)"
  by (auto simp: sorted_items_def sorted_wrt_append)

lemma sorted_items_Cons:
  "sorted_items (x # xs) \<longleftrightarrow> (\<forall>y \<in> set xs. fst x < fst y) \<and> sorted_items xs"
  by (auto simp: sorted_items_def)

lemma sorted_items_insert:
  assumes "sorted_items (xs @ ys)" and "\<forall>x \<in> set xs. fst x < fst z" and "\<forall>y \<in> set ys. fst z < fst y"
  shows "sorted_items (xs @ z # ys)"
  using assms unfolding sorted_items_append sorted_items_Cons by auto

lemma sorted_items_remove: "sorted_items (xs @ z # ys) \<Longrightarrow> sorted_items (xs @ ys)"
  unfolding sorted_items_append sorted_items_Cons by auto

lemma sorted_items_Nil [simp]: "sorted_items []"
  by (simp add: sorted_items_def)

lemma sorted_entries: "sorted_items (map entry_item kvs) \<longleftrightarrow> sorted_wrt (<) (map fst kvs)"
  by (simp add: sorted_items_def sorted_wrt_map)

lemma content_entries: "content (map entry_item kvs) k = map_of kvs k"
  by (induction kvs) (auto simp: content_def entry_item_def)

lemma content_append:
  "entry_place k \<notin> fst ` set xs \<Longrightarrow> content (xs @ ys) k = content ys k"
  "entry_place k \<notin> fst ` set ys \<Longrightarrow> content (xs @ ys) k = content xs k"
  by (simp_all add: content_def map_of_eq_None_iff [symmetric] map_add_def split: option.splits)

lemma content_sep [simp]: "content (xs @ sep_item s # ys) = content (xs @ ys)"
  by (auto simp: fun_eq_iff content_def map_add_def sep_item_def split: option.splits)

lemma map_of_concat_items:
  assumes "\<And>u. u \<in> set us \<Longrightarrow> map_of (items u) p = map_option Some (map_of (entries u) k)"
  shows "map_of (concat (map items us)) p = map_option Some (map_of (concat (map entries us)) k)"
  using assms by (induction us) (auto simp: map_add_def split: option.splits)

lemma map_of_weave_items:
  assumes "\<And>u. u \<in> set us \<Longrightarrow> map_of (items u) (entry_place k) = map_option Some (map_of (entries u) k)"
  shows "map_of (weave (map items us) (map sep_item ks)) (entry_place k) =
    map_option Some (map_of (concat (map entries us)) k)"
  using assms
proof (induction us arbitrary: ks)
  case Nil
  have "map_of (map sep_item ks) (entry_place k) = None" by (auto simp: map_of_eq_None_iff)
  moreover have "weave [] (map sep_item ks) = map sep_item ks" by (cases ks) simp_all
  ultimately show ?case by simp
next
  case (Cons u us)
  show ?case
  proof (cases ks)
    case Nil
    then show ?thesis using map_of_concat_items [of "u # us"] Cons.prems by simp
  next
    case (Cons s ss)
    then show ?thesis
      using Cons.IH [of ss] Cons.prems by (auto simp: sep_item_def map_add_def split: option.splits)
  qed
qed

lemma map_of_items: "map_of (items t) (entry_place k) = map_option Some (map_of (entries t) k)"
proof (induction t)
  case (Tip i kvs)
  then show ?case by (induction kvs) (auto simp: entry_item_def)
qed (simp add: map_of_weave_items)

lemma content_items: "content (items t) = map_of (entries t)"
proof
  show "content (items t) k = map_of (entries t) k" for k
    by (cases "map_of (entries t) k") (simp_all add: content_def map_of_items)
qed


section \<open>Contexts\<close>

text \<open>
  A frame is an inner page with a hole: the separators and children to its left and to its right. A
  context is the path from the hole up to the root.
\<close>

record frame =
  fr_id :: u64
  fr_lks :: "u64 list"
  fr_lts :: "tree list"
  fr_rks :: "u64 list"
  fr_rts :: "tree list"

definition fill :: "frame \<Rightarrow> tree \<Rightarrow> tree" where
  "fill f t = Fork (fr_id f) (fr_lks f @ fr_rks f) (fr_lts f @ t # fr_rts f)"

text \<open>The frame after its hole has been split in two.\<close>

definition fill_two :: "frame \<Rightarrow> tree \<Rightarrow> u64 \<Rightarrow> tree \<Rightarrow> tree" where
  "fill_two f l s r =
     Fork (fr_id f) (fr_lks f @ s # fr_rks f) (fr_lts f @ l # r # fr_rts f)"

fun plug :: "frame list \<Rightarrow> tree \<Rightarrow> tree" where
  "plug [] t = t"
| "plug (f # c) t = plug c (fill f t)"

definition frame_fits :: "nat \<Rightarrow> frame \<Rightarrow> bool" where
  "frame_fits n f \<longleftrightarrow> length (fr_lts f) = length (fr_lks f) \<and> length (fr_rts f) = length (fr_rks f) \<and>
     length (fr_lks f @ fr_rks f) \<le> n \<and> list_all (fits n) (fr_lts f) \<and> list_all (fits n) (fr_rts f)"

definition frame_left :: "frame \<Rightarrow> item list" where
  "frame_left f = weave (map items (fr_lts f)) (map sep_item (fr_lks f))"

definition frame_right :: "frame \<Rightarrow> item list" where
  "frame_right f = behind (map sep_item (fr_rks f)) (map items (fr_rts f))"

fun left_items :: "frame list \<Rightarrow> item list" where
  "left_items [] = []"
| "left_items (f # c) = left_items c @ frame_left f"

fun right_items :: "frame list \<Rightarrow> item list" where
  "right_items [] = []"
| "right_items (f # c) = frame_right f @ right_items c"

definition frame_ids :: "frame \<Rightarrow> u64 list" where
  "frame_ids f = fr_id f # concat (map ids (fr_lts f)) @ concat (map ids (fr_rts f))"

lemma items_fill:
  "frame_fits n f \<Longrightarrow> items (fill f t) = frame_left f @ items t @ frame_right f"
  by (simp add: frame_fits_def fill_def frame_left_def frame_right_def weave_append weave_Cons)

lemma items_fill_two:
  "frame_fits n f \<Longrightarrow>
   items (fill_two f l s r) = frame_left f @ items l @ sep_item s # items r @ frame_right f"
  by (simp add: frame_fits_def fill_two_def frame_left_def frame_right_def weave_append weave_Cons)

lemma items_plug:
  "list_all (frame_fits n) c \<Longrightarrow> items (plug c t) = left_items c @ items t @ right_items c"
  by (induction c arbitrary: t) (auto simp: items_fill [of n])

lemma fits_fill:
  "length (fr_lts f) = length (fr_lks f) \<Longrightarrow> fits n (fill f t) \<longleftrightarrow> frame_fits n f \<and> fits n t"
  by (auto simp: frame_fits_def fill_def)

lemma fits_plug: "list_all (frame_fits n) c \<Longrightarrow> fits n t \<Longrightarrow> fits n (plug c t)"
  by (induction c arbitrary: t) (auto simp: fits_fill frame_fits_def)

lemma fits_hole: "fits n (plug c t) \<Longrightarrow> fits n t"
proof (induction c arbitrary: t)
  case (Cons f c)
  show ?case using Cons.IH [of "fill f t"] Cons.prems by (simp add: fill_def)
qed simp

lemma mset_ids_fill: "mset (ids (fill f t)) = mset (ids t) + mset (frame_ids f)"
  by (simp add: fill_def frame_ids_def)

lemma mset_ids_fill_two: "mset (ids (fill_two f l s r)) = mset (ids l) + mset (ids r) + mset (frame_ids f)"
  by (simp add: fill_two_def frame_ids_def)

lemma mset_ids_plug: "mset (ids (plug c t)) = mset (ids t) + mset (concat (map frame_ids c))"
  by (induction c arbitrary: t) (simp_all add: mset_ids_fill)

lemma distinct_ids_plug:
  "distinct (ids (plug c t)) \<longleftrightarrow> distinct (ids t @ concat (map frame_ids c))"
  by (metis mset_append mset_eq_imp_distinct_iff mset_ids_plug)

lemma set_ids_plug: "set (ids (plug c t)) = set (ids t) \<union> set (concat (map frame_ids c))"
  by (metis mset_append mset_eq_setD mset_ids_plug set_append)

lemma tid_fill [simp]: "tid (fill f t) = fr_id f" "tid (fill_two f l s r) = fr_id f"
  by (simp_all add: fill_def fill_two_def)

lemma tid_plug: "tid t = tid u \<Longrightarrow> tid (plug c t) = tid (plug c u)"
  by (induction c arbitrary: t u) simp_all

lemma tid_in_ids [simp]: "tid t \<in> set (ids t)"
  by (cases t) simp_all


section \<open>Depth\<close>

text \<open>Every leaf is \<open>n\<close> levels below the root.\<close>

fun level :: "nat \<Rightarrow> tree \<Rightarrow> bool" where
  "level n (Tip i kvs) \<longleftrightarrow> n = 0"
| "level 0 (Fork i ks ts) = False"
| "level (Suc n) (Fork i ks ts) = list_all (level n) ts"

lemma level_fill: "level n (fill f t) \<longleftrightarrow>
    (\<exists>m. n = Suc m \<and> list_all (level m) (fr_lts f) \<and> list_all (level m) (fr_rts f) \<and> level m t)"
  by (cases n) (auto simp: fill_def)

lemma level_fill_two: "level n (fill_two f l s r) \<longleftrightarrow>
    (\<exists>m. n = Suc m \<and> list_all (level m) (fr_lts f) \<and> list_all (level m) (fr_rts f) \<and>
      level m l \<and> level m r)"
  by (cases n) (auto simp: fill_two_def)

lemma level_plug:
  "level n (plug c t) \<Longrightarrow> (\<And>m. level m t \<Longrightarrow> level m u) \<Longrightarrow> level n (plug c u)"
proof (induction c arbitrary: t u)
  case (Cons f c)
  show ?case
    using Cons.prems Cons.IH [of "fill f t" "fill f u"] by (auto simp: level_fill)
qed simp

section \<open>Searching a page\<close>

lemma bsearch_base_spec:
  assumes "sorted_wrt (<) (map c_key cells)" and "0 < n" and "base + n \<le> length cells"
    and "base = 0 \<or> c_key (cells ! base) \<le> key"
    and "\<And>j. base + n \<le> j \<Longrightarrow> j < length cells \<Longrightarrow> key < c_key (cells ! j)"
  defines "b \<equiv> bsearch_base cells key base n"
  shows "b < length cells \<and> (b = 0 \<or> c_key (cells ! b) \<le> key) \<and>
    (\<forall>j. b < j \<and> j < length cells \<longrightarrow> key < c_key (cells ! j))"
  using assms(1-5) unfolding b_def
proof (induction cells key base n rule: bsearch_base.induct)
  case (1 cells key base n)
  show ?case
  proof (cases "1 < n")
    case False
    then have "n = 1" "bsearch_base cells key base n = base"
      using "1.prems"(2) by (simp_all add: bsearch_base.simps [of cells key base n])
    then show ?thesis using "1.prems" by auto
  next
    case True
    define half mid where "half = n div 2" and "mid = base + half"
    have h: "0 < half" "half < n" "base + (n - half) \<le> length cells" "mid + (n - half) \<le> length cells"
      "mid + (n - half) = base + n" "n - half = half \<or> n - half = Suc half"
      using True "1.prems"(3) by (auto simp: half_def mid_def)
    show ?thesis
    proof (cases "key < c_key (cells ! mid)")
      case gt: True
      have above: "key < c_key (cells ! j)" if "base + (n - half) \<le> j" "j < length cells" for j
      proof -
        have "mid \<le> j" using that h by (auto simp: mid_def)
        then have "c_key (cells ! mid) \<le> c_key (cells ! j)"
          using that(2) sorted_wrt_nth_less [OF "1.prems"(1), of mid j]
          by (cases "mid = j") auto
        then show ?thesis using gt by simp
      qed
      have "bsearch_base cells key base n = bsearch_base cells key base (n - half)"
        using True gt by (subst bsearch_base.simps) (simp add: Let_def half_def mid_def)
      then show ?thesis
        using 1(1) [OF True half_def mid_def "1.prems"(1)] gt h "1.prems"(4) above by simp
    next
      case False
      have "bsearch_base cells key base n = bsearch_base cells key mid (n - half)"
        using True False by (subst bsearch_base.simps) (simp add: Let_def half_def mid_def)
      then show ?thesis
        using 1(1) [OF True half_def mid_def "1.prems"(1)] False h "1.prems"(5) by (simp add: not_less)
    qed
  qed
qed

text \<open>The number of separators at or below the key is the position of the child to follow.\<close>

definition child_index :: "u64 \<Rightarrow> u64 list \<Rightarrow> nat" where
  "child_index key ks = length (takeWhile (\<lambda>x. x \<le> key) ks)"

lemma takeWhile_length:
  assumes "n \<le> length xs" and "\<And>i. i < n \<Longrightarrow> P (xs ! i)" and "n < length xs \<Longrightarrow> \<not> P (xs ! n)"
  shows "length (takeWhile P xs) = n"
  using assms
proof (induction n arbitrary: xs)
  case 0
  then show ?case by (cases xs) auto
next
  case (Suc n)
  then obtain x ys where xs: "xs = x # ys" by (cases xs) auto
  have "P x" using Suc.prems(2) [of 0] xs by simp
  moreover have "length (takeWhile P ys) = n"
    using Suc.prems(1,3) Suc.prems(2) [of "Suc _"] by (intro Suc.IH) (simp_all add: xs)
  ultimately show ?case by (simp add: xs)
qed

lemma search_cells_spec:
  assumes sorted: "sorted_wrt (<) ks" and keys: "map c_key cells = ks"
  shows "search_cells key cells =
    (if key \<in> set ks then Inr (child_index key ks - 1) else Inl (child_index key ks)) \<and>
    (key \<in> set ks \<longrightarrow> 0 < child_index key ks \<and> ks ! (child_index key ks - 1) = key)"
proof (cases "cells = []")
  case True
  then show ?thesis using keys by (auto simp: search_cells_def child_index_def)
next
  case False
  define b where "b = bsearch_base cells key 0 (length cells)"
  have s: "sorted_wrt (<) (map c_key cells)" using sorted keys by simp
  have len: "length cells = length ks" and nth: "\<And>j. j < length ks \<Longrightarrow> c_key (cells ! j) = ks ! j"
    using keys by auto
  have b: "b < length ks" "b = 0 \<or> ks ! b \<le> key" "\<And>j. b < j \<Longrightarrow> j < length ks \<Longrightarrow> key < ks ! j"
    using bsearch_base_spec [OF s, of "length cells" 0 key] False nth
    by (auto simp: b_def [symmetric] len [symmetric])
  have below: "ks ! j < ks ! b" if "j < b" for j
    using sorted_wrt_nth_less [OF sorted that b(1)] .
  have run: "search_cells key cells =
      (if ks ! b = key then Inr b else Inl (b + (if ks ! b < key then 1 else 0)))"
    using False b(1) by (simp add: search_cells_def b_def [symmetric] nth Let_def)
  consider (eq) "ks ! b = key" | (lt) "ks ! b < key" | (gt) "key < ks ! b" by force
  then show ?thesis
  proof cases
    case eq
    then have "child_index key ks = Suc b"
      unfolding child_index_def using b(1) b(3) [of "Suc b"] below
      by (intro takeWhile_length) (auto simp: less_Suc_eq less_imp_le)
    then show ?thesis using run eq b(1) by auto
  next
    case lt
    then have "child_index key ks = Suc b"
      unfolding child_index_def using b(1) b(3) [of "Suc b"] order.strict_trans [OF below lt]
      by (intro takeWhile_length) (auto simp: less_Suc_eq less_imp_le)
    moreover have "key \<notin> set ks"
    proof
      assume "key \<in> set ks"
      then obtain j where j: "j < length ks" "ks ! j = key" by (auto simp: in_set_conv_nth)
      then show False using lt b(3) [of j] below [of j] by (cases "j = b"; cases "j < b") auto
    qed
    ultimately show ?thesis using run lt by auto
  next
    case gt
    then have "b = 0" using b(2) by auto
    then have "child_index key ks = 0" using gt b(1) by (cases ks) (auto simp: child_index_def)
    moreover have "key \<notin> set ks"
    proof
      assume "key \<in> set ks"
      then obtain j where j: "j < length ks" "ks ! j = key" by (auto simp: in_set_conv_nth)
      then show False using gt b(3) [of j] \<open>b = 0\<close> by (cases "j = 0") auto
    qed
    ultimately show ?thesis using run gt \<open>b = 0\<close> by auto
  qed
qed

end
