(* ===== verification/Tree_Storage.thy ===== *)
theory Tree_Storage
  imports Tree_Model
begin

text \<open>
  Trees in pages: when the pages of the index file store a tree, what the descent of \<open>get\<close> and
  \<open>breadcrumbs\<close> reads on its way, and that a descent ends in the one leaf that can hold the key.
\<close>

section \<open>Stored trees\<close>

definition at_leaf :: "(u64 \<Rightarrow> bytes option) \<Rightarrow> u64 \<Rightarrow> (u64 \<times> u64) list \<Rightarrow> bool" where
  "at_leaf v i kvs \<longleftrightarrow> (\<exists>p nd. v i = Some p \<and> page_rep p nd \<and> node_leaf nd \<and> n_cells nd = kvs)"

definition at_inner :: "(u64 \<Rightarrow> bytes option) \<Rightarrow> u64 \<Rightarrow> u64 list \<Rightarrow> u64 list \<Rightarrow> bool" where
  "at_inner v i ks cs \<longleftrightarrow> length cs = Suc (length ks) \<and>
     (\<exists>p nd. v i = Some p \<and> page_rep p nd \<and> \<not> node_leaf nd \<and> n_cells nd = zip ks cs \<and>
        n_ptr nd = last cs)"

fun stored :: "(u64 \<Rightarrow> bytes option) \<Rightarrow> tree \<Rightarrow> bool" where
  "stored v (Tip i kvs) \<longleftrightarrow> at_leaf v i kvs"
| "stored v (Fork i ks ts) \<longleftrightarrow> at_inner v i ks (map tid ts) \<and> list_all (stored v) ts"

definition stored_frame :: "(u64 \<Rightarrow> bytes option) \<Rightarrow> u64 \<Rightarrow> frame \<Rightarrow> bool" where
  "stored_frame v h f \<longleftrightarrow>
     at_inner v (fr_id f) (fr_lks f @ fr_rks f) (map tid (fr_lts f) @ h # map tid (fr_rts f)) \<and>
     list_all (stored v) (fr_lts f) \<and> list_all (stored v) (fr_rts f)"

fun stored_ctx :: "(u64 \<Rightarrow> bytes option) \<Rightarrow> u64 \<Rightarrow> frame list \<Rightarrow> bool" where
  "stored_ctx v h [] = True"
| "stored_ctx v h (f # c) \<longleftrightarrow> stored_frame v h f \<and> stored_ctx v (fr_id f) c"

lemma stored_fill: "stored v (fill f t) \<longleftrightarrow> stored_frame v (tid t) f \<and> stored v t"
  by (auto simp: fill_def stored_frame_def)

lemma stored_plug: "stored v (plug c t) \<longleftrightarrow> stored_ctx v (tid t) c \<and> stored v t"
  by (induction c arbitrary: t) (auto simp: stored_fill)

lemma stored_cong: "stored v t \<Longrightarrow> (\<And>j. j \<in> set (ids t) \<Longrightarrow> v' j = v j) \<Longrightarrow> stored v' t"
proof (induction t)
  case (Fork i ks ts)
  have "list_all (stored v') ts"
    using Fork by (auto simp: list_all_iff)
  moreover have "at_inner v' i ks (map tid ts)" using Fork.prems by (auto simp: at_inner_def)
  ultimately show ?case by simp
qed (auto simp: at_leaf_def)

lemma stored_frame_cong:
  "stored_frame v h f \<Longrightarrow> (\<And>j. j \<in> set (frame_ids f) \<Longrightarrow> v' j = v j) \<Longrightarrow> stored_frame v' h f"
  by (auto simp: stored_frame_def at_inner_def frame_ids_def list_all_iff intro: stored_cong)

lemma stored_ctx_cong:
  "stored_ctx v h c \<Longrightarrow> (\<And>j. j \<in> set (concat (map frame_ids c)) \<Longrightarrow> v' j = v j) \<Longrightarrow>
   stored_ctx v' h c"
  by (induction c arbitrary: h) (auto intro: stored_frame_cong)

lemma stored_visible: "stored v t \<Longrightarrow> i \<in> set (ids t) \<Longrightarrow> v i \<noteq> None"
proof (induction t)
  case (Fork j ks ts)
  then show ?case by (auto simp: at_inner_def list_all_iff)
qed (auto simp: at_leaf_def)


text \<open>Among the pages of a tree, only its root is of kind \<open>Root\<close>.\<close>

definition kind_of :: "(u64 \<Rightarrow> bytes option) \<Rightarrow> u64 \<Rightarrow> page_kind option" where
  "kind_of v i = (case v i of None \<Rightarrow> None
     | Some p \<Rightarrow> (case page_header p of Inl _ \<Rightarrow> None | Inr h \<Rightarrow> Some (ih_page_ty h)))"

definition kinds :: "(u64 \<Rightarrow> bytes option) \<Rightarrow> tree \<Rightarrow> bool" where
  "kinds v t \<longleftrightarrow> (\<forall>i \<in> set (ids t). kind_of v i = Some Root \<longleftrightarrow> i = tid t)"

lemma kind_of_rep: "v i = Some p \<Longrightarrow> page_rep p nd \<Longrightarrow> kind_of v i = Some (n_ty nd)"
  by (simp add: kind_of_def page_header_rep)

lemma kind_of_cong: "v i = v' i \<Longrightarrow> kind_of v i = kind_of v' i"
  by (simp add: kind_of_def)


section \<open>The descent\<close>

function descend :: "u64 \<Rightarrow> frame list \<Rightarrow> tree \<Rightarrow> frame list \<times> u64 \<times> (u64 \<times> u64) list" where
  "descend key c (Tip i kvs) = (c, i, kvs)"
| "descend key c (Fork i ks ts) =
     (let j = child_index key ks in
      case drop j ts of
        [] \<Rightarrow> (c, i, [])
      | t # bs \<Rightarrow> descend key (\<lparr>fr_id = i, fr_lks = take j ks, fr_lts = take j ts,
          fr_rks = drop j ks, fr_rts = bs\<rparr> # c) t)"
  by pat_completeness auto
termination
proof (relation "measure (\<lambda>(key, c, t). size t)", goal_cases)
  case (2 key c i ks ts j t bs)
  then have "t \<in> set ts" by (metis in_set_dropD list.set_intros(1))
  then have "size t \<le> size_list size ts" by (rule size_list_estimation') simp
  then show ?case by simp
qed simp

lemma child_index_le: "child_index key ks \<le> length ks"
  by (simp add: child_index_def length_takeWhile_le)

text \<open>The frame of the child to follow.\<close>

definition child_frame :: "u64 \<Rightarrow> u64 \<Rightarrow> u64 list \<Rightarrow> tree list \<Rightarrow> frame" where
  "child_frame key i ks ts =
     (let j = child_index key ks in
      \<lparr>fr_id = i, fr_lks = take j ks, fr_lts = take j ts, fr_rks = drop j ks, fr_rts = drop (Suc j) ts\<rparr>)"

lemma descend_Fork:
  assumes "length ts = Suc (length ks)"
  shows "descend key c (Fork i ks ts) =
    descend key (child_frame key i ks ts # c) (ts ! child_index key ks)"
proof -
  have "child_index key ks < length ts" using assms child_index_le [of key ks] by simp
  then show ?thesis
    by (simp add: child_frame_def Let_def Cons_nth_drop_Suc [symmetric])
qed

lemma fill_child_frame:
  assumes "length ts = Suc (length ks)"
  shows "fill (child_frame key i ks ts) (ts ! child_index key ks) = Fork i ks ts"
proof -
  have "child_index key ks < length ts" using assms child_index_le [of key ks] by simp
  then show ?thesis by (simp add: fill_def child_frame_def Let_def id_take_nth_drop [symmetric])
qed

lemma child_frame_fits:
  "fits n (Fork i ks ts) \<Longrightarrow> frame_fits n (child_frame key i ks ts) \<and> fits n (ts ! child_index key ks)"
  using child_index_le [of key ks]
  by (auto simp: child_frame_def Let_def frame_fits_def list_all_iff dest: in_set_takeD in_set_dropD)

lemma fr_id_child_frame [simp]: "fr_id (child_frame key i ks ts) = i"
  by (simp add: child_frame_def Let_def)

text \<open>The key belongs between the items to the left and to the right of the hole.\<close>

definition between :: "frame list \<Rightarrow> u64 \<Rightarrow> bool" where
  "between c key \<longleftrightarrow> (\<forall>x \<in> set (left_items c). fst x < entry_place key) \<and>
     (\<forall>x \<in> set (right_items c). entry_place key < fst x)"

lemma set_weave: "length xss = length ks \<Longrightarrow> set ks \<subseteq> set (weave xss ks)"
  by (induction xss ks rule: list_induct2) auto

lemma weave_last:
  assumes "length xss = length ks" and "sorted_items (weave xss ks)" and "ks \<noteq> []"
  shows "x \<in> set (weave xss ks) \<Longrightarrow> fst x \<le> fst (last ks)"
  using assms
proof (induction xss ks rule: list_induct2)
  case (Cons xs xss k ks)
  show ?case
  proof (cases "ks = []")
    case True
    then show ?thesis using Cons by (auto simp: sorted_items_append sorted_items_Cons less_imp_le)
  next
    case False
    then have "last ks \<in> set (weave xss ks)"
      using set_weave [OF Cons.hyps] last_in_set [OF False] by blast
    then have less: "fst y < fst (last ks)" if "y \<in> set xs \<or> y = k" for y
      using Cons.prems that by (auto simp: sorted_items_append sorted_items_Cons)
    show ?thesis
    proof (cases "x \<in> set xs \<or> x = k")
      case True
      then show ?thesis using less [of x] False by simp
    next
      case outside: False
      then show ?thesis
        using Cons.IH Cons.prems False by (simp add: sorted_items_append sorted_items_Cons)
    qed
  qed
qed simp

lemma behind_first:
  assumes "sorted_items (behind (k # ks) xss)"
  shows "x \<in> set (behind (k # ks) xss) \<Longrightarrow> fst k \<le> fst x"
  using assms by (cases xss) (auto simp: sorted_items_Cons less_imp_le)

lemma child_frame_between:
  assumes fit: "fits n (Fork i ks ts)" and sorted: "sorted_items (items (Fork i ks ts))"
  shows "(\<forall>x \<in> set (frame_left (child_frame key i ks ts)). fst x < entry_place key) \<and>
    (\<forall>x \<in> set (frame_right (child_frame key i ks ts)). entry_place key < fst x)"
proof -
  let ?j = "child_index key ks" and ?f = "child_frame key i ks ts"
  have len: "length ts = Suc (length ks)" using fit by simp
  have "items (Fork i ks ts) = frame_left ?f @ items (ts ! ?j) @ frame_right ?f"
    using items_fill [of n ?f "ts ! ?j"] child_frame_fits [OF fit] fill_child_frame [OF len] by metis
  then have s: "sorted_items (frame_left ?f)" "sorted_items (frame_right ?f)"
    using sorted by (simp_all add: sorted_items_append)
  have below: "\<forall>k \<in> set (take ?j ks). k \<le> key"
    unfolding child_index_def by (metis set_takeWhileD takeWhile_eq_take)
  have "fst x < entry_place key" if x: "x \<in> set (frame_left ?f)" for x
  proof (cases "take ?j ks = []")
    case True
    then have "?j = 0" by (auto simp: child_index_def)
    then have "frame_left ?f = []" by (simp add: frame_left_def child_frame_def Let_def)
    then show ?thesis using x by simp
  next
    case False
    have "fst x \<le> fst (last (map sep_item (take ?j ks)))"
      using x s(1) False len child_index_le [of key ks]
      by (intro weave_last [of "map items (take ?j ts)"])
        (simp_all add: frame_left_def child_frame_def Let_def)
    also have "\<dots> < entry_place key" using False below last_in_set [OF False] by (simp add: last_map)
    finally show ?thesis .
  qed
  moreover have "entry_place key < fst x" if x: "x \<in> set (frame_right ?f)" for x
  proof (cases "drop ?j ks")
    case Nil
    then show ?thesis using x by (simp add: frame_right_def child_frame_def Let_def)
  next
    case (Cons k kr)
    then have "\<not> k \<le> key"
      by (metis child_index_def dropWhile_eq_drop dropWhile_eq_Cons_conv)
    then have "entry_place key < fst (sep_item k)" by simp
    also have "\<dots> \<le> fst x"
      using x s(2) Cons behind_first [of "sep_item k" "map sep_item kr" _ x]
      by (simp add: frame_right_def child_frame_def Let_def)
    finally show ?thesis .
  qed
  ultimately show ?thesis by blast
qed

text \<open>What a descent gives: the tree with the leaf as the hole's filling.\<close>

lemma descend_props:
  assumes "descend key c t = (c', i, kvs)" and "fits n t" and "list_all (frame_fits n) c"
    and "sorted_items (items (plug c t))" and "between c key"
  shows "plug c' (Tip i kvs) = plug c t \<and> list_all (frame_fits n) c' \<and> between c' key \<and>
    length kvs \<le> n"
  using assms
proof (induction t arbitrary: c)
  case (Fork j ks ts)
  let ?f = "child_frame key j ks ts" and ?t = "ts ! child_index key ks"
  have len: "length ts = Suc (length ks)" using Fork.prems(2) by simp
  then have mem: "?t \<in> set ts" using child_index_le [of key ks] by simp
  note fits = child_frame_fits [OF Fork.prems(2), of key] and whole = fill_child_frame [OF len, of key j]
  have "sorted_items (items (Fork j ks ts))"
    using Fork.prems(4) by (simp add: items_plug [OF Fork.prems(3)] sorted_items_append)
  then have "between (?f # c) key"
    using child_frame_between [OF Fork.prems(2)] Fork.prems(5) by (auto simp: between_def)
  then show ?case
    using Fork.IH [OF mem, of "?f # c"] Fork.prems fits descend_Fork [OF len] whole by simp
qed simp

lemma length_ids_pos [simp]: "0 < length (ids t)"
  by (cases t) simp_all

lemma descend_length:
  "descend key c t = (c', i, kvs) \<Longrightarrow> fits n t \<Longrightarrow> length c' < length c + length (ids t)"
proof (induction t arbitrary: c)
  case (Fork j ks ts)
  let ?t = "ts ! child_index key ks"
  have len: "length ts = Suc (length ks)" using Fork.prems(2) by simp
  then have mem: "?t \<in> set ts" using child_index_le [of key ks] by simp
  have "length c' < Suc (length c) + length (ids ?t)"
    using Fork.IH [OF mem, of "child_frame key j ks ts # c"] Fork.prems descend_Fork [OF len]
      child_frame_fits [OF Fork.prems(2)] by simp
  moreover have "length (ids ?t) \<le> length (concat (map ids ts))"
    using mem by (auto simp: length_concat comp_def intro!: member_le_sum_list)
  ultimately show ?case by simp
qed simp

lemma descend_longer: "descend key c t = (c', i, kvs) \<Longrightarrow> fits n t \<Longrightarrow> length c \<le> length c'"
proof (induction t arbitrary: c)
  case (Fork j ks ts)
  have len: "length ts = Suc (length ks)" using Fork.prems(2) by simp
  then have "ts ! child_index key ks \<in> set ts" using child_index_le [of key ks] by simp
  from Fork.IH [OF this] show ?case
    using Fork.prems(1) descend_Fork [OF len] child_frame_fits [OF Fork.prems(2)] by fastforce
qed simp


lemma descend_level:
  "descend key c t = (c', i, kvs) \<Longrightarrow> fits m t \<Longrightarrow> level n t \<Longrightarrow> length c' = length c + n"
proof (induction t arbitrary: c n)
  case (Fork j ks ts)
  let ?t = "ts ! child_index key ks"
  have len: "length ts = Suc (length ks)" using Fork.prems(2) by simp
  then have mem: "?t \<in> set ts" using child_index_le [of key ks] by simp
  obtain n' where n: "n = Suc n'" "level n' ?t"
    using Fork.prems(3) mem by (cases n) (auto simp: list_all_iff)
  show ?case
    using Fork.IH [OF mem, of "child_frame key j ks ts # c" n'] Fork.prems descend_Fork [OF len]
      child_frame_fits [OF Fork.prems(2)] n by simp
qed simp


section \<open>What the descent reads\<close>

lemma get_step_leaf:
  assumes "page_rep p nd" and "node_leaf nd"
  shows "get_step key i p = (case map_of (n_cells nd) key of
      None \<Rightarrow> Inl (Err ''Entry not found'') | Some h \<Rightarrow> Inr (Inr h))"
    and "crumb_step key (i, tr) p = Inr (Inr (i # tr, key \<in> fst ` set (n_cells nd)))"
proof -
  let ?ks = "map fst (n_cells nd)" and ?cs = "map (cell_of True) (n_cells nd)"
  have sorted: "sorted_wrt (<) ?ks" using assms(1) by (rule page_rep_sorted)
  have k: "map c_key ?cs = ?ks" by (simp add: comp_def cell_of_def)
  note sc = search_cells_spec [OF sorted k, of key]
  have read: "page_header p = Inr (hdr_of nd)" "get_cells p = Inr ?cs"
    using page_header_rep [OF assms(1)] get_cells_rep [OF assms(1)] assms(2) by simp_all
  show "crumb_step key (i, tr) p = Inr (Inr (i # tr, key \<in> fst ` set (n_cells nd)))"
    using sc assms(2) by (auto simp: crumb_step_def read Let_def)
  show "get_step key i p = (case map_of (n_cells nd) key of
      None \<Rightarrow> Inl (Err ''Entry not found'') | Some h \<Rightarrow> Inr (Inr h))"
  proof (cases "key \<in> set ?ks")
    case True
    let ?j = "child_index key ?ks - 1"
    have j: "?j < length (n_cells nd)" "fst (n_cells nd ! ?j) = key"
      using sc True child_index_le [of key ?ks] by auto
    have "distinct ?ks" using sorted by (auto simp: strict_sorted_iff)
    then have "map_of (n_cells nd) key = Some (snd (n_cells nd ! ?j))"
      using j by (metis map_of_is_SomeI nth_mem prod.collapse)
    then show ?thesis
      using sc True j assms(2) by (simp add: get_step_def read cell_of_def)
  next
    case False
    then have "map_of (n_cells nd) key = None" by (simp add: map_of_eq_None_iff)
    then show ?thesis using sc False assms(2) by (simp add: get_step_def read)
  qed
qed

lemma step_inner:
  assumes "at_inner v i ks cs" and "v i = Some p"
  shows "get_step key j p = Inr (Inl (cs ! child_index key ks))"
    and "crumb_step key (j, tr) p = Inr (Inl (cs ! child_index key ks, j # tr))"
proof -
  obtain nd where nd: "page_rep p nd" "\<not> node_leaf nd" "n_cells nd = zip ks cs" "n_ptr nd = last cs"
    and len: "length cs = Suc (length ks)"
    using assms by (auto simp: at_inner_def)
  let ?cells = "map (cell_of False) (zip ks cs)"
  have ks: "map fst (zip ks cs) = ks" using len by (simp add: map_fst_zip_take)
  have sorted: "sorted_wrt (<) ks" using page_rep_sorted [OF nd(1)] nd(3) ks by simp
  have k: "map c_key ?cells = ks" using ks by (simp add: comp_def cell_of_def)
  note sc = search_cells_spec [OF sorted k, of key]
  have read: "page_header p = Inr (hdr_of nd)" "get_cells p = Inr ?cells"
    using page_header_rep [OF nd(1)] get_cells_rep [OF nd(1)] nd(2,3) by simp_all
  have "last cs = cs ! length ks" using len by (metis diff_Suc_1 last_conv_nth length_0_conv nat.simps(3))
  then have child: "child_at ?cells (hdr_of nd) (child_index key ks) = Inr (cs ! child_index key ks)"
    using len child_index_le [of key ks] nd(4) by (auto simp: child_at_def cell_of_def)
  show "get_step key j p = Inr (Inl (cs ! child_index key ks))"
    using sc child nd(2) by (auto simp: get_step_def read)
  show "crumb_step key (j, tr) p = Inr (Inl (cs ! child_index key ks, j # tr))"
    using sc child nd(2) by (auto simp: crumb_step_def read Let_def)
qed

lemma walk_descend:
  assumes "stored v t" and "fits m t" and "descend key c t = (c', i, kvs)"
    and "length c' < length c + n"
  shows "walk n v (\<lambda>x. x) (get_step key) (tid t) = Some (case map_of kvs key of
      None \<Rightarrow> Inl (Err ''Entry not found'') | Some h \<Rightarrow> Inr h) \<and>
    walk n v fst (crumb_step key) (tid t, map fr_id c) =
      Some (Inr (i # map fr_id c', key \<in> fst ` set kvs))"
  using assms
proof (induction t arbitrary: c n)
  case (Tip j kvs')
  then obtain p nd where "v j = Some p" "page_rep p nd" "node_leaf nd" "n_cells nd = kvs'"
    by (auto simp: at_leaf_def)
  then show ?case
    using Tip get_step_leaf [of p nd key] by (cases n) (auto split: option.splits)
next
  case (Fork j ks ts)
  let ?x = "child_index key ks" and ?f = "child_frame key j ks ts"
  have len: "length ts = Suc (length ks)" using Fork.prems(2) by simp
  then have mem: "ts ! ?x \<in> set ts" "?x < length ts" using child_index_le [of key ks] by simp_all
  have inner: "at_inner v j ks (map tid ts)" and sub: "stored v (ts ! ?x)"
    using Fork.prems(1) mem by (auto simp: list_all_iff)
  obtain p where p: "v j = Some p" using inner by (auto simp: at_inner_def)
  have d: "descend key (?f # c) (ts ! ?x) = (c', i, kvs)"
    using Fork.prems(3) descend_Fork [OF len] by simp
  have "length (?f # c) \<le> length c'"
    using descend_longer [OF d child_frame_fits [THEN conjunct2, OF Fork.prems(2)]] .
  then obtain n' where n: "n = Suc n'" "length c' < length (?f # c) + n'"
    using Fork.prems(4) by (cases n) auto
  show ?case
    using Fork.IH [OF mem(1) sub _ d n(2)] child_frame_fits [OF Fork.prems(2)] step_inner [OF inner p] p mem n(1)
    by simp
qed

end
