(* ===== verification/Tree_State.thy ===== *)
theory Tree_State
  imports Tree_Storage Recovery
begin

text \<open>
  The steps of the tree's operations on its state: reading, allocating and rewriting pages under the
  log, as changes of the visible index pages; and the two operations that only read, \<open>get\<close> and the
  search for the leaf of a key.
\<close>

section \<open>What a step keeps\<close>

abbreviation iview :: "bplus_tree \<Rightarrow> u64 \<Rightarrow> bytes option" where
  "iview s \<equiv> p_index_view (t_pager s)"

abbreviation hview :: "bplus_tree \<Rightarrow> u64 \<Rightarrow> bytes option" where
  "hview s \<equiv> p_heap_view (t_pager s)"

abbreviation inext :: "bplus_tree \<Rightarrow> u64" where
  "inext s \<equiv> pf_next_id (p_index (t_pager s))"

abbreviation hnext :: "bplus_tree \<Rightarrow> u64" where
  "hnext s \<equiv> pf_next_id (p_heap (t_pager s))"

abbreviation tree_good :: "bplus_tree \<Rightarrow> bool" where
  "tree_good s \<equiv> pager_good (t_pager s)"

abbreviation log_room :: "nat \<Rightarrow> bplus_tree \<Rightarrow> bool" where
  "log_room n s \<equiv> wal_room n (p_wal (t_pager s))"

text \<open>The step writes at most \<open>n\<close> log records and leaves the root and the heap alone.\<close>

definition kept :: "nat \<Rightarrow> bplus_tree \<Rightarrow> bplus_tree \<Rightarrow> bool" where
  "kept n s s' \<longleftrightarrow> tree_good s' \<and> root_id s' = root_id s \<and> hview s' = hview s \<and>
     hnext s' = hnext s \<and> (\<forall>m. log_room (m + n) s \<longrightarrow> log_room m s')"

definition t_quiet :: "bplus_tree \<Rightarrow> bplus_tree \<Rightarrow> bool" where
  "t_quiet s s' \<longleftrightarrow> kept 0 s s' \<and> iview s' = iview s \<and> inext s' = inext s"

lemma kept_refl: "tree_good s \<Longrightarrow> kept n s s"
  by (auto simp: kept_def intro: wal_room_mono)

lemma kept_trans: "kept a s t \<Longrightarrow> kept b t u \<Longrightarrow> kept (a + b) s u"
  by (simp add: kept_def) (metis add.assoc add.commute)

lemma kept_mono: "kept a s t \<Longrightarrow> a \<le> b \<Longrightarrow> kept b s t"
  unfolding kept_def by (metis add_left_mono wal_room_mono)

lemma kept_room: "kept a s t \<Longrightarrow> log_room n s \<Longrightarrow> a \<le> n \<Longrightarrow> log_room (n - a) t"
  by (auto simp: kept_def)

lemma t_quiet_trans: "t_quiet s t \<Longrightarrow> t_quiet t u \<Longrightarrow> t_quiet s u"
  using kept_trans [of 0 s t 0 u] by (auto simp: t_quiet_def)

text \<open>A step in the index file.\<close>

lemma index_step:
  assumes run: "p (p_index (t_pager s), p_wal (t_pager s)) = (r, (st, w))" and good: "tree_good s"
    and st: "store_good 4096 (st, w)" "log_same (p_wal (t_pager s)) w"
  shows "\<exists>s'. on_pager (on_index p) s = (r, s') \<and> kept 0 s s' \<and> iview s' = store_view 4096 st \<and>
    inext s' = pf_next_id st"
proof -
  note step = on_index_step [where p = p, OF run good st]
  have "wal_room m w" if "wal_room m (p_wal (t_pager s))" for m
    using st(2) that wal_room_hdr [of w "p_wal (t_pager s)" m] by (simp add: log_same_def)
  then show ?thesis
    using step by (simp add: on_pager_def kept_def p_index_view_def p_heap_view_def)
qed

lemma good_index: "tree_good s \<Longrightarrow> index_good (p_index (t_pager s), p_wal (t_pager s))"
  by (simp add: pager_good_def)

interpretation tree_reader: page_reader tree_good iview t_fetch t_quiet
proof
  fix s s' s'' :: bplus_tree and i p
  show "\<exists>s'. t_fetch i s = (Inr p, s') \<and> t_quiet s s'" if good: "tree_good s" and v: "iview s i = Some p"
  proof -
    obtain st w where f: "index_fetch i (p_index (t_pager s), p_wal (t_pager s)) = (Inr p, (st, w))"
      "quiet 4096 (p_index (t_pager s), p_wal (t_pager s)) (st, w)"
      using index_reader.fetch_page [OF good_index [OF good], of i p] v
      by (auto simp: p_index_view_def)
    then show ?thesis
      using index_step [where p = "index_fetch i", OF f(1) good] by (auto simp: t_fetch_def t_quiet_def quiet_def p_index_view_def)
  qed
  show "t_quiet s s' \<Longrightarrow> tree_good s'" "t_quiet s s' \<Longrightarrow> iview s' = iview s"
    by (simp_all add: t_quiet_def kept_def)
  show "tree_good s \<Longrightarrow> t_quiet s s" by (simp add: t_quiet_def kept_refl)
  show "t_quiet s s' \<Longrightarrow> t_quiet s' s'' \<Longrightarrow> t_quiet s s''" by (rule t_quiet_trans)
qed

lemma t_with_page_run:
  assumes good: "tree_good s" and v: "iview s i = Some p"
    and body: "body p = (r, p')" "length p' = 4096"
  shows "\<exists>s'. t_with_page i body s = (r, s') \<and> kept 0 s s' \<and> iview s' = (iview s)(i \<mapsto> p') \<and>
    inext s' = inext s"
proof -
  have "\<exists>z. index_with_page i body (p_index (t_pager s), p_wal (t_pager s)) = (r, z) \<and>
      changed 4096 i p' (p_index (t_pager s), p_wal (t_pager s)) z"
    using index_with_page_run [where body = body and p = p and r = r, OF good_index [OF good]] v body
    by (simp add: p_index_view_def)
  then obtain st w where f: "index_with_page i body (p_index (t_pager s), p_wal (t_pager s)) = (r, (st, w))"
    "changed 4096 i p' (p_index (t_pager s), p_wal (t_pager s)) (st, w)"
    by auto
  then show ?thesis
    using index_step [where p = "index_with_page i body", OF f(1) good]
    by (auto simp: t_with_page_def changed_def p_index_view_def)
qed

lemma t_allocate_run:
  assumes good: "tree_good s" and room: "(unat (inext s) + 1) * 4096 < 18446744073709551616"
  shows "\<exists>s' p. t_allocate ty s = (Inr (inext s), s') \<and> kept 0 s s' \<and>
    iview s' = (iview s)(inext s \<mapsto> p) \<and> page_rep p (empty_node (inext s) ty 0) \<and>
    unat (inext s') = unat (inext s) + 1"
proof -
  obtain st w p where f: "index_allocate ty (p_index (t_pager s), p_wal (t_pager s)) =
      (Inr (inext s), (st, w))"
    "index_good (st, w)" "index_view (st, w) = (iview s)(inext s \<mapsto> p)"
    "page_rep p (empty_node (inext s) ty 0)" "unat (pf_next_id st) = unat (inext s) + 1"
    "log_same (p_wal (t_pager s)) w"
    using index_allocate_run [OF good_index [OF good], of ty] room by (auto simp: p_index_view_def)
  then show ?thesis using index_step [where p = "index_allocate ty", OF f(1) good f(2,6)] by (auto simp: t_allocate_def)
qed

lemma t_log_diff_run:
  assumes good: "tree_good s" and room: "log_room (Suc n) s"
    and len: "length old = 4096" "length new = 4096"
  shows "\<exists>s'. t_log_diff txn i old new s = (Inr (), s') \<and> kept 1 s s' \<and> iview s' = iview s \<and>
    inext s' = inext s"
proof -
  obtain p' r rs where f: "log_index_diff txn i old new (t_pager s) = (Inr r, p')"
    "logged rs (t_pager s) p'" "length rs \<le> 1"
    using log_index_diff_run [OF good room len, of txn i] by (auto split: if_splits)
  have "wal_room m (p_wal p')" if "wal_room (m + 1) (p_wal (t_pager s))" for m
    using f(2,3) that wal_room_mono [OF that, of "m + length rs"] by (auto simp: logged_def log_grows_def)
  then show ?thesis
    using f by (auto simp: t_log_diff_def on_pager_def andthen_def run_simps kept_def logged_def)
qed

lemma rewrite_page_run:
  assumes good: "tree_good s" and v: "iview s i = Some p" "length p = 4096"
    and body: "body p = (Inr r, p')" "length p' = 4096" and room: "log_room (Suc n) s"
  shows "\<exists>s'. rewrite_page txn i body s = (Inr r, s') \<and> kept 1 s s' \<and>
    iview s' = (iview s)(i \<mapsto> p') \<and> inext s' = inext s"
proof -
  obtain s1 where s1: "t_fetch i s = (Inr p, s1)" "t_quiet s s1"
    using tree_reader.fetch_page [OF good v(1)] by blast
  have q: "tree_good s1" "iview s1 i = Some p" "log_room (Suc n) s1"
    using s1(2) v room by (auto simp: t_quiet_def kept_def)
  have "andthen body (\<lambda>r. gets (\<lambda>page. (r, page))) p = (Inr (r, p'), p')"
    using body by (simp add: andthen_def run_simps)
  then obtain s2 where s2: "t_with_page i (andthen body (\<lambda>r. gets (\<lambda>page. (r, page)))) s1 = (Inr (r, p'), s2)"
    "kept 0 s1 s2" "iview s2 = (iview s1)(i \<mapsto> p')" "inext s2 = inext s1"
    using t_with_page_run [where body = "andthen body (\<lambda>r. gets (\<lambda>page. (r, page)))", OF q(1,2) _ body(2)]
    by blast
  have r2: "tree_good s2" "log_room (Suc n) s2" using s2(2) q(3) by (auto simp: kept_def)
  obtain s3 where s3: "t_log_diff txn i p p' s2 = (Inr (), s3)" "kept 1 s2 s3" "iview s3 = iview s2"
    "inext s3 = inext s2"
    using t_log_diff_run [OF r2 v(2) body(2)] by blast
  have "kept 1 s s3"
    using kept_trans [OF kept_trans [OF _ s2(2)] s3(2)] s1(2) by (auto simp: t_quiet_def)
  then show ?thesis
    using s1 s2 s3 by (auto simp: rewrite_page_def andthen_def run_simps t_quiet_def)
qed

text \<open>The same for a body that turns the page of a node into that of another one.\<close>

lemma rewrite_node_run:
  assumes good: "tree_good s" and v: "iview s i = Some p" "page_rep p nd"
    and body: "\<exists>p'. body p = (Inr r, p') \<and> page_rep p' nd'" and room: "log_room (Suc n) s"
  shows "\<exists>s' p'. rewrite_page txn i body s = (Inr r, s') \<and> kept 1 s s' \<and>
    iview s' = (iview s)(i \<mapsto> p') \<and> page_rep p' nd' \<and> inext s' = inext s"
proof -
  obtain p' where p': "body p = (Inr r, p')" "page_rep p' nd'" using body by blast
  show ?thesis
    using rewrite_page_run [where body = body, OF good v(1) page_rep_length [OF v(2)] p'(1)
        page_rep_length [OF p'(2)] room] p'(2)
    by blast
qed

lemma t_read_run:
  assumes good: "tree_good s" and v: "iview s i = Some p" "page_rep p nd"
  shows "\<exists>s'. t_read i s = (Inr (hdr_of nd, map (cell_of (node_leaf nd)) (n_cells nd)), s') \<and> t_quiet s s'"
proof -
  obtain s1 where s1: "t_fetch i s = (Inr p, s1)" "t_quiet s s1"
    using tree_reader.fetch_page [OF good v(1)] by blast
  then show ?thesis
    using page_header_rep [OF v(2)] get_cells_rep [OF v(2)]
    by (simp add: t_read_def andthen_def run_simps)
qed


section \<open>The tree of a state\<close>

text \<open>
  The index pages of the state hold the search tree \<open>T\<close>, with at most \<open>n\<close> cells in every page.
\<close>

definition holds_tree :: "nat \<Rightarrow> bplus_tree \<Rightarrow> tree \<Rightarrow> bool" where
  "holds_tree n s T \<longleftrightarrow> tree_good s \<and> stored (iview s) T \<and> fits n T \<and> sorted_items (items T) \<and>
     distinct (ids T) \<and> kinds (iview s) T"

lemma ids_bound:
  assumes "tree_good s" and "stored (iview s) T" and "i \<in> set (ids T)"
  shows "i < inext s"
proof -
  have "store_ok 4096 (p_index (t_pager s))" using assms(1) by (simp add: pager_good_def store_good_def)
  then show ?thesis
    using stored_visible [OF assms(2,3)] store_view_bound [of 4096 "p_index (t_pager s)" i]
    by (auto simp: p_index_view_def)
qed

lemma length_ids_bound:
  assumes "holds_tree n s T"
  shows "length (ids T) \<le> unat (inext s)"
proof -
  have "unat i < unat (inext s)" if "i \<in> set (ids T)" for i
    using ids_bound [of s T i] assms that by (simp add: holds_tree_def word_less_nat_alt)
  then have sub: "unat ` set (ids T) \<subseteq> {..< unat (inext s)}" by auto
  have "inj_on unat (set (ids T))" by (simp add: inj_on_def word_unat_eq_iff)
  then have "card (unat ` set (ids T)) = length (ids T)"
    using assms by (simp add: card_image distinct_card holds_tree_def)
  then show ?thesis using card_mono [OF _ sub] by simp
qed

lemma tree_fuel_run [run_simps]: "tree_fuel s = (Inr (unat (inext s) + 1), s)"
  by (simp add: tree_fuel_def run_simps)

text \<open>The leaf a key belongs to, with the path that leads there.\<close>

lemma holds_tree_descend:
  assumes "holds_tree n s T" and "descend key [] T = (c, i, kvs)"
  shows "plug c (Tip i kvs) = T" and "list_all (frame_fits n) c" and "between c key"
    and "length kvs \<le> n" and "length c < unat (inext s)"
    and "map_of (entries T) key = map_of kvs key"
proof -
  have b: "between [] key" by (simp add: between_def)
  note h = assms(1) [unfolded holds_tree_def]
  have "fits n T" "sorted_items (items (plug [] T))" using h by simp_all
  from descend_props [OF assms(2) this(1) _ this(2) b]
  show p: "plug c (Tip i kvs) = T" "list_all (frame_fits n) c" "between c key" "length kvs \<le> n"
    by simp_all
  show "length c < unat (inext s)"
    using descend_length [OF assms(2)] h length_ids_bound [OF assms(1)] by fastforce
  have "items T = left_items c @ map entry_item kvs @ right_items c"
    using items_plug [OF p(2), of "Tip i kvs"] p(1) by simp
  moreover have "entry_place key \<notin> fst ` set (left_items c)" "entry_place key \<notin> fst ` set (right_items c)"
    using p(3) by (auto simp: between_def)
  ultimately have "content (items T) key = map_of kvs key"
    by (simp add: content_append content_entries)
  then show "map_of (entries T) key = map_of kvs key" by (simp add: content_items)
qed

lemma descent_run:
  assumes h: "holds_tree n s T" and r: "root_id s = tid T" and d: "descend key [] T = (c, i, kvs)"
  shows "\<exists>s'. iterate (unat (inext s) + 1) (follow t_fetch (\<lambda>x. x) (get_step key)) (root_id s) s =
      ((case map_of kvs key of None \<Rightarrow> Inl (Err ''Entry not found'') | Some hp \<Rightarrow> Inr hp), s') \<and>
      t_quiet s s'"
    and "\<exists>s'. breadcrumbs key s = (Inr (i # map fr_id c, key \<in> fst ` set kvs), s') \<and> t_quiet s s'"
proof -
  note h' = h [unfolded holds_tree_def]
  have good: "tree_good s" and st: "stored (iview s) T" "fits n T" using h' by simp_all
  have len: "length c < length [] + (unat (inext s) + 1)"
    using holds_tree_descend(5) [OF h d] by simp
  note w = walk_descend [OF st d len]
  show "\<exists>s'. iterate (unat (inext s) + 1) (follow t_fetch (\<lambda>x. x) (get_step key)) (root_id s) s =
      ((case map_of kvs key of None \<Rightarrow> Inl (Err ''Entry not found'') | Some hp \<Rightarrow> Inr hp), s') \<and>
      t_quiet s s'"
    using tree_reader.iterate_walk [OF good conjunct1 [OF w]] by (simp add: r)
  have "walk (unat (inext s) + 1) (iview s) fst (crumb_step key) (tid T, []) =
      Some (Inr (i # map fr_id c, key \<in> fst ` set kvs))"
    using conjunct2 [OF w] by simp
  from tree_reader.iterate_walk [OF good this]
  show "\<exists>s'. breadcrumbs key s = (Inr (i # map fr_id c, key \<in> fst ` set kvs), s') \<and> t_quiet s s'"
    by (simp add: breadcrumbs_def andthen_def run_simps r)
qed

end
