(* ===== verification/Tree_Split.thy ===== *)
theory Tree_Split
  imports Tree_State
begin

text \<open>
  Splitting a page that has become full, \<open>handle_overfull\<close>: the page and its new right sibling hold
  the two halves of the node, the parent gets the separator, and this continues up to a new root.
  The items of the tree stay as they are, but for separators.
\<close>

section \<open>Splitting a tree\<close>

fun overfull :: "tree \<Rightarrow> bool" where
  "overfull (Tip i kvs) \<longleftrightarrow> length kvs = 203"
| "overfull (Fork i ks ts) \<longleftrightarrow> length ks = 203 \<and> length ts = 204 \<and> list_all (fits 202) ts"

text \<open>The left half, the promoted key, and the right half in the page \<open>r\<close>.\<close>

fun left_half :: "tree \<Rightarrow> tree" where
  "left_half (Tip i kvs) = Tip i (take 102 kvs)"
| "left_half (Fork i ks ts) = Fork i (take 102 ks) (take 103 ts)"

fun promoted :: "tree \<Rightarrow> u64" where
  "promoted (Tip i kvs) = fst (kvs ! 102)"
| "promoted (Fork i ks ts) = ks ! 102"

fun right_half :: "u64 \<Rightarrow> tree \<Rightarrow> tree" where
  "right_half r (Tip i kvs) = Tip r (drop 102 kvs)"
| "right_half r (Fork i ks ts) = Fork r (drop 103 ks) (drop 103 ts)"

lemma tid_halves [simp]: "tid (left_half t) = tid t" "tid (right_half r t) = r"
  by (cases t; simp)+

lemma fits_halves: "overfull t \<Longrightarrow> fits 202 (left_half t) \<and> fits 202 (right_half r t)"
  by (cases t) (auto simp: list_all_iff dest: in_set_takeD in_set_dropD)

lemma mset_ids_halves: "overfull t \<Longrightarrow> mset (ids (left_half t)) + mset (ids (right_half r t)) = add_mset r (mset (ids t))"
proof (cases t)
  case (Fork i ks ts)
  have "mset (concat (map ids (take 103 ts))) + mset (concat (map ids (drop 103 ts))) =
      mset (concat (map ids ts))"
    by (metis append_take_drop_id concat_append map_append mset_append)
  then show ?thesis by (simp add: Fork)
qed simp

lemma items_halves_Fork:
  assumes "overfull (Fork i ks ts)"
  defines "t \<equiv> Fork i ks ts"
  shows "items t = items (left_half t) @ sep_item (promoted t) # items (right_half r t)"
proof -
  have k: "102 < length ks" and l: "102 < length ts" and len: "length ks = 203" "length ts = 204"
    using assms by auto
  have ks: "ks = take 102 ks @ ks ! 102 # drop 103 ks" using id_take_nth_drop [OF k] by simp
  have ts: "ts = take 102 ts @ ts ! 102 # drop 103 ts" using id_take_nth_drop [OF l] by simp
  have "items t = weave (map items (take 102 ts @ ts ! 102 # drop 103 ts))
      (map sep_item (take 102 ks @ ks ! 102 # drop 103 ks))"
    unfolding t_def items.simps using ks ts by simp
  also have "\<dots> = (weave (map items (take 102 ts)) (map sep_item (take 102 ks)) @ items (ts ! 102)) @
      sep_item (ks ! 102) # weave (map items (drop 103 ts)) (map sep_item (drop 103 ks))"
    using len by (simp add: weave_append)
  also have "weave (map items (take 102 ts)) (map sep_item (take 102 ks)) @ items (ts ! 102) =
      weave (map items (take 102 ts) @ [items (ts ! 102)]) (map sep_item (take 102 ks) @ [])"
    using len by (subst weave_append) simp_all
  also have "map items (take 102 ts) @ [items (ts ! 102)] = map items (take 103 ts)"
    using arg_cong [OF take_Suc_conv_app_nth [OF l], of "map items"] by simp
  finally show ?thesis by (simp add: t_def)
qed

lemma split_items:
  assumes over: "overfull t" and sorted: "sorted_items (l @ items t @ r)"
  shows "sorted_items (l @ items (left_half t) @ sep_item (promoted t) # items (right_half j t) @ r) \<and>
    content (l @ items (left_half t) @ sep_item (promoted t) # items (right_half j t) @ r) =
    content (l @ items t @ r)"
proof (cases t)
  case (Tip i kvs)
  have len: "102 < length kvs" "101 < length kvs" using over Tip by simp_all
  let ?k = "fst (kvs ! 102)"
  have halves: "kvs = take 102 kvs @ drop 102 kvs" by simp
  have d: "drop 102 kvs = kvs ! 102 # drop 103 kvs" using Cons_nth_drop_Suc [OF len(1)] by simp
  have t: "take 102 kvs = take 101 kvs @ [kvs ! 101]"
    using take_Suc_conv_app_nth [OF len(2)] by simp
  have it: "items t = map entry_item (take 101 kvs) @ entry_item (kvs ! 101) # map entry_item (drop 102 kvs)"
    using arg_cong [OF halves, of "map entry_item"] unfolding Tip t by simp
  have s: "sorted_items (l @ map entry_item (take 101 kvs) @ entry_item (kvs ! 101) #
      entry_item (kvs ! 102) # map entry_item (drop 103 kvs) @ r)"
    using sorted unfolding it d by simp
  have lt: "fst (kvs ! 101) < ?k"
    using s by (simp add: sorted_items_append sorted_items_Cons)
  have low: "fst x < 2 * unat ?k" if "x \<in> set l \<union> entry_item ` set (take 101 kvs) \<union> {entry_item (kvs ! 101)}" for x
  proof -
    have "fst x \<le> fst (entry_item (kvs ! 101))"
      using that s by (auto simp: sorted_items_append sorted_items_Cons less_imp_le)
    also have "\<dots> < 2 * unat ?k" using lt by simp
    finally show ?thesis .
  qed
  have high: "2 * unat ?k < fst x" if "x \<in> {entry_item (kvs ! 102)} \<union> entry_item ` set (drop 103 kvs) \<union> set r" for x
  proof -
    have "2 * unat ?k < fst (entry_item (kvs ! 102))" by simp
    also have "\<dots> \<le> fst x"
    proof (cases "x = entry_item (kvs ! 102)")
      case False
      have "\<forall>y \<in> entry_item ` set (drop 103 kvs) \<union> set r. entry_place ?k < fst y"
        using s by (simp add: sorted_items_append sorted_items_Cons)
      then show ?thesis using that False by (simp add: less_imp_le)
    qed simp
    finally show ?thesis .
  qed
  have new: "l @ items (left_half t) @ sep_item (promoted t) # items (right_half j t) @ r =
      (l @ items (left_half t)) @ sep_item ?k # (map entry_item (drop 102 kvs) @ r)"
    by (simp add: Tip)
  have old: "(l @ items (left_half t)) @ (map entry_item (drop 102 kvs) @ r) = l @ items t @ r"
    using arg_cong [OF halves, of "map entry_item"] unfolding Tip map_append by simp
  have "sorted_items ((l @ items (left_half t)) @ sep_item ?k # (map entry_item (drop 102 kvs) @ r))"
  proof -
    have "sorted_items ((l @ items (left_half t)) @ (map entry_item (drop 102 kvs) @ r))"
      using sorted by (simp only: old)
    moreover have "\<forall>x \<in> set (l @ items (left_half t)). fst x < 2 * unat ?k"
      using low by (auto simp: Tip t)
    moreover have "\<forall>x \<in> set (map entry_item (drop 102 kvs) @ r). 2 * unat ?k < fst x"
      using high by (auto simp: d)
    ultimately show ?thesis
      unfolding sorted_items_append [of "l @ items (left_half t)"] sorted_items_Cons by auto
  qed
  then show ?thesis unfolding new content_sep old by simp
next
  case (Fork i ks ts)
  then show ?thesis using sorted items_halves_Fork [of i ks ts j] over by simp
qed


section \<open>Splitting a page\<close>

lemma list_all_stored_cong:
  "list_all (stored v) ts \<Longrightarrow> (\<And>j. j \<in> set (concat (map ids ts)) \<Longrightarrow> v' j = v j) \<Longrightarrow>
   list_all (stored v') ts"
  by (auto simp: list_all_iff intro: stored_cong)

lemma at_innerI:
  "v i = Some p \<Longrightarrow> page_rep p nd \<Longrightarrow> \<not> node_leaf nd \<Longrightarrow> n_cells nd = zip ks cs \<Longrightarrow> n_ptr nd = last cs \<Longrightarrow>
   length cs = Suc (length ks) \<Longrightarrow> at_inner v i ks cs"
  by (auto simp: at_inner_def)

lemma at_leafI: "v i = Some p \<Longrightarrow> page_rep p nd \<Longrightarrow> node_leaf nd \<Longrightarrow> at_leaf v i (n_cells nd)"
  by (auto simp: at_leaf_def)

lemma rebuilt_sel [simp]:
  "n_cells (rebuilt_node rl ty i ptr kvs) = kvs" "n_ptr (rebuilt_node rl ty i ptr kvs) = ptr"
  "n_ty (rebuilt_node rl ty i ptr kvs) = ty"
  by (simp_all add: rebuilt_node_def)

lemma rebuilt_leaf [simp]:
  "node_leaf (rebuilt_node rl ty i ptr kvs) \<longleftrightarrow> ty = Leaf \<or> (rl \<and> ty = Root)"
  by (auto simp: node_leaf_def rebuilt_node_def)

lemma empty_sel [simp]:
  "n_cells (empty_node i ty ptr) = []" "n_ty (empty_node i ty ptr) = ty"
  by (simp_all add: empty_node_def)

text \<open>Rewriting a page with given cells of leaf or inner level.\<close>

lemma rebuild_run:
  assumes good: "tree_good s" and v: "iview s i = Some p" "page_rep p nd"
    and leaf: "leaf \<longleftrightarrow> ty = Leaf \<or> (ty = Root \<and> n_ty nd = Root \<and> node_leaf nd)"
    and kvs: "sorted_wrt (<) (map fst kvs)" "length kvs \<le> 203" and room: "log_room (Suc n) s"
  shows "\<exists>s' p' rl. rewrite_page txn i (rebuild_from_cells (map (cell_of leaf) kvs) ty i ptr) s = (Inr (), s') \<and>
    kept 1 s s' \<and> iview s' = (iview s)(i \<mapsto> p') \<and> page_rep p' (rebuilt_node rl ty i ptr kvs) \<and>
    (leaf \<longleftrightarrow> node_leaf (rebuilt_node rl ty i ptr kvs)) \<and> inext s' = inext s"
proof -
  have rl: "root_leaf_page p \<longleftrightarrow> n_ty nd = Root \<and> node_leaf nd"
    by (rule root_leaf_page_rep [OF v(2)])
  then have body: "\<exists>p'. rebuild_from_cells (map (cell_of leaf) kvs) ty i ptr p = (Inr (), p') \<and>
      page_rep p' (rebuilt_node (root_leaf_page p) ty i ptr kvs)"
    using rebuild_cell_of [of leaf ty p kvs] leaf kvs by simp
  have iff: "leaf \<longleftrightarrow> node_leaf (rebuilt_node (root_leaf_page p) ty i ptr kvs)"
    using leaf rl by auto
  show ?thesis
    using rewrite_node_run [where body = "rebuild_from_cells (map (cell_of leaf) kvs) ty i ptr",
        OF good v body room] iff
    by blast
qed

text \<open>Both pages of a split; neither is of kind \<open>Root\<close> afterwards.\<close>

lemma rebuild_two:
  assumes good: "tree_good s" and v: "iview s i = Some p" "page_rep p nd"
    and w: "iview s r = Some q" "page_rep q nd'" "r \<noteq> i"
    and ty: "leaf \<longleftrightarrow> ty = Leaf" "ty \<noteq> Root"
    and xs: "sorted_wrt (<) (map fst xs)" "length xs \<le> 203"
    and ys: "sorted_wrt (<) (map fst ys)" "length ys \<le> 203" and room: "log_room (n + 2) s"
  shows "\<exists>s' p' q' rl rl'.
    andthen (rewrite_page txn i (rebuild_from_cells (map (cell_of leaf) xs) ty i a)) (\<lambda>_.
      rewrite_page txn r (rebuild_from_cells (map (cell_of leaf) ys) ty r b)) s = (Inr (), s') \<and>
    kept 2 s s' \<and> iview s' = (iview s)(i \<mapsto> p', r \<mapsto> q') \<and> page_rep p' (rebuilt_node rl ty i a xs) \<and>
    page_rep q' (rebuilt_node rl' ty r b ys) \<and> inext s' = inext s"
proof -
  have leaf: "leaf \<longleftrightarrow> ty = Leaf \<or> (ty = Root \<and> n_ty m = Root \<and> node_leaf m)" for m
    using ty by simp
  have "log_room (Suc (n + 1)) s" using room by simp
  from rebuild_run [OF good v leaf xs this, of txn a]
  obtain s1 p' rl where s1:
    "rewrite_page txn i (rebuild_from_cells (map (cell_of leaf) xs) ty i a) s = (Inr (), s1)"
    "kept 1 s s1" "iview s1 = (iview s)(i \<mapsto> p')" "page_rep p' (rebuilt_node rl ty i a xs)"
    "inext s1 = inext s"
    by blast
  have "tree_good s1" "iview s1 r = Some q" "log_room (Suc n) s1"
    using s1(2,3) w(1,3) kept_room [OF s1(2) room] by (simp_all add: kept_def)
  from rebuild_run [OF this(1,2) w(2) leaf ys this(3), of txn b]
  obtain s2 q' rl' where s2:
    "rewrite_page txn r (rebuild_from_cells (map (cell_of leaf) ys) ty r b) s1 = (Inr (), s2)"
    "kept 1 s1 s2" "iview s2 = (iview s1)(r \<mapsto> q')" "page_rep q' (rebuilt_node rl' ty r b ys)"
    "inext s2 = inext s1"
    by blast
  have "kept 2 s s2" using kept_trans [OF s1(2) s2(2)] by (simp add: numeral_2_eq_2)
  then show ?thesis
    using s1 s2 by (intro exI [of _ s2] exI [of _ p'] exI [of _ q'] exI [of _ rl] exI [of _ rl'])
      (simp add: andthen_def)
qed

lemma cell_of_no_heap [simp]: "(\<lambda>c. c\<lparr>h_ptr := None\<rparr>) \<circ> cell_of False = cell_of False"
  by (auto simp: cell_of_def)

lemma c_ptr_cell_of [simp]: "c_ptr (cell_of False kv) = Some (snd kv)" "c_key (cell_of l kv) = fst kv"
  by (simp_all add: cell_of_def)

text \<open>The rest of \<open>handle_overfull\<close>, once the page \<open>i\<close> has been split.\<close>

definition after_split :: "u64 \<Rightarrow> u64 list \<Rightarrow> u64 \<Rightarrow> u64 \<Rightarrow> u64 \<Rightarrow> (bplus_tree, u64 option) m" where
  "after_split txn crumbs i r k = (case crumbs of
     parent # _ \<Rightarrow>
       andthen (link_parent txn parent i r k) (\<lambda>n.
       if ORDER \<le> n then handle_overfull txn crumbs else ok None)
   | [] \<Rightarrow> andthen (grow_root txn i r k) (\<lambda>j. ok (Some j)))"

text \<open>What the split of \<open>t\<close> leaves in the pages.\<close>

definition split_done :: "bplus_tree \<Rightarrow> bplus_tree \<Rightarrow> tree \<Rightarrow> bool" where
  "split_done s s' t \<longleftrightarrow> kept 2 s s' \<and> stored (iview s') (left_half t) \<and>
     stored (iview s') (right_half (inext s) t) \<and>
     (\<forall>j. j \<noteq> tid t \<longrightarrow> j \<noteq> inext s \<longrightarrow> iview s' j = iview s j) \<and>
     unat (inext s') = unat (inext s) + 1 \<and>
     (\<exists>p nd. iview s' (tid t) = Some p \<and> page_rep p nd \<and> n_ty nd \<noteq> Root) \<and>
     kind_of (iview s') (inext s) \<noteq> Some Root"

lemma read_allocate:
  assumes good: "tree_good s" and p: "iview s i = Some p" "page_rep p nd"
    and room: "(unat (inext s) + 1) * 4096 < 18446744073709551616"
  shows "\<exists>s1 s2 q. t_read i s = (Inr (hdr_of nd, map (cell_of (node_leaf nd)) (n_cells nd)), s1) \<and>
    t_allocate ty s1 = (Inr (inext s), s2) \<and> kept 0 s s2 \<and> iview s2 = (iview s)(inext s \<mapsto> q) \<and>
    page_rep q (empty_node (inext s) ty 0) \<and> unat (inext s2) = unat (inext s) + 1"
proof -
  obtain s1 where s1: "t_read i s = (Inr (hdr_of nd, map (cell_of (node_leaf nd)) (n_cells nd)), s1)"
    "t_quiet s s1"
    using t_read_run [OF good p] by blast
  have q1: "tree_good s1" "iview s1 = iview s" "inext s1 = inext s" "kept 0 s s1"
    using s1(2) by (simp_all add: t_quiet_def kept_def)
  obtain s2 q where s2: "t_allocate ty s1 = (Inr (inext s), s2)" "kept 0 s1 s2"
    "iview s2 = (iview s)(inext s \<mapsto> q)" "page_rep q (empty_node (inext s) ty 0)"
    "unat (inext s2) = unat (inext s) + 1"
    using t_allocate_run [OF q1(1), of ty] room q1 by auto
  have "kept 0 s s2" using kept_trans [OF q1(4) s2(2)] by simp
  then show ?thesis using s1(1) s2 by blast
qed

lemma split_doneI:
  assumes "kept 0 s s2" "iview s2 = (iview s)(inext s \<mapsto> q)" "unat (inext s2) = unat (inext s) + 1"
    and "kept 2 s2 s3" "iview s3 = (iview s2)(tid t \<mapsto> p', inext s \<mapsto> q')" "inext s3 = inext s2"
    and "tid t \<noteq> inext s" "page_rep p' nd" "n_ty nd \<noteq> Root"
    and "page_rep q' nd'" "n_ty nd' \<noteq> Root" and "stored (iview s3) (left_half t)" "stored (iview s3) (right_half (inext s) t)"
  shows "split_done s s3 t"
proof -
  have "kept 2 s s3" using kept_trans [OF assms(1,4)] by (simp only: add_0)
  moreover have "kind_of (iview s3) (inext s) \<noteq> Some Root"
    using kind_of_rep [of "iview s3", OF _ assms(10)] assms(5,11) by simp
  ultimately show ?thesis unfolding split_done_def using assms by (auto simp del: One_nat_def)
qed

lemma split_leaf_step:
  assumes good: "tree_good s" and st: "stored (iview s) (Tip i kvs)" and len: "length kvs = 203"
    and room: "(unat (inext s) + 1) * 4096 < 18446744073709551616" "log_room (n + 2) s"
  shows "\<exists>s'. handle_overfull txn (i # crumbs) s =
      after_split txn crumbs i (inext s) (promoted (Tip i kvs)) s' \<and> split_done s s' (Tip i kvs)"
proof -
  obtain p nd where p: "iview s i = Some p" "page_rep p nd" "node_leaf nd" "n_cells nd = kvs"
    using st by (auto simp: at_leaf_def)
  have new: "i \<noteq> inext s" using ids_bound [OF good st, of i] by simp
  obtain s1 s2 q where s2: "t_read i s = (Inr (hdr_of nd, map (cell_of True) kvs), s1)"
    "t_allocate Leaf s1 = (Inr (inext s), s2)" "kept 0 s s2" "iview s2 = (iview s)(inext s \<mapsto> q)"
    "page_rep q (empty_node (inext s) Leaf 0)" "unat (inext s2) = unat (inext s) + 1"
    using read_allocate [OF good p(1,2) room(1), of Leaf] p(3,4) by auto
  have g2: "tree_good s2" "iview s2 i = Some p" "iview s2 (inext s) = Some q" "log_room (n + 2) s2"
    using s2(3,4) new p(1) room(2) by (simp_all add: kept_def)
  have sorted: "sorted_wrt (<) (map fst kvs)" using page_rep_sorted [OF p(2)] p(4) by simp
  have d: "drop 102 kvs = kvs ! 102 # drop 103 kvs"
    using Cons_nth_drop_Suc [of 102 kvs] len by simp
  have xs: "sorted_wrt (<) (map fst (take 102 kvs))" "length (take 102 kvs) \<le> 203"
    and ys: "sorted_wrt (<) (map fst (drop 102 kvs))" "length (drop 102 kvs) \<le> 203"
    using sorted len by (simp_all flip: take_map drop_map add: sorted_wrt_take sorted_wrt_drop)
  from rebuild_two [OF g2(1,2) p(2) g2(3) s2(5) new [symmetric] _ _ xs ys g2(4), of True Leaf txn "inext s" "n_ptr nd"]
  obtain s3 p' q' rl rl' where s3:
    "andthen (rewrite_page txn i (rebuild_from_cells (map (cell_of True) (take 102 kvs)) Leaf i (inext s)))
      (\<lambda>_. rewrite_page txn (inext s) (rebuild_from_cells (map (cell_of True) (drop 102 kvs)) Leaf
        (inext s) (n_ptr nd))) s2 = (Inr (), s3)"
    "kept 2 s2 s3" "iview s3 = (iview s2)(i \<mapsto> p', inext s \<mapsto> q')"
    "page_rep p' (rebuilt_node rl Leaf i (inext s) (take 102 kvs))"
    "page_rep q' (rebuilt_node rl' Leaf (inext s) (n_ptr nd) (drop 102 kvs))" "inext s3 = inext s2"
    by auto
  have "at_leaf (iview s3) i (take 102 kvs)" "at_leaf (iview s3) (inext s) (drop 102 kvs)"
    using at_leafI [OF _ s3(4), of "iview s3" i] at_leafI [OF _ s3(5), of "iview s3" "inext s"] s3(3) new
    by simp_all
  then have "split_done s s3 (Tip i kvs)"
    using s3 s2(3,4,6) new by (intro split_doneI [OF s2(3,4,6) s3(2) _ s3(6) _ s3(4) _ s3(5)]) simp_all
  moreover have "split_leaf txn i (inext s) (hdr_of nd) (map (cell_of True) (take 102 kvs))
      (cell_of True (kvs ! 102)) (map (cell_of True) (drop 103 kvs)) s2 = (Inr (), s3)"
    using s3(1) by (simp add: split_leaf_def d)
  ultimately show ?thesis
    using s2(1,2) p(3) len
    by (intro exI [of _ s3], cases crumbs) (simp_all add: andthen_def run_simps after_split_def
      index_r_def take_map drop_map Let_def)
qed

lemma split_internal_step:
  assumes good: "tree_good s" and st: "stored (iview s) (Fork i ks ts)"
    and len: "length ks = 203" "length ts = 204" and dist: "distinct (ids (Fork i ks ts))"
    and room: "(unat (inext s) + 1) * 4096 < 18446744073709551616" "log_room (n + 2) s"
  shows "\<exists>s'. handle_overfull txn (i # crumbs) s =
      after_split txn crumbs i (inext s) (promoted (Fork i ks ts)) s' \<and> split_done s s' (Fork i ks ts)"
proof -
  let ?cs = "map tid ts" and ?kvs = "zip ks (map tid ts)"
  obtain p nd where p: "iview s i = Some p" "page_rep p nd" "\<not> node_leaf nd" "n_cells nd = ?kvs"
    "n_ptr nd = last ?cs"
    using st by (auto simp: at_inner_def)
  have bound: "j \<noteq> inext s" if "j \<in> set (ids (Fork i ks ts))" for j
    using ids_bound [OF good st that] by auto
  then have new: "i \<noteq> inext s" by simp
  obtain s1 s2 q where s2: "t_read i s = (Inr (hdr_of nd, map (cell_of False) ?kvs), s1)"
    "t_allocate Internal s1 = (Inr (inext s), s2)" "kept 0 s s2" "iview s2 = (iview s)(inext s \<mapsto> q)"
    "page_rep q (empty_node (inext s) Internal 0)" "unat (inext s2) = unat (inext s) + 1"
    using read_allocate [OF good p(1,2) room(1), of Internal] p(3,4) by auto
  have g2: "tree_good s2" "iview s2 i = Some p" "iview s2 (inext s) = Some q" "log_room (n + 2) s2"
    using s2(3,4) new p(1) room(2) by (simp_all add: kept_def)
  have sorted: "sorted_wrt (<) (map fst ?kvs)" using page_rep_sorted [OF p(2)] p(4) by simp
  have xs: "sorted_wrt (<) (map fst (take 102 ?kvs))" "length (take 102 ?kvs) \<le> 203"
    and ys: "sorted_wrt (<) (map fst (drop 103 ?kvs))" "length (drop 103 ?kvs) \<le> 203"
    using sorted len by (simp_all flip: take_map drop_map add: sorted_wrt_take sorted_wrt_drop)
  from rebuild_two [OF g2(1,2) p(2) g2(3) s2(5) new [symmetric] _ _ xs ys g2(4), of False Internal txn "?cs ! 102" "n_ptr nd"]
  obtain s3 p' q' rl rl' where s3:
    "andthen (rewrite_page txn i (rebuild_from_cells (map (cell_of False) (take 102 ?kvs)) Internal i (?cs ! 102)))
      (\<lambda>_. rewrite_page txn (inext s) (rebuild_from_cells (map (cell_of False) (drop 103 ?kvs)) Internal
        (inext s) (n_ptr nd))) s2 = (Inr (), s3)"
    "kept 2 s2 s3" "iview s3 = (iview s2)(i \<mapsto> p', inext s \<mapsto> q')"
    "page_rep p' (rebuilt_node rl Internal i (?cs ! 102) (take 102 ?kvs))"
    "page_rep q' (rebuilt_node rl' Internal (inext s) (n_ptr nd) (drop 103 ?kvs))" "inext s3 = inext s2"
    by auto
  have last: "last (take 103 ?cs) = ?cs ! 102" "last (drop 103 ?cs) = n_ptr nd"
    using len p(5) take_Suc_conv_app_nth [of 102 ?cs] by simp_all
  have "zip (take 102 ks) (take 103 ?cs) = zip (take 102 ks) (take 102 ?cs)"
    using len take_Suc_conv_app_nth [of 102 ?cs] by (simp add: zip_append2)
  then have "at_inner (iview s3) i (take 102 ks) (take 103 ?cs)"
    using len last new by (intro at_innerI [OF _ s3(4)]) (simp_all add: s3(3) take_zip)
  moreover have "at_inner (iview s3) (inext s) (drop 103 ks) (drop 103 ?cs)"
    using len last by (intro at_innerI [OF _ s3(5)]) (simp_all add: s3(3) drop_zip)
  moreover have "list_all (stored (iview s3)) ts"
  proof (rule list_all_stored_cong)
    show "list_all (stored (iview s)) ts" using st by simp
    show "iview s3 j = iview s j" if "j \<in> set (concat (map ids ts))" for j
      using that bound [of j] dist s3(3) s2(4) by auto
  qed
  then have "list_all (stored (iview s3)) (take 103 ts)" "list_all (stored (iview s3)) (drop 103 ts)"
    by (auto simp: list_all_iff dest: in_set_takeD in_set_dropD)
  ultimately have "split_done s s3 (Fork i ks ts)"
    using s3 s2(3,4,6) new
    by (intro split_doneI [OF s2(3,4,6) s3(2) _ s3(6) _ s3(4) _ s3(5)]) (simp_all add: take_map drop_map)
  moreover have "split_internal txn i (inext s) (hdr_of nd) (map (cell_of False) (take 102 ?kvs))
      (cell_of False (?kvs ! 102)) (map (cell_of False) (drop 103 ?kvs)) s2 = (Inr (), s3)"
    using s3(1) len by (simp add: split_internal_def run_simps andthen_def)
  ultimately show ?thesis
    using s2(1,2) p(3) len
    by (intro exI [of _ s3], cases crumbs) (simp_all add: andthen_def run_simps after_split_def
      index_r_def take_map drop_map Let_def)
qed

lemma split_step:
  assumes "tree_good s" and "stored (iview s) t" and "overfull t" and "distinct (ids t)"
    and "(unat (inext s) + 1) * 4096 < 18446744073709551616" "log_room (n + 2) s"
  shows "\<exists>s'. handle_overfull txn (tid t # crumbs) s =
      after_split txn crumbs (tid t) (inext s) (promoted t) s' \<and> split_done s s' t"
proof (cases t)
  case (Tip i kvs)
  then show ?thesis using split_leaf_step [OF assms(1), of i kvs n txn crumbs] assms by simp
next
  case (Fork i ks ts)
  then show ?thesis using split_internal_step [OF assms(1), of i ks ts n txn crumbs] assms by simp
qed

end
