(* ===== verification/Tree_Grow.thy ===== *)
theory Tree_Grow
  imports Tree_Split
begin

text \<open>
  After a split: the parent takes the separator and the new page, or a new root is made when there
  is no parent; the parent may be full then, and is split in turn. \<open>handle_overfull_run\<close> follows this
  to the end.
\<close>

section \<open>Separators\<close>

lemma set_weave_subset: "set ks \<subseteq> set (weave xss ks)"
  by (induction xss ks rule: weave.induct) auto

lemma sorted_weave: "sorted_items (weave xss ks) \<Longrightarrow> sorted_items ks"
proof (induction xss ks rule: weave.induct)
  case (1 xs xss k ks)
  then show ?case using set_weave_subset [of ks xss] by (auto simp: sorted_items_append sorted_items_Cons)
qed simp_all

lemma sorted_seps: "sorted_items (map sep_item ks) \<longleftrightarrow> sorted_wrt (<) ks"
  by (simp add: sorted_items_def sorted_wrt_map flip: word_less_nat_alt)

lemma sorted_keys: "sorted_items (items (Fork i ks ts)) \<Longrightarrow> sorted_wrt (<) ks"
  using sorted_weave [of "map items ts" "map sep_item ks"] by (simp add: sorted_seps)


section \<open>The parent\<close>

lemma fix_child_cell_of: "fix_child old new (cell_of False kv) = cell_of False (fst kv, fix_ptr old new (snd kv))"
  by (simp add: fix_child_def cell_of_def fix_ptr_def)

lemma node_leaf_cells [simp]: "node_leaf (nd\<lparr>n_cells := kvs\<rparr>) = node_leaf nd"
  by (simp add: node_leaf_def)

lemma fix_ptr_list:
  assumes "distinct (xs @ a # ys)"
  shows "map (fix_ptr a b) (xs @ a # ys) = xs @ b # ys"
proof -
  have "map (fix_ptr a b) zs = zs" if "a \<notin> set zs" for zs
    using that by (induction zs) (auto simp: fix_ptr_def)
  then show ?thesis using assms by (simp add: fix_ptr_def)
qed

lemma insert_cell_middle:
  assumes "\<forall>x \<in> set xs. fst x < k" and "\<forall>x \<in> set ys. k < fst x"
  shows "insert_cell k v (xs @ ys) = xs @ (k, v) # ys"
  using assms by (induction xs) (simp_all add: insert_cell_first)

text \<open>The page of a frame with the hole split: from \<open>lks @ rks\<close> to \<open>lks @ k # rks\<close>.\<close>

lemma link_body:
  assumes rep: "page_rep p nd" "\<not> node_leaf nd"
    and cells: "n_cells nd = zip (lks @ rks) (xs @ a # ys)" "n_ptr nd = last (xs @ a # ys)"
    and len: "length xs = length lks" "length ys = length rks" "length (lks @ rks) \<le> 202"
    and dist: "distinct (xs @ a # ys)" and sorted: "sorted_wrt (<) (lks @ k # rks)"
  shows "\<exists>p' nd'. andthen (reads page_header) (\<lambda>h. andthen (reads get_cells) (\<lambda>cells.
      andthen (rebuild_from_cells (map (fix_child a b) cells) (ih_page_ty h) i (fix_ptr a b (ih_ptr h)))
        (\<lambda>_. add_cell k a))) p = (Inr (Suc (length (lks @ rks))), p') \<and>
    page_rep p' nd' \<and> \<not> node_leaf nd' \<and>
    n_cells nd' = zip (lks @ k # rks) (xs @ a # b # ys) \<and> n_ptr nd' = last (xs @ a # b # ys) \<and>
    n_ty nd' = n_ty nd"
proof -
  let ?kvs = "zip lks xs @ zip rks (b # ys)" and ?ptr = "last (xs @ b # ys)"
  have "map (fix_child a b) (map (cell_of False) (n_cells nd)) =
      map (cell_of False) (zip (lks @ rks) (map (fix_ptr a b) (xs @ a # ys)))"
    unfolding zip_map2 cells(1) by (simp add: fix_child_cell_of comp_def split_def)
  then have cs: "map (fix_child a b) (map (cell_of False) (n_cells nd)) = map (cell_of False) ?kvs"
    using fix_ptr_list [OF dist, of b] len by simp
  have "fix_ptr a b (n_ptr nd) = last (map (fix_ptr a b) (xs @ a # ys))"
    unfolding cells(2) by (rule last_map [symmetric]) simp
  then have ptr: "fix_ptr a b (n_ptr nd) = ?ptr" using fix_ptr_list [OF dist, of b] by simp
  have keys: "map fst ?kvs = lks @ rks" using len by (simp add: map_fst_zip_take)
  have srt: "sorted_wrt (<) (map fst ?kvs)" unfolding keys using sorted by (auto simp: sorted_wrt_append)
  have n: "length ?kvs \<le> MAX_CELLS" "length ?kvs = length (lks @ rks)" using len by simp_all
  have lvl: "False \<longleftrightarrow> n_ty nd = Leaf \<or> (n_ty nd = Root \<and> root_leaf_page p)"
    using rep(2) root_leaf_page_rep [OF rep(1)] by (auto simp: node_leaf_def)
  obtain p1 where p1: "rebuild_from_cells (map (cell_of False) ?kvs) (n_ty nd) i ?ptr p = (Inr (), p1)"
    "page_rep p1 (rebuilt_node (root_leaf_page p) (n_ty nd) i ?ptr ?kvs)" (is "page_rep p1 ?nd")
    using rebuild_cell_of [OF lvl srt n(1), of i ?ptr] by blast
  have mem: "k \<notin> fst ` set (n_cells ?nd)"
    using sorted arg_cong [OF keys, of set] by (auto simp: sorted_wrt_append)
  have "insert_cell k a ?kvs = zip lks xs @ (k, a) # zip rks (b # ys)"
    using sorted by (intro insert_cell_middle) (auto simp: sorted_wrt_append dest: set_zip_leftD)
  then have new: "insert_cell k a ?kvs = zip (lks @ k # rks) (xs @ a # b # ys)"
    using len by simp
  obtain p2 where p2: "add_cell k a p1 = (Inr (Suc (length ?kvs)), p2)"
    "page_rep p2 (?nd\<lparr>n_cells := zip (lks @ k # rks) (xs @ a # b # ys)\<rparr>)"
    using add_cell_refines [OF p1(2), of k a] mem n(2) len(3) unfolding rebuilt_sel new by auto
  have "\<not> node_leaf ?nd" using lvl by auto
  then show ?thesis
    using p1(1) p2 n(2) page_header_rep [OF rep(1)] get_cells_rep [OF rep(1)] rep(2) cs ptr
    by (intro exI [of _ p2] exI [of _ "?nd\<lparr>n_cells := zip (lks @ k # rks) (xs @ a # b # ys)\<rparr>"])
      (simp add: run_simps andthen_def)
qed

lemma link_parent_run:
  assumes good: "tree_good s" and at: "at_inner (iview s) i (lks @ rks) (xs @ a # ys)"
    and len: "length xs = length lks" "length ys = length rks" "length (lks @ rks) \<le> 202"
    and dist: "distinct (xs @ a # ys)" and sorted: "sorted_wrt (<) (lks @ k # rks)"
    and room: "log_room (Suc n) s"
  shows "\<exists>s'. link_parent txn i a b k s = (Inr (Suc (length (lks @ rks))), s') \<and> kept 1 s s' \<and>
    at_inner (iview s') i (lks @ k # rks) (xs @ a # b # ys) \<and>
    (\<forall>j. j \<noteq> i \<longrightarrow> iview s' j = iview s j) \<and> inext s' = inext s \<and>
    kind_of (iview s') i = kind_of (iview s) i"
proof -
  let ?body = "andthen (reads page_header) (\<lambda>h. andthen (reads get_cells) (\<lambda>cells.
      andthen (rebuild_from_cells (map (fix_child a b) cells) (ih_page_ty h) i (fix_ptr a b (ih_ptr h)))
        (\<lambda>_. add_cell k a)))"
  obtain p nd where p: "iview s i = Some p" "page_rep p nd" "\<not> node_leaf nd"
    "n_cells nd = zip (lks @ rks) (xs @ a # ys)" "n_ptr nd = last (xs @ a # ys)"
    using at by (auto simp: at_inner_def)
  obtain p' nd' where b: "?body p = (Inr (Suc (length (lks @ rks))), p')"
    "page_rep p' nd'" "\<not> node_leaf nd'" "n_cells nd' = zip (lks @ k # rks) (xs @ a # b # ys)"
    "n_ptr nd' = last (xs @ a # b # ys)" "n_ty nd' = n_ty nd"
    using link_body [OF p(2-5) len dist sorted, of b i] by blast
  from rewrite_page_run [where body = ?body, OF good p(1) page_rep_length [OF p(2)] b(1) page_rep_length [OF b(2)] room, of txn]
  obtain s' where s': "link_parent txn i a b k s = (Inr (Suc (length (lks @ rks))), s')" "kept 1 s s'"
    "iview s' = (iview s)(i \<mapsto> p')" "inext s' = inext s"
    unfolding link_parent_def by blast
  have "at_inner (iview s') i (lks @ k # rks) (xs @ a # b # ys)"
    using len by (intro at_innerI [OF _ b(2-5)]) (simp_all add: s'(3))
  moreover have "kind_of (iview s') i = kind_of (iview s) i"
    using kind_of_rep [of "iview s'" i, OF _ b(2)] kind_of_rep [of "iview s" i, OF p(1,2)] b(6) s'(3) by simp
  ultimately show ?thesis using s' by simp
qed


section \<open>A new root\<close>

lemma grow_root_run:
  assumes good: "tree_good s" and p: "iview s a = Some p" "page_rep p nd" "n_ty nd \<noteq> Root"
    and room: "(unat (inext s) + 1) * 4096 < 18446744073709551616" "log_room (n + 2) s"
  shows "\<exists>s'. grow_root txn a b k s = (Inr (inext s), s') \<and> kept 2 s s' \<and>
    at_inner (iview s') (inext s) [k] [a, b] \<and> (\<forall>j. j \<noteq> inext s \<longrightarrow> iview s' j = iview s j) \<and>
    unat (inext s') = unat (inext s) + 1 \<and> kind_of (iview s') (inext s) = Some Root"
proof -
  let ?i = "inext s"
  have new: "a \<noteq> ?i" using p(1) good store_view_bound [of 4096 "p_index (t_pager s)" a]
    by (auto simp: p_index_view_def pager_good_def store_good_def)
  obtain s1 q where s1: "t_allocate Root s = (Inr ?i, s1)" "kept 0 s s1" "iview s1 = (iview s)(?i \<mapsto> q)"
    "page_rep q (empty_node ?i Root 0)" "unat (inext s1) = unat ?i + 1"
    using t_allocate_run [OF good room(1)] by blast
  obtain q0 where q0: "init_header ?i Root b q = (Inr (), q0)" "page_rep q0 (empty_node ?i Root b)"
    using init_header_rep [OF page_rep_length [OF s1(4)]] by blast
  let ?nd = "(empty_node ?i Root b)\<lparr>n_cells := [(k, a)]\<rparr>"
  obtain q1 where q1: "add_cell k a q0 = (Inr (Suc 0), q1)" "page_rep q1 ?nd"
    using add_cell_refines [OF q0(2), of k a] by auto
  let ?body = "andthen (init_header ?i Root b) (\<lambda>_. andthen (add_cell k a) (\<lambda>_. ok ()))"
  let ?off = "andthen (reads page_header) (\<lambda>hdr. only_if (ih_page_ty hdr = Root) (set_page_kind Internal))"
  have body: "?body q = (Inr (), q1)"
    using q0(1) q1(1) by (simp add: andthen_def run_simps)
  have g1: "tree_good s1" "iview s1 ?i = Some q" "log_room (Suc (n + 1)) s1"
    using s1(2,3) room(2) by (simp_all add: kept_def)
  from rewrite_page_run [where body = ?body, OF g1(1,2) page_rep_length [OF s1(4)] body page_rep_length [OF q1(2)] g1(3), of txn]
  obtain s2 where s2: "rewrite_page txn ?i ?body s1 = (Inr (), s2)" "kept 1 s1 s2" "iview s2 = (iview s1)(?i \<mapsto> q1)" "inext s2 = inext s1"
    by blast
  have g2: "tree_good s2" "iview s2 a = Some p" "log_room (Suc n) s2"
    using s2(2,3) s1(3) p(1) new kept_room [OF s2(2) g1(3)] by (simp_all add: kept_def)
  have noop: "?off p = (Inr (), p)"
    using page_header_rep [OF p(2)] p(3) by (simp add: run_simps andthen_def)
  from rewrite_page_run [where body = ?off, OF g2(1,2) page_rep_length [OF p(2)] noop page_rep_length [OF p(2)] g2(3), of txn]
  obtain s3 where s3: "rewrite_page txn a ?off s2 = (Inr (), s3)"
    "kept 1 s2 s3" "iview s3 = (iview s2)(a \<mapsto> p)" "inext s3 = inext s2"
    by blast
  have k: "kept 2 s s3"
    using kept_trans [OF kept_trans [OF s1(2) s2(2)] s3(2)] by (simp add: numeral_2_eq_2)
  have at: "at_inner (iview s3) ?i [k] [a, b]"
    using new by (intro at_innerI [OF _ q1(2)])
      (simp_all add: s3(3) s2(3) empty_node_def node_leaf_def)
  have same: "iview s3 j = iview s j" if "j \<noteq> ?i" for j
    using that p(1) by (simp add: s3(3) s2(3) s1(3))
  have kind: "kind_of (iview s3) ?i = Some Root"
    using kind_of_rep [of "iview s3" ?i, OF _ q1(2)] new by (simp add: s3(3) s2(3) empty_node_def)
  show ?thesis
    using s1(1,5) s2(1,4) s3(1,4) k at same kind
    by (intro exI [of _ s3]) (simp add: grow_root_def andthen_def run_simps)
qed


section \<open>All the way up\<close>

text \<open>The tree whose hole \<open>t\<close> is one cell too big.\<close>

definition growing :: "bplus_tree \<Rightarrow> frame list \<Rightarrow> tree \<Rightarrow> bool" where
  "growing s c t \<longleftrightarrow> tree_good s \<and> stored (iview s) (plug c t) \<and> overfull t \<and>
     list_all (frame_fits 202) c \<and> distinct (ids (plug c t)) \<and> sorted_items (items (plug c t)) \<and>
     kinds (iview s) (plug c t)"

text \<open>
  What has become of it: every page fits, the keys have the values they had, and the tree is at most
  one level deeper.
\<close>

definition grown :: "tree \<Rightarrow> u64 option \<Rightarrow> bplus_tree \<Rightarrow> bool" where
  "grown T r s' \<longleftrightarrow> (\<exists>T'. holds_tree 202 s' T' \<and> content (items T') = content (items T) \<and>
     tid T' = (case r of None \<Rightarrow> tid T | Some i \<Rightarrow> i) \<and> 
     (\<forall>n. level n T \<longrightarrow> level n T' \<or> level (Suc n) T'))"

lemma grown_cong:
  "grown T r s \<Longrightarrow> content (items T) = content (items U) \<Longrightarrow> tid T = tid U \<Longrightarrow>
   (\<And>n. level n U \<Longrightarrow> level n T) \<Longrightarrow> grown U r s"
  by (cases r) (auto simp: grown_def)

lemma level_halves: "level n t \<Longrightarrow> level n (left_half t) \<and> level n (right_half r t)"
  by (cases t; cases n) (auto simp: list_all_iff dest: in_set_takeD in_set_dropD)

abbreviation halves :: "frame \<Rightarrow> tree \<Rightarrow> u64 \<Rightarrow> tree" where
  "halves f t r \<equiv> fill_two f (left_half t) (promoted t) (right_half r t)"

lemma mset_ids_plug_halves:
  assumes "overfull t"
  shows "mset (ids (plug c (halves f t r))) = add_mset r (mset (ids (plug (f # c) t)))"
  using mset_ids_halves [OF assms, of r]
  by (simp add: mset_ids_plug mset_ids_fill_two mset_ids_fill flip: add.assoc)

lemma halves_plug:
  assumes fit: "list_all (frame_fits 202) (f # c)" and over: "overfull t"
    and dist: "distinct (ids (plug (f # c) t))" and sorted: "sorted_items (items (plug (f # c) t))"
    and r: "r \<notin> set (ids (plug (f # c) t))"
  shows "distinct (ids (plug c (halves f t r)))" and "sorted_items (items (plug c (halves f t r)))"
    and "content (items (plug c (halves f t r))) = content (items (plug (f # c) t))"
    and "sorted_wrt (<) (fr_lks f @ promoted t # fr_rks f)"
proof -
  have "mset (ids (plug c (halves f t r))) = mset (r # ids (plug (f # c) t))"
    using mset_ids_plug_halves [OF over] by simp
  from mset_eq_imp_distinct_iff [OF this] show "distinct (ids (plug c (halves f t r)))" using dist r by simp
  let ?l = "left_items c @ frame_left f" and ?r = "frame_right f @ right_items c"
  have f: "frame_fits 202 f" and c: "list_all (frame_fits 202) c" using fit by simp_all
  have old: "items (plug (f # c) t) = ?l @ items t @ ?r"
    using items_plug [OF c, of "fill f t"] items_fill [OF f, of t] by simp
  have new: "items (plug c (halves f t r)) =
      ?l @ items (left_half t) @ sep_item (promoted t) # items (right_half r t) @ ?r"
    using items_plug [OF c] items_fill_two [OF f] by simp
  have new': "items (plug c (halves f t r)) = left_items c @ items (halves f t r) @ right_items c"
    by (rule items_plug [OF c])
  note split = split_items [OF over, of ?l ?r r, folded new old]
  show s: "sorted_items (items (plug c (halves f t r)))"
    and "content (items (plug c (halves f t r))) = content (items (plug (f # c) t))"
    using split sorted by simp_all
  have "sorted_items (items (halves f t r))" using s unfolding new' by (simp add: sorted_items_append)
  then show "sorted_wrt (<) (fr_lks f @ promoted t # fr_rks f)"
    unfolding fill_two_def by (rule sorted_keys)
qed

lemma halves_fit:
  assumes "frame_fits 202 f" and "overfull t"
  shows "if length (fr_lks f @ fr_rks f) = 202 then overfull (halves f t r) else fits 202 (halves f t r)"
  using assms fits_halves [OF assms(2), of r] by (auto simp: frame_fits_def fill_two_def)

lemma distinct_tids: "distinct (concat (map ids us)) \<Longrightarrow> distinct (map tid us)"
proof (induction us)
  case (Cons u us)
  have "tid u \<noteq> tid v" if v: "v \<in> set us" for v
  proof
    assume "tid u = tid v"
    then have "tid u \<in> set (ids u) \<inter> set (concat (map ids us))"
      using v tid_in_ids [of u] tid_in_ids [of v] by (auto intro: bexI [of _ v])
    moreover have "set (ids u) \<inter> set (concat (map ids us)) = {}" using Cons.prems by simp
    ultimately show False by (simp only: empty_iff)
  qed
  then show ?case using Cons by auto
qed simp

lemma level_plug_halves: "level n (plug (f # c) t) \<Longrightarrow> level n (plug c (halves f t r))"
  unfolding plug.simps
  by (erule level_plug) (auto simp: level_fill level_fill_two level_halves)

lemma tid_root: "tid (plug (f # c) t) \<in> set (frame_ids f) \<union> set (concat (map frame_ids c))"
proof (induction c arbitrary: f t)
  case Nil
  then show ?case by (simp add: frame_ids_def)
next
  case (Cons f' c)
  then show ?case using Cons.IH [of f' "fill f t"] by auto
qed

text \<open>The step to the parent.\<close>

lemma link_step:
  assumes g: "growing s (f # c) t" and split: "split_done s s1 t" and room: "log_room (Suc n) s1"
  shows "\<exists>s2. link_parent txn (fr_id f) (tid t) (inext s) (promoted t) s1 =
      (Inr (Suc (length (fr_lks f @ fr_rks f))), s2) \<and> kept 1 s1 s2 \<and> inext s2 = inext s1 \<and>
    stored (iview s2) (plug c (halves f t (inext s))) \<and> kinds (iview s2) (plug c (halves f t (inext s)))"
proof -
  let ?r = "inext s" and ?i = "fr_id f"
  note g' = g [unfolded growing_def] and s' = split [unfolded split_done_def]
  have good: "tree_good s" and over: "overfull t" and fit: "frame_fits 202 f"
    and dist: "distinct (ids (plug (f # c) t))" using g' by simp_all
  have bound: "j \<noteq> ?r" if "j \<in> set (ids (plug (f # c) t))" for j
    using ids_bound [OF good _ that] g' by auto
  have apart: "distinct (ids t @ frame_ids f @ concat (map frame_ids c))"
    using dist distinct_ids_plug [of "f # c" t] by simp
  have in_ids: "set (ids (plug (f # c) t)) = set (ids t) \<union> set (frame_ids f) \<union> set (concat (map frame_ids c))"
    unfolding set_ids_plug by auto
  have ctx: "stored_frame (iview s) (tid t) f" "stored_ctx (iview s) ?i c"
    using g' by (simp_all add: stored_plug stored_fill)
  have same: "iview s1 j = iview s j" if "j \<in> set (frame_ids f) \<union> set (concat (map frame_ids c))" for j
  proof -
    have "j \<noteq> ?r" using that bound [of j] unfolding in_ids by blast
    moreover have "j \<noteq> tid t" using that apart tid_in_ids [of t] unfolding distinct_append set_append by blast
    ultimately show ?thesis using s' by blast
  qed
  have f1: "stored_frame (iview s1) (tid t) f" and c1: "stored_ctx (iview s1) ?i c"
    using stored_frame_cong [OF ctx(1)] stored_ctx_cong [OF ctx(2)] same by auto
  have "distinct (ids (fill f t))" using apart by (simp add: fill_def frame_ids_def; blast)
  then have dt: "distinct (map tid (fr_lts f) @ tid t # map tid (fr_rts f))"
    unfolding fill_def using distinct_tids [of "fr_lts f @ t # fr_rts f"] by simp
  have len: "length (map tid (fr_lts f)) = length (fr_lks f)"
    "length (map tid (fr_rts f)) = length (fr_rks f)" "length (fr_lks f @ fr_rks f) \<le> 202"
    using fit by (simp_all add: frame_fits_def)
  have srt: "sorted_wrt (<) (fr_lks f @ promoted t # fr_rks f)"
    using halves_plug(4) [of f c t ?r] g' bound by auto
  have at: "at_inner (iview s1) ?i (fr_lks f @ fr_rks f) (map tid (fr_lts f) @ tid t # map tid (fr_rts f))"
    using f1 by (simp add: stored_frame_def)
  have good1: "tree_good s1" using s' by (simp add: kept_def)
  obtain s2 where s2: "link_parent txn ?i (tid t) ?r (promoted t) s1 = (Inr (Suc (length (fr_lks f @ fr_rks f))), s2)"
    "kept 1 s1 s2" "at_inner (iview s2) ?i (fr_lks f @ promoted t # fr_rks f)
       (map tid (fr_lts f) @ tid t # ?r # map tid (fr_rts f))"
    "\<And>j. j \<noteq> ?i \<Longrightarrow> iview s2 j = iview s1 j" "inext s2 = inext s1"
    "kind_of (iview s2) ?i = kind_of (iview s1) ?i"
    using link_parent_run [OF good1 at len dt srt room] by blast
  have ne: "j \<noteq> ?i" if "j \<in> set (ids t) \<union> set (concat (map ids (fr_lts f))) \<union>
      set (concat (map ids (fr_rts f))) \<union> set (concat (map frame_ids c)) \<union> {?r}" for j
    using that apart bound [of ?i] in_ids by (auto simp: frame_ids_def)
  have ids_half: "set (ids (left_half t)) \<subseteq> set (ids t)" "set (ids (right_half ?r t)) \<subseteq> insert ?r (set (ids t))"
    by (cases t; auto dest: in_set_takeD in_set_dropD)+
  have "stored (iview s2) (left_half t)" "stored (iview s2) (right_half ?r t)"
    using s' ids_half ne s2(4) by (auto intro!: stored_cong [of "iview s1" _ "iview s2"])
  moreover have "list_all (stored (iview s2)) (fr_lts f)" "list_all (stored (iview s2)) (fr_rts f)"
    using f1 ne s2(4) by (auto simp: stored_frame_def intro!: list_all_stored_cong [of "iview s1" _ "iview s2"])
  moreover have "stored_ctx (iview s2) ?i c"
    using stored_ctx_cong [OF c1, of "iview s2"] ne s2(4) by simp
  ultimately have "stored (iview s2) (plug c (halves f t ?r))"
    using s2(3) unfolding stored_plug tid_fill by (simp add: fill_two_def)
  moreover have "kinds (iview s2) (plug c (halves f t ?r))"
  proof -
    let ?T = "plug (f # c) t" and ?T' = "plug c (halves f t ?r)"
    have root: "tid ?T' = tid ?T" using tid_plug [of "halves f t ?r" "fill f t" c] by simp
    have ids: "set (ids ?T') = insert ?r (set (ids ?T))"
      using arg_cong [OF mset_ids_plug_halves [OF over, of c f ?r], of set_mset] by simp
    have low: "kind_of (iview s1) (tid t) \<noteq> Some Root" "kind_of (iview s1) ?r \<noteq> Some Root"
      using s' kind_of_rep by fastforce+
    have top: "tid ?T \<in> set (frame_ids f) \<union> set (concat (map frame_ids c))"
      using tid_root [of f c t] .
    have "tid ?T \<noteq> tid t"
    proof
      assume "tid ?T = tid t"
      then have "tid t \<in> set (ids t) \<inter> (set (frame_ids f) \<union> set (concat (map frame_ids c)))"
        using top by simp
      moreover have "set (ids t) \<inter> (set (frame_ids f) \<union> set (concat (map frame_ids c))) = {}"
        using apart by simp
      ultimately show False by (simp only: empty_iff)
    qed
    moreover have "tid ?T \<noteq> ?r" by (rule bound [OF tid_in_ids])
    ultimately have ends: "tid ?T \<noteq> ?r" "tid ?T \<noteq> tid t" by blast+
    have "kind_of (iview s2) j = Some Root \<longleftrightarrow> j = tid ?T" if j: "j \<in> insert ?r (set (ids ?T))" for j
    proof -
      have eq: "kind_of (iview s2) j = kind_of (iview s1) j"
        using s2(6) by (cases "j = ?i") (simp_all add: kind_of_def s2(4))
      show ?thesis
      proof (cases "j = ?r \<or> j = tid t")
        case True
        then show ?thesis using low ends eq by auto
      next
        case False
        then have "kind_of (iview s1) j = kind_of (iview s) j" using s' by (intro kind_of_cong) auto
        then show ?thesis using eq g' j False by (simp add: kinds_def)
      qed
    qed
    then show ?thesis using root ids by (simp add: kinds_def)
  qed
  ultimately show ?thesis using s2 by blast
qed

text \<open>The split of the root.\<close>

lemma root_step:
  assumes g: "growing s [] t" and split: "split_done s s1 t"
    and room: "(unat (inext s1) + 1) * 4096 < 18446744073709551616" "log_room (n + 2) s1"
  shows "\<exists>s2. grow_root txn (tid t) (inext s) (promoted t) s1 = (Inr (inext s1), s2) \<and> kept 2 s1 s2 \<and>
    unat (inext s2) = unat (inext s1) + 1 \<and> grown t (Some (inext s1)) s2"
proof -
  let ?r = "inext s" and ?i = "inext s1"
  note g' = g [unfolded growing_def plug.simps] and s' = split [unfolded split_done_def]
  obtain p nd where p: "iview s1 (tid t) = Some p" "page_rep p nd" "n_ty nd \<noteq> Root" using s' by blast
  have good1: "tree_good s1" using s' by (simp add: kept_def)
  obtain s2 where s2: "grow_root txn (tid t) ?r (promoted t) s1 = (Inr ?i, s2)" "kept 2 s1 s2"
    "at_inner (iview s2) ?i [promoted t] [tid t, ?r]" "\<And>j. j \<noteq> ?i \<Longrightarrow> iview s2 j = iview s1 j"
    "unat (inext s2) = unat ?i + 1" "kind_of (iview s2) ?i = Some Root"
    using grow_root_run [OF good1 p room] by blast
  have half: "stored (iview s1) (left_half t)" "stored (iview s1) (right_half ?r t)" using s' by simp_all
  have lt: "j < ?i" if "j \<in> set (ids (left_half t)) \<union> set (ids (right_half ?r t))" for j
    using that ids_bound [OF good1 half(1)] ids_bound [OF good1 half(2)] by auto
  let ?T = "Fork ?i [promoted t] [left_half t, right_half ?r t]"
  have "iview s2 j = iview s1 j" if "j \<in> set (ids (left_half t)) \<union> set (ids (right_half ?r t))" for j
    using lt [OF that] by (intro s2(4)) auto
  then have st: "stored (iview s2) (left_half t)" "stored (iview s2) (right_half ?r t)"
    by (auto intro!: stored_cong [OF half(1)] stored_cong [OF half(2)])
  have over: "overfull t" using g' by simp
  have r: "?r \<notin> set (ids t)" using ids_bound [of s t ?r] g' by auto
  have "mset (ids (left_half t) @ ids (right_half ?r t)) = mset (?r # ids t)"
    using mset_ids_halves [OF over, of ?r] by simp
  from mset_eq_imp_distinct_iff [OF this]
  have dist: "distinct (ids (left_half t) @ ids (right_half ?r t))" using g' r by simp
  have "distinct (ids ?T)" using dist lt by force
  moreover have "sorted_items (items ?T) \<and> content (items ?T) = content (items t)"
    using split_items [OF over, of "[]" "[]" ?r] g' by simp
  moreover have "kinds (iview s2) ?T"
  proof -
    have sub: "set (ids (left_half t)) \<union> set (ids (right_half ?r t)) = insert ?r (set (ids t))"
      using arg_cong [OF mset_ids_halves [OF over, of ?r], of set_mset] by simp
    have "kind_of (iview s2) j \<noteq> Some Root \<and> j \<noteq> ?i" if j: "j \<in> insert ?r (set (ids t))" for j
    proof -
      have ne: "j \<noteq> ?i" using lt [of j] j sub by auto
      then have eq: "kind_of (iview s2) j = kind_of (iview s1) j" by (intro kind_of_cong s2(4))
      show ?thesis
      proof (cases "j = ?r \<or> j = tid t")
        case True
        then show ?thesis using eq ne s' kind_of_rep [of "iview s1", OF p(1,2)] p(3) by auto
      next
        case False
        then have "kind_of (iview s1) j = kind_of (iview s) j" using s' by (intro kind_of_cong) auto
        then show ?thesis using eq ne g' j False by (auto simp: kinds_def)
      qed
    qed
    then show ?thesis using sub s2(6) unfolding kinds_def by auto
  qed
  ultimately have "holds_tree 202 s2 ?T" "content (items ?T) = content (items t)"
    using s2(2,3) st fits_halves [OF over, of ?r] by (simp_all add: holds_tree_def kept_def)
  then have "grown t (Some ?i) s2" unfolding grown_def
    by (intro exI [of _ ?T]) (simp add: level_halves)
  then show ?thesis using s2 by blast
qed

lemma handle_overfull_run:
  assumes "growing s c t" and "(unat (inext s) + length c + 2) * 4096 < 18446744073709551616"
    and "log_room (n + 3 * length c + 4) s"
  shows "\<exists>r s'. handle_overfull txn (tid t # map fr_id c) s = (Inr r, s') \<and>
    kept (3 * length c + 4) s s' \<and> unat (inext s') \<le> unat (inext s) + length c + 2 \<and>
    grown (plug c t) r s'"
  using assms
proof (induction c arbitrary: s t)
  case Nil
  note g = Nil.prems(1) [unfolded growing_def plug.simps]
  have room: "(unat (inext s) + 1) * 4096 < 18446744073709551616" "log_room (n + 2 + 2) s"
  proof -
    show "(unat (inext s) + 1) * 4096 < 18446744073709551616" using Nil.prems(2) by simp
    have "n + 2 + 2 = n + 3 * length ([] :: frame list) + 4" by simp
    then show "log_room (n + 2 + 2) s" using Nil.prems(3) by metis
  qed
  obtain s1 where s1: "handle_overfull txn (tid t # []) s =
      after_split txn [] (tid t) (inext s) (promoted t) s1" "split_done s s1 t"
    using split_step [of s t, OF _ _ _ _ room] g by blast
  note d = s1(2) [unfolded split_done_def]
  have k1: "kept 2 s s1" and n1: "unat (inext s1) = unat (inext s) + 1" using d by simp_all
  have room1: "(unat (inext s1) + 1) * 4096 < 18446744073709551616" "log_room (n + 2) s1"
    using Nil.prems(2) n1 kept_room [OF k1 room(2)] by simp_all
  obtain s2 where s2: "grow_root txn (tid t) (inext s) (promoted t) s1 = (Inr (inext s1), s2)"
    "kept 2 s1 s2" "unat (inext s2) = unat (inext s1) + 1" "grown t (Some (inext s1)) s2"
    using root_step [OF Nil.prems(1) s1(2) room1] by blast
  have "kept 4 s s2" using kept_trans [OF k1 s2(2)] by simp
  then show ?case
    using s1(1) s2 n1 by (intro exI [of _ "Some (inext s1)"] exI [of _ s2])
      (simp add: after_split_def andthen_def run_simps)
next
  case (Cons f c)
  let ?r = "inext s" and ?t = "halves f t (inext s)" and ?m = "length (fr_lks f @ fr_rks f)"
  note g = Cons.prems(1) [unfolded growing_def]
  have room: "(unat (inext s) + 1) * 4096 < 18446744073709551616" "log_room (n + 3 * length c + 5 + 2) s"
    using Cons.prems(2,3) by (simp_all add: add.commute add.left_commute)
  have dist: "distinct (ids t)" using g distinct_ids_plug [of "f # c" t] by simp
  have st: "stored (iview s) t" using g by (simp add: stored_plug stored_fill)
  obtain s1 where s1: "handle_overfull txn (tid t # map fr_id (f # c)) s =
      after_split txn (map fr_id (f # c)) (tid t) ?r (promoted t) s1" "split_done s s1 t"
    using split_step [of s t, OF _ st _ dist room] g by blast
  note d = s1(2) [unfolded split_done_def]
  have k1: "kept 2 s s1" and n1: "unat (inext s1) = unat ?r + 1" using d by simp_all
  have room1: "log_room (Suc (n + 3 * length c + 4)) s1"
    using kept_room [OF k1 room(2)] by (simp add: add.commute add.left_commute)
  obtain s2 where s2: "link_parent txn (fr_id f) (tid t) ?r (promoted t) s1 = (Inr (Suc ?m), s2)"
    "kept 1 s1 s2" "inext s2 = inext s1" "stored (iview s2) (plug c ?t)" "kinds (iview s2) (plug c ?t)"
    using link_step [OF Cons.prems(1) s1(2) room1] by blast
  have room2: "log_room (n + 3 * length c + 4) s2" using kept_room [OF s2(2) room1] by (simp add: add.commute)
  have k2: "kept 3 s s2" using kept_trans [OF k1 s2(2)] by simp
  have r: "?r \<notin> set (ids (plug (f # c) t))" using ids_bound [of s "plug (f # c) t" ?r] g by auto
  have fit: "frame_fits 202 f" "list_all (frame_fits 202) (f # c)" and over: "overfull t" using g by simp_all
  note h = halves_plug(1-3) [OF fit(2) over _ _ r] and hf = halves_fit [OF fit(1) over, of ?r]
  have good2: "tree_good s2" using s2(2) by (simp add: kept_def)
  show ?case
  proof (cases "?m = 202")
    case True
    have g2: "growing s2 c ?t" using h hf True good2 s2(4,5) g by (simp add: growing_def)
    obtain r s3 where s3: "handle_overfull txn (tid ?t # map fr_id c) s2 = (Inr r, s3)"
      "kept (3 * length c + 4) s2 s3" "unat (inext s3) \<le> unat (inext s2) + length c + 2"
      "grown (plug c ?t) r s3"
      using Cons.IH [OF g2 _ room2] Cons.prems(2) s2(3) n1 by auto
    have "kept (3 * length (f # c) + 4) s s3"
      using kept_trans [OF k2 s3(2)] by (simp add: add.commute add.left_commute)
    moreover have "tid (plug c ?t) = tid (plug (f # c) t)" using tid_plug [of ?t "fill f t" c] by simp
    then have "grown (plug (f # c) t) r s3" using grown_cong [OF s3(4)] h g level_plug_halves by blast
    ultimately show ?thesis
      using s1(1) s2(1,3) s3(1,3) n1 True by (intro exI [of _ r] exI [of _ s3])
        (simp add: after_split_def andthen_def run_simps tree_consts)
  next
    case False
    then have "?m < 202" using fit(1) by (simp add: frame_fits_def)
    have fits: "fits 202 (plug c ?t)" using hf False fit(2) by (simp add: fits_plug)
    have "tid (plug c ?t) = tid (plug (f # c) t)" using tid_plug [of ?t "fill f t" c] by simp
    then have "grown (plug (f # c) t) None s2"
      using h g good2 s2(4,5) fits unfolding grown_def
      by (intro exI [of _ "plug c ?t"]) (simp add: holds_tree_def level_plug_halves [simplified])
    moreover have "kept (3 * length (f # c) + 4) s s2" by (rule kept_mono [OF k2]) simp
    ultimately show ?thesis
      using s1(1) s2(1,3) n1 \<open>?m < 202\<close> by (intro exI [of _ None] exI [of _ s2])
        (simp add: after_split_def andthen_def run_simps tree_consts)
  qed
qed

end
