(* ===== verification/Tree_Insert.thy ===== *)
theory Tree_Insert
  imports Tree_Grow
begin

text \<open>
  Insertion into a tree whose pages and heap represent a map from keys to records: the records go to
  a new heap page, their key into the leaf that the search for it ends in, and a full leaf is split.
\<close>

section \<open>The map of a tree\<close>

text \<open>The records that start at a heap page.\<close>

definition record_at :: "(u64 \<Rightarrow> bytes option) \<Rightarrow> u64 \<Rightarrow> bytes list \<Rightarrow> bool" where
  "record_at v h rs \<longleftrightarrow> (\<exists>ch. heap_chain v h ch \<and> distinct (map fst ch) \<and> chain_records ch = rs)"

text \<open>The heap ids \<open>e\<close> that the leaves give to the keys, read in the heap.\<close>

definition reads_as :: "(u64 \<Rightarrow> bytes option) \<Rightarrow> (u64 \<Rightarrow> u64 option) \<Rightarrow> (u64 \<Rightarrow> bytes list option) \<Rightarrow> bool" where
  "reads_as v e m \<longleftrightarrow> (\<forall>k. rel_option (record_at v) (e k) (m k))"

text \<open>
  The state holds a tree, no deeper than \<open>n\<close> and with at most \<open>cap\<close> cells in a page, that stands for
  the map \<open>m\<close>. The capacity of a page is 203; \<open>tree_rep\<close> leaves the cell to spare that insertion needs.
\<close>

definition stands_for :: "nat \<Rightarrow> nat \<Rightarrow> bplus_tree \<Rightarrow> (u64 \<Rightarrow> bytes list option) \<Rightarrow> bool" where
  "stands_for cap n s m \<longleftrightarrow> (\<exists>T h. holds_tree cap s T \<and> root_id s = tid T \<and> level h T \<and> h \<le> n \<and>
     reads_as (hview s) (map_of (entries T)) m)"

abbreviation tree_rep :: "nat \<Rightarrow> bplus_tree \<Rightarrow> (u64 \<Rightarrow> bytes list option) \<Rightarrow> bool" where
  "tree_rep \<equiv> stands_for 202"

text \<open>
  Room for one more insertion into a tree of depth \<open>n\<close>: pages below the offset limit of the files,
  and log records; and what an insertion takes of it.
\<close>

definition tree_room :: "nat \<Rightarrow> bplus_tree \<Rightarrow> bool" where
  "tree_room n s \<longleftrightarrow> (unat (inext s) + n + 2) * 4096 < 18446744073709551616 \<and>
     (unat (hnext s) + 1) * 8192 < 18446744073709551616 \<and> log_room (3 * n + 6) s"

definition spent :: "nat \<Rightarrow> bplus_tree \<Rightarrow> bplus_tree \<Rightarrow> bool" where
  "spent n s s' \<longleftrightarrow> unat (inext s') \<le> unat (inext s) + n + 2 \<and> unat (hnext s') \<le> unat (hnext s) + 1 \<and>
     (\<forall>k. log_room (k + (3 * n + 6)) s \<longrightarrow> log_room k s')"

lemma spentI:
  assumes "unat (inext s') \<le> unat (inext s) + n + 2" and "unat (hnext s') \<le> unat (hnext s) + 1"
    and "\<And>k. log_room (k + d) s \<Longrightarrow> log_room k s'" and "d \<le> 3 * n + 6"
  shows "spent n s s'"
  unfolding spent_def
proof (intro conjI allI impI)
  show "log_room k s'" if "log_room (k + (3 * n + 6)) s" for k
    using assms(4) by (intro assms(3) wal_room_mono [OF that]) simp
qed (rule assms(1,2))+

lemma record_at_cong:
  assumes "record_at v h rs" and "\<And>j. v j \<noteq> None \<Longrightarrow> v' j = v j"
  shows "record_at v' h rs"
proof -
  obtain ch where ch: "heap_chain v h ch" "distinct (map fst ch)" "chain_records ch = rs"
    using assms(1) by (auto simp: record_at_def)
  have "heap_chain v' h ch"
    using heap_chain_cong [OF ch(1)] heap_chain_visible [OF ch(1)] assms(2) by blast
  then show ?thesis using ch(2,3) by (auto simp: record_at_def)
qed

lemma reads_as_cong:
  assumes "reads_as v e m" and "\<And>j. v j \<noteq> None \<Longrightarrow> v' j = v j"
  shows "reads_as v' e m"
  unfolding reads_as_def
proof
  fix k
  have "rel_option (record_at v) (e k) (m k)" using assms(1) by (simp add: reads_as_def)
  then show "rel_option (record_at v') (e k) (m k)"
    by (rule option.rel_mono_strong) (rule record_at_cong [OF _ assms(2)])
qed

lemma reads_as_update:
  "reads_as v e m \<Longrightarrow> record_at v h rs \<Longrightarrow> reads_as v (e(k \<mapsto> h)) (m(k \<mapsto> rs))"
  by (simp add: reads_as_def)

lemma holds_tree_quiet: "holds_tree n s T \<Longrightarrow> t_quiet s s' \<Longrightarrow> holds_tree n s' T"
  by (simp add: holds_tree_def t_quiet_def kept_def)

lemma stands_for_quiet: "stands_for cap n s m \<Longrightarrow> t_quiet s s' \<Longrightarrow> stands_for cap n s' m"
  unfolding stands_for_def by (metis holds_tree_quiet kept_def t_quiet_def)

lemma stands_for_mono: "stands_for cap n s m \<Longrightarrow> n \<le> k \<Longrightarrow> stands_for cap k s m"
  unfolding stands_for_def using le_trans by blast


section \<open>The heap part\<close>

text \<open>A step in the heap file.\<close>

lemma heap_step:
  assumes run: "p (p_heap (t_pager s), p_wal (t_pager s)) = (r, (st, w))" and good: "tree_good s"
    and st: "store_good 8192 (st, w)" "log_same (p_wal (t_pager s)) w"
  shows "\<exists>s'. on_pager (on_heap p) s = (r, s') \<and> tree_good s' \<and> root_id s' = root_id s \<and>
    iview s' = iview s \<and> inext s' = inext s \<and> hview s' = store_view 8192 st \<and>
    hnext s' = pf_next_id st \<and> (\<forall>m. log_room m s \<longrightarrow> log_room m s')"
proof -
  note step = on_heap_step [where p = p, OF run good st]
  have "wal_room m w" if "wal_room m (p_wal (t_pager s))" for m
    using st(2) that wal_room_hdr [of w "p_wal (t_pager s)" m] by (simp add: log_same_def)
  then show ?thesis
    using step by (simp add: on_pager_def p_index_view_def p_heap_view_def)
qed

lemma good_heap: "tree_good s \<Longrightarrow> heap_good (p_heap (t_pager s), p_wal (t_pager s))"
  by (simp add: pager_good_def)

lemma heap_fresh: "tree_good s \<Longrightarrow> hview s j \<noteq> None \<Longrightarrow> j \<noteq> hnext s"
  using store_view_bound [of 8192 "p_heap (t_pager s)" j]
  by (auto simp: p_heap_view_def pager_good_def store_good_def)

text \<open>
  What \<open>store_records\<close> changes: the page \<open>hnext s\<close> of the heap is new, and nothing else; the log has
  at most one more record.
\<close>

definition heap_grown :: "bplus_tree \<Rightarrow> bytes \<Rightarrow> bplus_tree \<Rightarrow> bool" where
  "heap_grown s p s' \<longleftrightarrow> tree_good s' \<and> root_id s' = root_id s \<and> iview s' = iview s \<and>
     inext s' = inext s \<and> hview s' = (hview s)(hnext s \<mapsto> p) \<and> unat (hnext s') = unat (hnext s) + 1 \<and>
     (\<forall>m. log_room (Suc m) s \<longrightarrow> log_room m s')"

lemma allocate_and_edit:
  assumes good: "tree_good s" and room: "(unat (hnext s) + 1) * 8192 < 18446744073709551616"
    and body: "\<And>p. heap_rep p (empty_heap_node (hnext s) 0) \<Longrightarrow> length (snd (body p)) = 8192"
  shows "\<exists>s1 s2 p. on_pager (on_heap heap_allocate) s = (Inr (hnext s), s1) \<and>
    on_pager (on_heap (heap_with_page (hnext s) body)) s1 = (fst (body p), s2) \<and>
    heap_rep p (empty_heap_node (hnext s) 0) \<and> heap_grown s (snd (body p)) s2 \<and>
    (\<forall>m. log_room m s \<longrightarrow> log_room m s2)"
proof -
  let ?h = "hnext s"
  obtain st w p where a: "heap_allocate (p_heap (t_pager s), p_wal (t_pager s)) = (Inr ?h, (st, w))"
    "heap_good (st, w)" "heap_view (st, w) = (hview s)(?h \<mapsto> p)" "heap_rep p (empty_heap_node ?h 0)"
    "log_same (p_wal (t_pager s)) w" "unat (pf_next_id st) = unat ?h + 1"
    using heap_allocate_run [OF good_heap [OF good]] room by (auto simp: p_heap_view_def)
  obtain s1 where s1: "on_pager (on_heap heap_allocate) s = (Inr ?h, s1)" "tree_good s1"
    "root_id s1 = root_id s" "iview s1 = iview s" "inext s1 = inext s" "hview s1 = (hview s)(?h \<mapsto> p)"
    "unat (hnext s1) = unat ?h + 1" "\<And>m. log_room m s \<Longrightarrow> log_room m s1"
    using heap_step [where p = heap_allocate, OF a(1) good a(2,5)] a(3,6) by auto
  obtain r p' where p': "body p = (r, p')" "length p' = 8192" using body [OF a(4)] by (cases "body p") simp
  have v1: "heap_view (p_heap (t_pager s1), p_wal (t_pager s1)) ?h = Some p"
    using s1(6) by (simp add: p_heap_view_def)
  obtain st2 w2 where b: "heap_with_page ?h body (p_heap (t_pager s1), p_wal (t_pager s1)) = (r, (st2, w2))"
    "changed 8192 ?h p' (p_heap (t_pager s1), p_wal (t_pager s1)) (st2, w2)"
    using heap_with_page_run(1) [where body = body, OF good_heap [OF s1(2)] v1 p'] by auto
  have c: "store_good 8192 (st2, w2)" "log_same (p_wal (t_pager s1)) w2"
    "store_view 8192 st2 = (hview s1)(?h \<mapsto> p')" "pf_next_id st2 = hnext s1"
    using b(2) by (simp_all add: changed_def p_heap_view_def)
  obtain s2 where s2: "on_pager (on_heap (heap_with_page ?h body)) s1 = (r, s2)" "tree_good s2"
    "root_id s2 = root_id s1" "iview s2 = iview s1" "inext s2 = inext s1" "hview s2 = (hview s1)(?h \<mapsto> p')"
    "hnext s2 = hnext s1" "\<And>m. log_room m s1 \<Longrightarrow> log_room m s2"
    using heap_step [where p = "heap_with_page ?h body", OF b(1) s1(2) c(1,2)] c(3,4) by auto
  have "log_room m s2" if "log_room (Suc m) s" for m
    using s2(8) s1(8) wal_room_mono [OF that, of m] by simp
  then have "heap_grown s p' s2" using s1 s2 by (simp add: heap_grown_def)
  then show ?thesis
    using s1(1,8) s2(1,8) p' a(4) by (intro exI [of _ s1] exI [of _ s2] exI [of _ p]) simp
qed

text \<open>Records that do not fit into a page: the page has taken some of them.\<close>

lemma heap_add_records_overflow:
  assumes "heap_rep p nd" and "\<not> heap_fits (hn_recs nd @ rs)"
  shows "\<exists>p'. heap_add_records rs p = (Inl (Err ''Heap page overflow!''), p') \<and> length p' = 8192"
  using assms
proof (induction rs arbitrary: p nd)
  case Nil
  then show ?case by (simp add: heap_rep_def)
next
  case (Cons r rs)
  show ?case
  proof (cases "heap_fits (hn_recs nd @ [r])")
    case True
    then obtain p1 where 1: "heap_add_cell r p = (Inr (), p1)" "heap_rep p1 (nd\<lparr>hn_recs := hn_recs nd @ [r]\<rparr>)"
      using heap_add_cell_refines [OF Cons.prems(1), of r] by auto
    then show ?thesis
      using Cons.IH [OF 1(2)] Cons.prems(2) by (simp add: heap_add_records_def andthen_def)
  next
    case False
    then have "heap_add_cell r p = (Inl (Err ''Heap page overflow!''), p)"
      using heap_add_cell_refines [OF Cons.prems(1), of r] by (simp del: heap_fits_snoc)
    then show ?thesis
      using heap_repD(1) [OF Cons.prems(1)] by (simp add: heap_add_records_def andthen_def)
  qed
qed

lemma store_records_run:
  assumes good: "tree_good s" and room: "(unat (hnext s) + 1) * 8192 < 18446744073709551616" "log_room (Suc n) s"
  shows "\<exists>s' p'. store_records txn rs s =
      ((if heap_fits rs then Inr (hnext s) else Inl (Err ''Heap page overflow!'')), s') \<and>
    heap_grown s p' s' \<and>
    (heap_fits rs \<longrightarrow> heap_rep p' ((empty_heap_node (hnext s) 0)\<lparr>hn_recs := rs\<rparr>))"
proof -
  let ?body = "andthen (gets (\<lambda>page. page)) (\<lambda>old_data. andthen (heap_add_records rs) (\<lambda>_.
        gets (\<lambda>new_data. (old_data, new_data))))"
  have fits: "\<exists>p'. ?body p = (Inr (p, p'), p') \<and> heap_rep p' ((empty_heap_node (hnext s) 0)\<lparr>hn_recs := rs\<rparr>)"
    if "heap_rep p (empty_heap_node (hnext s) 0)" "heap_fits rs" for p
    using heap_add_records_refines [OF that(1), of rs] that(2)
    by (auto simp: andthen_def run_simps empty_heap_node_def)
  have over: "\<exists>p'. ?body p = (Inl (Err ''Heap page overflow!''), p') \<and> length p' = 8192"
    if "heap_rep p (empty_heap_node (hnext s) 0)" "\<not> heap_fits rs" for p
    using heap_add_records_overflow [OF that(1), of rs] that(2)
    by (auto simp: andthen_def run_simps empty_heap_node_def)
  have len: "length (snd (?body p)) = 8192" if "heap_rep p (empty_heap_node (hnext s) 0)" for p
    using fits [OF that] over [OF that] heap_repD(1) by (cases "heap_fits rs") force+
  obtain s1 s2 p where e: "on_pager (on_heap heap_allocate) s = (Inr (hnext s), s1)"
    "on_pager (on_heap (heap_with_page (hnext s) ?body)) s1 = (fst (?body p), s2)"
    "heap_rep p (empty_heap_node (hnext s) 0)" "heap_grown s (snd (?body p)) s2"
    "\<And>m. log_room m s \<Longrightarrow> log_room m s2"
    using allocate_and_edit [where body = ?body, OF good room(1) len] by blast
  show ?thesis
  proof (cases "heap_fits rs")
    case False
    then obtain p' where "?body p = (Inl (Err ''Heap page overflow!''), p')" using over [OF e(3)] by blast
    then show ?thesis
      using e False by (intro exI [of _ s2] exI [of _ p']) (simp add: store_records_def andthen_def)
  next
    case True
    then obtain p' where p': "?body p = (Inr (p, p'), p')"
      "heap_rep p' ((empty_heap_node (hnext s) 0)\<lparr>hn_recs := rs\<rparr>)"
      using fits [OF e(3)] by blast
    have g2: "tree_good s2" "log_room (Suc n) s2" using e(4,5) room(2) by (simp_all add: heap_grown_def)
    obtain pg r lr where l: "log_heap_diff txn (hnext s) p p' (t_pager s2) = (Inr r, pg)"
      "logged lr (t_pager s2) pg" "length lr \<le> 1"
      using log_heap_diff_run [OF g2 heap_repD(1) [OF e(3)] heap_repD(1) [OF p'(2)], of txn "hnext s"]
      by (auto split: if_splits)
    let ?s3 = "s2\<lparr>t_pager := pg\<rparr>"
    have "log_room m ?s3" if "log_room (Suc m) s" for m
      using l(2,3) wal_room_mono [OF e(5) [OF that], of "m + length lr"] by (auto simp: logged_def log_grows_def)
    then have "heap_grown s p' ?s3" using e(4) p'(1) l(2) by (simp add: heap_grown_def logged_def)
    then show ?thesis
      using e(1,2) p' l(1) True
      by (intro exI [of _ ?s3] exI [of _ p']) (simp add: store_records_def andthen_def on_pager_def run_simps)
  qed
qed

lemma record_at_new:
  assumes "v h = Some p" and "heap_rep p ((empty_heap_node h 0)\<lparr>hn_recs := rs\<rparr>)"
  shows "record_at v h rs"
  unfolding record_at_def
  by (intro exI [of _ "[(h, (empty_heap_node h 0)\<lparr>hn_recs := rs\<rparr>)]"])
    (use assms in \<open>simp add: hn_more_def empty_heap_node_def chain_records_def\<close>)


section \<open>The leaf\<close>

lemma map_of_entry_items: "map_of (map entry_item kvs) (entry_place k) = map_option Some (map_of kvs k)"
  by (induction kvs) (auto simp: entry_item_def)

text \<open>The items of the tree with the pair in its place.\<close>

lemma insert_items:
  assumes sorted: "sorted_items (l @ map entry_item kvs @ r)" and new: "key \<notin> fst ` set kvs"
    and l: "\<And>x. x \<in> set l \<Longrightarrow> fst x < entry_place key" and r: "\<And>x. x \<in> set r \<Longrightarrow> entry_place key < fst x"
  shows "sorted_items (l @ map entry_item (insert_cell key h kvs) @ r)"
    and "content (l @ map entry_item (insert_cell key h kvs) @ r) =
      (content (l @ map entry_item kvs @ r))(key \<mapsto> h)"
proof -
  have kvs: "sorted_wrt (<) (map fst kvs)"
    using sorted by (simp add: sorted_items_append sorted_entries)
  then have "sorted_items (map entry_item (insert_cell key h kvs))"
    using sorted_insert_cell [OF kvs new] by (simp add: sorted_entries)
  then show "sorted_items (l @ map entry_item (insert_cell key h kvs) @ r)"
    using sorted l r by (auto simp: sorted_items_append set_insert_cell)
  have "map_of l (entry_place key) = None" using l by (fastforce simp: map_of_eq_None_iff)
  then show "content (l @ map entry_item (insert_cell key h kvs) @ r) =
      (content (l @ map entry_item kvs @ r))(key \<mapsto> h)"
    by (auto simp: fun_eq_iff content_def map_add_def map_of_entry_items map_of_insert_cell [OF kvs]
        split: option.splits)
qed

lemma leaf_insert_run:
  fixes h :: u64
  assumes tree: "holds_tree 202 s T" and d: "descend key [] T = (c, i, kvs)"
    and new: "key \<notin> fst ` set kvs" and room: "log_room (Suc n) s"
  defines "t \<equiv> Tip i (insert_cell key h kvs)"
  shows "\<exists>s1 s2 p p'. t_with_page i (andthen (gets (\<lambda>page. page)) (\<lambda>old_data.
      andthen (add_cell key h) (\<lambda>n_slot. gets (\<lambda>new_data. (n_slot, old_data, new_data))))) s =
      (Inr (Suc (length kvs), p, p'), s1) \<and>
    t_log_diff txn i p p' s1 = (Inr (), s2) \<and> kept 1 s s2 \<and> inext s2 = inext s \<and>
    stored (iview s2) (plug c t) \<and> distinct (ids (plug c t)) \<and> sorted_items (items (plug c t)) \<and>
    content (items (plug c t)) = (map_of (entries T))(key \<mapsto> h) \<and> tid (plug c t) = tid T \<and>
    kinds (iview s2) (plug c t)"
proof -
  let ?t0 = "Tip i kvs"
  let ?body = "andthen (gets (\<lambda>page. page)) (\<lambda>old_data. andthen (add_cell key h) (\<lambda>n_slot.
      gets (\<lambda>new_data. (n_slot, old_data, new_data))))"
  note hd = holds_tree_descend [OF tree d] and h = tree [unfolded holds_tree_def]
  have T: "T = plug c ?t0" using hd(1) by simp
  have good: "tree_good s" and st: "stored_ctx (iview s) i c" "stored (iview s) ?t0"
    using h stored_plug [of "iview s" c ?t0] T by simp_all
  obtain p nd where p: "iview s i = Some p" "page_rep p nd" "node_leaf nd" "n_cells nd = kvs"
    using st(2) by (auto simp: at_leaf_def)
  obtain p' where p': "add_cell key h p = (Inr (Suc (length kvs)), p')"
    "page_rep p' (nd\<lparr>n_cells := insert_cell key h kvs\<rparr>)"
    using add_cell_refines [OF p(2), of key h] p(4) new hd(4) by auto
  have body: "?body p = (Inr (Suc (length kvs), p, p'), p')"
    using p'(1) by (simp add: andthen_def run_simps)
  obtain s1 where s1: "t_with_page i ?body s = (Inr (Suc (length kvs), p, p'), s1)" "kept 0 s s1"
    "iview s1 = (iview s)(i \<mapsto> p')" "inext s1 = inext s"
    using t_with_page_run [where body = ?body, OF good p(1) body page_rep_length [OF p'(2)]] by blast
  have g1: "tree_good s1" "log_room (Suc n) s1" using s1(2) room by (simp_all add: kept_def)
  obtain s2 where s2: "t_log_diff txn i p p' s1 = (Inr (), s2)" "kept 1 s1 s2" "iview s2 = iview s1"
    "inext s2 = inext s1"
    using t_log_diff_run [OF g1 page_rep_length [OF p(2)] page_rep_length [OF p'(2)]] by blast
  have k: "kept 1 s s2" using kept_trans [OF s1(2) s2(2)] by simp
  have apart: "distinct (ids ?t0 @ concat (map frame_ids c))"
    using h distinct_ids_plug [of c ?t0] T by simp
  have "stored_ctx (iview s2) i c"
    using apart by (intro stored_ctx_cong [OF st(1)]) (auto simp: s2(3) s1(3))
  moreover have "stored (iview s2) t"
    using at_leafI [of "iview s2" i, OF _ p'(2)] p(3) by (simp add: t_def s2(3) s1(3))
  ultimately have stored: "stored (iview s2) (plug c t)" by (simp add: stored_plug t_def)
  have dist: "distinct (ids (plug c t))" using apart by (simp add: distinct_ids_plug t_def)
  have tid: "tid (plug c t) = tid T" unfolding T by (rule tid_plug) (simp add: t_def)
  note it = items_plug [OF hd(2)]
  have sorted: "sorted_items (left_items c @ map entry_item kvs @ right_items c)"
    using h T it [of ?t0] by simp
  note ins = insert_items [OF sorted new, of h]
  have "items (plug c t) = left_items c @ map entry_item (insert_cell key h kvs) @ right_items c"
    using it [of t] by (simp add: t_def)
  moreover have "map_of (entries T) = content (left_items c @ map entry_item kvs @ right_items c)"
    using content_items [of T] T it [of ?t0] by simp
  ultimately have "sorted_items (items (plug c t))"
    "content (items (plug c t)) = (map_of (entries T))(key \<mapsto> h)"
    using ins hd(3) by (simp_all add: between_def)
  moreover have "kinds (iview s2) (plug c t)"
  proof -
    have "set (ids (plug c t)) = set (ids T)" unfolding T by (simp add: set_ids_plug t_def)
    moreover have "kind_of (iview s2) j = kind_of (iview s) j" for j
      using kind_of_rep [of "iview s2" i, OF _ p'(2)] kind_of_rep [of "iview s" i, OF p(1,2)] s2(3) s1(3)
      by (cases "j = i") (simp_all add: kind_of_def)
    ultimately show ?thesis using h tid by (simp add: kinds_def)
  qed
  ultimately show ?thesis using s1(1) s2(1,4) s1(4) k stored dist tid by metis
qed


section \<open>Insertion\<close>

lemma tree_insert_run:
  assumes rep: "tree_rep n s m" and room: "tree_room n s"
  shows "\<exists>s'. tree_insert txn key rs s =
      ((if m key \<noteq> None then Inl (Err ''Key already exists'')
        else if \<not> heap_fits rs then Inl (Err ''Heap page overflow!'')
        else Inr ()), s') \<and>
    tree_rep (Suc n) s' (if m key \<noteq> None \<or> \<not> heap_fits rs then m else m(key \<mapsto> rs)) \<and> spent n s s'"
proof -
  obtain T h where tree: "holds_tree 202 s T" and root: "root_id s = tid T" and sh: "level h T" "h \<le> n"
    and reads: "reads_as (hview s) (map_of (entries T)) m"
    using rep by (auto simp: stands_for_def)
  obtain c i kvs where d: "descend key [] T = (c, i, kvs)" by (cases "descend key [] T") simp
  note hd = holds_tree_descend [OF tree d] and room' = room [unfolded tree_room_def]
  have depth: "length c \<le> n" using descend_level [OF d _ sh(1), of 202] tree sh(2) by (simp add: holds_tree_def)
  obtain s0 where s0: "breadcrumbs key s = (Inr (i # map fr_id c, key \<in> fst ` set kvs), s0)" "t_quiet s s0"
    using descent_run(2) [OF tree root d] by blast
  have tree0: "holds_tree 202 s0 T" using holds_tree_quiet [OF tree s0(2)] .
  have q: "tree_good s0" "iview s0 = iview s" "inext s0 = inext s" "hview s0 = hview s" "hnext s0 = hnext s"
    "root_id s0 = tid T" "\<And>k. log_room k s \<Longrightarrow> log_room k s0"
    using s0(2) root by (simp_all add: t_quiet_def kept_def)
  have "rel_option (record_at (hview s)) (map_of (entries T) key) (m key)"
    using reads by (simp add: reads_as_def)
  then have old: "key \<in> fst ` set kvs \<longleftrightarrow> m key \<noteq> None"
    using hd(6) map_of_eq_None_iff [of kvs key] by (cases "m key") auto
  show ?thesis
  proof (cases "key \<in> fst ` set kvs")
    case True
    have "tree_rep (Suc n) s0 m" by (rule stands_for_mono [OF stands_for_quiet [OF rep s0(2)]]) simp
    moreover have "spent n s s0"
      using q(3,5,7) by (intro spentI [of _ _ _ 0]) simp_all
    ultimately show ?thesis using s0(1) True old by (simp add: tree_insert_def andthen_def run_simps)
  next
    case False
    let ?h = "hnext s"
    have r0: "(unat (hnext s0) + 1) * 8192 < 18446744073709551616" "log_room (Suc (3 * n + 5)) s0"
      using room' q(5,7) by (simp_all add: add.commute)
    obtain s1 p' where s1: "store_records txn rs s0 =
        ((if heap_fits rs then Inr ?h else Inl (Err ''Heap page overflow!'')), s1)"
      "heap_grown s0 p' s1" "heap_fits rs \<Longrightarrow> heap_rep p' ((empty_heap_node ?h 0)\<lparr>hn_recs := rs\<rparr>)"
      using store_records_run [OF q(1) r0] q(5) by metis
    note g = s1(2) [unfolded heap_grown_def]
    have tree1: "holds_tree 202 s1 T" using tree0 g by (simp add: holds_tree_def)
    have keep: "hview s1 j = hview s j" if "hview s j \<noteq> None" for j
      using g q(4,5) heap_fresh [of s j] that tree by (simp add: holds_tree_def)
    have reads1: "reads_as (hview s1) (map_of (entries T)) m" by (rule reads_as_cong [OF reads keep])
    have root1: "root_id s1 = tid T" and next1: "inext s1 = inext s" "unat (hnext s1) = unat (hnext s) + 1"
      using g q(3,5,6) by simp_all
    have log1: "log_room k s1" if "log_room (Suc k) s" for k using g q(7) [OF that] by simp
    show ?thesis
    proof (cases "heap_fits rs")
      case over: False
      have "tree_rep (Suc n) s1 m" unfolding stands_for_def using tree1 root1 reads1 sh le_SucI by blast
      moreover have "spent n s s1"
        using next1 log1 by (intro spentI [of _ _ _ 1]) simp_all
      ultimately show ?thesis using s0(1) s1(1) False over old
        by (simp add: tree_insert_def andthen_def run_simps)
    next
      case fits: True
      have room1: "log_room (Suc (3 * n + 4)) s1" using g r0(2) by simp
      let ?t = "Tip i (insert_cell key ?h kvs)"
      obtain s2 s3 pa pb where s3: "t_with_page i (andthen (gets (\<lambda>page. page)) (\<lambda>old_data.
          andthen (add_cell key ?h) (\<lambda>n_slot. gets (\<lambda>new_data. (n_slot, old_data, new_data))))) s1 =
          (Inr (Suc (length kvs), pa, pb), s2)"
        "t_log_diff txn i pa pb s2 = (Inr (), s3)" "kept 1 s1 s3" "inext s3 = inext s1"
        "stored (iview s3) (plug c ?t)" "distinct (ids (plug c ?t))" "sorted_items (items (plug c ?t))"
        "content (items (plug c ?t)) = (map_of (entries T))(key \<mapsto> ?h)" "tid (plug c ?t) = tid T"
        "kinds (iview s3) (plug c ?t)"
        using leaf_insert_run [OF tree1 d False room1, of ?h txn] by blast
      have k3: "tree_good s3" "hview s3 = hview s1" "root_id s3 = tid T" "inext s3 = inext s"
        "hnext s3 = hnext s1" "log_room (3 * n + 4) s3"
        using s3(3,4) g q(3) root1 kept_room [OF s3(3) room1] by (simp_all add: kept_def add.commute)
      have log3: "log_room k s3" if "log_room (Suc (Suc k)) s" for k
        using s3(3) log1 [OF that] by (simp add: kept_def)
      have "record_at (hview s1) ?h rs"
        using g q(5) s1(3) [OF fits] by (intro record_at_new) simp_all
      from reads_as_update [OF reads1 this, of key]
      have reads3: "reads_as (hview s1) (content (items (plug c ?t))) (m(key \<mapsto> rs))"
        by (simp only: s3(8))
      have rep: "tree_rep (Suc n) s' (m(key \<mapsto> rs))" if s': "holds_tree 202 s' T'" "root_id s' = tid T'"
          "level h T' \<or> level (Suc h) T'" "hview s' = hview s1" "content (items T') = content (items (plug c ?t))" for s' T'
        using that sh(2) reads3 content_items [of T'] unfolding stands_for_def
        by (intro exI [of _ T']) (metis Suc_le_mono le_SucI)
      have "level h (plug c (Tip i kvs))" using sh hd(1) by simp
      then have sh3: "level h (plug c ?t)" by (rule level_plug) simp
      show ?thesis
      proof (cases "length kvs = 202")
        case False
        have "list_all (frame_fits 202) c" by (rule hd(2))
        then have "fits 202 (plug c ?t)" using hd(4) False by (intro fits_plug) simp_all
        then have "holds_tree 202 s3 (plug c ?t)" using s3 k3 by (simp add: holds_tree_def)
        then have "tree_rep (Suc n) s3 (m(key \<mapsto> rs))"
          using rep [OF _ _ _ k3(2) refl] sh3 k3(3) s3(9) by simp
        moreover have "spent n s s3"
          using k3(4,5) next1 log3 by (intro spentI [of _ _ _ 2]) simp_all
        ultimately show ?thesis
          using s0(1) s1(1) s3(1,2) \<open>key \<notin> fst ` set kvs\<close> fits old False hd(4)
          by (simp add: tree_insert_def andthen_def run_simps tree_consts)
      next
        case full: True
        have gr: "growing s3 c ?t" using s3 k3 hd(2) full by (simp add: growing_def)
        have lim: "(unat (inext s3) + length c + 2) * 4096 < 18446744073709551616"
          using room' depth k3(4) by simp
        have lroom: "log_room (0 + 3 * length c + 4) s3"
          using wal_room_mono [OF k3(6)] depth by simp
        obtain r s4 where s4: "handle_overfull txn (i # map fr_id c) s3 = (Inr r, s4)"
          "kept (3 * length c + 4) s3 s4" "unat (inext s4) \<le> unat (inext s3) + length c + 2"
          "grown (plug c ?t) r s4"
          using handle_overfull_run [OF gr lim lroom, of txn] by auto
        obtain T' where T': "holds_tree 202 s4 T'" "content (items T') = content (items (plug c ?t))"
          "tid T' = (case r of None \<Rightarrow> tid (plug c ?t) | Some j \<Rightarrow> j)" "level h T' \<or> level (Suc h) T'"
          using s4(4) sh3 unfolding grown_def by blast
        have k4: "hview s4 = hview s1" "root_id s4 = tid T" "hnext s4 = hnext s1"
          using s4(2) k3(2,3,5) by (simp_all add: kept_def)
        have log4: "log_room k s4" if "log_room (k + (3 * n + 6)) s" for k
        proof -
          have "log_room (k + (3 * length c + 4)) s3"
            using that depth by (intro log3 wal_room_mono [OF that]) simp
          then show ?thesis using s4(2) by (simp add: kept_def)
        qed
        let ?s5 = "case r of None \<Rightarrow> s4 | Some j \<Rightarrow> s4\<lparr>root_id := j\<rparr>"
        have "holds_tree 202 ?s5 T'" "root_id ?s5 = tid T'" "hview ?s5 = hview s1"
          using T'(1,3) k4 s3(9) by (cases r; simp add: holds_tree_def)+
        from rep [OF this(1,2) T'(4) this(3) T'(2)] have "tree_rep (Suc n) ?s5 (m(key \<mapsto> rs))" .
        moreover have "spent n s s4"
          using k3(4) k4(3) next1 s4(3) depth log4 by (simp add: spent_def)
        then have "spent n s ?s5" by (cases r) (simp_all add: spent_def)
        ultimately show ?thesis
          using s0(1) s1(1) s3(1,2) s4(1) \<open>key \<notin> fst ` set kvs\<close> fits old full
          by (cases r) (simp_all add: tree_insert_def andthen_def run_simps tree_consts set_root_def)
      qed
    qed
  qed
qed

end
