(* ===== verification/Tree_Session.thy ===== *)
theory Tree_Session
  imports Tree_Insert
begin

text \<open>
  Lookups, opening a tree over new files, and sessions: sequences of lookups and insertions.
\<close>

section \<open>Lookup\<close>

lemma heap_read_run:
  assumes good: "tree_good s" and r: "record_at (hview s) h rs"
  shows "\<exists>s'. on_pager (on_heap (get_record h [])) s = (Inr rs, s') \<and> t_quiet s s'"
proof -
  obtain ch where ch: "heap_chain (hview s) h ch" "distinct (map fst ch)" "chain_records ch = rs"
    using r by (auto simp: record_at_def)
  obtain st w where f: "get_record h [] (p_heap (t_pager s), p_wal (t_pager s)) = (Inr rs, (st, w))"
    "quiet 8192 (p_heap (t_pager s), p_wal (t_pager s)) (st, w)"
    using get_record_chain [OF good_heap [OF good], of h ch "[]"] ch by (auto simp: p_heap_view_def)
  have q: "store_good 8192 (st, w)" "log_same (p_wal (t_pager s)) w" "store_view 8192 st = hview s"
    "pf_next_id st = hnext s"
    using f(2) by (simp_all add: quiet_def p_heap_view_def)
  obtain s' where "on_pager (on_heap (get_record h [])) s = (Inr rs, s')" "tree_good s'"
    "root_id s' = root_id s" "iview s' = iview s" "inext s' = inext s" "hview s' = store_view 8192 st"
    "hnext s' = pf_next_id st" "\<And>m. log_room m s \<Longrightarrow> log_room m s'"
    using heap_step [where p = "get_record h []", OF f(1) good q(1,2)] by blast
  then show ?thesis using q(3,4) by (auto simp: t_quiet_def kept_def)
qed

lemma tree_get_run:
  assumes "stands_for cap n s m"
  shows "\<exists>s'. tree_get txn key s =
      ((case m key of None \<Rightarrow> Inl (Err ''Entry not found'') | Some rs \<Rightarrow> Inr rs), s') \<and> t_quiet s s'"
proof -
  obtain T where T: "holds_tree cap s T" "root_id s = tid T" "reads_as (hview s) (map_of (entries T)) m"
    using assms by (auto simp: stands_for_def)
  obtain c i kvs where d: "descend key [] T = (c, i, kvs)" by (cases "descend key [] T") simp
  have rel: "rel_option (record_at (hview s)) (map_of kvs key) (m key)"
    using T(3) holds_tree_descend(6) [OF T(1) d] unfolding reads_as_def by metis
  obtain s1 where s1: "iterate (unat (inext s) + 1) (follow t_fetch (\<lambda>x. x) (get_step key)) (root_id s) s =
      ((case map_of kvs key of None \<Rightarrow> Inl (Err ''Entry not found'') | Some h \<Rightarrow> Inr h), s1)" "t_quiet s s1"
    using descent_run(1) [OF T(1,2) d] by blast
  show ?thesis
  proof (cases "map_of kvs key")
    case None
    then have "m key = None" using rel by (cases "m key") simp_all
    then show ?thesis
      using s1 None by (intro exI [of _ s1]) (simp add: tree_get_def andthen_def run_simps)
  next
    case (Some h)
    then obtain rs where rs: "m key = Some rs" "record_at (hview s) h rs" using rel by (cases "m key") simp_all
    have "tree_good s1" "record_at (hview s1) h rs" using s1(2) rs(2) by (simp_all add: t_quiet_def kept_def)
    then obtain s2 where s2: "on_pager (on_heap (get_record h [])) s1 = (Inr rs, s2)" "t_quiet s1 s2"
      using heap_read_run by blast
    then show ?thesis
      using s1 Some rs(1) t_quiet_trans [OF s1(2) s2(2)]
      by (intro exI [of _ s2]) (simp add: tree_get_def andthen_def run_simps)
  qed
qed


section \<open>A new tree\<close>

lemma on_pager_andthen: "on_pager (andthen a f) = andthen (on_pager a) (\<lambda>x. on_pager (f x))"
  by (auto simp: fun_eq_iff on_pager_def andthen_def split: prod.splits sum.splits)

lemma on_pager_ok: "on_pager (ok x) = ok x"
  by (simp add: fun_eq_iff on_pager_def run_simps)

definition root_page_body :: "(bytes, bytes) m" where
  "root_page_body = andthen (reads page_header) (\<lambda>hdr.
     andthen (index_serialize (set_root_leaf hdr)) (\<lambda>_. gets (\<lambda>page. page)))"

lemma root_page_run:
  assumes "page_rep p (empty_node i Root 0)"
  shows "\<exists>p' nd. root_page_body p = (Inr p', p') \<and> page_rep p' nd \<and> node_leaf nd \<and> n_cells nd = [] \<and>
    n_ty nd = Root"
proof -
  let ?nd = "(empty_node i Root 0)\<lparr>n_flags := 1\<rparr>"
  have h: "set_root_leaf (hdr_of (empty_node i Root 0)) = hdr_of ?nd"
    by (simp add: set_root_leaf_def hdr_of_def empty_node_def)
  obtain p' where p': "index_serialize (hdr_of ?nd) p = (Inr (), p')" "page_rep p' ?nd"
    using serialize_header_rep [OF assms, of ?nd "hdr_of ?nd"] by auto
  have "root_page_body p = (Inr p', p')"
    using page_header_rep [OF assms] p'(1) by (simp add: root_page_body_def andthen_def run_simps h)
  moreover have "node_leaf ?nd" by (simp add: node_leaf_def empty_node_def)
  moreover have "n_cells ?nd = []" "n_ty ?nd = Root" by (simp_all add: empty_node_def)
  ultimately show ?thesis using p'(2) by blast
qed

lemma make_root_run:
  assumes good: "tree_good s" and zero: "inext s = 0" and room: "log_room (Suc n) s"
  shows "\<exists>s'. on_pager make_root s = (Inr 0, s') \<and> kept 1 s s' \<and> unat (inext s') = 1 \<and>
    holds_tree 202 s' (Tip 0 [])"
proof -
  obtain s1 p where s1: "t_allocate Root s = (Inr 0, s1)" "kept 0 s s1" "iview s1 = (iview s)(0 \<mapsto> p)"
    "page_rep p (empty_node 0 Root 0)" "unat (inext s1) = 1"
    using t_allocate_run [OF good, of Root] zero by auto
  obtain p' nd where p': "root_page_body p = (Inr p', p')" "page_rep p' nd" "node_leaf nd" "n_cells nd = []"
    "n_ty nd = Root"
    using root_page_run [OF s1(4)] by blast
  have g1: "tree_good s1" "iview s1 0 = Some p" using s1(2,3) by (simp_all add: kept_def)
  obtain s2 where s2: "t_with_page 0 root_page_body s1 = (Inr p', s2)" "kept 0 s1 s2"
    "iview s2 = (iview s1)(0 \<mapsto> p')" "inext s2 = inext s1"
    using t_with_page_run [where body = root_page_body, OF g1 p'(1) page_rep_length [OF p'(2)]] by blast
  have k2: "kept 0 s s2" using kept_trans [OF s1(2) s2(2)] by simp
  have g2: "tree_good s2" "log_room (Suc n) s2" using k2 room by (simp_all add: kept_def)
  obtain s3 where s3: "t_log_diff 0 0 (replicate 4096 0) p' s2 = (Inr (), s3)" "kept 1 s2 s3"
    "iview s3 = iview s2" "inext s3 = inext s2"
    using t_log_diff_run [OF g2, of "replicate 4096 0" p'] page_rep_length [OF p'(2)] by auto
  have "on_pager make_root = andthen (t_allocate Root) (\<lambda>i. andthen (t_with_page i root_page_body) (\<lambda>new_data.
      andthen (t_log_diff 0 i (replicate 4096 0) new_data) (\<lambda>_. ok i)))"
    by (simp add: make_root_def on_pager_andthen on_pager_ok t_allocate_def t_with_page_def t_log_diff_def
        root_page_body_def andthen_assoc)
  then have "on_pager make_root s = (Inr 0, s3)"
    using s1(1) s2(1) s3(1) by (simp add: andthen_def run_simps)
  moreover have "at_leaf (iview s3) 0 []"
    using at_leafI [of "iview s3" 0, OF _ p'(2,3)] p'(4) by (simp add: s3(3) s2(3))
  moreover have "kinds (iview s3) (Tip 0 [])"
    using kind_of_rep [of "iview s3" 0, OF _ p'(2)] p'(5) by (simp add: kinds_def s3(3) s2(3))
  moreover have "kept 1 s s3" using kept_trans [OF k2 s3(2)] by simp
  ultimately show ?thesis
    using s1(5) s2(4) s3(2,4) by (intro exI [of _ s3]) (simp add: holds_tree_def kept_def)
qed

text \<open>A tree over three new files is the empty map.\<close>

lemma tree_new_run:
  "\<exists>s. tree_new_with_wal [] [] [] = Inr s \<and> tree_rep 0 s Map.empty \<and> unat (inext s) = 1 \<and>
     hnext s = 0 \<and> (\<forall>k \<le> 10000000000000. log_room k s)"
proof -
  obtain w where w: "wal_new [] = Inr w" "wal_rep (inner w) [] []" "next_lsn (wal_hdr (inner w)) = 1"
    using wal_new_fresh by blast
  let ?p = "\<lparr>p_index = index_open [] 10000, p_heap = heap_open [] 10000, p_wal = w\<rparr>"
  have ix: "store_ok 4096 (index_open [] 10000)" "unat (pf_next_id (index_open [] 10000)) = 0"
    using store_new_ok(1,3) [of "[]" 0 4096 10000] by (simp_all add: index_open_def)
  have hp: "store_ok 8192 (heap_open [] 10000)" "unat (pf_next_id (heap_open [] 10000)) = 0"
    using store_new_ok(1,3) [of "[]" 0 8192 10000] by (simp_all add: heap_open_def)
  have zero: "pf_next_id (index_open [] 10000) = 0" "pf_next_id (heap_open [] 10000) = 0"
    using ix(2) hp(2) by (simp_all add: word_unat_eq_iff)
  let ?s = "\<lparr>root_id = 0, t_pager = ?p\<rparr>"
  have "wal_holds w []" using w(2) unfolding wal_holds_def by auto
  then have good: "tree_good ?s" using ix(1) hp(1) by (auto simp: pager_good_def store_good_def)
  have room: "log_room k ?s" if "k \<le> 10000000000001" for k
    using w(2,3) that by (simp add: wal_room_def wal_rep_def points_at_def last_off_def last_len_def)
  obtain s' where s': "on_pager make_root ?s = (Inr 0, s')" "kept 1 ?s s'" "unat (inext s') = 1"
    "holds_tree 202 s' (Tip 0 [])"
    using make_root_run [OF good _ room, of 0] zero(1) by auto
  obtain p' where p': "make_root ?p = (Inr 0, p')" "s' = \<lparr>root_id = 0, t_pager = p'\<rparr>"
    using s'(1) by (cases "make_root ?p") (auto simp: on_pager_def)
  have "tree_new_with_wal [] [] [] = Inr s'"
    using w(1) p' zero(1)
    by (simp add: tree_new_with_wal_def pager_new_with_wal_def tree_open_def try_r_def
        INDEX_POOL_CAPACITY_def HEAP_POOL_CAPACITY_def)
  moreover have "tree_rep 0 s' Map.empty"
    using s'(4) p'(2) by (auto simp: stands_for_def reads_as_def intro!: exI [of _ "Tip 0 []"])
  moreover have "hnext s' = 0" using s'(2) zero(2) by (simp add: kept_def)
  moreover have "log_room k s'" if "k \<le> 10000000000000" for k
    using s'(2) room [of "k + 1"] that by (simp add: kept_def)
  ultimately show ?thesis using s'(3) by blast
qed


section \<open>Transactions\<close>

text \<open>Beginning and ending a transaction only writes to the log.\<close>

lemma txn_step:
  assumes good: "tree_good s" and room: "log_room (Suc n) s"
    and run: "\<And>rs. wal_holds (p_wal (t_pager s)) rs \<Longrightarrow>
      \<exists>w' r l. with_inner q (p_wal (t_pager s)) = (Inr l, w') \<and> log_grows [r] (p_wal (t_pager s)) w' \<and>
        wal_holds w' (rs @ [r])"
  shows "\<exists>l s'. on_pager (on_log q) s = (Inr l, s') \<and> kept 1 s s' \<and> iview s' = iview s \<and> inext s' = inext s"
proof -
  obtain rs where "wal_holds (p_wal (t_pager s)) rs" using wal_holds_good [OF good] by blast
  from run [OF this] obtain w' r l where w': "with_inner q (p_wal (t_pager s)) = (Inr l, w')"
    "log_grows [r] (p_wal (t_pager s)) w'" "wal_holds w' (rs @ [r])" by blast
  let ?s' = "s\<lparr>t_pager := (t_pager s)\<lparr>p_wal := w'\<rparr>\<rparr>"
  have "on_pager (on_log q) s = (Inr l, ?s')"
    using on_log_run [OF w'(1)] by (simp add: on_pager_def)
  moreover have "pager_good (t_pager ?s')" using pager_good_wal [OF good w'(3)] by simp
  moreover have "wal_room m w'" if "log_room (m + 1) s" for m
    using log_grows_room [OF w'(2)] that by simp
  ultimately show ?thesis
    by (intro exI [of _ l] exI [of _ ?s']) (simp add: kept_def p_index_view_def p_heap_view_def)
qed

lemma txn_runs:
  assumes "tree_good s" and room: "log_room (Suc n) s"
  shows "\<exists>l s'. tree_begin t s = (Inr l, s') \<and> kept 1 s s' \<and> iview s' = iview s \<and> inext s' = inext s"
    and "\<exists>l s'. tree_commit t s = (Inr l, s') \<and> kept 1 s s' \<and> iview s' = iview s \<and> inext s' = inext s"
    and "\<exists>l s'. tree_abort t s = (Inr l, s') \<and> kept 1 s s' \<and> iview s' = iview s \<and> inext s' = inext s"
  unfolding tree_begin_def tree_commit_def tree_abort_def
  using begin_grows [OF _ room, of _ t] commit_grows [OF _ room, of _ t] abort_grows [OF _ room, of _ t]
  by (intro txn_step [OF assms]; blast)+


section \<open>Sessions\<close>

text \<open>
  A client of the tree: lookups, insertions and the ends of transactions, one after the other. An
  operation returns records, an error, or nothing, which is \<open>[]\<close>.
\<close>

datatype tree_op = Look u64 | Put u64 "bytes list" | Start_txn | Commit_txn | Abort_txn

fun perform :: "u64 \<Rightarrow> tree_op \<Rightarrow> (bplus_tree, bytes list) m" where
  "perform txn (Look key) = tree_get txn key"
| "perform txn (Put key rs) = andthen (tree_insert txn key rs) (\<lambda>_. ok [])"
| "perform txn Start_txn = andthen (tree_begin txn) (\<lambda>_. ok [])"
| "perform txn Commit_txn = andthen (tree_commit txn) (\<lambda>_. ok [])"
| "perform txn Abort_txn = andthen (tree_abort txn) (\<lambda>_. ok [])"

text \<open>The same on the map.\<close>

fun answer :: "tree_op \<Rightarrow> (u64 \<Rightarrow> bytes list option) \<Rightarrow> (error + bytes list) \<times> (u64 \<Rightarrow> bytes list option)" where
  "answer (Look key) m =
     ((case m key of None \<Rightarrow> Inl (Err ''Entry not found'') | Some rs \<Rightarrow> Inr rs), m)"
| "answer (Put key rs) m =
     (if m key \<noteq> None then (Inl (Err ''Key already exists''), m)
      else if \<not> heap_fits rs then (Inl (Err ''Heap page overflow!''), m)
      else (Inr [], m(key \<mapsto> rs)))"
| "answer Start_txn m = (Inr [], m)"
| "answer Commit_txn m = (Inr [], m)"
| "answer Abort_txn m = (Inr [], m)"

fun answers :: "tree_op list \<Rightarrow> (u64 \<Rightarrow> bytes list option) \<Rightarrow>
    (error + bytes list) list \<times> (u64 \<Rightarrow> bytes list option)" where
  "answers [] m = ([], m)"
| "answers (a # ops) m =
     (let (r, m') = answer a m; (rs, m'') = answers ops m' in (r # rs, m''))"

text \<open>The states a client can reach from new files, with what it was answered on the way.\<close>

inductive session :: "bplus_tree \<Rightarrow> (tree_op \<times> (error + bytes list)) list \<Rightarrow> bool" where
  opened: "tree_new_with_wal [] [] [] = Inr s \<Longrightarrow> session s []"
| performed: "session s tr \<Longrightarrow> perform txn a s = (r, s') \<Longrightarrow> session s' (tr @ [(a, r)])"

lemma perform_run:
  assumes rep: "tree_rep n s m" and room: "tree_room n s" and run: "perform txn a s = (r, s')"
  shows "r = fst (answer a m) \<and> tree_rep (Suc n) s' (snd (answer a m)) \<and> spent n s s'"
proof -
  have good: "tree_good s" using rep by (auto simp: stands_for_def holds_tree_def)
  have txn: "tree_rep (Suc n) s1 m \<and> spent n s s1"
    if k: "kept 1 s s1" "iview s1 = iview s" "inext s1 = inext s" for s1
  proof -
    have "tree_rep n s1 m" using rep k by (auto simp: stands_for_def holds_tree_def kept_def)
    moreover have "spent n s s1" using k by (intro spentI [of _ _ _ 1]) (simp_all add: kept_def)
    ultimately show ?thesis using stands_for_mono [of 202 n s1 m "Suc n"] by simp
  qed
  have lroom: "log_room (Suc (3 * n + 5)) s" using room by (simp add: tree_room_def add.commute)
  note txns = txn_runs [OF good lroom, of txn]
  show ?thesis
  proof (cases a)
    case (Look key)
    obtain s1 where "tree_get txn key s =
        ((case m key of None \<Rightarrow> Inl (Err ''Entry not found'') | Some rs \<Rightarrow> Inr rs), s1)" "t_quiet s s1"
      using tree_get_run [OF rep] by blast
    then show ?thesis
      using run Look txn [of s1] kept_mono [of 0 s s1 1] by (auto simp: t_quiet_def)
  next
    case (Put key rs)
    then show ?thesis
      using run tree_insert_run [OF rep room, of txn key rs] by (auto simp: andthen_def run_simps split: if_splits)
  next
    case Start_txn
    then show ?thesis using run txns(1) txn by (auto simp: andthen_def run_simps)
  next
    case Commit_txn
    then show ?thesis using run txns(2) txn by (auto simp: andthen_def run_simps)
  next
    case Abort_txn
    then show ?thesis using run txns(3) txn by (auto simp: andthen_def run_simps)
  qed
qed

lemma answers_snoc:
  "answers (ops @ [a]) m = (let (rs, m') = answers ops m; (r, m'') = answer a m' in (rs @ [r], m''))"
  by (induction ops arbitrary: m) (auto split: prod.splits)

text \<open>What a session has used up after \<open>n\<close> operations.\<close>

definition within :: "nat \<Rightarrow> bplus_tree \<Rightarrow> bool" where
  "within n s \<longleftrightarrow> unat (inext s) \<le> 1 + n * (n + 2) \<and> unat (hnext s) \<le> n \<and>
     (\<forall>k. k + n * (3 * n + 6) \<le> 10000000000000 \<longrightarrow> log_room k s)"

lemma within_room:
  assumes "within n s" and "n \<le> 1000000"
  shows "tree_room n s"
proof -
  have "n * (n + 2) \<le> 1000000 * 1000002" using assms(2) by (intro mult_le_mono) simp_all
  moreover have "n * (3 * n + 6) \<le> 1000000 * 3000006" using assms(2) by (intro mult_le_mono) simp_all
  ultimately show ?thesis using assms by (simp add: within_def tree_room_def)
qed

lemma within_Suc:
  assumes "within n s" and "spent n s s'"
  shows "within (Suc n) s'"
proof -
  have "log_room k s'" if "k + Suc n * (3 * Suc n + 6) \<le> 10000000000000" for k
  proof -
    have "k + (3 * n + 6) + n * (3 * n + 6) \<le> 10000000000000"
      using that by (simp add: algebra_simps)
    then show ?thesis using assms by (simp add: within_def spent_def)
  qed
  moreover have "unat (inext s') \<le> 1 + Suc n * (Suc n + 2)" "unat (hnext s') \<le> Suc n"
    using assms by (simp_all add: within_def spent_def)
  ultimately show ?thesis by (simp add: within_def)
qed

lemma session_inv:
  assumes "session s tr" and "length tr \<le> 1000000"
  shows "map snd tr = fst (answers (map fst tr) Map.empty) \<and>
    tree_rep (length tr) s (snd (answers (map fst tr) Map.empty)) \<and> within (length tr) s"
  using assms
proof (induction rule: session.induct)
  case (opened s)
  then show ?case using tree_new_run by (auto simp: within_def)
next
  case (performed s tr txn a r s')
  then have IH: "map snd tr = fst (answers (map fst tr) Map.empty)"
    "tree_rep (length tr) s (snd (answers (map fst tr) Map.empty))" "within (length tr) s"
    and len: "length tr \<le> 1000000" by simp_all
  note step = perform_run [OF IH(2) within_room [OF IH(3) len] performed.hyps(2)]
  obtain rs m where m: "answers (map fst tr) Map.empty = (rs, m)"
    by (cases "answers (map fst tr) Map.empty")
  obtain r' m' where a: "answer a m = (r', m')" by (cases "answer a m")
  show ?case
    using IH(1) step within_Suc [OF IH(3)] m a by (simp add: answers_snoc)
qed

end
