(* ===== verification/Tree_Properties.thy ===== *)
theory Tree_Properties
  imports Tree_Session
begin

text \<open>
  The properties of the B+ tree: what an insertion and a lookup do, and that a tree over new files
  answers every client like a map.
\<close>

section \<open>Insertion\<close>

text \<open>C2: \<open>BplusTree::insert\<close> on a tree for the map \<open>m\<close> all of whose pages have a free cell (\<open>tree_rep\<close>: at most
202 of the 203 cells are taken, as in every tree that only grew), with room for the files and the log
to grow (\<open>tree_room\<close>): a key of \<open>m\<close> is refused, records that
do not fit into a heap page are refused, and otherwise the tree then stands for \<open>m\<close> with the records at
the key, through all page splits up to a new root; in every case the pages hold a search tree again,
each with a free cell, and no call of the operation panics or fails to end. Trees with a page of 203
cells, which a merge of two leaves can leave behind, are not covered: there an insertion into the
full leaf fails.\<close>

theorem tree_insert_updates:
  assumes "tree_rep n s m" and "tree_room n s"
  shows "\<exists>s'. tree_insert txn key rs s =
      ((if key \<in> dom m then Inl (Err ''Key already exists'')
        else if 8192 < 21 + 4 * length rs + length (concat rs) then Inl (Err ''Heap page overflow!'')
        else Inr ()), s') \<and>
    tree_rep (Suc n) s'
      (if key \<in> dom m \<or> 8192 < 21 + 4 * length rs + length (concat rs) then m else m(key \<mapsto> rs))"
proof -
  have f: "heap_fits rs \<longleftrightarrow> \<not> 8192 < 21 + 4 * length rs + length (concat rs)"
    by (simp add: heap_fits_def not_less)
  show ?thesis
    using tree_insert_run [OF assms, of txn key rs] unfolding f not_not domIff by blast
qed

lemma new_tree_room: "\<exists>s. tree_new_with_wal [] [] [] = Inr s \<and> tree_rep 0 s Map.empty \<and> tree_room 0 s"
proof -
  obtain s where s: "tree_new_with_wal [] [] [] = Inr s" "tree_rep 0 s Map.empty" "unat (inext s) = 1"
    "hnext s = 0" "\<forall>k \<le> 10000000000000. log_room k s"
    using tree_new_run by blast
  then have "tree_room 0 s" by (simp add: tree_room_def)
  then show ?thesis using s by blast
qed

lemma tree_insert_updates_witness:
  "\<exists>s s'. tree_new_with_wal [] [] [] = Inr s \<and> tree_rep 0 s Map.empty \<and> tree_room 0 s \<and>
    tree_insert 1 5 [[7, 8]] s = (Inr (), s') \<and> tree_rep 1 s' [5 \<mapsto> [[7, 8]]]"
proof -
  obtain s where s: "tree_new_with_wal [] [] [] = Inr s" "tree_rep 0 s Map.empty" "tree_room 0 s"
    using new_tree_room by blast
  then show ?thesis using tree_insert_updates [OF s(2,3), of 1 5 "[[7, 8]]"] by auto
qed


section \<open>Lookup\<close>

text \<open>C7: \<open>BplusTree::get\<close> on a tree that stands for the map \<open>m\<close> returns the records \<open>m\<close> has at the
key, or the error \<open>Entry not found\<close>; the descent ends, whatever the cache evicts on the way no page
a client sees changes, and the tree stands for \<open>m\<close> afterwards.\<close>

theorem tree_get_reads:
  assumes "stands_for cap n s m"
  shows "\<exists>s'. tree_get txn key s =
      ((case m key of None \<Rightarrow> Inl (Err ''Entry not found'') | Some rs \<Rightarrow> Inr rs), s') \<and>
    stands_for cap n s' m \<and> p_index_view (t_pager s') = p_index_view (t_pager s) \<and>
    p_heap_view (t_pager s') = p_heap_view (t_pager s)"
proof -
  obtain s' where s': "tree_get txn key s =
      ((case m key of None \<Rightarrow> Inl (Err ''Entry not found'') | Some rs \<Rightarrow> Inr rs), s')" "t_quiet s s'"
    using tree_get_run [OF assms] by blast
  then show ?thesis
    using stands_for_quiet [OF assms s'(2)] by (intro exI [of _ s']) (simp add: t_quiet_def kept_def)
qed

lemma tree_get_reads_witness:
  "\<exists>s s' s''. tree_rep 1 s [5 \<mapsto> [[7, 8]]] \<and> tree_get 1 5 s = (Inr [[7, 8]], s') \<and>
    tree_get 1 6 s = (Inl (Err ''Entry not found''), s'')"
proof -
  obtain s0 where s0: "tree_rep 0 s0 Map.empty" "tree_room 0 s0" using new_tree_room by blast
  obtain s where s: "tree_rep 1 s [5 \<mapsto> [[7, 8]]]"
    using tree_insert_run [OF s0, of 1 5 "[[7, 8]]"] by (auto simp: heap_fits_def)
  show ?thesis using s tree_get_reads [OF s, of 1 5] tree_get_reads [OF s, of 1 6] by auto
qed


section \<open>Sessions\<close>

text \<open>C1: A tree opened over new files answers every sequence of up to a million lookups, insertions
and transaction steps exactly as a map does that starts empty, and after each of them its pages are
a search tree for that map, in which every page has a cell to spare.\<close>

theorem session_refines_map:
  assumes "session s tr" and "length tr \<le> 1000000"
  shows "map snd tr = fst (answers (map fst tr) Map.empty) \<and>
    tree_rep (length tr) s (snd (answers (map fst tr) Map.empty))"
  using session_inv [OF assms] by simp

lemma session_exists: "\<exists>s tr. session s tr \<and> map fst tr = ops"
proof (induction ops rule: rev_induct)
  case Nil
  then show ?case using tree_new_run session.opened by blast
next
  case (snoc a ops)
  then obtain s tr where "session s tr" "map fst tr = ops" by blast
  then show ?case
    using session.performed [of s tr 1 a] by (cases "perform 1 a s") fastforce
qed

lemma session_refines_map_witness:
  "\<exists>s tr. session s tr \<and> tr = [(Start_txn, Inr []), (Put 5 [[7, 8]], Inr []), (Look 5, Inr [[7, 8]]),
     (Put 5 [[9]], Inl (Err ''Key already exists'')), (Look 6, Inl (Err ''Entry not found''))]"
proof -
  let ?ops = "[Start_txn, Put 5 [[7, 8]], Look 5, Put 5 [[9]], Look 6]"
  obtain s tr where tr: "session s tr" "map fst tr = ?ops" using session_exists by blast
  have "length tr = 5" using arg_cong [OF tr(2), of length] by simp
  then have "map snd tr = fst (answers ?ops Map.empty)"
    using session_refines_map [OF tr(1)] tr(2) by simp
  then have "map snd tr = [Inr [], Inr [], Inr [[7, 8]], Inl (Err ''Key already exists''),
      Inl (Err ''Entry not found'')]"
    by (simp add: heap_fits_def)
  then have "zip (map fst tr) (map snd tr) = [(Start_txn, Inr []), (Put 5 [[7, 8]], Inr []), (Look 5, Inr [[7, 8]]),
     (Put 5 [[9]], Inl (Err ''Key already exists'')), (Look 6, Inl (Err ''Entry not found''))]"
    using tr(2) by simp
  then show ?thesis using tr(1) by (auto simp: zip_map_fst_snd)
qed

end
