(* ===== verification/Tree_Edit.thy ===== *)
theory Tree_Edit
  imports Tree_State
begin

text \<open>
  Rules for programs that read and change several pages of the tree: \<open>edited n s0 s v\<close> says that \<open>s\<close>,
  reached from \<open>s0\<close> with at most \<open>n\<close> log records, shows the pages \<open>v\<close>; every call has a rule from one
  such state to the next. And what the calls do to the bytes of one page, up to the page's id and
  flags.
\<close>

section \<open>Sequences of page edits\<close>

definition edited :: "nat \<Rightarrow> bplus_tree \<Rightarrow> bplus_tree \<Rightarrow> (u64 \<Rightarrow> bytes option) \<Rightarrow> bool" where
  "edited n s0 s v \<longleftrightarrow> kept n s0 s \<and> inext s = inext s0 \<and> iview s = v"

lemma edited_start: "tree_good s \<Longrightarrow> edited 0 s s (iview s)"
  by (simp add: edited_def kept_refl)

lemma edited_root: "edited n s0 s v \<Longrightarrow> root_id s = root_id s0"
  by (simp add: edited_def kept_def)

lemma fetch_edit:
  assumes e: "edited n s0 s v" and v: "v i = Some p"
  shows "\<exists>s'. t_fetch i s = (Inr p, s') \<and> edited n s0 s' v"
proof -
  have good: "tree_good s" "iview s i = Some p" using e v by (simp_all add: edited_def kept_def)
  obtain s' where s': "t_fetch i s = (Inr p, s')" "t_quiet s s'"
    using tree_reader.fetch_page [OF good] by blast
  then have "kept n s0 s'" using kept_trans [of n s0 s 0 s'] e by (simp add: edited_def t_quiet_def)
  then show ?thesis using s' e by (auto simp: edited_def t_quiet_def)
qed

lemma with_page_edit:
  assumes e: "edited n s0 s v" and v: "v i = Some p" and body: "body p = (r, p')" "length p' = 4096"
  shows "\<exists>s'. t_with_page i body s = (r, s') \<and> edited n s0 s' (v(i \<mapsto> p'))"
proof -
  have good: "tree_good s" "iview s i = Some p" using e v by (simp_all add: edited_def kept_def)
  obtain s' where s': "t_with_page i body s = (r, s')" "kept 0 s s'" "iview s' = (iview s)(i \<mapsto> p')"
    "inext s' = inext s"
    using t_with_page_run [where body = body, OF good body] by blast
  then show ?thesis
    using kept_trans [of n s0 s 0 s'] e by (intro exI [of _ s']) (simp add: edited_def)
qed

lemma log_edit:
  assumes e: "edited n s0 s v" and room: "log_room (Suc n) s0"
    and len: "length old = 4096" "length new = 4096"
  shows "\<exists>s'. t_log_diff txn i old new s = (Inr (), s') \<and> edited (Suc n) s0 s' v"
proof -
  have good: "tree_good s" "log_room (Suc 0) s"
    using e room kept_room [of n s0 s "Suc n"] by (simp_all add: edited_def kept_def)
  obtain s' where s': "t_log_diff txn i old new s = (Inr (), s')" "kept 1 s s'" "iview s' = iview s"
    "inext s' = inext s"
    using t_log_diff_run [OF good len] by blast
  then show ?thesis
    using kept_trans [of n s0 s 1 s'] e by (intro exI [of _ s']) (simp add: edited_def)
qed

lemma rewrite_edit:
  assumes e: "edited n s0 s v" and room: "log_room (Suc n) s0" and v: "v i = Some p" "length p = 4096"
    and body: "body p = (Inr r, p')" "length p' = 4096"
  shows "\<exists>s'. rewrite_page txn i body s = (Inr r, s') \<and> edited (Suc n) s0 s' (v(i \<mapsto> p'))"
    and "\<exists>s'. rewrite_page_refetch txn i body s = (Inr r, s') \<and> edited (Suc n) s0 s' (v(i \<mapsto> p'))"
proof -
  obtain s1 where s1: "t_fetch i s = (Inr p, s1)" "edited n s0 s1 v" using fetch_edit [OF e v(1)] by blast
  let ?body = "andthen body (\<lambda>r. gets (\<lambda>page. (r, page)))"
  have b: "?body p = (Inr (r, p'), p')" using body(1) by (simp add: andthen_def run_simps)
  obtain s2 where s2: "t_with_page i ?body s1 = (Inr (r, p'), s2)" "edited n s0 s2 (v(i \<mapsto> p'))"
    using with_page_edit [where body = ?body, OF s1(2) v(1) b body(2)] by blast
  obtain s3 where "t_log_diff txn i p p' s2 = (Inr (), s3)" "edited (Suc n) s0 s3 (v(i \<mapsto> p'))"
    using log_edit [OF s2(2) room v(2) body(2)] by blast
  then show "\<exists>s'. rewrite_page txn i body s = (Inr r, s') \<and> edited (Suc n) s0 s' (v(i \<mapsto> p'))"
    using s1(1) s2(1) by (intro exI [of _ s3]) (simp add: rewrite_page_def andthen_def run_simps)
  obtain t2 where t2: "t_with_page i body s1 = (Inr r, t2)" "edited n s0 t2 (v(i \<mapsto> p'))"
    using with_page_edit [where body = body, OF s1(2) v(1) body] by blast
  obtain t3 where t3: "t_fetch i t2 = (Inr p', t3)" "edited n s0 t3 (v(i \<mapsto> p'))"
    using fetch_edit [OF t2(2), of i p'] by auto
  obtain t4 where "t_log_diff txn i p p' t3 = (Inr (), t4)" "edited (Suc n) s0 t4 (v(i \<mapsto> p'))"
    using log_edit [OF t3(2) room v(2) body(2)] by blast
  then show "\<exists>s'. rewrite_page_refetch txn i body s = (Inr r, s') \<and> edited (Suc n) s0 s' (v(i \<mapsto> p'))"
    using s1(1) t2(1) t3(1) by (intro exI [of _ t4]) (simp add: rewrite_page_refetch_def andthen_def run_simps)
qed

text \<open>An edit that fails leaves the page as its body left it, and logs nothing.\<close>

lemma rewrite_fails:
  assumes e: "edited n s0 s v" and v: "v i = Some p" and body: "body p = (Inl x, p')" "length p' = 4096"
  shows "\<exists>s'. rewrite_page_refetch txn i body s = (Inl x, s') \<and> edited n s0 s' (v(i \<mapsto> p'))"
proof -
  obtain s1 where s1: "t_fetch i s = (Inr p, s1)" "edited n s0 s1 v" using fetch_edit [OF e v(1)] by blast
  obtain s2 where "t_with_page i body s1 = (Inl x, s2)" "edited n s0 s2 (v(i \<mapsto> p'))"
    using with_page_edit [where body = body, OF s1(2) v(1) body] by blast
  then show ?thesis using s1(1) by (intro exI [of _ s2]) (simp add: rewrite_page_refetch_def andthen_def)
qed


section \<open>Edits of one page\<close>

text \<open>A page of a kind, on leaf level or not, with the given cells and pointer.\<close>

definition page_with :: "page_kind \<Rightarrow> bool \<Rightarrow> (u64 \<times> u64) list \<Rightarrow> u64 \<Rightarrow> bytes \<Rightarrow> bool" where
  "page_with ty leaf kvs ptr p \<longleftrightarrow> (\<exists>nd. page_rep p nd \<and> n_ty nd = ty \<and> node_leaf nd = leaf \<and>
     n_cells nd = kvs \<and> n_ptr nd = ptr)"

text \<open>The root-leaf flag is off, as it is on every page rebuilt as a leaf or an internal page.\<close>

definition kind_clear :: "bytes \<Rightarrow> bool" where
  "kind_clear p \<longleftrightarrow> (\<exists>nd. page_rep p nd \<and> n_flags nd = 0)"

lemma page_with_rep: "page_rep p nd \<Longrightarrow> page_with (n_ty nd) (node_leaf nd) (n_cells nd) (n_ptr nd) p"
  by (auto simp: page_with_def)

lemma page_with_length [simp]: "page_with ty leaf kvs ptr p \<Longrightarrow> length p = 4096"
  by (auto simp: page_with_def page_rep_length)

lemma page_with_bound: "page_with ty leaf kvs ptr p \<Longrightarrow> length kvs \<le> 203"
  by (auto simp: page_with_def page_rep_bound)

lemma page_with_sorted: "page_with ty leaf kvs ptr p \<Longrightarrow> sorted_wrt (<) (map fst kvs)"
  by (auto simp: page_with_def page_rep_sorted)

lemma page_with_read:
  assumes "page_with ty leaf kvs ptr p"
  shows "\<exists>h. page_header p = Inr h \<and> ih_page_ty h = ty \<and> is_leaf_level h = leaf \<and> ih_ptr h = ptr"
    and "get_cells p = Inr (map (cell_of leaf) kvs)" and "num_cells p = Inr (length kvs)"
proof -
  obtain nd where nd: "page_rep p nd" "n_ty nd = ty" "node_leaf nd = leaf" "n_cells nd = kvs" "n_ptr nd = ptr"
    using assms by (auto simp: page_with_def)
  show "\<exists>h. page_header p = Inr h \<and> ih_page_ty h = ty \<and> is_leaf_level h = leaf \<and> ih_ptr h = ptr"
    using page_header_rep [OF nd(1)] nd(2-5) by (intro exI [of _ "hdr_of nd"]) simp
  show "get_cells p = Inr (map (cell_of leaf) kvs)" using get_cells_rep [OF nd(1)] nd(3,4) by simp
  show "num_cells p = Inr (length kvs)" using num_cells_rep [OF nd(1)] nd(4) by simp
qed

lemma page_with_kind: "v i = Some p \<Longrightarrow> page_with ty leaf kvs ptr p \<Longrightarrow> kind_of v i = Some ty"
  by (auto simp: page_with_def kind_of_rep)

lemma remove_edit:
  assumes p: "page_with ty leaf kvs ptr p" and idx: "idx < length kvs"
  shows "\<exists>p'. remove_cell_at idx p = (Inr (cell_of leaf (kvs ! idx)), p') \<and>
    page_with ty leaf (take idx kvs @ drop (Suc idx) kvs) ptr p'"
proof -
  obtain nd where nd: "page_rep p nd" "n_ty nd = ty" "node_leaf nd = leaf" "n_cells nd = kvs" "n_ptr nd = ptr"
    using p by (auto simp: page_with_def)
  let ?nd = "rebuilt_node leaf ty (n_id nd) ptr (take idx kvs @ drop (Suc idx) kvs)"
  obtain p' where "remove_cell_at idx p = (Inr (cell_of leaf (kvs ! idx)), p')" "page_rep p' ?nd"
    using remove_cell_at_refines(1) [OF nd(1), of idx] idx nd(2-5) by auto
  moreover have "node_leaf ?nd = leaf"
    using nd(2,3) by (auto simp: node_leaf_def rebuilt_node_def)
  ultimately show ?thesis
    unfolding page_with_def by (intro exI [of _ p'] conjI exI [of _ ?nd]) (simp_all add: rebuilt_node_def)
qed

lemma add_edit:
  assumes p: "page_with ty leaf kvs ptr p" and len: "length kvs < 203" and new: "k \<notin> fst ` set kvs"
  shows "\<exists>p'. add_cell k v p = (Inr (Suc (length kvs)), p') \<and>
    page_with ty leaf (insert_cell k v kvs) ptr p'"
proof -
  obtain nd where nd: "page_rep p nd" "n_ty nd = ty" "node_leaf nd = leaf" "n_cells nd = kvs" "n_ptr nd = ptr"
    using p by (auto simp: page_with_def)
  obtain p' where "add_cell k v p = (Inr (Suc (length kvs)), p')"
    "page_rep p' (nd\<lparr>n_cells := insert_cell k v kvs\<rparr>)"
    using add_cell_refines [OF nd(1), of k v] len new nd(4) by auto
  then show ?thesis
    unfolding page_with_def using nd(2-5)
    by (intro exI [of _ p'] conjI exI [of _ "nd\<lparr>n_cells := insert_cell k v kvs\<rparr>"])
      (simp_all add: node_leaf_def)
qed

lemma set_ptr_edit:
  assumes p: "page_with ty leaf kvs ptr p"
  shows "\<exists>p'. set_header_ptr c p = (Inr (), p') \<and> page_with ty leaf kvs c p'"
proof -
  obtain nd where nd: "page_rep p nd" "n_ty nd = ty" "node_leaf nd = leaf" "n_cells nd = kvs"
    using p by (auto simp: page_with_def)
  obtain p' where "set_header_ptr c p = (Inr (), p')" "page_rep p' (nd\<lparr>n_ptr := c\<rparr>)"
    using set_header_ptr_refines [OF nd(1)] by blast
  then show ?thesis
    unfolding page_with_def using nd(2-4)
    by (intro exI [of _ p'] conjI exI [of _ "nd\<lparr>n_ptr := c\<rparr>"]) (simp_all add: node_leaf_def)
qed

lemma rebuild_edit:
  assumes p: "page_with ty' leaf' kvs' ptr' p" and leaf: "leaf \<longleftrightarrow> ty = Leaf \<or> (ty = Root \<and> ty' = Root \<and> leaf')"
    and sorted: "sorted_wrt (<) (map fst kvs)"
  shows "\<exists>p'. rebuild_from_cells (map (cell_of leaf) kvs) ty i ptr p =
      ((if length kvs \<le> 203 then Inr () else Inl (Err ''Page overflow'')), p') \<and>
    page_with ty leaf (take 203 kvs) ptr p' \<and> (ty \<noteq> Root \<longrightarrow> kind_clear p')"
proof -
  obtain nd where nd: "page_rep p nd" "n_ty nd = ty'" "node_leaf nd = leaf'"
    using p by (auto simp: page_with_def)
  have rl: "root_leaf_page p \<longleftrightarrow> ty' = Root \<and> leaf'" using root_leaf_page_rep [OF nd(1)] nd(2,3) by simp
  have l: "leaf \<longleftrightarrow> ty = Leaf \<or> (ty = Root \<and> root_leaf_page p)" using leaf rl by auto
  let ?nd = "rebuilt_node (root_leaf_page p) ty i ptr (take 203 kvs)"
  obtain p' where p': "rebuild_from_cells (map (cell_of leaf) kvs) ty i ptr p =
      ((if length kvs \<le> 203 then Inr () else Inl (Err ''Page overflow'')), p')" "page_rep p' ?nd"
    using rebuild_from_cells_refines [OF l list_all2_cell_of sorted, of i ptr] by auto
  have "node_leaf ?nd = leaf" using l by (auto simp: node_leaf_def rebuilt_node_def)
  then have "page_with ty leaf (take 203 kvs) ptr p'"
    unfolding page_with_def using p'(2) by (intro exI [of _ ?nd]) (simp add: rebuilt_node_def)
  moreover have "ty \<noteq> Root \<longrightarrow> kind_clear p'"
    unfolding kind_clear_def using p'(2) by (intro impI exI [of _ ?nd]) (simp add: rebuilt_node_def)
  ultimately show ?thesis using p'(1) by blast
qed

lemma set_kind_edit:
  assumes p: "page_with ty leaf kvs ptr p" "kind_clear p"
  shows "\<exists>p'. set_page_kind Root p = (Inr (), p') \<and> page_with Root leaf kvs ptr p'"
proof -
  obtain nd where nd: "page_rep p nd" "node_leaf nd = leaf" "n_cells nd = kvs" "n_ptr nd = ptr"
    using p(1) by (auto simp: page_with_def)
  obtain nd' where "page_rep p nd'" "n_flags nd' = 0" using p(2) by (auto simp: kind_clear_def)
  then have "hdr_of nd' = hdr_of nd" using page_header_rep [OF nd(1)] page_header_rep [of p nd'] by simp
  then have fl: "n_flags nd = 0" using \<open>n_flags nd' = 0\<close> hdr_of_sel(3) by metis
  obtain p' where p': "set_page_kind Root p = (Inr (), p')" "page_rep p' (set_kind Root nd)"
    using set_page_kind_refines [OF nd(1)] by blast
  have "node_leaf (set_kind Root nd) = leaf" using nd(2) fl by (auto simp: node_leaf_def set_kind_def)
  then show ?thesis
    unfolding page_with_def using nd(3,4) p'
    by (intro exI [of _ p'] conjI exI [of _ "set_kind Root nd"]) (simp_all add: set_kind_def)
qed

end
