(* ===== verification/Tree_Pair.thy ===== *)
theory Tree_Pair
  imports Tree_Storage
begin

text \<open>
  Two neighbours under one parent, and what deletion does with them: it shifts one cell over the
  separator between them, or joins them into one page. Neither changes the order of the items or
  the values of the keys.
\<close>

section \<open>Shifting and joining\<close>

inductive shift :: "tree \<Rightarrow> u64 \<Rightarrow> tree \<Rightarrow> tree \<Rightarrow> u64 \<Rightarrow> tree \<Rightarrow> bool" where
  leaf_right: "as \<noteq> [] \<Longrightarrow>
    shift (Tip i (as @ [kv])) s (Tip j bs) (Tip i as) (fst kv) (Tip j (kv # bs))"
| leaf_left: "shift (Tip i as) s (Tip j (kv # kv' # bs)) (Tip i (as @ [kv])) (fst kv') (Tip j (kv' # bs))"
| inner_right: "length ts = Suc (length ks) \<Longrightarrow>
    shift (Fork i (ks @ [k]) (ts @ [t])) s (Fork j ls us) (Fork i ks ts) k (Fork j (s # ls) (t # us))"
| inner_left: "length ts = Suc (length ks) \<Longrightarrow>
    shift (Fork i ks ts) s (Fork j (k # ls) (u # us)) (Fork i (ks @ [s]) (ts @ [u])) k (Fork j ls us)"

fun join :: "tree \<Rightarrow> u64 \<Rightarrow> tree \<Rightarrow> tree" where
  "join (Tip i as) s (Tip j bs) = Tip i (as @ bs)"
| "join (Fork i ks ts) s (Fork j ls us) = Fork i (ks @ s # ls) (ts @ us)"
| "join x s y = x"

text \<open>Both are leaves, or both are inner pages.\<close>

fun same_sort :: "tree \<Rightarrow> tree \<Rightarrow> bool" where
  "same_sort (Tip i as) (Tip j bs) = True"
| "same_sort (Fork i ks ts) (Fork j ls us) = True"
| "same_sort _ _ = False"

fun cells :: "tree \<Rightarrow> nat" where
  "cells (Tip i kvs) = length kvs"
| "cells (Fork i ks ts) = length ks"

fun kids :: "tree \<Rightarrow> tree list" where
  "kids (Tip i kvs) = []"
| "kids (Fork i ks ts) = ts"

lemma same_sort_level: "level m x \<Longrightarrow> level m y \<Longrightarrow> same_sort x y"
  by (cases x; cases y; cases m) auto

lemma tid_shift: "shift x s y x' s' y' \<Longrightarrow> tid x' = tid x \<and> tid y' = tid y"
  by (auto elim: shift.cases)

lemma tid_join [simp]: "tid (join x s y) = tid x"
  by (cases "(x, s, y)" rule: join.cases) simp_all

lemma mset_ids_shift: "shift x s y x' s' y' \<Longrightarrow> mset (ids x') + mset (ids y') = mset (ids x) + mset (ids y)"
  by (auto elim!: shift.cases)

lemma mset_ids_join:
  "same_sort x y \<Longrightarrow> add_mset (tid y) (mset (ids (join x s y))) = mset (ids x) + mset (ids y)"
  by (cases "(x, s, y)" rule: join.cases) auto

lemma level_shift: "shift x s y x' s' y' \<Longrightarrow> level m x \<Longrightarrow> level m y \<Longrightarrow> level m x' \<and> level m y'"
  by (cases m) (auto elim!: shift.cases)

lemma level_join: "level m x \<Longrightarrow> level m y \<Longrightarrow> level m (join x s y)"
  by (cases "(x, s, y)" rule: join.cases; cases m) auto

lemma fits_shift: "shift x s y x' s' y' \<Longrightarrow> fits n x \<Longrightarrow> fits n y \<Longrightarrow> cells x' \<le> n \<Longrightarrow> cells y' \<le> n \<Longrightarrow>
   fits n x' \<and> fits n y'"
  by (auto elim!: shift.cases)

lemma fits_join: "same_sort x y \<Longrightarrow> fits n x \<Longrightarrow> fits n y \<Longrightarrow> cells (join x s y) \<le> n \<Longrightarrow> fits n (join x s y)"
  by (cases "(x, s, y)" rule: join.cases) auto

lemma kids_shift: "shift x s y x' s' y' \<Longrightarrow> set (kids x') \<union> set (kids y') = set (kids x) \<union> set (kids y)"
  by (auto elim!: shift.cases)

lemma kids_join: "same_sort x y \<Longrightarrow> set (kids (join x s y)) = set (kids x) \<union> set (kids y)"
  by (cases "(x, s, y)" rule: join.cases) auto


section \<open>Items\<close>

lemma weave_join:
  "length xss = Suc (length ks) \<Longrightarrow> weave (xss @ yss) (ks @ k # ls) = weave xss ks @ k # weave yss ls"
proof (induction ks arbitrary: xss)
  case Nil
  then show ?case by (cases xss) auto
next
  case (Cons a ks)
  then show ?case by (cases xss) auto
qed

lemma items_join_Fork:
  "length ts = Suc (length ks) \<Longrightarrow> items (Fork i (ks @ s # ls) (ts @ us)) =
   items (Fork i ks ts) @ sep_item s # items (Fork j ls us)"
  by (simp add: weave_join)

text \<open>Moving the separator between two neighbouring leaves.\<close>

lemma move_sep:
  assumes sorted: "sorted_items (l @ map entry_item as @ sep_item s # map entry_item bs @ r)"
    and same: "as @ bs = as' @ kv # bs'" and ne: "as' \<noteq> []"
  shows "sorted_items (l @ map entry_item as' @ sep_item (fst kv) # map entry_item (kv # bs') @ r)"
proof -
  have eq: "map entry_item as @ map entry_item bs = map entry_item as' @ map entry_item (kv # bs')"
    using arg_cong [OF same, of "map entry_item"] by simp
  have "sorted_items (l @ (map entry_item as @ map entry_item bs) @ r)"
    using sorted_items_remove [of "l @ map entry_item as" "sep_item s" "map entry_item bs @ r"] sorted by simp
  then have s: "sorted_items (l @ map entry_item as' @ map entry_item (kv # bs') @ r)"
    unfolding eq by simp
  have s': "sorted_items ((l @ map entry_item as') @ (entry_item kv # map entry_item bs' @ r))" using s by simp
  have s1: "\<forall>x \<in> set (l @ map entry_item as'). \<forall>y \<in> set (entry_item kv # map entry_item bs' @ r). fst x < fst y"
    using s' unfolding sorted_items_append [of "l @ map entry_item as'"] by blast
  have s2: "sorted_items (l @ map entry_item as')" and "sorted_items (entry_item kv # (map entry_item bs' @ r))"
    using s' unfolding sorted_items_append [of "l @ map entry_item as'"] by blast+
  then have s3: "\<forall>y \<in> set (map entry_item bs' @ r). entry_place (fst kv) < fst y"
    unfolding sorted_items_Cons [of "entry_item kv"] by simp
  obtain as0 e where e: "as' = as0 @ [e]" using ne by (cases as' rule: rev_cases) auto
  have lt: "fst e < fst kv" using s1 by (simp add: e)
  have low: "fst x < 2 * unat (fst kv)" if x: "x \<in> set (l @ map entry_item as')" for x
  proof -
    have "fst x \<le> fst (entry_item e)"
    proof (cases "x = entry_item e")
      case False
      have "sorted_items ((l @ map entry_item as0) @ [entry_item e])" using s2 by (simp add: e)
      then have "\<forall>y \<in> set (l @ map entry_item as0). fst y < fst (entry_item e)"
        unfolding sorted_items_append [of "l @ map entry_item as0"] by simp
      then show ?thesis using x False by (simp add: e less_imp_le)
    qed simp
    also have "\<dots> < 2 * unat (fst kv)" using lt by simp
    finally show ?thesis by simp
  qed
  have high: "2 * unat (fst kv) < fst x" if x: "x \<in> set (map entry_item (kv # bs') @ r)" for x
  proof -
    have "2 * unat (fst kv) < entry_place (fst kv)" by simp
    also have "\<dots> \<le> fst x"
    proof (cases "x = entry_item kv")
      case False
      then have "entry_place (fst kv) < fst x" using x s3 by simp
      then show ?thesis by simp
    qed simp
    finally show ?thesis .
  qed
  have "sorted_items ((l @ map entry_item as') @ sep_item (fst kv) # (map entry_item (kv # bs') @ r))"
    using s low high by (intro sorted_items_insert) simp_all
  then show ?thesis by simp
qed

lemma shift_items:
  assumes "shift x s y x' s' y'" and "sorted_items (l @ items x @ sep_item s # items y @ r)"
  shows "sorted_items (l @ items x' @ sep_item s' # items y' @ r) \<and>
    content (l @ items x' @ sep_item s' # items y' @ r) = content (l @ items x @ sep_item s # items y @ r)"
  using assms
proof (induction rule: shift.induct)
  case (leaf_right as i kv s j bs)
  have "content (l @ map entry_item as @ sep_item (fst kv) # map entry_item (kv # bs) @ r) =
      content (l @ map entry_item (as @ [kv]) @ sep_item s # map entry_item bs @ r)"
    using content_sep [of "l @ map entry_item as" "fst kv" "map entry_item (kv # bs) @ r"]
      content_sep [of "l @ map entry_item (as @ [kv])" s "map entry_item bs @ r"] by simp
  then show ?case
    using move_sep [of l "as @ [kv]" s bs r as kv bs] leaf_right by simp
next
  case (leaf_left i as s j kv kv' bs)
  have "content (l @ map entry_item (as @ [kv]) @ sep_item (fst kv') # map entry_item (kv' # bs) @ r) =
      content (l @ map entry_item as @ sep_item s # map entry_item (kv # kv' # bs) @ r)"
    using content_sep [of "l @ map entry_item (as @ [kv])" "fst kv'" "map entry_item (kv' # bs) @ r"]
      content_sep [of "l @ map entry_item as" s "map entry_item (kv # kv' # bs) @ r"] by simp
  then show ?case
    using move_sep [of l as s "kv # kv' # bs" r "as @ [kv]" kv' bs] leaf_left by simp
next
  case (inner_right ts ks i k t s j ls us)
  have "items (Fork i (ks @ [k]) (ts @ [t])) = items (Fork i ks ts) @ sep_item k # items t"
    using items_join_Fork [OF inner_right(1), of i k "[]" "[t]" i] by simp
  moreover have "items (Fork j (s # ls) (t # us)) = items t @ sep_item s # items (Fork j ls us)"
    by simp
  ultimately show ?case using inner_right(2) by simp
next
  case (inner_left ts ks i s j k ls u us)
  have "items (Fork i (ks @ [s]) (ts @ [u])) = items (Fork i ks ts) @ sep_item s # items u"
    using items_join_Fork [OF inner_left(1), of i s "[]" "[u]" i] by simp
  moreover have "items (Fork j (k # ls) (u # us)) = items u @ sep_item k # items (Fork j ls us)"
    by simp
  ultimately show ?case using inner_left(2) by simp
qed

lemma join_items:
  assumes "same_sort x y" and "fits n x" and "sorted_items (l @ items x @ sep_item s # items y @ r)"
  shows "sorted_items (l @ items (join x s y) @ r) \<and>
    content (l @ items (join x s y) @ r) = content (l @ items x @ sep_item s # items y @ r)"
proof (cases x)
  case (Tip i as)
  then obtain j bs where y: "y = Tip j bs" using assms(1) by (cases y) auto
  show ?thesis
    using assms(3) content_sep [of "l @ map entry_item as" s "map entry_item bs @ r"] Tip y
    by (auto simp: sorted_items_append sorted_items_Cons)
next
  case (Fork i ks ts)
  then obtain j ls us where y: "y = Fork j ls us" using assms(1) by (cases y) auto
  have "items (join x s y) = items x @ sep_item s # items y"
    unfolding Fork y join.simps using assms(2) Fork by (intro items_join_Fork) simp
  then show ?thesis using assms(3) by simp
qed


section \<open>A pair in its tree\<close>

text \<open>What the tree with the changed pair is.\<close>

lemma shift_plug:
  assumes sh: "shift x s y x' s' y'" and fit: "list_all (frame_fits n) c" "frame_fits n f"
    and sorted: "sorted_items (items (plug c (fill_two f x s y)))"
    and dist: "distinct (ids (plug c (fill_two f x s y)))"
  shows "sorted_items (items (plug c (fill_two f x' s' y')))"
    and "content (items (plug c (fill_two f x' s' y'))) = content (items (plug c (fill_two f x s y)))"
    and "distinct (ids (plug c (fill_two f x' s' y')))"
    and "set (ids (plug c (fill_two f x' s' y'))) = set (ids (plug c (fill_two f x s y)))"
proof -
  have it: "items (plug c (fill_two f a k b)) =
      (left_items c @ frame_left f) @ items a @ sep_item k # items b @ (frame_right f @ right_items c)" for a k b
    by (simp add: items_plug [OF fit(1)] items_fill_two [OF fit(2)])
  show "sorted_items (items (plug c (fill_two f x' s' y')))"
    and "content (items (plug c (fill_two f x' s' y'))) = content (items (plug c (fill_two f x s y)))"
    using shift_items [OF sh, of "left_items c @ frame_left f" "frame_right f @ right_items c"] sorted
    by (simp_all only: it)
  have m: "mset (ids (plug c (fill_two f x' s' y'))) = mset (ids (plug c (fill_two f x s y)))"
    using mset_ids_shift [OF sh] by (simp add: mset_ids_plug mset_ids_fill_two)
  show "distinct (ids (plug c (fill_two f x' s' y')))" using mset_eq_imp_distinct_iff [OF m] dist by simp
  show "set (ids (plug c (fill_two f x' s' y'))) = set (ids (plug c (fill_two f x s y)))"
    using mset_eq_setD [OF m] .
qed

lemma join_plug:
  assumes ss: "same_sort x y" "fits n' x" and fit: "list_all (frame_fits n) c" "frame_fits n f"
    and sorted: "sorted_items (items (plug c (fill_two f x s y)))"
    and dist: "distinct (ids (plug c (fill_two f x s y)))"
  shows "sorted_items (items (plug c (fill f (join x s y))))"
    and "content (items (plug c (fill f (join x s y)))) = content (items (plug c (fill_two f x s y)))"
    and "distinct (ids (plug c (fill f (join x s y))))"
    and "insert (tid y) (set (ids (plug c (fill f (join x s y))))) = set (ids (plug c (fill_two f x s y)))"
    and "tid y \<notin> set (ids (plug c (fill f (join x s y))))"
proof -
  have it: "items (plug c (fill_two f x s y)) =
      (left_items c @ frame_left f) @ items x @ sep_item s # items y @ (frame_right f @ right_items c)"
    by (simp add: items_plug [OF fit(1)] items_fill_two [OF fit(2)])
  have it': "items (plug c (fill f z)) =
      (left_items c @ frame_left f) @ items z @ (frame_right f @ right_items c)" for z
    by (simp add: items_plug [OF fit(1)] items_fill [OF fit(2)])
  show "sorted_items (items (plug c (fill f (join x s y))))"
    and "content (items (plug c (fill f (join x s y)))) = content (items (plug c (fill_two f x s y)))"
    using join_items [OF ss, of "left_items c @ frame_left f" s "frame_right f @ right_items c"] sorted
    by (simp_all only: it it')
  have m: "mset (tid y # ids (plug c (fill f (join x s y)))) = mset (ids (plug c (fill_two f x s y)))"
    using mset_ids_join [OF ss(1), of s]
    by (simp add: mset_ids_plug mset_ids_fill_two mset_ids_fill flip: add_mset_add_single union_mset_add_mset_left)
  show "distinct (ids (plug c (fill f (join x s y))))" "tid y \<notin> set (ids (plug c (fill f (join x s y))))"
    using mset_eq_imp_distinct_iff [OF m] dist by simp_all
  show "insert (tid y) (set (ids (plug c (fill f (join x s y))))) = set (ids (plug c (fill_two f x s y)))"
    using mset_eq_setD [OF m] by simp
qed

end
