(* ===== verification/Tree_Balance.thy ===== *)
theory Tree_Balance
  imports Tree_Edit Tree_Pair Tree_Grow
begin

text \<open>
  The four redistributions and the two merges of \<open>bplus_tree.rs\<close>, as edits of the pages of two
  neighbours and of their parent.
\<close>

section \<open>The pages of nodes\<close>

fun node_page :: "page_kind \<Rightarrow> tree \<Rightarrow> bytes \<Rightarrow> bool" where
  "node_page ty (Tip i kvs) p \<longleftrightarrow> (\<exists>ptr. page_with ty True kvs ptr p)"
| "node_page ty (Fork i ks ts) p \<longleftrightarrow> length ts = Suc (length ks) \<and>
     page_with ty False (zip ks (map tid ts)) (last (map tid ts)) p"

text \<open>The kind of a page below the root.\<close>

fun own_kind :: "tree \<Rightarrow> page_kind" where
  "own_kind (Tip i kvs) = Leaf"
| "own_kind (Fork i ks ts) = Internal"

lemma page_with_level: "page_with ty True kvs ptr p \<Longrightarrow> ty = Leaf \<or> ty = Root"
  "page_with ty False kvs ptr p \<Longrightarrow> ty = Internal \<or> ty = Root"
  by (auto simp: page_with_def node_leaf_def) (metis page_kind.exhaust)+

lemma stored_node:
  assumes "stored v t"
  shows "\<exists>p ty. v (tid t) = Some p \<and> node_page ty t p \<and>
    (kind_of v (tid t) \<noteq> Some Root \<longrightarrow> ty = own_kind t)"
proof (cases t)
  case (Tip i kvs)
  then obtain p nd where p: "v i = Some p" "page_rep p nd" "node_leaf nd" "n_cells nd = kvs"
    using assms by (auto simp: at_leaf_def)
  have w: "page_with (n_ty nd) True kvs (n_ptr nd) p" using page_with_rep [OF p(2)] p(3,4) by simp
  then show ?thesis
    using p(1) page_with_kind [of v i p, OF p(1) w] page_with_level(1) [OF w] Tip by auto
next
  case (Fork i ks ts)
  then obtain p nd where p: "v i = Some p" "page_rep p nd" "\<not> node_leaf nd" "n_cells nd = zip ks (map tid ts)"
    "n_ptr nd = last (map tid ts)" "length ts = Suc (length ks)"
    using assms by (auto simp: at_inner_def)
  have w: "page_with (n_ty nd) False (zip ks (map tid ts)) (last (map tid ts)) p"
    using page_with_rep [OF p(2)] p(3,4,5) by simp
  then show ?thesis
    using p(1,6) page_with_kind [of v i p, OF p(1) w] page_with_level(2) [OF w] Fork by auto
qed

lemma node_stored:
  assumes "v (tid t) = Some p" and "node_page ty t p" and "list_all (stored v) (kids t)"
  shows "stored v t"
proof (cases t)
  case (Tip i kvs)
  then show ?thesis using assms by (auto simp: page_with_def at_leaf_def)
next
  case (Fork i ks ts)
  then show ?thesis using assms by (auto simp: page_with_def at_inner_def)
qed

lemma node_page_kind: "v (tid t) = Some p \<Longrightarrow> node_page ty t p \<Longrightarrow> kind_of v (tid t) = Some ty"
  by (cases t) (auto intro: page_with_kind)

lemma node_page_length [simp]: "node_page ty t p \<Longrightarrow> length p = 4096"
  by (cases t) auto


section \<open>The separator in the parent\<close>

lemma zip_pair:
  "length X = length K \<Longrightarrow> zip (K @ s # R) (X @ c # d # Y) = zip K X @ (s, c) # zip R (d # Y)"
  by simp

lemma take_drop_zip:
  assumes "length X = length K"
  shows "take (length K) (zip (K @ s # R) (X @ c # d # Y)) @
    drop (Suc (length K)) (zip (K @ s # R) (X @ c # d # Y)) = zip K X @ zip R (d # Y)"
  using assms by (simp add: zip_pair)

lemma keys_zip: "length Y = length R \<Longrightarrow> map fst (zip R (d # Y)) = R"
  by (simp add: map_fst_zip_take)

lemma replace_separator_page:
  assumes p: "page_with ty False (zip (K @ s # R) (X @ c # d # Y)) ptr p"
    and len: "length X = length K" "length Y = length R" and sorted: "sorted_wrt (<) (K @ k # R)"
  shows "\<exists>p'. andthen (remove_cell_at (length K)) (\<lambda>_. andthen (add_cell k c) (\<lambda>_. ok ())) p = (Inr (), p') \<and>
    page_with ty False (zip (K @ k # R) (X @ c # d # Y)) ptr p'"
proof -
  let ?kvs = "zip (K @ s # R) (X @ c # d # Y)"
  have idx: "length K < length ?kvs" and n: "length ?kvs \<le> 203" using page_with_bound [OF p] len by simp_all
  obtain p1 where p1: "remove_cell_at (length K) p = (Inr (cell_of False (?kvs ! length K)), p1)"
    "page_with ty False (zip K X @ zip R (d # Y)) ptr p1"
    using remove_edit [OF p idx] unfolding take_drop_zip [OF len(1)] by blast
  have l1: "length (zip K X @ zip R (d # Y)) < 203" using n len by simp
  have keys: "map fst (zip K X @ zip R (d # Y)) = K @ R" using len by (simp add: map_fst_zip_take)
  have new: "k \<notin> fst ` set (zip K X @ zip R (d # Y))"
    using arg_cong [OF keys, of set] sorted by (auto simp: sorted_wrt_append)
  have ins: "insert_cell k c (zip K X @ zip R (d # Y)) = zip (K @ k # R) (X @ c # d # Y)"
    using sorted unfolding zip_pair [OF len(1)]
    by (intro insert_cell_middle) (auto simp: sorted_wrt_append dest: set_zip_leftD)
  obtain p2 where "add_cell k c p1 = (Inr (Suc (length (zip K X @ zip R (d # Y)))), p2)"
    "page_with ty False (zip (K @ k # R) (X @ c # d # Y)) ptr p2"
    using add_edit [OF p1(2) l1 new, of c] unfolding ins by blast
  then show ?thesis using p1(1) by (intro exI [of _ p2]) (simp add: andthen_def run_simps)
qed

lemma replace_separator_run:
  assumes e: "edited n s0 s v" and room: "log_room (Suc n) s0" and q: "v q = Some pq"
    and p: "page_with ty False (zip (K @ s1 # R) (X @ c # d # Y)) ptr pq"
    and len: "length X = length K" "length Y = length R" and sorted: "sorted_wrt (<) (K @ k # R)"
  shows "\<exists>s' pq'. replace_separator txn q (length K) k c s = (Inr (), s') \<and>
    edited (Suc n) s0 s' (v(q \<mapsto> pq')) \<and> page_with ty False (zip (K @ k # R) (X @ c # d # Y)) ptr pq'"
proof -
  obtain pq' where pq': "andthen (remove_cell_at (length K)) (\<lambda>_. andthen (add_cell k c) (\<lambda>_. ok ())) pq = (Inr (), pq')"
    "page_with ty False (zip (K @ k # R) (X @ c # d # Y)) ptr pq'"
    using replace_separator_page [OF p len sorted] by blast
  from rewrite_edit(2) [where body = "andthen (remove_cell_at (length K)) (\<lambda>_. andthen (add_cell k c) (\<lambda>_. ok ()))",
      OF e room q page_with_length [OF p] pq'(1) page_with_length [OF pq'(2)], of txn]
  show ?thesis using pq'(2) unfolding replace_separator_def by blast
qed


section \<open>Redistribution\<close>

text \<open>
  The new pages of the pair \<open>x\<close>, \<open>y\<close> and of their parent \<open>q\<close>, whose cells are \<open>kvs\<close>.
\<close>

definition repaged :: "nat \<Rightarrow> bplus_tree \<Rightarrow> bplus_tree \<Rightarrow> (u64 \<Rightarrow> bytes option) \<Rightarrow> tree \<Rightarrow> tree \<Rightarrow> u64 \<Rightarrow>
    page_kind \<Rightarrow> (u64 \<times> u64) list \<Rightarrow> u64 \<Rightarrow> bool" where
  "repaged n s0 s v x y q ty kvs ptr \<longleftrightarrow> (\<exists>px py pq. node_page (own_kind x) x px \<and>
     node_page (own_kind y) y py \<and> page_with ty False kvs ptr pq \<and>
     edited n s0 s (v(tid x \<mapsto> px, tid y \<mapsto> py, q \<mapsto> pq)))"

lemma repagedI:
  assumes "edited n s0 s v'" and "v' = v(tid x \<mapsto> px, tid y \<mapsto> py, q \<mapsto> pq)"
    and "node_page (own_kind x) x px" and "node_page (own_kind y) y py" and "page_with ty False kvs ptr pq"
  shows "repaged n s0 s v x y q ty kvs ptr"
  using assms unfolding repaged_def by blast

lemma heap_value_cell [simp]: "heap_value (cell_of True kv) = Inr (snd kv)"
  by (simp add: heap_value_def cell_of_def)

lemma first_key_cells [simp]: "first_key msg (map (cell_of l) (kv # kvs)) = Inr (fst kv)"
  by (simp add: first_key_def)

lemma add_borrowed:
  "page_with Leaf True kvs ptr p \<Longrightarrow> length kvs < 203 \<Longrightarrow> fst kv \<notin> fst ` set kvs \<Longrightarrow>
   \<exists>p'. andthen (of_result (heap_value (cell_of True kv))) (\<lambda>v. andthen (add_cell (c_key (cell_of True kv)) v)
      (\<lambda>_. ok ())) p = (Inr (), p') \<and> page_with Leaf True (insert_cell (fst kv) (snd kv) kvs) ptr p'"
  using add_edit [of Leaf True kvs ptr p "fst kv" "snd kv"] by (auto simp: andthen_def run_simps)

lemma leaf_from_left:
  assumes len: "length X = length K" "length Y = length R"
    and e: "edited n s0 s v" and room: "log_room (n + 3) s0"
    and x: "v i = Some px" "node_page Leaf (Tip i (as @ [kv])) px"
    and y: "v j = Some py" "node_page Leaf (Tip j bs) py" "length bs < 203"
    and pq: "v q = Some pq" "page_with ty False (zip (K @ s1 # R) (X @ i # j # Y)) ptr pq"
    and ne: "i \<noteq> j" "i \<noteq> q" "j \<noteq> q" and hdr: "ih_page_ty hdr = Leaf"
    and keys: "sorted_wrt (<) (map fst (kv # bs))" "sorted_wrt (<) (K @ fst kv # R)"
  shows "\<exists>s'. redistribute_from_left txn i j q (Suc (length K)) hdr s = (Inr (), s') \<and>
    repaged (n + 3) s0 s' v (Tip i as) (Tip j (kv # bs)) q ty (zip (K @ fst kv # R) (X @ i # j # Y)) ptr"
proof -
  let ?take = "andthen (reads get_cells) (\<lambda>left_cells. remove_cell_at (length left_cells - 1))"
  let ?put = "andthen (of_result (heap_value (cell_of True kv))) (\<lambda>v.
      andthen (add_cell (c_key (cell_of True kv)) v) (\<lambda>_. ok ()))"
  obtain a where px: "page_with Leaf True (as @ [kv]) a px" using x(2) by auto
  obtain b where py: "page_with Leaf True bs b py" using y(2) by auto
  obtain px' where px': "remove_cell_at (length as) px = (Inr (cell_of True kv), px')"
    "page_with Leaf True as a px'"
    using remove_edit [OF px, of "length as"] by auto
  have take_last: "?take px = (Inr (cell_of True kv), px')"
    using page_with_read(2) [OF px] px'(1) by (simp add: andthen_def run_simps)
  have first: "insert_cell (fst kv) (snd kv) bs = kv # bs" and new: "fst kv \<notin> fst ` set bs"
    using keys(1) by (auto simp: insert_cell_first)
  obtain py' where py': "?put py = (Inr (), py')"
    "page_with Leaf True (kv # bs) b py'"
    using add_borrowed [OF py y(3) new] unfolding first by blast
  have r: "log_room (Suc n) s0" "log_room (Suc (Suc n)) s0" "log_room (Suc (Suc (Suc n))) s0"
    using wal_room_mono [OF room] by simp_all
  obtain t1 where t1: "t_fetch i s = (Inr px, t1)" "edited n s0 t1 v" using fetch_edit [OF e x(1)] by blast
  obtain t2 where t2: "t_with_page i ?take t1 = (Inr (cell_of True kv), t2)" "edited n s0 t2 (v(i \<mapsto> px'))"
    using with_page_edit [where body = ?take, OF t1(2) x(1) take_last page_with_length [OF px'(2)]] by blast
  obtain t3 where t3: "t_fetch i t2 = (Inr px', t3)" "edited n s0 t3 (v(i \<mapsto> px'))"
    using fetch_edit [OF t2(2), of i px'] by auto
  obtain t4 where t4: "t_log_diff txn i px px' t3 = (Inr (), t4)" "edited (Suc n) s0 t4 (v(i \<mapsto> px'))"
    using log_edit [OF t3(2) r(1) page_with_length [OF px] page_with_length [OF px'(2)]] by blast
  have vj: "(v(i \<mapsto> px')) j = Some py" using y(1) ne by simp
  obtain t5 where t5: "rewrite_page_refetch txn j ?put t4 = (Inr (), t5)"
    "edited (Suc (Suc n)) s0 t5 (v(i \<mapsto> px', j \<mapsto> py'))"
    using rewrite_edit(2) [where body = ?put, OF t4(2) r(2) vj page_with_length [OF py] py'(1) page_with_length [OF py'(2)]] by blast
  obtain t6 where t6: "t_fetch j t5 = (Inr py', t6)" "edited (Suc (Suc n)) s0 t6 (v(i \<mapsto> px', j \<mapsto> py'))"
    using fetch_edit [OF t5(2), of j py'] by auto
  have vq: "(v(i \<mapsto> px', j \<mapsto> py')) q = Some pq" using pq(1) ne by simp
  obtain t7 pq' where t7: "replace_separator txn q (length K) (fst kv) i t6 = (Inr (), t7)"
    "edited (Suc (Suc (Suc n))) s0 t7 (v(i \<mapsto> px', j \<mapsto> py', q \<mapsto> pq'))"
    "page_with ty False (zip (K @ fst kv # R) (X @ i # j # Y)) ptr pq'"
    using replace_separator_run [OF t6(2) r(3) vq pq(2) len keys(2)] by blast
  have "redistribute_from_left txn i j q (Suc (length K)) hdr s = (Inr (), t7)"
    using t1(1) t2(1) t3(1) t4(1) t5(1) t6(1) t7(1) hdr page_with_read(2) [OF py'(2)]
    by (simp add: redistribute_from_left_def andthen_def run_simps Let_def first_key_def)
  then show ?thesis
    using t7(2,3) px'(2) py'(2) by (intro exI [of _ t7] conjI repagedI) (auto simp: eval_nat_numeral)
qed

lemma leaf_from_right:
  assumes len: "length X = length K" "length Y = length R"
    and e: "edited n s0 s v" and room: "log_room (n + 3) s0"
    and x: "v i = Some px" "node_page Leaf (Tip i as) px" "length as < 203"
    and y: "v j = Some py" "node_page Leaf (Tip j (kv # kv' # bs)) py"
    and pq: "v q = Some pq" "page_with ty False (zip (K @ s1 # R) (X @ i # j # Y)) ptr pq"
    and ne: "i \<noteq> j" "i \<noteq> q" "j \<noteq> q" and hdr: "ih_page_ty hdr = Leaf"
    and keys: "sorted_wrt (<) (map fst (as @ [kv]))" "sorted_wrt (<) (K @ fst kv' # R)"
  shows "\<exists>s'. redistribute_from_right txn i j q (length K) hdr s = (Inr (), s') \<and>
    repaged (n + 3) s0 s' v (Tip i (as @ [kv])) (Tip j (kv' # bs)) q ty (zip (K @ fst kv' # R) (X @ i # j # Y)) ptr"
proof -
  let ?put = "andthen (of_result (heap_value (cell_of True kv))) (\<lambda>v.
      andthen (add_cell (c_key (cell_of True kv)) v) (\<lambda>_. ok ()))"
  obtain a where px: "page_with Leaf True as a px" using x(2) by auto
  obtain b where py: "page_with Leaf True (kv # kv' # bs) b py" using y(2) by auto
  obtain py' where py': "remove_cell_at 0 py = (Inr (cell_of True kv), py')"
    "page_with Leaf True (kv' # bs) b py'"
    using remove_edit [OF py, of 0] by auto
  have last: "insert_cell (fst kv) (snd kv) as = as @ [kv]" and new: "fst kv \<notin> fst ` set as"
    using keys(1) by (auto simp: insert_cell_last sorted_wrt_append)
  obtain px' where px': "?put px = (Inr (), px')" "page_with Leaf True (as @ [kv]) a px'"
    using add_borrowed [OF px x(3) new] unfolding last by blast
  have r: "log_room (Suc n) s0" "log_room (Suc (Suc n)) s0" "log_room (Suc (Suc (Suc n))) s0"
    using wal_room_mono [OF room] by simp_all
  obtain t1 where t1: "t_fetch j s = (Inr py, t1)" "edited n s0 t1 v" using fetch_edit [OF e y(1)] by blast
  obtain t2 where t2: "t_with_page j (remove_cell_at 0) t1 = (Inr (cell_of True kv), t2)"
    "edited n s0 t2 (v(j \<mapsto> py'))"
    using with_page_edit [where body = "remove_cell_at 0", OF t1(2) y(1) py'(1) page_with_length [OF py'(2)]] by blast
  obtain t3 where t3: "t_fetch j t2 = (Inr py', t3)" "edited n s0 t3 (v(j \<mapsto> py'))"
    using fetch_edit [OF t2(2), of j py'] by auto
  obtain t4 where t4: "t_log_diff txn j py py' t3 = (Inr (), t4)" "edited (Suc n) s0 t4 (v(j \<mapsto> py'))"
    using log_edit [OF t3(2) r(1) page_with_length [OF py] page_with_length [OF py'(2)]] by blast
  have vi: "(v(j \<mapsto> py')) i = Some px" using x(1) ne by simp
  obtain t5 where t5: "rewrite_page_refetch txn i ?put t4 = (Inr (), t5)"
    "edited (Suc (Suc n)) s0 t5 (v(j \<mapsto> py', i \<mapsto> px'))"
    using rewrite_edit(2) [where body = ?put, OF t4(2) r(2) vi page_with_length [OF px] px'(1) page_with_length [OF px'(2)]] by blast
  obtain t6 where t6: "t_fetch j t5 = (Inr py', t6)" "edited (Suc (Suc n)) s0 t6 (v(j \<mapsto> py', i \<mapsto> px'))"
    using fetch_edit [OF t5(2), of j py'] ne(1) by auto
  have vq: "(v(j \<mapsto> py', i \<mapsto> px')) q = Some pq" using pq(1) ne by simp
  obtain t7 pq' where t7: "replace_separator txn q (length K) (fst kv') i t6 = (Inr (), t7)"
    "edited (Suc (Suc (Suc n))) s0 t7 (v(j \<mapsto> py', i \<mapsto> px', q \<mapsto> pq'))"
    "page_with ty False (zip (K @ fst kv' # R) (X @ i # j # Y)) ptr pq'"
    using replace_separator_run [OF t6(2) r(3) vq pq(2) len keys(2)] by blast
  have "redistribute_from_right txn i j q (length K) hdr s = (Inr (), t7)"
    using t1(1) t2(1) t3(1) t4(1) t5(1) t6(1) t7(1) hdr page_with_read(2) [OF py'(2)]
    by (simp add: redistribute_from_right_def andthen_def run_simps Let_def first_key_def)
  moreover have "v(j \<mapsto> py', i \<mapsto> px', q \<mapsto> pq') = v(i \<mapsto> px', j \<mapsto> py', q \<mapsto> pq')"
    using ne(1) by (simp add: fun_upd_twist)
  ultimately show ?thesis
    using t7(2,3) px'(2) py'(2) by (intro exI [of _ t7] conjI repagedI) (auto simp: eval_nat_numeral)
qed

text \<open>Redistribution between inner pages moves a child over the separator.\<close>

lemma parent_separator:
  assumes "page_with ty False (zip (K @ s1 # R) (X @ c # d # Y)) ptr p" and "length X = length K"
  shows "index_r (map (cell_of False) (zip (K @ s1 # R) (X @ c # d # Y))) (length K) = Inr (cell_of False (s1, c))"
  using assms(2) by (simp add: index_r_def nth_append)

lemma inner_from_left:
  assumes len: "length X = length K" "length Y = length R"
    and e: "edited n s0 s v" and room: "log_room (n + 3) s0"
    and x: "v i = Some px" "node_page Internal (Fork i (ks @ [k]) (ts @ [t])) px" "length ts = Suc (length ks)"
    and y: "v j = Some py" "node_page Internal (Fork j ls us) py" "length ls < 203"
    and pq: "v q = Some pq" "page_with ty False (zip (K @ s1 # R) (X @ i # j # Y)) ptr pq"
    and ne: "i \<noteq> j" "i \<noteq> q" "j \<noteq> q" and hdr: "ih_page_ty hdr = Internal" "ih_ptr hdr = last (map tid us)"
    and keys: "sorted_wrt (<) (s1 # ls)" "sorted_wrt (<) (K @ k # R)"
  shows "\<exists>s'. redistribute_from_left txn i j q (Suc (length K)) hdr s = (Inr (), s') \<and>
    repaged (n + 3) s0 s' v (Fork i ks ts) (Fork j (s1 # ls) (t # us)) q ty (zip (K @ k # R) (X @ i # j # Y)) ptr"
proof -
  let ?take = "andthen (reads get_cells) (\<lambda>left_cells. remove_cell_at (length left_cells - 1))"
  let ?c = "last (map tid ts)" and ?new = "zip (s1 # ls) (map tid (t # us))"
  let ?put = "andthen (reads get_cells) (\<lambda>underfull_cells. rebuild_from_cells
      (\<lparr>c_key = s1, c_ptr = Some (tid t), h_ptr = None\<rparr> # underfull_cells) Internal j (last (map tid us)))"
  have ts: "map tid ts \<noteq> []" using x(3) by auto
  have px: "page_with Internal False (zip (ks @ [k]) (map tid (ts @ [t]))) (tid t) px"
    and py: "page_with Internal False (zip ls (map tid us)) (last (map tid us)) py" "length us = Suc (length ls)"
    using x(2) y(2) by simp_all
  have zx: "zip (ks @ [k]) (map tid (ts @ [t])) = zip ks (map tid ts) @ [(k, ?c)]"
  proof -
    have split: "map tid ts = butlast (map tid ts) @ [?c]" using ts by simp
    have "zip (ks @ [k]) (map tid (ts @ [t])) = zip (ks @ [k]) ((butlast (map tid ts) @ [?c]) @ [tid t])"
      using split by simp
    also have "\<dots> = zip ks (butlast (map tid ts)) @ [(k, ?c)]" using x(3) by simp
    also have "zip ks (butlast (map tid ts)) = zip ks (butlast (map tid ts) @ [?c])"
      using x(3) by (simp add: zip_append2)
    finally show ?thesis using split by simp
  qed
  have n: "length (zip ks (map tid ts)) = length ks" using x(3) by simp
  then have nth: "(zip ks (map tid ts) @ [(k, ?c)]) ! length ks = (k, ?c)"
    using nth_append_length [of "zip ks (map tid ts)"] by simp
  obtain px1 where px1: "remove_cell_at (length ks) px = (Inr (cell_of False (k, ?c)), px1)"
    "page_with Internal False (zip ks (map tid ts)) (tid t) px1"
    using remove_edit [OF px [unfolded zx], of "length ks"] n nth by auto
  have take_last: "?take px = (Inr (cell_of False (k, ?c)), px1)"
    using page_with_read(2) [OF px [unfolded zx]] px1(1) n by (simp add: andthen_def run_simps)
  obtain px2 where px2: "set_header_ptr ?c px1 = (Inr (), px2)" "page_with Internal False (zip ks (map tid ts)) ?c px2"
    using set_ptr_edit [OF px1(2)] by blast
  have srt: "sorted_wrt (<) (map fst ?new)" using keys(1) py(2) by (simp add: map_fst_zip_take)
  have len_new: "length ?new \<le> 203" using y(3) py(2) by simp
  have cell: "\<lparr>c_key = s1, c_ptr = Some (tid t), h_ptr = None\<rparr> # map (cell_of False) (zip ls (map tid us)) =
      map (cell_of False) ?new"
    by (simp add: cell_of_def)
  obtain py' where py': "rebuild_from_cells (map (cell_of False) ?new) Internal j (last (map tid us)) py = (Inr (), py')"
    "page_with Internal False ?new (last (map tid us)) py'"
    using rebuild_edit [OF py(1) _ srt, of False Internal j "last (map tid us)"] len_new by auto
  have put: "?put py = (Inr (), py')"
    using page_with_read(2) [OF py(1)] py'(1) unfolding cell [symmetric] by (simp add: andthen_def run_simps)
  have r: "log_room (Suc n) s0" "log_room (Suc (Suc n)) s0" "log_room (Suc (Suc (Suc n))) s0"
    using wal_room_mono [OF room] by simp_all
  obtain t1 where t1: "t_fetch i s = (Inr px, t1)" "edited n s0 t1 v" using fetch_edit [OF e x(1)] by blast
  obtain t2 where t2: "t_with_page i ?take t1 = (Inr (cell_of False (k, ?c)), t2)" "edited n s0 t2 (v(i \<mapsto> px1))"
    using with_page_edit [where body = ?take, OF t1(2) x(1) take_last page_with_length [OF px1(2)]] by blast
  obtain t3 where t3: "t_fetch q t2 = (Inr pq, t3)" "edited n s0 t3 (v(i \<mapsto> px1))"
    using fetch_edit [OF t2(2), of q pq] pq(1) ne by auto
  obtain t4 where t4: "t_fetch i t3 = (Inr px1, t4)" "edited n s0 t4 (v(i \<mapsto> px1))"
    using fetch_edit [OF t3(2), of i px1] by auto
  have vj: "(v(i \<mapsto> px1)) j = Some py" using y(1) ne by simp
  obtain t5 where t5: "rewrite_page_refetch txn j ?put t4 = (Inr (), t5)"
    "edited (Suc n) s0 t5 (v(i \<mapsto> px1, j \<mapsto> py'))"
    using rewrite_edit(2) [where body = ?put, OF t4(2) r(1) vj page_with_length [OF py(1)] put page_with_length [OF py'(2)]] by blast
  have vq: "(v(i \<mapsto> px1, j \<mapsto> py')) q = Some pq" using pq(1) ne by simp
  obtain t6 pq' where t6: "replace_separator txn q (length K) k i t5 = (Inr (), t6)"
    "edited (Suc (Suc n)) s0 t6 (v(i \<mapsto> px1, j \<mapsto> py', q \<mapsto> pq'))"
    "page_with ty False (zip (K @ k # R) (X @ i # j # Y)) ptr pq'"
    using replace_separator_run [OF t5(2) r(2) vq pq(2) len keys(2)] by blast
  have vi: "(v(i \<mapsto> px1, j \<mapsto> py', q \<mapsto> pq')) i = Some px1" using ne by simp
  let ?v = "v(i \<mapsto> px1, j \<mapsto> py', q \<mapsto> pq', i \<mapsto> px2)"
  obtain t7 where t7: "t_with_page i (set_header_ptr ?c) t6 = (Inr (), t7)" "edited (Suc (Suc n)) s0 t7 ?v"
    using with_page_edit [where body = "set_header_ptr ?c", OF t6(2) vi px2(1) page_with_length [OF px2(2)]] by blast
  obtain t8 where t8: "t_fetch i t7 = (Inr px2, t8)" "edited (Suc (Suc n)) s0 t8 ?v"
    using fetch_edit [OF t7(2), of i px2] by auto
  obtain t9 where t9: "t_log_diff txn i px px2 t8 = (Inr (), t9)" "edited (Suc (Suc (Suc n))) s0 t9 ?v"
    using log_edit [OF t8(2) r(3) page_with_length [OF px] page_with_length [OF px2(2)]] by blast
  obtain h where h: "page_header px1 = Inr h" "ih_ptr h = tid t" using page_with_read(1) [OF px1(2)] by blast
  have "redistribute_from_left txn i j q (Suc (length K)) hdr s = (Inr (), t9)"
    using t1(1) t2(1) t3(1) t4(1) t5(1) t6(1) t7(1) t8(1) t9(1) hdr h page_with_read(2) [OF pq(2)]
      parent_separator [OF pq(2) len(1)]
    by (simp add: redistribute_from_left_def run_simps Let_def cell_of_def)
  moreover have "repaged (n + 3) s0 t9 v (Fork i ks ts) (Fork j (s1 # ls) (t # us)) q ty
      (zip (K @ k # R) (X @ i # j # Y)) ptr"
  proof (rule repagedI)
    show "edited (n + 3) s0 t9 ?v" using t9(2) by (simp add: eval_nat_numeral)
    show "?v = v(tid (Fork i ks ts) \<mapsto> px2, tid (Fork j (s1 # ls) (t # us)) \<mapsto> py', q \<mapsto> pq')"
      using ne by (auto simp: fun_eq_iff)
    show "node_page (own_kind (Fork i ks ts)) (Fork i ks ts) px2" using px2(2) x(3) by simp
    show "node_page (own_kind (Fork j (s1 # ls) (t # us))) (Fork j (s1 # ls) (t # us)) py'"
      using py'(2) py(2) by auto
  qed (rule t6(3))
  ultimately show ?thesis by blast
qed

lemma inner_from_right:
  assumes len: "length X = length K" "length Y = length R"
    and e: "edited n s0 s v" and room: "log_room (n + 3) s0"
    and x: "v i = Some px" "node_page Internal (Fork i ks ts) px" "length ks < 203"
    and y: "v j = Some py" "node_page Internal (Fork j (k # ls) (u # us)) py"
    and pq: "v q = Some pq" "page_with ty False (zip (K @ s1 # R) (X @ i # j # Y)) ptr pq"
    and ne: "i \<noteq> j" "i \<noteq> q" "j \<noteq> q" and hdr: "ih_page_ty hdr = Internal"
    and keys: "sorted_wrt (<) (ks @ [s1])" "sorted_wrt (<) (K @ k # R)"
  shows "\<exists>s'. redistribute_from_right txn i j q (length K) hdr s = (Inr (), s') \<and>
    repaged (n + 3) s0 s' v (Fork i (ks @ [s1]) (ts @ [u])) (Fork j ls us) q ty (zip (K @ k # R) (X @ i # j # Y)) ptr"
proof -
  let ?c = "last (map tid ts)" and ?new = "zip (ks @ [s1]) (map tid (ts @ [u]))"
  let ?put = "andthen (reads page_header) (\<lambda>hdr. andthen (add_cell s1 (ih_ptr hdr)) (\<lambda>_. set_header_ptr (tid u)))"
  have px: "page_with Internal False (zip ks (map tid ts)) ?c px" "length ts = Suc (length ks)"
    and py: "page_with Internal False (zip (k # ls) (map tid (u # us))) (last (map tid (u # us))) py"
      "length us = Suc (length ls)"
    using x(2) y(2) by simp_all
  then have last_us: "last (map tid (u # us)) = last (map tid us)" by auto
  have new: "insert_cell s1 ?c (zip ks (map tid ts)) = ?new"
  proof -
    have split: "map tid ts = butlast (map tid ts) @ [?c]" using px(2) by (cases ts rule: rev_cases) auto
    have "zip ks (map tid ts) = zip ks (butlast (map tid ts))"
      using px(2) by (subst split) (simp add: zip_append2)
    then have "zip ks (map tid ts) @ [(s1, ?c)] = zip (ks @ [s1]) ((butlast (map tid ts) @ [?c]) @ [tid u])"
      using px(2) by simp
    moreover have "insert_cell s1 ?c (zip ks (map tid ts)) = zip ks (map tid ts) @ [(s1, ?c)]"
      using keys(1) by (intro insert_cell_last) (auto simp: sorted_wrt_append dest: set_zip_leftD)
    ultimately show ?thesis using split by simp
  qed
  have fresh: "s1 \<notin> fst ` set (zip ks (map tid ts))"
    using keys(1) by (auto simp: sorted_wrt_append dest: set_zip_leftD)
  obtain px1 where px1: "add_cell s1 ?c px = (Inr (Suc (length (zip ks (map tid ts)))), px1)"
    "page_with Internal False ?new ?c px1"
    using add_edit [OF px(1) _ fresh, of ?c] x(3) px(2) unfolding new by auto
  obtain px' where px': "set_header_ptr (tid u) px1 = (Inr (), px')" "page_with Internal False ?new (tid u) px'"
    using set_ptr_edit [OF px1(2)] by blast
  obtain h where h: "page_header px = Inr h" "ih_ptr h = ?c" using page_with_read(1) [OF px(1)] by blast
  have put: "?put px = (Inr (), px')" using h px1(1) px'(1) by (simp add: run_simps)
  obtain py' where py': "remove_cell_at 0 py = (Inr (cell_of False (k, tid u)), py')"
    "page_with Internal False (zip ls (map tid us)) (last (map tid us)) py'"
    using remove_edit [OF py(1), of 0] unfolding last_us by auto
  have r: "log_room (Suc n) s0" "log_room (Suc (Suc n)) s0" "log_room (Suc (Suc (Suc n))) s0"
    using wal_room_mono [OF room] by simp_all
  obtain t1 where t1: "t_fetch j s = (Inr py, t1)" "edited n s0 t1 v" using fetch_edit [OF e y(1)] by blast
  obtain t2 where t2: "t_with_page j (remove_cell_at 0) t1 = (Inr (cell_of False (k, tid u)), t2)"
    "edited n s0 t2 (v(j \<mapsto> py'))"
    using with_page_edit [where body = "remove_cell_at 0", OF t1(2) y(1) py'(1) page_with_length [OF py'(2)]] by blast
  obtain t3 where t3: "t_fetch j t2 = (Inr py', t3)" "edited n s0 t3 (v(j \<mapsto> py'))"
    using fetch_edit [OF t2(2), of j py'] by auto
  obtain t4 where t4: "t_log_diff txn j py py' t3 = (Inr (), t4)" "edited (Suc n) s0 t4 (v(j \<mapsto> py'))"
    using log_edit [OF t3(2) r(1) page_with_length [OF py(1)] page_with_length [OF py'(2)]] by blast
  obtain t5 where t5: "t_fetch q t4 = (Inr pq, t5)" "edited (Suc n) s0 t5 (v(j \<mapsto> py'))"
    using fetch_edit [OF t4(2), of q pq] pq(1) ne by auto
  have vi: "(v(j \<mapsto> py')) i = Some px" using x(1) ne by simp
  obtain t6 where t6: "rewrite_page_refetch txn i ?put t5 = (Inr (), t6)"
    "edited (Suc (Suc n)) s0 t6 (v(j \<mapsto> py', i \<mapsto> px'))"
    using rewrite_edit(2) [where body = ?put, OF t5(2) r(2) vi page_with_length [OF px(1)] put page_with_length [OF px'(2)]] by blast
  have vq: "(v(j \<mapsto> py', i \<mapsto> px')) q = Some pq" using pq(1) ne by simp
  obtain t7 pq' where t7: "replace_separator txn q (length K) k i t6 = (Inr (), t7)"
    "edited (Suc (Suc (Suc n))) s0 t7 (v(j \<mapsto> py', i \<mapsto> px', q \<mapsto> pq'))"
    "page_with ty False (zip (K @ k # R) (X @ i # j # Y)) ptr pq'"
    using replace_separator_run [OF t6(2) r(3) vq pq(2) len keys(2)] by blast
  have "redistribute_from_right txn i j q (length K) hdr s = (Inr (), t7)"
    using t1(1) t2(1) t3(1) t4(1) t5(1) t6(1) t7(1) hdr page_with_read(2) [OF pq(2)]
      parent_separator [OF pq(2) len(1)]
    by (simp add: redistribute_from_right_def run_simps Let_def cell_of_def)
  moreover have "repaged (n + 3) s0 t7 v (Fork i (ks @ [s1]) (ts @ [u])) (Fork j ls us) q ty
      (zip (K @ k # R) (X @ i # j # Y)) ptr"
  proof (rule repagedI)
    show "edited (n + 3) s0 t7 (v(j \<mapsto> py', i \<mapsto> px', q \<mapsto> pq'))" using t7(2) by (simp add: eval_nat_numeral)
    show "v(j \<mapsto> py', i \<mapsto> px', q \<mapsto> pq') =
        v(tid (Fork i (ks @ [s1]) (ts @ [u])) \<mapsto> px', tid (Fork j ls us) \<mapsto> py', q \<mapsto> pq')"
      using ne by (auto simp: fun_eq_iff)
    show "node_page (own_kind (Fork i (ks @ [s1]) (ts @ [u]))) (Fork i (ks @ [s1]) (ts @ [u])) px'"
      using px'(2) px(2) by simp
    show "node_page (own_kind (Fork j ls us)) (Fork j ls us) py'" using py'(2) py(2) by simp
  qed (rule t7(3))
  ultimately show ?thesis by blast
qed


section \<open>Merging\<close>

text \<open>The new page of the joined node and the parent's page.\<close>

definition merged :: "nat \<Rightarrow> bplus_tree \<Rightarrow> bplus_tree \<Rightarrow> (u64 \<Rightarrow> bytes option) \<Rightarrow> tree \<Rightarrow> u64 \<Rightarrow>
    page_kind \<Rightarrow> (u64 \<times> u64) list \<Rightarrow> u64 \<Rightarrow> bool" where
  "merged n s0 s v z q ty kvs ptr \<longleftrightarrow> (\<exists>pz pq. node_page (own_kind z) z pz \<and> kind_clear pz \<and>
     page_with ty False kvs ptr pq \<and> edited n s0 s (v(tid z \<mapsto> pz, q \<mapsto> pq)))"

lemma fix_all:
  assumes "length X = length K" and "length Y = length R" and "distinct (X @ i # j # Y)"
  shows "map (\<lambda>c. if b then fix_child j i c else (fix_child j i c)\<lparr>h_ptr := None\<rparr>)
      (map (cell_of False) (zip K X @ zip R (j # Y))) = map (cell_of False) (zip (K @ R) (X @ i # Y))"
    and "fix_ptr j i (last (X @ i # j # Y)) = last (X @ i # Y)"
proof -
  have fixed: "map (fix_ptr j i) zs = zs" if "j \<notin> set zs" for zs
    using that by (induction zs) (auto simp: fix_ptr_def)
  have cell: "(if b then fix_child j i c else (fix_child j i c)\<lparr>h_ptr := None\<rparr>) =
      cell_of False (fst kv, fix_ptr j i (snd kv))" if "c = cell_of False kv" for c kv
    using that by (simp add: fix_child_cell_of) (simp add: cell_of_def)
  have "map (\<lambda>c. if b then fix_child j i c else (fix_child j i c)\<lparr>h_ptr := None\<rparr>)
      (map (cell_of False) (zip K X @ zip R (j # Y))) =
      map (cell_of False) (map (\<lambda>kv. (fst kv, fix_ptr j i (snd kv))) (zip K X @ zip R (j # Y)))"
    by (simp add: cell)
  also have "map (\<lambda>kv. (fst kv, fix_ptr j i (snd kv))) (zip K X @ zip R (j # Y)) =
      zip K (map (fix_ptr j i) X) @ zip R (map (fix_ptr j i) (j # Y))"
    by (simp only: map_append zip_map2 split_def)
  also have "\<dots> = zip (K @ R) (X @ i # Y)"
    using assms fixed [of X] fixed [of Y] by (simp add: fix_ptr_def)
  finally show "map (\<lambda>c. if b then fix_child j i c else (fix_child j i c)\<lparr>h_ptr := None\<rparr>)
      (map (cell_of False) (zip K X @ zip R (j # Y))) = map (cell_of False) (zip (K @ R) (X @ i # Y))" .
  show "fix_ptr j i (last (X @ i # j # Y)) = last (X @ i # Y)"
    using assms(3) by (cases Y rule: rev_cases) (auto simp: fix_ptr_def)
qed

lemma unlink_run:
  assumes e: "edited n s0 s v" and room: "log_room (Suc n) s0" and q: "v q = Some pq"
    and p: "page_with ty False (zip (K @ s1 # R) (X @ i # j # Y)) (last (X @ i # j # Y)) pq"
    and len: "length X = length K" "length Y = length R" and dist: "distinct (X @ i # j # Y)"
  shows "\<exists>s' pq'. unlink_parent txn q (length K) j i b s = (Inr (), s') \<and>
    edited (Suc n) s0 s' (v(q \<mapsto> pq')) \<and> page_with ty False (zip (K @ R) (X @ i # Y)) (last (X @ i # Y)) pq'"
proof -
  let ?kvs = "zip (K @ s1 # R) (X @ i # j # Y)" and ?fix = "\<lambda>c. if b then fix_child j i c else (fix_child j i c)\<lparr>h_ptr := None\<rparr>"
  let ?body = "andthen (remove_cell_at (length K)) (\<lambda>_. andthen (reads page_header) (\<lambda>h.
      andthen (reads get_cells) (\<lambda>cells. rebuild_from_cells (map ?fix cells) (ih_page_ty h) q (fix_ptr j i (ih_ptr h)))))"
  have idx: "length K < length ?kvs" and n: "length ?kvs \<le> 203" using page_with_bound [OF p] len by simp_all
  obtain p1 where p1: "remove_cell_at (length K) pq = (Inr (cell_of False (?kvs ! length K)), p1)"
    "page_with ty False (zip K X @ zip R (j # Y)) (last (X @ i # j # Y)) p1"
    using remove_edit [OF p idx] unfolding take_drop_zip [OF len(1)] by blast
  have keys: "map fst (zip (K @ R) (X @ i # Y)) = map fst (zip K X @ zip R (j # Y))"
    using len by (simp add: map_fst_zip_take)
  have srt: "sorted_wrt (<) (map fst (zip (K @ R) (X @ i # Y)))"
    using page_with_sorted [OF p1(2)] unfolding keys .
  have ty: "False \<longleftrightarrow> ty = Leaf \<or> (ty = Root \<and> ty = Root \<and> False)" using page_with_level(2) [OF p] by auto
  have bound: "length (zip (K @ R) (X @ i # Y)) \<le> 203" using n len by simp
  obtain p2 where p2: "rebuild_from_cells (map (cell_of False) (zip (K @ R) (X @ i # Y))) ty q (last (X @ i # Y)) p1 = (Inr (), p2)"
    "page_with ty False (zip (K @ R) (X @ i # Y)) (last (X @ i # Y)) p2"
    using rebuild_edit [OF p1(2) ty srt, of q "last (X @ i # Y)"] bound by auto
  obtain h where h: "page_header p1 = Inr h" "ih_page_ty h = ty" "ih_ptr h = last (X @ i # j # Y)"
    using page_with_read(1) [OF p1(2)] by blast
  have body: "?body pq = (Inr (), p2)"
    using p1(1) h page_with_read(2) [OF p1(2)] p2(1)
    by (simp only: run_simps fix_all [OF len dist] prod.case sum.case)
  show ?thesis
    using rewrite_edit(2) [where body = ?body, OF e room q page_with_length [OF p] body page_with_length [OF p2(2)], of txn] p2(2)
    unfolding unlink_parent_def by blast
qed

lemma merge_leaves:
  assumes len: "length X = length K" "length Y = length R" and dist: "distinct (X @ i # j # Y)"
    and e: "edited n s0 s v" and room: "log_room (n + 2) s0"
    and x: "v i = Some px" "node_page Leaf (Tip i as) px"
    and y: "v j = Some py" "node_page Leaf (Tip j bs) py"
    and pq: "v q = Some pq" "page_with ty False (zip (K @ s1 # R) (X @ i # j # Y)) (last (X @ i # j # Y)) pq"
    and ne: "i \<noteq> q" "j \<noteq> q"
    and ok: "length (as @ bs) \<le> 203" "sorted_wrt (<) (map fst (as @ bs))"
  shows "\<exists>s'. merge_with_left txn i j q (Suc (length K)) s = (Inr (), s') \<and>
      merged (n + 2) s0 s' v (Tip i (as @ bs)) q ty (zip (K @ R) (X @ i # Y)) (last (X @ i # Y))"
    and "\<exists>s'. merge_with_right txn i j q (length K) s = (Inr (), s') \<and>
      merged (n + 2) s0 s' v (Tip i (as @ bs)) q ty (zip (K @ R) (X @ i # Y)) (last (X @ i # Y))"
proof -
  obtain a where px: "page_with Leaf True as a px" using x(2) by auto
  obtain b where py: "page_with Leaf True bs b py" using y(2) by auto
  obtain hx where hx: "page_header px = Inr hx" "ih_page_ty hx = Leaf" using page_with_read(1) [OF px] by blast
  obtain hy where hy: "page_header py = Inr hy" "ih_page_ty hy = Leaf" "ih_ptr hy = b"
    using page_with_read(1) [OF py] by blast
  let ?put = "rebuild_from_cells (map (cell_of True) (as @ bs)) Leaf i b"
  obtain pz where pz: "?put px = (Inr (), pz)" "page_with Leaf True (as @ bs) b pz" "kind_clear pz"
    using rebuild_edit [OF px _ ok(2), of True Leaf i b] ok(1) by auto
  have r: "log_room (Suc n) s0" "log_room (Suc (Suc n)) s0" using wal_room_mono [OF room] by simp_all
  have vq: "(v(i \<mapsto> pz)) q = Some pq" using pq(1) ne by simp
  have finish: "\<exists>t'. unlink_parent txn q (length K) j i True t = (Inr (), t') \<and>
      merged (n + 2) s0 t' v (Tip i (as @ bs)) q ty (zip (K @ R) (X @ i # Y)) (last (X @ i # Y))"
    if t: "edited (Suc n) s0 t (v(i \<mapsto> pz))" for t
  proof -
    obtain t' pq' where t': "unlink_parent txn q (length K) j i True t = (Inr (), t')"
      "edited (Suc (Suc n)) s0 t' (v(i \<mapsto> pz, q \<mapsto> pq'))"
      "page_with ty False (zip (K @ R) (X @ i # Y)) (last (X @ i # Y)) pq'"
      using unlink_run [OF t r(2) vq pq(2) len dist, of txn True] by blast
    then have "merged (n + 2) s0 t' v (Tip i (as @ bs)) q ty (zip (K @ R) (X @ i # Y)) (last (X @ i # Y))"
      unfolding merged_def using pz(2,3) by (intro exI [of _ pz] exI [of _ pq']) (auto simp: eval_nat_numeral)
    then show ?thesis using t'(1) by blast
  qed
  have put: "\<exists>t'. rewrite_page_refetch txn i ?put t = (Inr (), t') \<and> edited (Suc n) s0 t' (v(i \<mapsto> pz))"
    if t: "edited n s0 t v" for t
    by (rule rewrite_edit(2) [where body = ?put, OF t r(1) x(1) page_with_length [OF px] pz(1) page_with_length [OF pz(2)]])
  note cx = page_with_read(2) [OF px] and cy = page_with_read(2) [OF py]
  obtain t1 where t1: "t_fetch j s = (Inr py, t1)" "edited n s0 t1 v" using fetch_edit [OF e y(1)] by blast
  obtain t2 where t2: "t_fetch i t1 = (Inr px, t2)" "edited n s0 t2 v" using fetch_edit [OF t1(2) x(1)] by blast
  obtain t3 where t3: "t_fetch j t2 = (Inr py, t3)" "edited n s0 t3 v" using fetch_edit [OF t2(2) y(1)] by blast
  obtain t4 where t4: "rewrite_page_refetch txn i ?put t3 = (Inr (), t4)" "edited (Suc n) s0 t4 (v(i \<mapsto> pz))"
    using put [OF t3(2)] by blast
  show "\<exists>s'. merge_with_left txn i j q (Suc (length K)) s = (Inr (), s') \<and>
      merged (n + 2) s0 s' v (Tip i (as @ bs)) q ty (zip (K @ R) (X @ i # Y)) (last (X @ i # Y))"
    using finish [OF t4(2)] t1(1) t2(1) t3(1) t4(1) hx hy cx cy
    by (simp add: merge_with_left_def run_simps Let_def)
  obtain u1 where u1: "t_fetch i s = (Inr px, u1)" "edited n s0 u1 v" using fetch_edit [OF e x(1)] by blast
  obtain u2 where u2: "t_fetch i u1 = (Inr px, u2)" "edited n s0 u2 v" using fetch_edit [OF u1(2) x(1)] by blast
  obtain u3 where u3: "t_fetch j u2 = (Inr py, u3)" "edited n s0 u3 v" using fetch_edit [OF u2(2) y(1)] by blast
  obtain u4 where u4: "rewrite_page_refetch txn i ?put u3 = (Inr (), u4)" "edited (Suc n) s0 u4 (v(i \<mapsto> pz))"
    using put [OF u3(2)] by blast
  show "\<exists>s'. merge_with_right txn i j q (length K) s = (Inr (), s') \<and>
      merged (n + 2) s0 s' v (Tip i (as @ bs)) q ty (zip (K @ R) (X @ i # Y)) (last (X @ i # Y))"
    using finish [OF u4(2)] u1(1) u2(1) u3(1) u4(1) hx hy cx cy
    by (simp add: merge_with_right_def run_simps Let_def)
qed

text \<open>Inner pages: 102 and 101 cells with the separator are one too many for a page.\<close>

lemma merge_inners:
  assumes len: "length X = length K" "length Y = length R" and dist: "distinct (X @ i # j # Y)"
    and e: "edited n s0 s v" and room: "log_room (n + 2) s0"
    and x: "v i = Some px" "node_page Internal (Fork i ks ts) px"
    and y: "v j = Some py" "node_page Internal (Fork j ls us) py"
    and pq: "v q = Some pq" "page_with ty False (zip (K @ s1 # R) (X @ i # j # Y)) (last (X @ i # j # Y)) pq"
    and ne: "i \<noteq> q" "j \<noteq> q" and srt: "sorted_wrt (<) (ks @ s1 # ls)"
  defines "z \<equiv> Fork i (ks @ s1 # ls) (ts @ us)"
  shows "\<exists>s'. merge_with_left txn i j q (Suc (length K)) s =
        ((if cells z \<le> 203 then Inr () else Inl (Err ''Page overflow'')), s') \<and>
      (if cells z \<le> 203 then merged (n + 2) s0 s' v z q ty (zip (K @ R) (X @ i # Y)) (last (X @ i # Y))
       else \<exists>v'. edited n s0 s' v')"
    and "\<exists>s'. merge_with_right txn i j q (length K) s =
        ((if cells z \<le> 203 then Inr () else Inl (Err ''Page overflow'')), s') \<and>
      (if cells z \<le> 203 then merged (n + 2) s0 s' v z q ty (zip (K @ R) (X @ i # Y)) (last (X @ i # Y))
       else \<exists>v'. edited n s0 s' v')"
proof -
  let ?new = "zip (ks @ s1 # ls) (map tid (ts @ us))" and ?a = "last (map tid ts)" and ?b = "last (map tid us)"
  let ?cells = "map (cell_of False) (zip ks (map tid ts)) @
      \<lparr>c_key = s1, c_ptr = Some ?a, h_ptr = None\<rparr> # map (cell_of False) (zip ls (map tid us))"
  have px: "page_with Internal False (zip ks (map tid ts)) ?a px" "length ts = Suc (length ks)"
    and py: "page_with Internal False (zip ls (map tid us)) ?b py" "length us = Suc (length ls)"
    using x(2) y(2) by simp_all
  have new: "?cells = map (cell_of False) ?new"
  proof -
    have split: "map tid ts = butlast (map tid ts) @ [?a]" using px(2) by (cases ts rule: rev_cases) auto
    have "zip ks (map tid ts) = zip ks (butlast (map tid ts))"
      using px(2) by (subst split) (simp add: zip_append2)
    then have "zip ks (map tid ts) @ (s1, ?a) # zip ls (map tid us) =
        zip (ks @ s1 # ls) ((butlast (map tid ts) @ [?a]) @ map tid us)"
      using px(2) by simp
    then have "zip ks (map tid ts) @ (s1, ?a) # zip ls (map tid us) = ?new" using split by simp
    then have "map (cell_of False) (zip ks (map tid ts) @ (s1, ?a) # zip ls (map tid us)) =
        map (cell_of False) ?new" by (rule arg_cong)
    moreover have "?cells = map (cell_of False) (zip ks (map tid ts) @ (s1, ?a) # zip ls (map tid us))"
      by (simp add: cell_of_def)
    ultimately show ?thesis by (rule trans [rotated])
  qed
  obtain hx where hx: "page_header px = Inr hx" "ih_page_ty hx = Internal" "ih_ptr hx = ?a"
    using page_with_read(1) [OF px(1)] by blast
  obtain hy where hy: "page_header py = Inr hy" "ih_page_ty hy = Internal" "ih_ptr hy = ?b"
    using page_with_read(1) [OF py(1)] by blast
  have n_new: "length ?new = cells z" using px(2) py(2) by (simp add: z_def)
  have keys: "sorted_wrt (<) (map fst ?new)" using srt px(2) py(2) by (simp add: map_fst_zip_take)
  let ?put = "rebuild_from_cells ?cells Internal i ?b"
  obtain pz where pz: "?put px = ((if cells z \<le> 203 then Inr () else Inl (Err ''Page overflow'')), pz)"
    "page_with Internal False (take 203 ?new) ?b pz" "kind_clear pz"
    using rebuild_edit [OF px(1) _ keys, of False Internal i ?b] unfolding new n_new by auto
  have node: "node_page (own_kind z) z pz" if "cells z \<le> 203"
    using pz(2) that px(2) py(2) n_new by (cases "us = []") (auto simp: z_def)
  have r: "log_room (Suc n) s0" "log_room (Suc (Suc n)) s0" using wal_room_mono [OF room] by simp_all
  have vq: "(v(i \<mapsto> pz)) q = Some pq" using pq(1) ne by simp
  have put: "\<exists>t'. andthen (rewrite_page_refetch txn i ?put) (\<lambda>_. unlink_parent txn q (length K) j i False) t =
        ((if cells z \<le> 203 then Inr () else Inl (Err ''Page overflow'')), t') \<and>
      (if cells z \<le> 203 then merged (n + 2) s0 t' v z q ty (zip (K @ R) (X @ i # Y)) (last (X @ i # Y))
       else \<exists>v'. edited n s0 t' v')" if t: "edited n s0 t v" for t
  proof (cases "cells z \<le> 203")
    case True
    then have "?put px = (Inr (), pz)" using pz(1) by simp
    from rewrite_edit(2) [where body = ?put, OF t r(1) x(1) page_with_length [OF px(1)] this page_with_length [OF pz(2)]]
    obtain t1 where t1: "rewrite_page_refetch txn i ?put t = (Inr (), t1)" "edited (Suc n) s0 t1 (v(i \<mapsto> pz))"
      by blast
    obtain t2 pq' where t2: "unlink_parent txn q (length K) j i False t1 = (Inr (), t2)"
      "edited (Suc (Suc n)) s0 t2 (v(i \<mapsto> pz, q \<mapsto> pq'))"
      "page_with ty False (zip (K @ R) (X @ i # Y)) (last (X @ i # Y)) pq'"
      using unlink_run [OF t1(2) r(2) vq pq(2) len dist, of txn False] by blast
    have "merged (n + 2) s0 t2 v z q ty (zip (K @ R) (X @ i # Y)) (last (X @ i # Y))"
      unfolding merged_def using node [OF True] pz(3) t2(2,3)
      by (intro exI [of _ pz] exI [of _ pq']) (simp add: z_def eval_nat_numeral)
    then show ?thesis using t1(1) t2(1) True by (simp add: andthen_def)
  next
    case False
    then have "?put px = (Inl (Err ''Page overflow''), pz)" using pz(1) by simp
    from rewrite_fails [where body = ?put, OF t x(1) this page_with_length [OF pz(2)]]
    obtain t' where "rewrite_page_refetch txn i ?put t = (Inl (Err ''Page overflow''), t')"
      "edited n s0 t' (v(i \<mapsto> pz))" by blast
    then show ?thesis using False by (intro exI [of _ t']) (auto simp: andthen_def)
  qed
  note cx = page_with_read(2) [OF px(1)] and cy = page_with_read(2) [OF py(1)] and cq = page_with_read(2) [OF pq(2)]
  note sep = parent_separator [OF pq(2) len(1)]
  obtain t1 where t1: "t_fetch j s = (Inr py, t1)" "edited n s0 t1 v" using fetch_edit [OF e y(1)] by blast
  obtain t2 where t2: "t_fetch i t1 = (Inr px, t2)" "edited n s0 t2 v" using fetch_edit [OF t1(2) x(1)] by blast
  obtain t3 where t3: "t_fetch j t2 = (Inr py, t3)" "edited n s0 t3 v" using fetch_edit [OF t2(2) y(1)] by blast
  obtain t4 where t4: "t_fetch q t3 = (Inr pq, t4)" "edited n s0 t4 v" using fetch_edit [OF t3(2) pq(1)] by blast
  have "merge_with_left txn i j q (Suc (length K)) s =
      andthen (rewrite_page_refetch txn i ?put) (\<lambda>_. unlink_parent txn q (length K) j i False) t4"
    using t1(1) t2(1) t3(1) t4(1) hx hy cx cy cq sep
    by (simp add: merge_with_left_def andthen_Inr [where p = "t_fetch _"] run_simps Let_def)
  then show "\<exists>s'. merge_with_left txn i j q (Suc (length K)) s =
        ((if cells z \<le> 203 then Inr () else Inl (Err ''Page overflow'')), s') \<and>
      (if cells z \<le> 203 then merged (n + 2) s0 s' v z q ty (zip (K @ R) (X @ i # Y)) (last (X @ i # Y))
       else \<exists>v'. edited n s0 s' v')"
    using put [OF t4(2)] by simp
  obtain u1 where u1: "t_fetch i s = (Inr px, u1)" "edited n s0 u1 v" using fetch_edit [OF e x(1)] by blast
  obtain u2 where u2: "t_fetch i u1 = (Inr px, u2)" "edited n s0 u2 v" using fetch_edit [OF u1(2) x(1)] by blast
  obtain u3 where u3: "t_fetch j u2 = (Inr py, u3)" "edited n s0 u3 v" using fetch_edit [OF u2(2) y(1)] by blast
  obtain u4 where u4: "t_fetch q u3 = (Inr pq, u4)" "edited n s0 u4 v" using fetch_edit [OF u3(2) pq(1)] by blast
  have "merge_with_right txn i j q (length K) s =
      andthen (rewrite_page_refetch txn i ?put) (\<lambda>_. unlink_parent txn q (length K) j i False) u4"
    using u1(1) u2(1) u3(1) u4(1) hx hy cx cy cq sep
    by (simp add: merge_with_right_def run_simps Let_def)
  then show "\<exists>s'. merge_with_right txn i j q (length K) s =
        ((if cells z \<le> 203 then Inr () else Inl (Err ''Page overflow'')), s') \<and>
      (if cells z \<le> 203 then merged (n + 2) s0 s' v z q ty (zip (K @ R) (X @ i # Y)) (last (X @ i # Y))
       else \<exists>v'. edited n s0 s' v')"
    using put [OF u4(2)] by simp
qed

end
