(* ===== verification/Tree_Shrink.thy ===== *)
theory Tree_Shrink
  imports Tree_Balance
begin

text \<open>
  \<open>handle_underfull\<close>: a page that has become too small borrows a cell from a neighbour or is merged
  with it; a merge takes a separator out of the parent, which may then be too small itself, up to the
  root, which is given up when it has a single child left.
\<close>

section \<open>The siblings of a page\<close>

lemma find_siblings_pair:
  assumes len: "length X = length lks" "length Y = length rks" and dist: "distinct (X @ u # Y)"
    and ptr: "ih_ptr h = last (X @ u # Y)"
  shows "find_siblings u (map (cell_of False) (zip (lks @ rks) (X @ u # Y))) h =
    \<lparr>child_idx = length X, left_sib = (if X = [] then None else Some (last X)),
     right_sib = (case Y of [] \<Rightarrow> None | y # _ \<Rightarrow> Some y)\<rparr>"
proof -
  define C where "C = map (cell_of False) (zip (lks @ rks) (X @ u # Y))"
  have n: "length C = length X + length Y" using len by (simp add: C_def)
  have child: "c_ptr (C ! m) = Some ((X @ u # Y) ! m)" if "m < length X + length Y" for m
  proof -
    have "length (lks @ rks) = length X + length Y" "length X + length Y \<le> length (X @ u # Y)" using len by simp_all
    then have "C ! m = cell_of False ((lks @ rks) ! m, (X @ u # Y) ! m)"
      using that by (simp only: C_def nth_map nth_zip length_zip min_def if_True less_le_trans)
    then show ?thesis by (simp add: cell_of_def)
  qed
  have idx: "length (takeWhile (\<lambda>c. c_ptr c \<noteq> Some u) C) = length X"
  proof (rule takeWhile_length)
    show "length X \<le> length C" using n by simp
    show "c_ptr (C ! m) \<noteq> Some u" if "m < length X" for m
      using child [of m] that dist by (auto simp: nth_append)
    show "\<not> c_ptr (C ! length X) \<noteq> Some u" if "length X < length C"
      using child [of "length X"] that n by simp
  qed
  have left: "c_ptr (C ! (length X - 1)) = Some (last X)" if "X \<noteq> []"
  proof -
    have "length X - 1 < length X + length Y" using that by (cases X) simp_all
    moreover have "(X @ u # Y) ! (length X - 1) = last X" using that by (simp add: nth_append last_conv_nth)
    ultimately show ?thesis using child [of "length X - 1"] by (simp only:)
  qed
  have "find_siblings u C h = \<lparr>child_idx = length X, left_sib = (if X = [] then None else Some (last X)),
     right_sib = (case Y of [] \<Rightarrow> None | y # _ \<Rightarrow> Some y)\<rparr>"
  proof (cases Y)
    case Nil
    then have nX: "length C = length X" using n by simp
    then have "C = [] \<longleftrightarrow> X = []" by (metis length_0_conv)
    moreover have "last C = C ! (length X - 1)" if "X \<noteq> []" using nX that last_conv_nth [of C] by (metis length_0_conv)
    ultimately show ?thesis using idx nX ptr Nil left by (simp add: find_siblings_def Let_def)
  next
    case (Cons y Y')
    have "length X < length C" using n Cons by simp
    moreover have "c_ptr (C ! (length X + 1)) = Some y" if "length X + 1 < length C"
      using child [of "length X + 1"] that n Cons by (simp add: nth_append)
    moreover have "ih_ptr h = y" if "\<not> length X + 1 < length C"
      using that n ptr Cons by (cases Y') simp_all
    ultimately show ?thesis
      using idx left Cons by (auto simp: find_siblings_def Let_def)
  qed
  then show ?thesis by (simp add: C_def)
qed


section \<open>The tree after a change of two neighbours\<close>

text \<open>
  The state \<open>s'\<close> holds the tree \<open>T'\<close> in place of \<open>T\<close>: the same keys and values, no more pages and at
  most one level less.
\<close>

definition reshaped :: "nat \<Rightarrow> bplus_tree \<Rightarrow> tree \<Rightarrow> bplus_tree \<Rightarrow> tree \<Rightarrow> bool" where
  "reshaped n s T s' T' \<longleftrightarrow> holds_tree 203 s' T' \<and> root_id s' = tid T' \<and>
     content (items T') = content (items T) \<and>
     (\<forall>h. level h T \<longrightarrow> level h T' \<or> (\<exists>h'. h = Suc h' \<and> level h' T')) \<and>
     kept n s (s'\<lparr>root_id := root_id s\<rparr>) \<and> inext s' = inext s"

lemma ids_kids: "ids t = tid t # concat (map ids (kids t))"
  by (cases t) simp_all

lemma stored_kids: "stored v t \<Longrightarrow> list_all (stored v) (kids t)"
  by (cases t) simp_all

lemma stored_fill_two: "stored v (fill_two f x s y) \<longleftrightarrow>
    at_inner v (fr_id f) (fr_lks f @ s # fr_rks f) (map tid (fr_lts f) @ tid x # tid y # map tid (fr_rts f)) \<and>
    list_all (stored v) (fr_lts f) \<and> stored v x \<and> stored v y \<and> list_all (stored v) (fr_rts f)"
  by (auto simp: fill_two_def)

lemma tid_plug_cases: "tid (plug c t) = tid t \<or> tid (plug c t) \<in> set (concat (map frame_ids c))"
proof (induction c arbitrary: t)
  case (Cons f c)
  show ?case using Cons.IH [of "fill f t"] by (auto simp: frame_ids_def)
qed simp

lemma below_root:
  assumes "distinct (ids (plug c t))" and "i \<in> set (ids t)" and "i \<noteq> tid t"
  shows "i \<noteq> tid (plug c t)"
  using assms tid_plug_cases [of c t] by (auto simp: distinct_ids_plug)

text \<open>Only the pages of the two neighbours and of their parent have changed.\<close>

lemma stored_pair:
  assumes st: "stored v (plug c (fill_two f x s y))" and dist: "distinct (ids (plug c (fill_two f x s y)))"
    and same: "\<And>i. i \<noteq> fr_id f \<Longrightarrow> i \<noteq> tid x \<Longrightarrow> i \<noteq> tid y \<Longrightarrow> v' i = v i"
  shows "list_all (stored v') (kids x)" and "list_all (stored v') (kids y)"
    and "list_all (stored v') (fr_lts f)" and "list_all (stored v') (fr_rts f)"
    and "stored_ctx v' (fr_id f) c"
proof -
  have st': "stored_ctx v (fr_id f) c" "stored v x" "stored v y" "list_all (stored v) (fr_lts f)"
    "list_all (stored v) (fr_rts f)"
    using st by (simp_all add: stored_plug stored_fill_two)
  let ?here = "ids x @ ids y @ concat (map ids (fr_lts f)) @ concat (map ids (fr_rts f))"
  have m: "mset (ids (plug c (fill_two f x s y))) = mset (fr_id f # ?here @ concat (map frame_ids c))"
    by (simp add: mset_ids_plug mset_ids_fill_two frame_ids_def)
  have d: "distinct (fr_id f # ?here @ concat (map frame_ids c))"
    using mset_eq_imp_distinct_iff [OF m] dist by blast
  have dx: "distinct (ids x)" and dy: "distinct (ids y)" using d by simp_all
  have keep: "list_all (stored v') us"
    if "list_all (stored v) us" "set (concat (map ids us)) \<inter> {fr_id f, tid x, tid y} = {}" for us
    unfolding list_all_iff
  proof
    fix u assume u: "u \<in> set us"
    have "v' i = v i" if "i \<in> set (ids u)" for i
    proof (rule same)
      have "i \<in> set (concat (map ids us))" using u that by auto
      then have "i \<notin> {fr_id f, tid x, tid y}" using \<open>_ \<inter> _ = {}\<close> by blast
      then show "i \<noteq> fr_id f" "i \<noteq> tid x" "i \<noteq> tid y" by simp_all
    qed
    moreover have "stored v u" using that(1) u by (simp add: list_all_iff)
    ultimately show "stored v' u" by (rule stored_cong [rotated])
  qed
  let ?sub = "\<lambda>us. set (concat (map ids us))"
  have in_x: "set (ids x) = insert (tid x) (?sub (kids x))" "tid x \<notin> ?sub (kids x)"
    and in_y: "set (ids y) = insert (tid y) (?sub (kids y))" "tid y \<notin> ?sub (kids y)"
    using dx dy ids_kids [of x] ids_kids [of y] by (metis list.simps(15), metis distinct.simps(2))+
  let ?all = "set (ids x) \<union> set (ids y) \<union> ?sub (fr_lts f) \<union> ?sub (fr_rts f)"
  have apart: "fr_id f \<notin> ?all" "set (ids x) \<inter> (set (ids y) \<union> ?sub (fr_lts f) \<union> ?sub (fr_rts f)) = {}"
    "set (ids y) \<inter> (?sub (fr_lts f) \<union> ?sub (fr_rts f)) = {}"
    "insert (fr_id f) ?all \<inter> set (concat (map frame_ids c)) = {}"
    using d by (auto simp del: set_concat)
  note mem = tid_in_ids [of x] tid_in_ids [of y]
  show "list_all (stored v') (kids x)"
  proof (rule keep [OF stored_kids [OF st'(2)]])
    show "?sub (kids x) \<inter> {fr_id f, tid x, tid y} = {}" using apart(1,2) in_x in_y by blast
  qed
  show "list_all (stored v') (kids y)"
  proof (rule keep [OF stored_kids [OF st'(3)]])
    show "?sub (kids y) \<inter> {fr_id f, tid x, tid y} = {}" using apart(1,2) in_x in_y by blast
  qed
  show "list_all (stored v') (fr_lts f)"
  proof (rule keep [OF st'(4)])
    show "?sub (fr_lts f) \<inter> {fr_id f, tid x, tid y} = {}" using apart mem by blast
  qed
  show "list_all (stored v') (fr_rts f)"
  proof (rule keep [OF st'(5)])
    show "?sub (fr_rts f) \<inter> {fr_id f, tid x, tid y} = {}" using apart mem by blast
  qed
  show "stored_ctx v' (fr_id f) c"
  proof (rule stored_ctx_cong [OF st'(1)])
    fix i assume "i \<in> set (concat (map frame_ids c))"
    then have "i \<notin> insert (fr_id f) ?all" using apart(4) by blast
    then show "v' i = v i" using mem by (intro same) blast+
  qed
qed


text \<open>The tree of the state with a hole for two neighbours, \<open>x\<close> and \<open>y\<close> with the separator \<open>k\<close>.\<close>

definition neighbours :: "bplus_tree \<Rightarrow> frame list \<Rightarrow> frame \<Rightarrow> tree \<Rightarrow> u64 \<Rightarrow> tree \<Rightarrow> bool" where
  "neighbours s c f x k y \<longleftrightarrow> holds_tree 203 s (plug c (fill_two f x k y)) \<and>
     root_id s = tid (plug c (fill_two f x k y)) \<and> list_all (frame_fits 203) c \<and> frame_fits 203 f \<and>
     length (fr_lks f @ fr_rks f) < 203 \<and> fits 203 x \<and> fits 203 y \<and> (\<exists>m. level m x \<and> level m y)"

abbreviation sibling_ids :: "frame \<Rightarrow> u64 list \<Rightarrow> u64 list" where
  "sibling_ids f is \<equiv> map tid (fr_lts f) @ is @ map tid (fr_rts f)"

lemma fits_fill_two: "frame_fits n f \<Longrightarrow> length (fr_lks f @ fr_rks f) < n \<Longrightarrow> fits n x \<Longrightarrow> fits n y \<Longrightarrow>
   fits n (fill_two f x k y)"
  by (auto simp: frame_fits_def fill_two_def)

lemma neighbours_distinct:
  assumes "neighbours s c f x k y"
  shows "tid x \<noteq> tid y" and "tid x \<noteq> fr_id f" and "tid y \<noteq> fr_id f"
    and "distinct (sibling_ids f [tid x, tid y])" and "tid x \<noteq> root_id s" and "tid y \<noteq> root_id s"
proof -
  let ?t = "fill_two f x k y"
  have d: "distinct (ids (plug c ?t))" and root: "root_id s = tid (plug c ?t)"
    using assms by (simp_all add: neighbours_def holds_tree_def)
  then have dt: "distinct (ids ?t)" unfolding distinct_ids_plug by simp
  then have "distinct (map tid (fr_lts f @ x # y # fr_rts f))"
    by (intro distinct_tids) (simp add: fill_two_def)
  then show "distinct (sibling_ids f [tid x, tid y])" by simp
  then show "tid x \<noteq> tid y" by simp
  have x: "tid x \<in> set (ids ?t)" and y: "tid y \<in> set (ids ?t)" by (simp_all add: fill_two_def)
  have "fr_id f \<notin> set (ids x) \<union> set (ids y)" using dt by (simp add: fill_two_def)
  then show ne: "tid x \<noteq> fr_id f" "tid y \<noteq> fr_id f" by (metis UnI1 UnI2 tid_in_ids)+
  show "tid x \<noteq> root_id s" "tid y \<noteq> root_id s"
    using below_root [OF d x] below_root [OF d y] ne root by simp_all
qed

lemma neighbours_pages:
  assumes nb: "neighbours s c f x k y"
  shows "\<exists>p. iview s (tid x) = Some p \<and> node_page (own_kind x) x p"
    and "\<exists>p. iview s (tid y) = Some p \<and> node_page (own_kind y) y p"
    and "\<exists>p ty. iview s (fr_id f) = Some p \<and> kind_of (iview s) (fr_id f) = Some ty \<and>
      page_with ty False (zip (fr_lks f @ k # fr_rks f) (sibling_ids f [tid x, tid y]))
        (last (sibling_ids f [tid x, tid y])) p"
proof -
  let ?T = "plug c (fill_two f x k y)"
  have st: "stored (iview s) x" "stored (iview s) y" "stored (iview s) (fill_two f x k y)"
    and kd: "kinds (iview s) ?T" and root: "root_id s = tid ?T"
    using nb by (simp_all add: neighbours_def holds_tree_def stored_plug stored_fill_two)
  have "tid x \<in> set (ids ?T)" "tid y \<in> set (ids ?T)" by (simp_all add: set_ids_plug fill_two_def)
  then have "kind_of (iview s) (tid x) \<noteq> Some Root" "kind_of (iview s) (tid y) \<noteq> Some Root"
    using kd root neighbours_distinct(5,6) [OF nb] by (simp_all add: kinds_def)
  then show "\<exists>p. iview s (tid x) = Some p \<and> node_page (own_kind x) x p"
    and "\<exists>p. iview s (tid y) = Some p \<and> node_page (own_kind y) y p"
    using stored_node [OF st(1)] stored_node [OF st(2)] by blast+
  obtain p ty where p: "iview s (fr_id f) = Some p" "node_page ty (fill_two f x k y) p"
    using stored_node [OF st(3)] by auto
  moreover have "kind_of (iview s) (fr_id f) = Some ty"
    using node_page_kind [of "iview s" "fill_two f x k y", OF _ p(2)] p(1) by simp
  ultimately show "\<exists>p ty. iview s (fr_id f) = Some p \<and> kind_of (iview s) (fr_id f) = Some ty \<and>
      page_with ty False (zip (fr_lks f @ k # fr_rks f) (sibling_ids f [tid x, tid y]))
        (last (sibling_ids f [tid x, tid y])) p"
    by (auto simp: fill_two_def)
qed

lemma kinds_transfer:
  assumes "kinds v T" and "tid T' = tid T" and "set (ids T') \<subseteq> set (ids T)"
    and "\<And>i. i \<in> set (ids T') \<Longrightarrow> kind_of v' i = Some Root \<longleftrightarrow> kind_of v i = Some Root"
  shows "kinds v' T'"
  using assms by (auto simp: kinds_def)

lemma own_kind_root [simp]: "own_kind t \<noteq> Root"
  by (cases t) simp_all

lemma pair_kinds:
  assumes nb: "neighbours s c f x k y"
    and U: "tid U = root_id s" "set (ids U) \<subseteq> set (ids (plug c (fill_two f x k y)))"
    and same: "\<And>i. i \<noteq> fr_id f \<Longrightarrow> i \<noteq> tid x \<Longrightarrow> i \<noteq> tid y \<Longrightarrow> v' i = iview s i"
    and parent: "kind_of v' (fr_id f) = kind_of (iview s) (fr_id f)"
    and pair: "kind_of v' (tid x) \<noteq> Some Root" "tid y \<in> set (ids U) \<Longrightarrow> kind_of v' (tid y) \<noteq> Some Root"
  shows "kinds v' U"
proof -
  let ?T = "plug c (fill_two f x k y)"
  have kd: "kinds (iview s) ?T" and root: "root_id s = tid ?T"
    using nb by (simp_all add: neighbours_def holds_tree_def)
  have "tid x \<in> set (ids ?T)" "tid y \<in> set (ids ?T)" by (simp_all add: set_ids_plug fill_two_def)
  then have low: "kind_of (iview s) (tid x) \<noteq> Some Root" "kind_of (iview s) (tid y) \<noteq> Some Root"
    using kd root neighbours_distinct(5,6) [OF nb] by (simp_all add: kinds_def)
  have tid: "tid U = tid ?T" using U(1) root by simp
  show ?thesis
  proof (rule kinds_transfer [OF kd tid U(2)])
    fix i assume i: "i \<in> set (ids U)"
    show "kind_of v' i = Some Root \<longleftrightarrow> kind_of (iview s) i = Some Root"
    proof (cases "i = fr_id f \<or> i = tid x \<or> i = tid y")
      case True
      then show ?thesis using low parent pair i by auto
    next
      case False
      then show ?thesis using kind_of_cong [of v' i "iview s"] same [of i] by auto
    qed
  qed
qed

text \<open>The shifted pair in its tree.\<close>

lemma repaged_tree:
  assumes nb: "neighbours s c f x k y" and sh: "shift x k y x' k' y'"
    and re: "repaged n s s' (iview s) x' y' (fr_id f) ty (zip (fr_lks f @ k' # fr_rks f)
      (sibling_ids f [tid x, tid y])) (last (sibling_ids f [tid x, tid y]))"
    and ty: "kind_of (iview s) (fr_id f) = Some ty" and size: "cells x' \<le> 203" "cells y' \<le> 203"
  shows "reshaped n s (plug c (fill_two f x k y)) s' (plug c (fill_two f x' k' y'))"
proof -
  let ?T = "plug c (fill_two f x k y)" and ?U = "plug c (fill_two f x' k' y')"
  obtain px py pq where pg: "node_page (own_kind x') x' px" "node_page (own_kind y') y' py"
    "page_with ty False (zip (fr_lks f @ k' # fr_rks f) (sibling_ids f [tid x, tid y]))
      (last (sibling_ids f [tid x, tid y])) pq"
    "edited n s s' ((iview s)(tid x' \<mapsto> px, tid y' \<mapsto> py, fr_id f \<mapsto> pq))"
    using re by (auto simp: repaged_def)
  note h = nb [unfolded neighbours_def] and ne = neighbours_distinct [OF nb]
  have ids: "tid x' = tid x" "tid y' = tid y" using tid_shift [OF sh] by simp_all
  have v: "iview s' = (iview s)(tid x \<mapsto> px, tid y \<mapsto> py, fr_id f \<mapsto> pq)" and k: "kept n s s'" "inext s' = inext s"
    using pg(4) ids by (simp_all add: edited_def)
  have tree: "stored (iview s) ?T" "fits 203 ?T" "sorted_items (items ?T)" "distinct (ids ?T)" "kinds (iview s) ?T"
    using h by (simp_all add: holds_tree_def)
  have fc: "list_all (frame_fits 203) c" and ff: "frame_fits 203 f" "length (fr_lks f @ fr_rks f) < 203"
    using h by simp_all
  note plug = shift_plug [OF sh fc ff(1) tree(3,4)]
  have at: "iview s' (tid x') = Some px" "iview s' (tid y') = Some py" "iview s' (fr_id f) = Some pq"
    using v ids ne by simp_all
  have same: "iview s' i = iview s i" if "i \<noteq> fr_id f" "i \<noteq> tid x" "i \<noteq> tid y" for i
    using v that by simp
  note parts = stored_pair [OF tree(1,4), of "iview s'", OF same]
  have sub: "list_all (stored (iview s')) (kids x')" "list_all (stored (iview s')) (kids y')"
    using parts(1,2) kids_shift [OF sh] by (auto simp: list_all_iff)
  have "stored (iview s') (fill_two f x' k' y')"
  proof -
    have "length (sibling_ids f [tid x, tid y]) = Suc (length (fr_lks f @ k' # fr_rks f))"
      using ff(1) by (simp add: frame_fits_def)
    then have "at_inner (iview s') (fr_id f) (fr_lks f @ k' # fr_rks f) (sibling_ids f [tid x, tid y])"
      using pg(3) at(3) unfolding at_inner_def page_with_def by auto
    then show ?thesis
      using node_stored [OF at(1) pg(1) sub(1)] node_stored [OF at(2) pg(2) sub(2)] parts(3,4) ids
      by (simp add: stored_fill_two)
  qed
  then have stored: "stored (iview s') ?U" using parts(5) by (simp add: stored_plug)
  have tid: "tid ?U = tid ?T" by (rule tid_plug) simp
  have "kinds (iview s') ?U"
  proof (rule pair_kinds [OF nb _ _ same])
    show "tid ?U = root_id s" "set (ids ?U) \<subseteq> set (ids ?T)" using tid plug(4) h by simp_all
    show "kind_of (iview s') (tid x) \<noteq> Some Root" "kind_of (iview s') (tid y) \<noteq> Some Root"
      "kind_of (iview s') (fr_id f) = kind_of (iview s) (fr_id f)"
      using node_page_kind [where v = "iview s'", OF at(1) pg(1)] node_page_kind [where v = "iview s'", OF at(2) pg(2)]
        page_with_kind [where v = "iview s'", OF at(3) pg(3)] ids ty
      by simp_all
  qed
  moreover have "fits 203 ?U"
    using fits_shift [OF sh _ _ size] h fc ff by (intro fits_plug fits_fill_two) simp_all
  moreover have "level m ?U" if "level m ?T" for m
    using that by (rule level_plug) (use level_shift [OF sh] in \<open>auto simp: level_fill_two\<close>)
  ultimately show ?thesis
    using stored plug(1-3) k tid h unfolding reshaped_def holds_tree_def
    by (simp add: kept_def)
qed


text \<open>The joined pair in its tree.\<close>

lemma merged_tree:
  assumes nb: "neighbours s c f x k y"
    and me: "merged n s s' (iview s) (join x k y) (fr_id f) ty (zip (fr_lks f @ fr_rks f)
      (sibling_ids f [tid x])) (last (sibling_ids f [tid x]))"
    and ty: "kind_of (iview s) (fr_id f) = Some ty" and size: "cells (join x k y) \<le> 203"
  shows "reshaped n s (plug c (fill_two f x k y)) s' (plug c (fill f (join x k y)))"
    and "\<exists>p. iview s' (tid x) = Some p \<and> kind_clear p"
proof -
  let ?z = "join x k y"
  let ?T = "plug c (fill_two f x k y)" and ?U = "plug c (fill f ?z)"
  obtain pz pq where pg: "node_page (own_kind ?z) ?z pz" "kind_clear pz"
    "page_with ty False (zip (fr_lks f @ fr_rks f) (sibling_ids f [tid x])) (last (sibling_ids f [tid x])) pq"
    "edited n s s' ((iview s)(tid x \<mapsto> pz, fr_id f \<mapsto> pq))"
    using me by (auto simp: merged_def)
  note h = nb [unfolded neighbours_def] and ne = neighbours_distinct [OF nb]
  have v: "iview s' = (iview s)(tid x \<mapsto> pz, fr_id f \<mapsto> pq)" and kp: "kept n s s'" "inext s' = inext s"
    using pg(4) by (simp_all add: edited_def)
  have tree: "stored (iview s) ?T" "fits 203 ?T" "sorted_items (items ?T)" "distinct (ids ?T)" "kinds (iview s) ?T"
    using h by (simp_all add: holds_tree_def)
  have fc: "list_all (frame_fits 203) c" and ff: "frame_fits 203 f" "length (fr_lks f @ fr_rks f) < 203"
    and fx: "fits 203 x" "fits 203 y" using h by simp_all
  have ss: "same_sort x y" using h same_sort_level by blast
  note plug = join_plug [OF ss fx(1) fc ff(1) tree(3,4)]
  have at: "iview s' (tid ?z) = Some pz" "iview s' (fr_id f) = Some pq" using v ne by simp_all
  then show "\<exists>p. iview s' (tid x) = Some p \<and> kind_clear p" using pg(2) by simp
  have same: "iview s' i = iview s i" if "i \<noteq> fr_id f" "i \<noteq> tid x" "i \<noteq> tid y" for i
    using v that by simp
  note parts = stored_pair [OF tree(1,4), of "iview s'", OF same]
  have sub: "list_all (stored (iview s')) (kids ?z)"
    using parts(1,2) kids_join [OF ss] by (auto simp: list_all_iff)
  have "stored (iview s') (fill f ?z)"
  proof -
    have "length (sibling_ids f [tid x]) = Suc (length (fr_lks f @ fr_rks f))"
      using ff(1) by (simp add: frame_fits_def)
    then have "at_inner (iview s') (fr_id f) (fr_lks f @ fr_rks f) (sibling_ids f [tid x])"
      using pg(3) at(2) unfolding at_inner_def page_with_def by auto
    then show ?thesis
      using node_stored [OF at(1) pg(1) sub] parts(3,4) by (simp add: stored_fill stored_frame_def)
  qed
  then have stored: "stored (iview s') ?U" using parts(5) by (simp add: stored_plug)
  have tid: "tid ?U = tid ?T" by (rule tid_plug) simp
  have "kinds (iview s') ?U"
  proof (rule pair_kinds [OF nb _ _ same])
    show "tid ?U = root_id s" "set (ids ?U) \<subseteq> set (ids ?T)" using tid plug(4) h by auto
    show "kind_of (iview s') (tid x) \<noteq> Some Root" "kind_of (iview s') (fr_id f) = kind_of (iview s) (fr_id f)"
      using node_page_kind [where v = "iview s'", OF at(1) pg(1)] page_with_kind [where v = "iview s'", OF at(2) pg(3)] ty
      by simp_all
    show "kind_of (iview s') (tid y) \<noteq> Some Root" if "tid y \<in> set (ids ?U)" using that plug(5) by simp
  qed
  moreover have "fits 203 ?U"
    using fits_join [OF ss fx size] ff by (intro fits_plug fc) (simp add: fits_fill frame_fits_def)
  moreover have "level m ?U" if "level m ?T" for m
    using that by (rule level_plug) (use level_join in \<open>auto simp: level_fill level_fill_two\<close>)
  ultimately show "reshaped n s (plug c (fill_two f x k y)) s' ?U"
    using stored plug(1-3) kp tid h unfolding reshaped_def holds_tree_def
    by (simp add: kept_def)
qed

end
