(* ===== verification/Tree_Underfull.thy ===== *)
theory Tree_Underfull
  imports Tree_Shrink
begin

text \<open>
  \<open>handle_underfull\<close> on the tree of a state: the four redistributions and the two merges as changes of
  the tree, the search for a neighbour, and the way up to the root, which is given up when a merge
  leaves it with a single child.
\<close>

section \<open>Redistribution\<close>

lemma pair_sorted:
  assumes "list_all (frame_fits n) c" and "frame_fits n f" and "sorted_items (items (plug c (fill_two f x k y)))"
  shows "sorted_wrt (<) (fr_lks f @ k # fr_rks f)" and "sorted_items (items x)" and "sorted_items (items y)"
proof -
  have s: "sorted_items (items (fill_two f x k y))"
    using assms(3) by (simp add: items_plug [OF assms(1)] sorted_items_append)
  show "sorted_wrt (<) (fr_lks f @ k # fr_rks f)"
    using s unfolding fill_two_def by (rule sorted_keys)
  show "sorted_items (items x)" "sorted_items (items y)"
    using s unfolding items_fill_two [OF assms(2)]
    by (simp_all add: sorted_items_append sorted_items_Cons)
qed

lemma neighbours_lengths:
  "neighbours s c f x k y \<Longrightarrow> length (map tid (fr_lts f)) = length (fr_lks f) \<and>
   length (map tid (fr_rts f)) = length (fr_rks f)"
  by (simp add: neighbours_def frame_fits_def)

text \<open>The pages of a shifted pair exist, since its items and separators are sorted.\<close>

lemma shifted_sorted:
  assumes nb: "neighbours s c f x k y" and sh: "shift x k y x' k' y'"
  shows "sorted_wrt (<) (fr_lks f @ k' # fr_rks f)" and "sorted_items (items x')" and "sorted_items (items y')"
proof -
  note h = nb [unfolded neighbours_def holds_tree_def]
  have fit: "list_all (frame_fits 203) c" "frame_fits 203 f" using h by simp_all
  have "sorted_items (items (plug c (fill_two f x' k' y')))"
    using h by (intro shift_plug(1) [OF sh fit]) simp_all
  note p = pair_sorted [OF fit this]
  show "sorted_wrt (<) (fr_lks f @ k' # fr_rks f)" "sorted_items (items x')" "sorted_items (items y')"
    using p by simp_all
qed

lemma borrow_left:
  assumes nb: "neighbours s c f x k y" and size: "102 < cells x" "cells y \<le> 101"
    and hdr: "ih_page_ty hdr = own_kind y" "\<And>j ls us. y = Fork j ls us \<Longrightarrow> ih_ptr hdr = last (map tid us)"
    and room: "log_room 3 s"
  shows "\<exists>s' T'. redistribute_from_left txn (tid x) (tid y) (fr_id f) (Suc (length (fr_lks f))) hdr s = (Inr (), s') \<and>
    reshaped 3 s (plug c (fill_two f x k y)) s' T'"
proof -
  note h = nb [unfolded neighbours_def] and ne = neighbours_distinct [OF nb]
  note len = neighbours_lengths [OF nb, THEN conjunct1] neighbours_lengths [OF nb, THEN conjunct2]
  obtain px where px: "iview s (tid x) = Some px" "node_page (own_kind x) x px"
    using neighbours_pages(1) [OF nb] by blast
  obtain py where py: "iview s (tid y) = Some py" "node_page (own_kind y) y py"
    using neighbours_pages(2) [OF nb] by blast
  obtain pq ty where pq: "iview s (fr_id f) = Some pq" "kind_of (iview s) (fr_id f) = Some ty"
    "page_with ty False (zip (fr_lks f @ k # fr_rks f) (map tid (fr_lts f) @ tid x # tid y # map tid (fr_rts f)))
      (last (sibling_ids f [tid x, tid y])) pq"
    using neighbours_pages(3) [OF nb] by auto
  have good: "tree_good s" using h by (simp add: holds_tree_def)
  note e = edited_start [OF good]
  have r: "log_room (0 + 3) s" using room by simp
  have "same_sort x y" using h same_sort_level by blast
  then consider (tip) i as j bs where "x = Tip i as" "y = Tip j bs"
    | (fork) i ks ts j ls us where "x = Fork i ks ts" "y = Fork j ls us"
    by (cases "(x, y)" rule: same_sort.cases) simp_all
  then show ?thesis
  proof cases
    case tip
    have "1 < length as" using size tip by simp
    then obtain as0 kv where as: "as = as0 @ [kv]" "as0 \<noteq> []"
      by (cases as rule: rev_cases) fastforce+
    have sh: "shift x k y (Tip i as0) (fst kv) (Tip j (kv # bs))"
      unfolding tip as(1) by (rule leaf_right [OF as(2)])
    note srt = shifted_sorted [OF nb sh]
    have keys: "sorted_wrt (<) (map fst (kv # bs))" using srt(3) sorted_entries [of "kv # bs"] by simp
    have "\<exists>s'. redistribute_from_left txn i j (fr_id f) (Suc (length (fr_lks f))) hdr s = (Inr (), s') \<and>
      repaged (0 + 3) s s' (iview s) (Tip i as0) (Tip j (kv # bs)) (fr_id f) ty
        (zip (fr_lks f @ fst kv # fr_rks f) (map tid (fr_lts f) @ i # j # map tid (fr_rts f)))
        (last (sibling_ids f [tid x, tid y]))"
      by (rule leaf_from_left [OF len e r, where px = px and py = py and pq = pq])
        (use px py pq(1,3) ne keys srt(1) size hdr tip as in simp_all)
    then obtain s' where s': "redistribute_from_left txn i j (fr_id f) (Suc (length (fr_lks f))) hdr s = (Inr (), s')"
      "repaged (0 + 3) s s' (iview s) (Tip i as0) (Tip j (kv # bs)) (fr_id f) ty
        (zip (fr_lks f @ fst kv # fr_rks f) (map tid (fr_lts f) @ i # j # map tid (fr_rts f)))
        (last (sibling_ids f [tid x, tid y]))" by blast
    show ?thesis
      using s'(1) repaged_tree [OF nb sh _ pq(2), of "0 + 3" s'] s'(2) tip as size h by auto
  next
    case fork
    obtain ks0 k0 ts0 t where ks: "ks = ks0 @ [k0]" "ts = ts0 @ [t]" "length ts0 = Suc (length ks0)"
      using size h fork by (cases ks rule: rev_cases; cases ts rule: rev_cases) auto
    have sh: "shift x k y (Fork i ks0 ts0) k0 (Fork j (k # ls) (t # us))"
      unfolding fork ks(1,2) by (rule inner_right [OF ks(3)])
    note srt = shifted_sorted [OF nb sh]
    note keys = sorted_keys [OF srt(3)]
    have "\<exists>s'. redistribute_from_left txn i j (fr_id f) (Suc (length (fr_lks f))) hdr s = (Inr (), s') \<and>
      repaged (0 + 3) s s' (iview s) (Fork i ks0 ts0) (Fork j (k # ls) (t # us)) (fr_id f) ty
        (zip (fr_lks f @ k0 # fr_rks f) (map tid (fr_lts f) @ i # j # map tid (fr_rts f)))
        (last (sibling_ids f [tid x, tid y]))"
      by (rule inner_from_left [OF len e r, where px = px and py = py and pq = pq])
        (use px py pq(1,3) ne keys srt(1) size hdr fork ks in simp_all)
    then obtain s' where s': "redistribute_from_left txn i j (fr_id f) (Suc (length (fr_lks f))) hdr s = (Inr (), s')"
      "repaged (0 + 3) s s' (iview s) (Fork i ks0 ts0) (Fork j (k # ls) (t # us)) (fr_id f) ty
        (zip (fr_lks f @ k0 # fr_rks f) (map tid (fr_lts f) @ i # j # map tid (fr_rts f)))
        (last (sibling_ids f [tid x, tid y]))" by blast
    show ?thesis
      using s'(1) repaged_tree [OF nb sh _ pq(2), of "0 + 3" s'] s'(2) fork ks size h by auto
  qed
qed


lemma borrow_right:
  assumes nb: "neighbours s c f x k y" and size: "cells x \<le> 101" "102 < cells y"
    and hdr: "ih_page_ty hdr = own_kind x" and room: "log_room 3 s"
  shows "\<exists>s' T'. redistribute_from_right txn (tid x) (tid y) (fr_id f) (length (fr_lks f)) hdr s = (Inr (), s') \<and>
    reshaped 3 s (plug c (fill_two f x k y)) s' T'"
proof -
  note h = nb [unfolded neighbours_def] and ne = neighbours_distinct [OF nb]
  note len = neighbours_lengths [OF nb, THEN conjunct1] neighbours_lengths [OF nb, THEN conjunct2]
  obtain px where px: "iview s (tid x) = Some px" "node_page (own_kind x) x px"
    using neighbours_pages(1) [OF nb] by blast
  obtain py where py: "iview s (tid y) = Some py" "node_page (own_kind y) y py"
    using neighbours_pages(2) [OF nb] by blast
  obtain pq ty where pq: "iview s (fr_id f) = Some pq" "kind_of (iview s) (fr_id f) = Some ty"
    "page_with ty False (zip (fr_lks f @ k # fr_rks f) (map tid (fr_lts f) @ tid x # tid y # map tid (fr_rts f)))
      (last (sibling_ids f [tid x, tid y])) pq"
    using neighbours_pages(3) [OF nb] by auto
  have good: "tree_good s" using h by (simp add: holds_tree_def)
  note e = edited_start [OF good]
  have r: "log_room (0 + 3) s" using room by simp
  have "same_sort x y" using h same_sort_level by blast
  then consider (tip) i as j bs where "x = Tip i as" "y = Tip j bs"
    | (fork) i ks ts j ls us where "x = Fork i ks ts" "y = Fork j ls us"
    by (cases "(x, y)" rule: same_sort.cases) simp_all
  then show ?thesis
  proof cases
    case tip
    have "1 < length bs" using size tip by simp
    then obtain kv kv' bs0 where bs: "bs = kv # kv' # bs0"
      by (cases bs; cases "tl bs") auto
    have sh: "shift x k y (Tip i (as @ [kv])) (fst kv') (Tip j (kv' # bs0))"
      unfolding tip bs by (rule leaf_left)
    note srt = shifted_sorted [OF nb sh]
    have keys: "sorted_wrt (<) (map fst (as @ [kv]))" using srt(2) sorted_entries [of "as @ [kv]"] by simp
    have "\<exists>s'. redistribute_from_right txn i j (fr_id f) (length (fr_lks f)) hdr s = (Inr (), s') \<and>
      repaged (0 + 3) s s' (iview s) (Tip i (as @ [kv])) (Tip j (kv' # bs0)) (fr_id f) ty
        (zip (fr_lks f @ fst kv' # fr_rks f) (map tid (fr_lts f) @ i # j # map tid (fr_rts f)))
        (last (sibling_ids f [tid x, tid y]))"
      by (rule leaf_from_right [OF len e r, where px = px and py = py and pq = pq])
        (use px py pq(1,3) ne keys srt(1) size hdr tip bs in simp_all)
    then obtain s' where s': "redistribute_from_right txn i j (fr_id f) (length (fr_lks f)) hdr s = (Inr (), s')"
      "repaged (0 + 3) s s' (iview s) (Tip i (as @ [kv])) (Tip j (kv' # bs0)) (fr_id f) ty
        (zip (fr_lks f @ fst kv' # fr_rks f) (map tid (fr_lts f) @ i # j # map tid (fr_rts f)))
        (last (sibling_ids f [tid x, tid y]))" by blast
    show ?thesis
      using s'(1) repaged_tree [OF nb sh _ pq(2), of "0 + 3" s'] s'(2) tip bs size h by auto
  next
    case fork
    obtain k0 ls0 u us0 where ls: "ls = k0 # ls0" "us = u # us0"
      using size h fork by (cases ls; cases us) auto
    have lts: "length ts = Suc (length ks)" using h fork by simp
    have sh: "shift x k y (Fork i (ks @ [k]) (ts @ [u])) k0 (Fork j ls0 us0)"
      unfolding fork ls by (rule inner_left [OF lts])
    note srt = shifted_sorted [OF nb sh]
    note keys = sorted_keys [OF srt(2)]
    have "\<exists>s'. redistribute_from_right txn i j (fr_id f) (length (fr_lks f)) hdr s = (Inr (), s') \<and>
      repaged (0 + 3) s s' (iview s) (Fork i (ks @ [k]) (ts @ [u])) (Fork j ls0 us0) (fr_id f) ty
        (zip (fr_lks f @ k0 # fr_rks f) (map tid (fr_lts f) @ i # j # map tid (fr_rts f)))
        (last (sibling_ids f [tid x, tid y]))"
      by (rule inner_from_right [OF len e r, where px = px and py = py and pq = pq])
        (use px py pq(1,3) ne keys srt(1) size hdr fork ls in simp_all)
    then obtain s' where s': "redistribute_from_right txn i j (fr_id f) (length (fr_lks f)) hdr s = (Inr (), s')"
      "repaged (0 + 3) s s' (iview s) (Fork i (ks @ [k]) (ts @ [u])) (Fork j ls0 us0) (fr_id f) ty
        (zip (fr_lks f @ k0 # fr_rks f) (map tid (fr_lts f) @ i # j # map tid (fr_rts f)))
        (last (sibling_ids f [tid x, tid y]))" by blast
    show ?thesis
      using s'(1) repaged_tree [OF nb sh _ pq(2), of "0 + 3" s'] s'(2) fork ls size h by auto
  qed
qed



section \<open>Merging\<close>

text \<open>
  The outcome of a merge: the pair is joined, and the joined page has no flag that would make it a
  leaf; or the page would have 204 cells, which happens to inner pages only.
\<close>

definition merge_result :: "bplus_tree \<Rightarrow> frame list \<Rightarrow> frame \<Rightarrow> tree \<Rightarrow> u64 \<Rightarrow> tree \<Rightarrow>
    (error + unit) \<times> bplus_tree \<Rightarrow> bool" where
  "merge_result s c f x k y = (\<lambda>(r, s').
     (r = Inr () \<and> reshaped 2 s (plug c (fill_two f x k y)) s' (plug c (fill f (join x k y))) \<and>
        (\<exists>p. iview s' (tid x) = Some p \<and> kind_clear p)) \<or>
     (r = Inl (Err ''Page overflow'') \<and> kids x \<noteq> []))"

lemma merge_pair:
  assumes nb: "neighbours s c f x k y" and size: "cells x + cells y \<le> 203" and room: "log_room 2 s"
  shows "merge_result s c f x k y (merge_with_left txn (tid x) (tid y) (fr_id f) (Suc (length (fr_lks f))) s)"
    and "merge_result s c f x k y (merge_with_right txn (tid x) (tid y) (fr_id f) (length (fr_lks f)) s)"
proof -
  note h = nb [unfolded neighbours_def] and ne = neighbours_distinct [OF nb]
  note len = neighbours_lengths [OF nb, THEN conjunct1] neighbours_lengths [OF nb, THEN conjunct2]
  have dist: "distinct (map tid (fr_lts f) @ tid x # tid y # map tid (fr_rts f))" using ne(4) by simp
  obtain px where px: "iview s (tid x) = Some px" "node_page (own_kind x) x px"
    using neighbours_pages(1) [OF nb] by blast
  obtain py where py: "iview s (tid y) = Some py" "node_page (own_kind y) y py"
    using neighbours_pages(2) [OF nb] by blast
  obtain pq ty where pq: "iview s (fr_id f) = Some pq" "kind_of (iview s) (fr_id f) = Some ty"
    "page_with ty False (zip (fr_lks f @ k # fr_rks f) (map tid (fr_lts f) @ tid x # tid y # map tid (fr_rts f)))
      (last (map tid (fr_lts f) @ tid x # tid y # map tid (fr_rts f))) pq"
    using neighbours_pages(3) [OF nb] by auto
  have good: "tree_good s" using h by (simp add: holds_tree_def)
  note e = edited_start [OF good]
  have r: "log_room (0 + 2) s" using room by (simp only: add_0)
  have ss: "same_sort x y" using h same_sort_level by blast
  have fit: "list_all (frame_fits 203) c" "frame_fits 203 f" using h by simp_all
  have "sorted_items (items (plug c (fill f (join x k y))))"
    using h by (intro join_plug(1) [OF ss _ fit]) (auto simp: holds_tree_def)
  then have srt: "sorted_items (items (join x k y))"
    by (simp add: items_plug [OF fit(1)] items_fill [OF fit(2)] sorted_items_append)
  have joined: "merge_result s c f x k y (Inr (), s')"
    if "merged (0 + 2) s s' (iview s) (join x k y) (fr_id f) ty (zip (fr_lks f @ fr_rks f)
      (map tid (fr_lts f) @ tid x # map tid (fr_rts f))) (last (map tid (fr_lts f) @ tid x # map tid (fr_rts f)))"
      "cells (join x k y) \<le> 203" for s'
    using merged_tree [OF nb _ pq(2) that(2), of 2 s'] that(1) unfolding add_0 by (simp add: merge_result_def)
  consider (tip) i as j bs where "x = Tip i as" "y = Tip j bs"
    | (fork) i ks ts j ls us where "x = Fork i ks ts" "y = Fork j ls us"
    using ss by (cases "(x, y)" rule: same_sort.cases) simp_all
  then have "merge_result s c f x k y (merge_with_left txn (tid x) (tid y) (fr_id f) (Suc (length (fr_lks f))) s) \<and>
    merge_result s c f x k y (merge_with_right txn (tid x) (tid y) (fr_id f) (length (fr_lks f)) s)"
  proof cases
    case tip
    have "sorted_wrt (<) (map fst (as @ bs))" using srt sorted_entries [of "as @ bs"] tip by simp
    have m: "\<exists>s'. merge_with_left txn (tid x) (tid y) (fr_id f) (Suc (length (fr_lks f))) s = (Inr (), s') \<and>
        merged (0 + 2) s s' (iview s) (Tip (tid x) (as @ bs)) (fr_id f) ty (zip (fr_lks f @ fr_rks f)
          (map tid (fr_lts f) @ tid x # map tid (fr_rts f))) (last (map tid (fr_lts f) @ tid x # map tid (fr_rts f)))"
      "\<exists>s'. merge_with_right txn (tid x) (tid y) (fr_id f) (length (fr_lks f)) s = (Inr (), s') \<and>
        merged (0 + 2) s s' (iview s) (Tip (tid x) (as @ bs)) (fr_id f) ty (zip (fr_lks f @ fr_rks f)
          (map tid (fr_lts f) @ tid x # map tid (fr_rts f))) (last (map tid (fr_lts f) @ tid x # map tid (fr_rts f)))"
      subgoal by (rule merge_leaves(1) [OF len dist e r, where px = px and py = py and pq = pq])
          (use px py pq(1,3) ne size \<open>sorted_wrt _ _\<close> tip in simp_all)
      subgoal by (rule merge_leaves(2) [OF len dist e r, where px = px and py = py and pq = pq])
          (use px py pq(1,3) ne size \<open>sorted_wrt _ _\<close> tip in simp_all)
      done
    have z: "join x k y = Tip (tid x) (as @ bs)" "cells (join x k y) \<le> 203" using tip size by simp_all
    show ?thesis using m joined [unfolded z(1)] z by (metis z(1))
  next
    case fork
    have "sorted_wrt (<) (ks @ k # ls)" using srt unfolding fork join.simps by (rule sorted_keys)
    have kx: "kids x \<noteq> []" using h fork by (cases ts) auto
    let ?z = "Fork (tid x) (ks @ k # ls) (ts @ us)"
    let ?r = "if cells ?z \<le> 203 then Inr () else Inl (Err ''Page overflow'')"
    have m: "\<exists>s'. merge_with_left txn (tid x) (tid y) (fr_id f) (Suc (length (fr_lks f))) s = (?r, s') \<and>
        (if cells ?z \<le> 203 then merged (0 + 2) s s' (iview s) ?z (fr_id f) ty (zip (fr_lks f @ fr_rks f)
          (map tid (fr_lts f) @ tid x # map tid (fr_rts f))) (last (map tid (fr_lts f) @ tid x # map tid (fr_rts f)))
        else \<exists>v'. edited 0 s s' v')"
      "\<exists>s'. merge_with_right txn (tid x) (tid y) (fr_id f) (length (fr_lks f)) s = (?r, s') \<and>
        (if cells ?z \<le> 203 then merged (0 + 2) s s' (iview s) ?z (fr_id f) ty (zip (fr_lks f @ fr_rks f)
          (map tid (fr_lts f) @ tid x # map tid (fr_rts f))) (last (map tid (fr_lts f) @ tid x # map tid (fr_rts f)))
        else \<exists>v'. edited 0 s s' v')"
      subgoal by (rule merge_inners(1) [OF len dist e r, where px = px and py = py and pq = pq])
          (use px py pq(1,3) ne size \<open>sorted_wrt _ _\<close> fork in simp_all)
      subgoal by (rule merge_inners(2) [OF len dist e r, where px = px and py = py and pq = pq])
          (use px py pq(1,3) ne size \<open>sorted_wrt _ _\<close> fork in simp_all)
      done
    have z: "join x k y = ?z" using fork by simp
    show ?thesis
    proof (cases "cells ?z \<le> 203")
      case True
      then show ?thesis using m joined unfolding z by (simp only: if_True) metis
    next
      case False
      then show ?thesis using m kx by (auto simp: merge_result_def)
    qed
  qed
  then show "merge_result s c f x k y (merge_with_left txn (tid x) (tid y) (fr_id f) (Suc (length (fr_lks f))) s)"
    and "merge_result s c f x k y (merge_with_right txn (tid x) (tid y) (fr_id f) (length (fr_lks f)) s)"
    by simp_all
qed

end
