(* ===== verification/Tree_Climb.thy ===== *)
theory Tree_Climb
  imports Tree_Underfull Tree_Insert
begin

text \<open>
  \<open>handle_underfull\<close> as a whole: what it reads before it decides, the neighbour it picks, and the way
  up to the root, which is given up when a merge leaves it with a single child.
\<close>

section \<open>The decision\<close>

lemma node_page_cells: "node_page ty t p \<Longrightarrow> \<exists>cs. get_cells p = Inr cs \<and> length cs = cells t"
  by (cases t) (auto dest: page_with_read(2))

lemma node_page_header:
  "node_page ty t p \<Longrightarrow> \<exists>h. page_header p = Inr h \<and> ih_page_ty h = ty \<and>
    (\<forall>i ks ts. t = Fork i ks ts \<longrightarrow> ih_ptr h = last (map tid ts))"
  by (cases t) (auto dest: page_with_read(1))

lemma count_run:
  assumes good: "tree_good s" and st: "stored (iview s) x"
  shows "\<exists>s'. andthen (t_fetch (tid x)) (\<lambda>page. andthen (of_result (get_cells page)) (\<lambda>cells. ok (length cells))) s =
    (Inr (cells x), s') \<and> t_quiet s s'"
proof -
  obtain p ty where p: "iview s (tid x) = Some p" "node_page ty x p" using stored_node [OF st] by blast
  obtain s' where "t_fetch (tid x) s = (Inr p, s')" "t_quiet s s'"
    using tree_reader.fetch_page [OF good p(1)] by blast
  then show ?thesis using node_page_cells [OF p(2)] by (auto simp: run_simps)
qed

text \<open>The outcome of \<open>handle_underfull\<close>, by the sizes of the neighbours.\<close>

lemma underfull_choice:
  assumes tree: "holds_tree 203 s (plug (f # c) t)" and root: "root_id s = tid (plug (f # c) t)"
    and ff: "frame_fits 203 f"
  shows "\<exists>s' hdr. t_quiet s s' \<and> ih_page_ty hdr = own_kind t \<and>
    (\<forall>i ks ts. t = Fork i ks ts \<longrightarrow> ih_ptr hdr = last (map tid ts)) \<and>
    handle_underfull txn (tid t) (fr_id f # ps) s =
     (if fr_lts f \<noteq> [] \<and> 102 < cells (last (fr_lts f)) then
        redistribute_from_left txn (tid (last (fr_lts f))) (tid t) (fr_id f) (length (fr_lks f)) hdr s'
      else if fr_rts f \<noteq> [] \<and> 102 < cells (hd (fr_rts f)) then
        redistribute_from_right txn (tid t) (tid (hd (fr_rts f))) (fr_id f) (length (fr_lks f)) hdr s'
      else if fr_lts f \<noteq> [] then
        andthen (merge_with_left txn (tid (last (fr_lts f))) (tid t) (fr_id f) (length (fr_lks f)))
          (\<lambda>_. check_parent_underfull txn (fr_id f) (handle_underfull txn (fr_id f) ps)) s'
      else if fr_rts f \<noteq> [] then
        andthen (merge_with_right txn (tid t) (tid (hd (fr_rts f))) (fr_id f) (length (fr_lks f)))
          (\<lambda>_. check_parent_underfull txn (fr_id f) (handle_underfull txn (fr_id f) ps)) s'
      else (Inr (), s'))"
proof -
  let ?X = "map tid (fr_lts f)" and ?Y = "map tid (fr_rts f)" and ?q = "fr_id f"
  note h = tree [unfolded holds_tree_def]
  have good: "tree_good s" and dist: "distinct (ids (plug c (fill f t)))" using h by simp_all
  have st: "stored (iview s) t" "list_all (stored (iview s)) (fr_lts f)" "list_all (stored (iview s)) (fr_rts f)"
    "at_inner (iview s) ?q (fr_lks f @ fr_rks f) (?X @ tid t # ?Y)"
    using h by (simp_all add: stored_plug stored_fill stored_frame_def)
  obtain pq nd where q: "iview s ?q = Some pq" "page_rep pq nd" "\<not> node_leaf nd"
    "n_cells nd = zip (fr_lks f @ fr_rks f) (?X @ tid t # ?Y)" "n_ptr nd = last (?X @ tid t # ?Y)"
    using st(4) by (auto simp: at_inner_def)
  have dt: "distinct (ids (fill f t))" using dist by (simp add: distinct_ids_plug)
  then have "distinct (map tid (fr_lts f @ t # fr_rts f))"
    by (intro distinct_tids) (simp add: fill_def)
  then have dx: "distinct (?X @ tid t # ?Y)" by simp
  have len: "length ?X = length (fr_lks f)" "length ?Y = length (fr_rks f)" using ff by (simp_all add: frame_fits_def)
  have "fr_id f \<notin> set (ids t)" using dt by (simp add: fill_def)
  then have "tid t \<noteq> ?q" by (metis tid_in_ids)
  then have "tid t \<noteq> tid (plug c (fill f t))" by (intro below_root [OF dist]) (simp_all add: fill_def)
  moreover have "tid t \<in> set (ids (plug (f # c) t))" by (simp add: set_ids_plug fill_def)
  ultimately have "kind_of (iview s) (tid t) \<noteq> Some Root" using h by (simp add: kinds_def)
  then obtain pt where pt: "iview s (tid t) = Some pt" "node_page (own_kind t) t pt"
    using stored_node [OF st(1)] by blast
  obtain hdr where hdr: "page_header pt = Inr hdr" "ih_page_ty hdr = own_kind t"
    "\<forall>i ks ts. t = Fork i ks ts \<longrightarrow> ih_ptr hdr = last (map tid ts)"
    using node_page_header [OF pt(2)] by blast
  obtain s1 where s1: "t_read ?q s = (Inr (hdr_of nd, map (cell_of False) (n_cells nd)), s1)" "t_quiet s s1"
    using t_read_run [OF good q(1,2)] q(3) by auto
  have sib: "find_siblings (tid t) (map (cell_of False) (n_cells nd)) (hdr_of nd) =
    \<lparr>child_idx = length (fr_lks f), left_sib = (if fr_lts f = [] then None else Some (tid (last (fr_lts f)))),
     right_sib = (if fr_rts f = [] then None else Some (tid (hd (fr_rts f))))\<rparr>"
    unfolding q(4) using find_siblings_pair [OF len dx, of "hdr_of nd"] q(5) len(1)
    by (cases "fr_rts f") (simp_all add: last_map)
  have quiet: "tree_good s' \<and> iview s' = iview s" if "t_quiet s s'" for s'
    using that by (simp add: t_quiet_def kept_def)
  obtain s2 where s2: "t_fetch (tid t) s1 = (Inr pt, s2)" "t_quiet s s2"
    using tree_reader.fetch_page [of s1 "tid t" pt] quiet [OF s1(2)] pt(1) t_quiet_trans [OF s1(2)] by auto
  let ?count = "\<lambda>b. case b of None \<Rightarrow> ok 0 | Some i \<Rightarrow>
      andthen (t_fetch i) (\<lambda>page. andthen (of_result (get_cells page)) (\<lambda>cells. ok (length cells)))"
  have count: "\<exists>s''. ?count (if us = [] then None else Some (tid u)) s' =
      (Inr (if us = [] then 0 else cells u), s'') \<and> t_quiet s s''"
    if "t_quiet s s'" "us \<noteq> [] \<Longrightarrow> stored (iview s) u" for s' us u
    using count_run [of s' u] that quiet [OF that(1)] t_quiet_trans [OF that(1)] by (cases "us = []") (auto simp: run_simps)
  obtain s3 where s3: "?count (if fr_lts f = [] then None else Some (tid (last (fr_lts f)))) s2 =
      (Inr (if fr_lts f = [] then 0 else cells (last (fr_lts f))), s3)" "t_quiet s s3"
    using count [OF s2(2), of "fr_lts f" "last (fr_lts f)"] st(2) by (auto simp: list_all_iff)
  obtain s4 where s4: "?count (if fr_rts f = [] then None else Some (tid (hd (fr_rts f)))) s3 =
      (Inr (if fr_rts f = [] then 0 else cells (hd (fr_rts f))), s4)" "t_quiet s s4"
    using count [OF s3(2), of "fr_rts f" "hd (fr_rts f)"] st(3) by (auto simp: list_all_iff)
  show ?thesis
  proof (cases "fr_lts f \<noteq> [] \<and> 102 < cells (last (fr_lts f))")
    case True
    then show ?thesis
      using s1 s2 s3 hdr sib
      by (intro exI [of _ s3] exI [of _ hdr] conjI) (simp_all add: run_simps Let_def tree_consts)
  next
    case left: False
    then show ?thesis
      using s1 s2 s3 s4 hdr sib
      by (intro exI [of _ s4] exI [of _ hdr] conjI)
        (simp_all add: run_simps Let_def tree_consts split: if_split_asm)
  qed
qed



section \<open>The way up\<close>

lemma reshaped_then:
  assumes "reshaped a s T s1 T1" and "root_id s1 = root_id s" and "\<And>h. level h T \<Longrightarrow> level h T1"
    and "reshaped b s1 T1 s2 T2"
  shows "reshaped (a + b) s T s2 T2"
proof -
  have "s1\<lparr>root_id := root_id s\<rparr> = s1" using assms(2) by simp
  then have "kept a s s1" using assms(1) by (metis reshaped_def)
  moreover have "kept b s1 (s2\<lparr>root_id := root_id s\<rparr>)" using assms(2,4) by (simp add: reshaped_def)
  ultimately have "kept (a + b) s (s2\<lparr>root_id := root_id s\<rparr>)" by (rule kept_trans)
  then show ?thesis using assms by (simp add: reshaped_def)
qed

lemma reshaped_mono: "reshaped a s T s' T' \<Longrightarrow> a \<le> b \<Longrightarrow> reshaped b s T s' T'"
  by (auto simp: reshaped_def intro: kept_mono)

lemma reshaped_refl: "holds_tree 203 s T \<Longrightarrow> root_id s = tid T \<Longrightarrow> reshaped n s T s T"
proof -
  assume a: "holds_tree 203 s T" "root_id s = tid T"
  have "s\<lparr>root_id := root_id s\<rparr> = s" by simp
  then show ?thesis using a kept_refl [of s n] unfolding reshaped_def by (simp only: holds_tree_def) blast
qed

lemma reshaped_quiet:
  assumes "t_quiet s s'" and "holds_tree 203 s T" and "root_id s = tid T"
  shows "reshaped 0 s T s' T" and "root_id s' = root_id s"
  using assms holds_tree_quiet [OF assms(2,1)] by (auto simp: reshaped_def t_quiet_def kept_def)

text \<open>At the root: a root without cells is replaced by its only child.\<close>

lemma check_root:
  assumes tree: "holds_tree 203 s (fill f z)" and root: "root_id s = fr_id f" and ff: "frame_fits 203 f"
    and clear: "\<exists>p. iview s (tid z) = Some p \<and> kind_clear p" and room: "log_room 1 s"
  shows "\<exists>s' T'. check_parent_underfull txn (fr_id f) up s = (Inr (), s') \<and> reshaped 1 s (fill f z) s' T'"
proof -
  let ?q = "fr_id f"
  note h = tree [unfolded holds_tree_def]
  have good: "tree_good s" and root': "root_id s = tid (fill f z)" using h root by simp_all
  have at: "at_inner (iview s) ?q (fr_lks f @ fr_rks f) (map tid (fr_lts f) @ tid z # map tid (fr_rts f))"
    and stz: "stored (iview s) z" using h by (simp_all add: stored_fill stored_frame_def)
  obtain p nd where p: "iview s ?q = Some p" "page_rep p nd" "\<not> node_leaf nd"
    "n_cells nd = zip (fr_lks f @ fr_rks f) (map tid (fr_lts f) @ tid z # map tid (fr_rts f))"
    "n_ptr nd = last (map tid (fr_lts f) @ tid z # map tid (fr_rts f))"
    using at by (auto simp: at_inner_def)
  obtain s1 where s1: "t_fetch ?q s = (Inr p, s1)" "t_quiet s s1"
    using tree_reader.fetch_page [OF good p(1)] by blast
  note read = get_cells_rep [OF p(2)] page_header_rep [OF p(2)]
  note quiet = reshaped_quiet [OF s1(2) tree root']
  have fl: "length (fr_lts f) = length (fr_lks f)" "length (fr_rts f) = length (fr_rks f)"
    using ff by (simp_all add: frame_fits_def)
  show ?thesis
  proof (cases "fr_lks f @ fr_rks f = []")
    case False
    then have "n_cells nd \<noteq> []" using p(4) by (cases "fr_lks f @ fr_rks f"; cases "fr_lts f") simp_all
    then have "check_parent_underfull txn ?q up s = (Inr (), s1)"
      using s1(1) read root by (simp add: check_parent_underfull_def run_simps)
    then show ?thesis using reshaped_mono [OF quiet(1), of 1] by auto
  next
    case True
    then have f: "fr_lks f = []" "fr_rks f = []" "fr_lts f = []" "fr_rts f = []" using fl by simp_all
    have nil: "n_cells nd = []" "n_ptr nd = tid z" using p(4,5) f by simp_all
    have dist: "?q \<notin> set (ids z)" "distinct (ids z)" using h f by (simp_all add: fill_def)
    then have ne: "tid z \<noteq> ?q" by (metis tid_in_ids)
    have kz: "kind_of (iview s) i \<noteq> Some Root" if "i \<in> set (ids z)" for i
    proof -
      have "i \<in> set (ids (fill f z))" "i \<noteq> tid (fill f z)" using that dist(1) by (auto simp: fill_def)
      then show ?thesis using h by (simp add: kinds_def)
    qed
    obtain pz where pz: "iview s (tid z) = Some pz" "node_page (own_kind z) z pz" "kind_clear pz"
      using stored_node [OF stz] kz [OF tid_in_ids] clear by auto
    obtain pz' where pz': "set_page_kind Root pz = (Inr (), pz')" "node_page Root z pz'"
    proof (cases z)
      case (Tip i kvs)
      then show ?thesis using pz that set_kind_edit [of _ _ _ _ pz] by fastforce
    next
      case (Fork i ks ts)
      then show ?thesis using pz that set_kind_edit [of _ _ _ _ pz] by fastforce
    qed
    have e1: "edited 0 s s1 (iview s)" using s1(2) by (simp add: edited_def t_quiet_def)
    have room': "log_room (Suc 0) s" using room by simp
    obtain s2 where s2: "rewrite_page_refetch txn (tid z) (set_page_kind Root) s1 = (Inr (), s2)"
      "edited (Suc 0) s s2 ((iview s)(tid z \<mapsto> pz'))"
      using rewrite_edit(2) [where body = "set_page_kind Root", OF e1 room' pz(1) _ pz'(1)] pz(2) pz'(2) by auto
    let ?s' = "s2\<lparr>root_id := tid z\<rparr>"
    have v: "iview s2 = (iview s)(tid z \<mapsto> pz')" using s2(2) by (simp add: edited_def)
    have at_z: "iview ?s' (tid z) = Some pz'" by (simp add: v)
    have sub: "list_all (stored (iview ?s')) (kids z)"
      unfolding list_all_iff
    proof
      fix u assume u: "u \<in> set (kids z)"
      then have "set (ids u) \<subseteq> set (concat (map ids (kids z)))" by auto
      moreover have "tid z \<notin> set (concat (map ids (kids z)))"
        using dist(2) ids_kids [of z] by (metis distinct.simps(2))
      ultimately have "iview ?s' i = iview s i" if "i \<in> set (ids u)" for i using that by (auto simp: v)
      moreover have "stored (iview s) u" using stored_kids [OF stz] u by (simp add: list_all_iff)
      ultimately show "stored (iview ?s') u" by (rule stored_cong [rotated])
    qed
    have "stored (iview ?s') z" using node_stored [OF at_z pz'(2) sub] .
    moreover have "kinds (iview ?s') z"
      unfolding kinds_def
    proof
      fix i assume i: "i \<in> set (ids z)"
      show "kind_of (iview ?s') i = Some Root \<longleftrightarrow> i = tid z"
        using node_page_kind [where v = "iview ?s'", OF at_z pz'(2)] kz [OF i]
          kind_of_cong [of "iview ?s'" i "iview s"] by (cases "i = tid z") (simp_all add: v)
    qed
    moreover have it: "items (fill f z) = items z" using f by (simp add: fill_def)
    moreover have "fits 203 z" using h f by (simp add: fill_def)
    moreover have "level h (fill f z) \<Longrightarrow> \<exists>h'. h = Suc h' \<and> level h' z" for h by (auto simp: level_fill)
    moreover have "kept 1 s s2" "inext s2 = inext s" using s2(2) by (simp_all add: edited_def)
    moreover have "s2\<lparr>root_id := root_id s\<rparr> = s2" using \<open>kept 1 s s2\<close> by (simp add: kept_def)
    ultimately have "reshaped 1 s (fill f z) ?s' z"
      using h dist(2) unfolding reshaped_def holds_tree_def by (simp add: kept_def)
    moreover have "check_parent_underfull txn ?q up s = (Inr (), ?s')"
      using s1(1) s2(1) read root nil
      by (simp add: check_parent_underfull_def run_simps Let_def set_root_def)
    ultimately show ?thesis by blast
  qed
qed

text \<open>Below the root: the parent is looked at in its turn if it has fewer than 102 cells.\<close>

lemma check_inner:
  assumes tree: "holds_tree 203 s (plug (g # c) (fill f z))" and root: "root_id s = tid (plug (g # c) (fill f z))"
    and ff: "frame_fits 203 f"
  shows "\<exists>s'. t_quiet s s' \<and> check_parent_underfull txn (fr_id f) up s =
    (if cells (fill f z) < 102 then up s' else (Inr (), s'))"
proof -
  note h = tree [unfolded holds_tree_def]
  have good: "tree_good s" and st: "stored (iview s) (fill f z)" and dist: "distinct (ids (plug (g # c) (fill f z)))"
    using h unfolding stored_plug by simp_all
  obtain p ty where p: "iview s (fr_id f) = Some p" "node_page ty (fill f z) p" using stored_node [OF st] by auto
  obtain s1 where s1: "t_fetch (fr_id f) s = (Inr p, s1)" "t_quiet s s1"
    using tree_reader.fetch_page [OF good p(1)] by blast
  have n: "num_cells p = Inr (cells (fill f z))"
    using p(2) page_with_read(3) [of ty False _ _ p] by (auto simp: fill_def)
  have "fr_id f \<noteq> tid (plug c (fill g (fill f z)))"
  proof (rule below_root)
    show "distinct (ids (plug c (fill g (fill f z))))" using dist by simp
    then have "distinct (ids (fill g (fill f z)))" by (simp add: distinct_ids_plug)
    then show "fr_id f \<noteq> tid (fill g (fill f z))" by (auto simp: fill_def)
  qed (simp add: fill_def)
  then have "fr_id f \<noteq> root_id s" using root by simp
  then show ?thesis
    using s1 n by (intro exI [of _ s1]) (simp add: check_parent_underfull_def run_simps tree_consts)
qed



section \<open>The whole of handle_underfull\<close>

text \<open>
  The outcome on a tree of depth \<open>h\<close>: a tree for the same map, or an overflow, which takes a merge of
  inner pages and so two levels above the leaves.
\<close>

definition shrink_result :: "nat \<Rightarrow> nat \<Rightarrow> bplus_tree \<Rightarrow> tree \<Rightarrow> (error + unit) \<times> bplus_tree \<Rightarrow> bool" where
  "shrink_result n h s T = (\<lambda>(r, s'). (r = Inr () \<and> (\<exists>T'. reshaped n s T s' T')) \<or>
     (r = Inl (Err ''Page overflow'') \<and> 2 \<le> h))"

lemma level_plug_depth: "level h (plug c t) \<Longrightarrow> \<exists>m. h = m + length c \<and> level m t"
proof (induction c arbitrary: t)
  case (Cons f c)
  show ?case using Cons.IH [of "fill f t"] Cons.prems by (auto simp: level_fill)
qed simp

lemma shrink_okI: "z = (Inr (), s') \<Longrightarrow> reshaped n s T s' T' \<Longrightarrow> shrink_result n h s T z"
  by (auto simp: shrink_result_def)

lemma shrink_result_mono: "shrink_result a h s T z \<Longrightarrow> a \<le> b \<Longrightarrow> shrink_result b h s T z"
  unfolding shrink_result_def by (cases z) (use reshaped_mono in \<open>simp; blast\<close>)

lemma shrink_result_quiet:
  assumes "t_quiet s s'" and "holds_tree 203 s T" and "root_id s = tid T" and "shrink_result n h s' T z"
  shows "shrink_result n h s T z"
proof (cases z)
  case (Pair r u)
  have "reshaped (0 + n) s T u T'" if "reshaped n s' T u T'" for T'
    using reshaped_then [OF reshaped_quiet [OF assms(1-3)] _ that] by simp
  then show ?thesis using assms(4) Pair by (auto simp: shrink_result_def)
qed

lemma merge_up:
  assumes nb: "neighbours s c f x k y" and res: "merge_result s c f x k y (mg s)"
    and lev: "level h (plug c (fill_two f x k y))" and room: "log_room (3 * length c + 3) s"
    and up: "\<And>t s. holds_tree 203 s (plug c t) \<Longrightarrow> root_id s = tid (plug c t) \<Longrightarrow> cells t \<le> 101 \<Longrightarrow>
      fits 203 t \<Longrightarrow> level h (plug c t) \<Longrightarrow> log_room (3 * length c) s \<Longrightarrow>
      shrink_result (3 * length c) h s (plug c t) (handle_underfull txn (tid t) (map fr_id c) s)"
  shows "shrink_result (3 * length c + 3) h s (plug c (fill_two f x k y))
    (andthen mg (\<lambda>_. check_parent_underfull txn (fr_id f) (handle_underfull txn (fr_id f) (map fr_id c))) s)"
proof -
  let ?T = "plug c (fill_two f x k y)" and ?z = "join x k y"
  let ?T1 = "plug c (fill f ?z)"
  note hn = nb [unfolded neighbours_def]
  have lev1: "level m ?T1" if "level m ?T" for m
    using that by (rule level_plug) (use level_join in \<open>auto simp: level_fill level_fill_two\<close>)
  obtain m where m: "h = m + length c" "level m (fill_two f x k y)" using level_plug_depth [OF lev] by blast
  obtain r s1 where run: "mg s = (r, s1)" by (cases "mg s") simp
  show ?thesis
  proof (cases r)
    case (Inl e)
    then have "e = Err ''Page overflow''" "kids x \<noteq> []" using res run by (simp_all add: merge_result_def)
    moreover from m(2) this(2) have "2 \<le> m" by (cases x; cases "m - 1") (auto simp: level_fill_two)
    ultimately show ?thesis using run Inl m(1) by (simp add: andthen_def shrink_result_def)
  next
    case (Inr u)
    then have r1: "reshaped 2 s ?T s1 ?T1" and clear: "\<exists>p. iview s1 (tid ?z) = Some p \<and> kind_clear p"
      using res run by (simp_all add: merge_result_def)
    have tree1: "holds_tree 203 s1 ?T1" and root1: "root_id s1 = tid ?T1" using r1 by (simp_all add: reshaped_def)
    have root: "root_id s1 = root_id s" using root1 hn tid_plug [of "fill f ?z" "fill_two f x k y" c] by simp
    then have "kept 2 s s1" using r1 by (metis reshaped_def bplus_tree.surjective bplus_tree.update_convs(1))
    then have room1: "log_room (3 * length c + 1) s1" using kept_room [of 2 s s1, OF _ room] by simp
    have ff: "frame_fits 203 f" using hn by simp
    have "\<exists>z. check_parent_underfull txn (fr_id f) (handle_underfull txn (fr_id f) (map fr_id c)) s1 = z \<and>
        shrink_result (3 * length c + 1) h s1 ?T1 z"
    proof (cases c)
      case Nil
      then obtain s2 T2 where "check_parent_underfull txn (fr_id f) (handle_underfull txn (fr_id f) (map fr_id c)) s1 = (Inr (), s2)"
        "reshaped 1 s1 (fill f ?z) s2 T2"
        using check_root [of s1 f ?z txn "handle_underfull txn (fr_id f) (map fr_id c)"] tree1 root1 ff clear room1 by auto
      then show ?thesis using Nil by (auto simp: shrink_result_def)
    next
      case (Cons g c')
      obtain s2 where s2: "t_quiet s1 s2" "check_parent_underfull txn (fr_id f) (handle_underfull txn (fr_id f) (map fr_id c)) s1 =
          (if cells (fill f ?z) < 102 then handle_underfull txn (fr_id f) (map fr_id c) s2 else (Inr (), s2))"
        using check_inner [of s1 g c' f ?z txn "handle_underfull txn (fr_id f) (map fr_id c)"] tree1 root1 ff Cons by auto
      note q = reshaped_quiet [OF s2(1) tree1 root1]
      show ?thesis
      proof (cases "cells (fill f ?z) < 102")
        case False
        then show ?thesis using s2(2) reshaped_mono [OF q(1), of "3 * length c + 1"] by (auto simp: shrink_result_def)
      next
        case True
        have "fits 203 (fill f ?z)" using tree1 fits_hole [of 203 c "fill f ?z"] by (simp add: holds_tree_def)
        moreover have "holds_tree 203 s2 ?T1" "root_id s2 = tid ?T1" using q root1 by (simp_all add: reshaped_def)
        moreover have "log_room (3 * length c) s2"
          using s2(1) wal_room_mono [OF room1, of "3 * length c"] by (simp add: t_quiet_def kept_def)
        ultimately have "shrink_result (3 * length c) h s2 ?T1 (handle_underfull txn (fr_id f) (map fr_id c) s2)"
          using up [of s2 "fill f ?z"] True lev1 [OF lev] by simp
        then have "shrink_result (3 * length c) h s1 ?T1 (handle_underfull txn (fr_id f) (map fr_id c) s2)"
          by (rule shrink_result_quiet [OF s2(1) tree1 root1])
        from shrink_result_mono [OF this, of "3 * length c + 1"] show ?thesis using s2(2) True by simp
      qed
    qed
    then obtain r2 s2 where z: "check_parent_underfull txn (fr_id f) (handle_underfull txn (fr_id f) (map fr_id c)) s1 = (r2, s2)"
      "shrink_result (3 * length c + 1) h s1 ?T1 (r2, s2)" by fastforce
    have sum: "2 + (3 * length c + 1) = 3 * length c + 3" by simp
    have "reshaped (3 * length c + 3) s ?T s2 T2" if "reshaped (3 * length c + 1) s1 ?T1 s2 T2" for T2
      using reshaped_then [OF r1 root lev1 that] unfolding sum .
    then have "shrink_result (3 * length c + 3) h s ?T (r2, s2)"
      using z(2) unfolding shrink_result_def prod.case by blast
    then show ?thesis using run Inr z(1) by (simp add: andthen_def)
  qed
qed


text \<open>The outcome for a page with fewer than 102 cells, anywhere in the tree.\<close>

lemma handle_underfull_run:
  assumes "holds_tree 203 s (plug c t)" and "root_id s = tid (plug c t)" and "list_all (frame_fits 203) c"
    and "cells t \<le> 101" and "fits 203 t" and "level h (plug c t)" and "log_room (3 * length c) s"
  shows "shrink_result (3 * length c) h s (plug c t) (handle_underfull txn (tid t) (map fr_id c) s)"
  using assms
proof (induction c arbitrary: s t)
  case Nil
  then have "reshaped 0 s t s t" by (intro reshaped_refl) simp_all
  then show ?case by (auto simp: shrink_result_def run_simps)
next
  case (Cons f c)
  have ff: "frame_fits 203 f" and fc: "list_all (frame_fits 203) c" using Cons.prems(3) by simp_all
  have up: "shrink_result (3 * length c) h s (plug c t) (handle_underfull txn (tid t) (map fr_id c) s)"
    if "holds_tree 203 s (plug c t)" "root_id s = tid (plug c t)" "cells t \<le> 101" "fits 203 t"
      "level h (plug c t)" "log_room (3 * length c) s" for t s
    using Cons.IH that fc by blast
  obtain s0 hdr where s0: "t_quiet s s0" and hdr: "ih_page_ty hdr = own_kind t"
      "\<And>i ks ts. t = Fork i ks ts \<Longrightarrow> ih_ptr hdr = last (map tid ts)"
    and run: "handle_underfull txn (tid t) (map fr_id (f # c)) s =
     (if fr_lts f \<noteq> [] \<and> 102 < cells (last (fr_lts f)) then
        redistribute_from_left txn (tid (last (fr_lts f))) (tid t) (fr_id f) (length (fr_lks f)) hdr s0
      else if fr_rts f \<noteq> [] \<and> 102 < cells (hd (fr_rts f)) then
        redistribute_from_right txn (tid t) (tid (hd (fr_rts f))) (fr_id f) (length (fr_lks f)) hdr s0
      else if fr_lts f \<noteq> [] then
        andthen (merge_with_left txn (tid (last (fr_lts f))) (tid t) (fr_id f) (length (fr_lks f)))
          (\<lambda>_. check_parent_underfull txn (fr_id f) (handle_underfull txn (fr_id f) (map fr_id c))) s0
      else if fr_rts f \<noteq> [] then
        andthen (merge_with_right txn (tid t) (tid (hd (fr_rts f))) (fr_id f) (length (fr_lks f)))
          (\<lambda>_. check_parent_underfull txn (fr_id f) (handle_underfull txn (fr_id f) (map fr_id c))) s0
      else (Inr (), s0))"
    using underfull_choice [OF Cons.prems(1,2) ff, of txn "map fr_id c"] by auto
  define H where "H = handle_underfull txn (tid t) (map fr_id (f # c)) s"
  note run = run [folded H_def]
  note q = reshaped_quiet [OF s0 Cons.prems(1,2)]
  have tree0: "holds_tree 203 s0 (plug c (fill f t))" "root_id s0 = tid (plug c (fill f t))"
    using q Cons.prems(2) by (simp_all add: reshaped_def)
  have room0: "log_room (3 * length c + 3) s0"
    using s0 Cons.prems(7) by (simp add: t_quiet_def kept_def add.commute)
  have room3: "log_room 3 s0" "log_room 2 s0" by (rule wal_room_mono [OF room0], simp)+
  have lev: "level h (plug c (fill f t))" using Cons.prems(6) by simp
  obtain m where m: "list_all (level m) (fr_lts f)" "list_all (level m) (fr_rts f)" "level m t"
    using level_plug_depth [OF lev] by (auto simp: level_fill)
  have "shrink_result (3 * length c + 3) h s0 (plug c (fill f t)) H"
  proof -
    have left: "\<exists>g k. neighbours s0 c g (last (fr_lts f)) k t \<and> fill_two g (last (fr_lts f)) k t = fill f t \<and>
        fr_id g = fr_id f \<and> Suc (length (fr_lks g)) = length (fr_lks f)" if "fr_lts f \<noteq> []"
    proof -
      have "fr_lts f = butlast (fr_lts f) @ [last (fr_lts f)]" using that by simp
      then obtain L x where L: "fr_lts f = L @ [x]" by blast
      have "fr_lks f \<noteq> []" using ff L by (auto simp: frame_fits_def)
      then have "fr_lks f = butlast (fr_lks f) @ [last (fr_lks f)]" by simp
      then obtain K k where K: "fr_lks f = K @ [k]" by blast
      let ?g = "f\<lparr>fr_lts := L, fr_lks := K\<rparr>"
      have "fill_two ?g x k t = fill f t" using L K by (simp add: fill_def fill_two_def)
      moreover have "frame_fits 203 ?g" "length (fr_lks ?g @ fr_rks ?g) < 203" "fits 203 x"
        using ff L K by (simp_all add: frame_fits_def)
      ultimately have "neighbours s0 c ?g x k t"
        using tree0 fc Cons.prems(5) m L by (auto simp: neighbours_def)
      then show ?thesis using L K \<open>fill_two ?g x k t = _\<close> by (intro exI [of _ ?g] exI [of _ k]) simp
    qed
    have right: "\<exists>g k. neighbours s0 c g t k (hd (fr_rts f)) \<and> fill_two g t k (hd (fr_rts f)) = fill f t \<and>
        fr_id g = fr_id f \<and> length (fr_lks g) = length (fr_lks f)" if ne: "fr_rts f \<noteq> []"
    proof -
      obtain y R where R: "fr_rts f = y # R" using ne by (cases "fr_rts f") auto
      obtain k K where K: "fr_rks f = k # K" using ff R by (cases "fr_rks f") (auto simp: frame_fits_def)
      let ?g = "f\<lparr>fr_rts := R, fr_rks := K\<rparr>"
      have "fill_two ?g t k y = fill f t" using R K by (simp add: fill_def fill_two_def)
      moreover have "frame_fits 203 ?g" "length (fr_lks ?g @ fr_rks ?g) < 203" "fits 203 y"
        using ff R K by (simp_all add: frame_fits_def)
      ultimately have "neighbours s0 c ?g t k y"
        using tree0 fc Cons.prems(5) m R by (auto simp: neighbours_def)
      then show ?thesis using R K \<open>fill_two ?g t k y = _\<close> by (intro exI [of _ ?g] exI [of _ k]) simp
    qed
    have three: "3 \<le> 3 * length c + 3" by simp
    consider (bl) "fr_lts f \<noteq> []" "102 < cells (last (fr_lts f))"
      | (br) "\<not> (fr_lts f \<noteq> [] \<and> 102 < cells (last (fr_lts f)))" "fr_rts f \<noteq> []" "102 < cells (hd (fr_rts f))"
      | (ml) "fr_lts f \<noteq> []" "\<not> 102 < cells (last (fr_lts f))" "\<not> (fr_rts f \<noteq> [] \<and> 102 < cells (hd (fr_rts f)))"
      | (mr) "fr_lts f = []" "fr_rts f \<noteq> []" "\<not> 102 < cells (hd (fr_rts f))"
      | (none) "fr_lts f = []" "fr_rts f = []"
      by blast
    then show ?thesis
    proof cases
      case bl
      obtain g k where g: "neighbours s0 c g (last (fr_lts f)) k t" "fill_two g (last (fr_lts f)) k t = fill f t"
        "fr_id g = fr_id f" "Suc (length (fr_lks g)) = length (fr_lks f)" using left [OF bl(1)] by blast
      have "\<exists>s' T'. redistribute_from_left txn (tid (last (fr_lts f))) (tid t) (fr_id g) (Suc (length (fr_lks g))) hdr s0 =
          (Inr (), s') \<and> reshaped 3 s0 (plug c (fill_two g (last (fr_lts f)) k t)) s' T'"
        by (rule borrow_left [OF g(1) bl(2) Cons.prems(4) hdr(1) _ room3(1)]) (rule hdr(2))
      then obtain s' T' where "redistribute_from_left txn (tid (last (fr_lts f))) (tid t) (fr_id f) (length (fr_lks f)) hdr s0 = (Inr (), s')"
        "reshaped 3 s0 (plug c (fill f t)) s' T'" unfolding g(2-4) by blast
      then show ?thesis using run bl reshaped_mono [OF _ three] by (intro shrink_okI) simp_all
    next
      case br
      obtain g k where g: "neighbours s0 c g t k (hd (fr_rts f))" "fill_two g t k (hd (fr_rts f)) = fill f t"
        "fr_id g = fr_id f" "length (fr_lks g) = length (fr_lks f)" using right [OF br(2)] by blast
      obtain s' T' where "redistribute_from_right txn (tid t) (tid (hd (fr_rts f))) (fr_id f) (length (fr_lks f)) hdr s0 = (Inr (), s')"
        "reshaped 3 s0 (plug c (fill f t)) s' T'"
        using borrow_right [OF g(1) Cons.prems(4) br(3) hdr(1) room3(1), of txn] g by auto
      then show ?thesis using run br reshaped_mono [OF _ three] by (intro shrink_okI) simp_all
    next
      case ml
      obtain g k where g: "neighbours s0 c g (last (fr_lts f)) k t" "fill_two g (last (fr_lts f)) k t = fill f t"
        "fr_id g = fr_id f" "Suc (length (fr_lks g)) = length (fr_lks f)" using left [OF ml(1)] by blast
      have "cells (last (fr_lts f)) + cells t \<le> 203" using ml(2) Cons.prems(4) by simp
      note mg = merge_pair(1) [OF g(1) this room3(2), of txn]
      have "shrink_result (3 * length c + 3) h s0 (plug c (fill_two g (last (fr_lts f)) k t))
          (andthen (merge_with_left txn (tid (last (fr_lts f))) (tid t) (fr_id f) (length (fr_lks f)))
            (\<lambda>_. check_parent_underfull txn (fr_id g) (handle_underfull txn (fr_id g) (map fr_id c))) s0)"
      proof (rule merge_up [OF g(1) _ _ room0])
        show "merge_result s0 c g (last (fr_lts f)) k t (merge_with_left txn (tid (last (fr_lts f))) (tid t) (fr_id f) (length (fr_lks f)) s0)"
          using mg unfolding g(3,4) .
        show "level h (plug c (fill_two g (last (fr_lts f)) k t))" using lev unfolding g(2) .
      qed (rule up)
      moreover have "H = andthen (merge_with_left txn (tid (last (fr_lts f))) (tid t) (fr_id f) (length (fr_lks f)))
            (\<lambda>_. check_parent_underfull txn (fr_id f) (handle_underfull txn (fr_id f) (map fr_id c))) s0"
        unfolding run using ml by (auto simp del: handle_underfull.simps)
      ultimately show ?thesis unfolding g(2,3) by (simp only:)
    next
      case mr
      obtain g k where g: "neighbours s0 c g t k (hd (fr_rts f))" "fill_two g t k (hd (fr_rts f)) = fill f t"
        "fr_id g = fr_id f" "length (fr_lks g) = length (fr_lks f)" using right [OF mr(2)] by blast
      have "cells t + cells (hd (fr_rts f)) \<le> 203" using mr(3) Cons.prems(4) by simp
      note mg = merge_pair(2) [OF g(1) this room3(2), of txn]
      have "shrink_result (3 * length c + 3) h s0 (plug c (fill_two g t k (hd (fr_rts f))))
          (andthen (merge_with_right txn (tid t) (tid (hd (fr_rts f))) (fr_id f) (length (fr_lks f)))
            (\<lambda>_. check_parent_underfull txn (fr_id g) (handle_underfull txn (fr_id g) (map fr_id c))) s0)"
      proof (rule merge_up [OF g(1) _ _ room0])
        show "merge_result s0 c g t k (hd (fr_rts f)) (merge_with_right txn (tid t) (tid (hd (fr_rts f))) (fr_id f) (length (fr_lks f)) s0)"
          using mg unfolding g(3,4) .
        show "level h (plug c (fill_two g t k (hd (fr_rts f))))" using lev unfolding g(2) .
      qed (rule up)
      moreover have "H = andthen (merge_with_right txn (tid t) (tid (hd (fr_rts f))) (fr_id f) (length (fr_lks f)))
            (\<lambda>_. check_parent_underfull txn (fr_id f) (handle_underfull txn (fr_id f) (map fr_id c))) s0"
        unfolding run using mr by (auto simp del: handle_underfull.simps)
      ultimately show ?thesis unfolding g(2,3) by (simp only:)
    next
      case none
      have "reshaped (3 * length c + 3) s0 (plug c (fill f t)) s0 (plug c (fill f t))"
        using tree0 by (rule reshaped_refl)
      then show ?thesis using run none by (intro shrink_okI) simp_all
    qed
  qed
  then have "shrink_result (3 * length c + 3) h s (plug (f # c) t) H"
    using Cons.prems(1,2) by (intro shrink_result_quiet [OF s0]) simp_all
  moreover have "3 * length c + 3 = 3 * length (f # c)" by simp
  ultimately show ?case unfolding H_def by (simp only:)
qed

end
