(* ===== verification/Tree_Separator.thy ===== *)
theory Tree_Separator
  imports Tree_Climb
begin

text \<open>
  \<open>propagate_key_update\<close>: when the least key of a leaf is deleted, the separator equal to it on the way
  to the leaf, if there is one, is replaced by the new least key.
\<close>

section \<open>The context with the separator replaced\<close>

fun resep :: "u64 \<Rightarrow> u64 \<Rightarrow> frame list \<Rightarrow> frame list" where
  "resep old new [] = []"
| "resep old new (f # c) =
     (if fr_lks f \<noteq> [] \<and> last (fr_lks f) = old
      then f\<lparr>fr_lks := butlast (fr_lks f) @ [new]\<rparr> # c else f # resep old new c)"

lemma length_last_replaced: "xs \<noteq> [] \<Longrightarrow> Suc (length xs - Suc 0 + n) = length xs + n"
  by (cases xs) simp_all

lemma resep_frames:
  "right_items (resep old new c) = right_items c"
  "list_all (frame_fits n) c \<Longrightarrow> list_all (frame_fits n) (resep old new c)"
  "map frame_ids (resep old new c) = map frame_ids c"
  "map fr_id (resep old new c) = map fr_id c"
  by (induction c) (auto simp: frame_right_def frame_fits_def frame_ids_def length_last_replaced)

lemma tid_plug_ids: "map fr_id c = map fr_id d \<Longrightarrow> tid t = tid u \<Longrightarrow> tid (plug c t) = tid (plug d u)"
proof (induction c arbitrary: d t u)
  case (Cons f c)
  then obtain g d' where "d = g # d'" by (cases d) auto
  then show ?case using Cons by simp
qed simp

lemma level_resep: "level h (plug (resep old new c) t) \<longleftrightarrow> level h (plug c t)"
proof (induction c arbitrary: t)
  case (Cons f c)
  show ?case
  proof (cases "fr_lks f \<noteq> [] \<and> last (fr_lks f) = old")
    case True
    let ?g = "f\<lparr>fr_lks := butlast (fr_lks f) @ [new]\<rparr>"
    have same: "level m (fill ?g t) \<longleftrightarrow> level m (fill f t)" for m by (simp add: level_fill)
    have "level h (plug c (fill ?g t)) \<longleftrightarrow> level h (plug c (fill f t))"
      using level_plug [of h c "fill ?g t" "fill f t"] level_plug [of h c "fill f t" "fill ?g t"] same by blast
    then show ?thesis using True by simp
  next
    case False
    then show ?thesis using Cons.IH [of "fill f t"] by auto
  qed
qed simp

lemma resep_items:
  assumes "sorted_items (left_items c)" and "\<And>x. x \<in> set (left_items c) \<Longrightarrow> fst x < entry_place old"
    and "list_all (frame_fits n) c"
  shows "left_items (resep old new c) = left_items c \<or>
    (\<exists>P. left_items c = P @ [sep_item old] \<and> left_items (resep old new c) = P @ [sep_item new])"
  using assms
proof (induction c)
  case (Cons f c)
  have len: "length (fr_lts f) = length (fr_lks f)" using Cons.prems(3) by (simp add: frame_fits_def)
  show ?case
  proof (cases "fr_lks f \<noteq> [] \<and> last (fr_lks f) = old")
    case True
    then have ks: "fr_lks f = butlast (fr_lks f) @ [old]" by (metis append_butlast_last_id)
    then obtain A where A: "fr_lks f = A @ [old]" by blast
    then have "fr_lts f \<noteq> []" using len by auto
    then have "fr_lts f = butlast (fr_lts f) @ [last (fr_lts f)]" by simp
    then obtain L x where L: "fr_lts f = L @ [x]" by blast
    have "length (map items L) = length (map sep_item A)" using len A L by simp
    from weave_append [OF this, of "[items x]"]
    have "weave (map items L @ [items x]) (map sep_item A @ [sep_item k]) =
        (weave (map items L) (map sep_item A) @ items x) @ [sep_item k]" for k by simp
    then have "left_items (f # c) = (left_items c @ weave (map items L) (map sep_item A) @ items x) @ [sep_item old]"
      "left_items (resep old new (f # c)) = (left_items c @ weave (map items L) (map sep_item A) @ items x) @ [sep_item new]"
      using A L by (simp_all add: frame_left_def)
    then show ?thesis by blast
  next
    case False
    have "sorted_items (left_items c)" using Cons.prems(1) by (simp add: sorted_items_append)
    then consider "left_items (resep old new c) = left_items c"
      | P where "left_items c = P @ [sep_item old]" "left_items (resep old new c) = P @ [sep_item new]"
      using Cons.IH Cons.prems(2,3) by auto
    then show ?thesis
    proof cases
      case 1
      then show ?thesis using False by auto
    next
      case (2 P)
      have "y \<notin> set (frame_left f)" for y
      proof
        assume y: "y \<in> set (frame_left f)"
        have "sorted_items ((P @ [sep_item old]) @ frame_left f)" using Cons.prems(1) 2(1) by simp
        then have "fst (sep_item old) < fst y" using y unfolding sorted_items_append by simp
        moreover have "fst y < entry_place old" using Cons.prems(2) y by simp
        ultimately show False by (simp add: entry_place_def)
      qed
      then have "frame_left f = []" by (cases "frame_left f") auto
      then show ?thesis using 2 False by auto
    qed
  qed
qed simp

text \<open>The items of the tree with the new separator and the new leaf.\<close>

lemma resep_sorted:
  assumes ctx: "list_all (frame_fits n) c" and below: "\<And>x. x \<in> set (left_items c) \<Longrightarrow> fst x < entry_place old"
    and sorted: "sorted_items (left_items c @ map entry_item ((new, h) # kvs) @ right_items c)"
    and ne: "old \<noteq> new"
  shows "sorted_items (left_items (resep old new c) @ map entry_item ((new, h) # kvs) @ right_items c)"
    and "content (left_items (resep old new c) @ map entry_item ((new, h) # kvs) @ right_items c) =
      content (left_items c @ map entry_item ((new, h) # kvs) @ right_items c)"
proof -
  let ?E = "map entry_item ((new, h) # kvs) @ right_items c"
  have sl: "sorted_items (left_items c)" using sorted by (simp add: sorted_items_append)
  consider "left_items (resep old new c) = left_items c"
    | P where "left_items c = P @ [sep_item old]" "left_items (resep old new c) = P @ [sep_item new]"
    using resep_items [OF sl below ctx, of new] by blast
  then have "sorted_items (left_items (resep old new c) @ ?E) \<and>
    content (left_items (resep old new c) @ ?E) = content (left_items c @ ?E)"
  proof cases
    case 1
    then show ?thesis using sorted by simp
  next
    case (2 P)
    have s: "sorted_items (P @ sep_item old # ?E)" using sorted 2(1) by simp
    have "fst (sep_item old) < fst (entry_item (new, h))"
      using s unfolding sorted_items_append sorted_items_Cons by simp
    then have lt: "old < new" using ne by simp
    have low: "fst x < fst (sep_item new)" if "x \<in> set P" for x
    proof -
      have "fst x < fst (sep_item old)" using s that unfolding sorted_items_append by simp
      also have "\<dots> < fst (sep_item new)" using lt by (simp add: word_less_nat_alt)
      finally show ?thesis .
    qed
    have high: "fst (sep_item new) < fst x" if "x \<in> set ?E" for x
    proof -
      have "sorted_items ?E" using s unfolding sorted_items_append sorted_items_Cons by blast
      then have "x = entry_item (new, h) \<or> fst (entry_item (new, h)) < fst x"
        using that by (auto simp: sorted_items_Cons)
      moreover have "fst (sep_item new) < fst (entry_item (new, h))" by simp
      ultimately show ?thesis by (metis less_trans)
    qed
    have "sorted_items (P @ sep_item new # ?E)"
      using low high by (intro sorted_items_insert sorted_items_remove [OF s]) blast+
    moreover have "content (P @ sep_item new # ?E) = content (P @ sep_item old # ?E)"
      by (simp only: content_sep)
    ultimately show ?thesis using 2 by simp
  qed
  then show "sorted_items (left_items (resep old new c) @ ?E)"
    and "content (left_items (resep old new c) @ ?E) = content (left_items c @ ?E)" by simp_all
qed



section \<open>The pages\<close>

lemma set_behind: "length xss = length ks \<Longrightarrow> set ks \<subseteq> set (behind ks xss)"
  by (induction xss ks rule: list_induct2) auto

lemma between_keys:
  assumes "between (f # c) key" and "frame_fits n f"
  shows "\<And>k. k \<in> set (fr_lks f) \<Longrightarrow> k \<le> key" and "\<And>k. k \<in> set (fr_rks f) \<Longrightarrow> key < k" and "between c key"
proof -
  have len: "length (map items (fr_lts f)) = length (map sep_item (fr_lks f))"
    "length (map items (fr_rts f)) = length (map sep_item (fr_rks f))"
    using assms(2) by (simp_all add: frame_fits_def)
  have l: "\<forall>x \<in> set (frame_left f). fst x < entry_place key" and r: "\<forall>x \<in> set (frame_right f). entry_place key < fst x"
    using assms(1) by (simp_all add: between_def)
  show "k \<le> key" if "k \<in> set (fr_lks f)" for k
    using l set_weave [OF len(1)] that by (force simp: frame_left_def)
  show "key < k" if "k \<in> set (fr_rks f)" for k
    using r set_behind [OF len(2)] that by (force simp: frame_right_def)
  show "between c key" using assms(1) by (simp add: between_def)
qed

text \<open>The search finds the key as the last separator to the left, or not at all.\<close>

lemma search_separator:
  assumes sorted: "sorted_wrt (<) (ls @ rs)" and l: "\<And>k. k \<in> set ls \<Longrightarrow> k \<le> key" and r: "\<And>k. k \<in> set rs \<Longrightarrow> key < k"
    and cells: "map c_key cs = ls @ rs"
  shows "search_cells key cs = (if ls \<noteq> [] \<and> last ls = key then Inr (length ls - 1) else Inl (length ls))"
proof -
  have "takeWhile (\<lambda>x. x \<le> key) (ls @ rs) = ls"
    using l r by (cases rs) (auto simp: takeWhile_append2 not_le)
  then have n: "child_index key (ls @ rs) = length ls" by (simp add: child_index_def)
  note spec = search_cells_spec [OF sorted cells, of key, unfolded n]
  have "key \<in> set (ls @ rs) \<longleftrightarrow> ls \<noteq> [] \<and> last ls = key"
  proof
    assume m: "key \<in> set (ls @ rs)"
    then have "0 < length ls" "(ls @ rs) ! (length ls - 1) = key" using spec by blast+
    then show "ls \<noteq> [] \<and> last ls = key" by (auto simp: nth_append last_conv_nth)
  qed auto
  then show ?thesis using spec by simp
qed

lemma keys_cells: "map c_key (map (cell_of l) kvs) = map fst kvs"
  by (simp add: cell_of_def)

lemma edited_mono: "edited a s0 s v \<Longrightarrow> a \<le> b \<Longrightarrow> edited b s0 s v"
  by (auto simp: edited_def intro: kept_mono)

lemma replace_key:
  assumes "length X = Suc (length A)"
  shows "(map (cell_of False) (zip ((A @ [old]) @ rs) (X @ Y)))[length A :=
      (map (cell_of False) (zip ((A @ [old]) @ rs) (X @ Y)) ! length A)\<lparr>c_key := new\<rparr>] =
    map (cell_of False) (zip ((A @ [new]) @ rs) (X @ Y))"
proof -
  have "X = butlast X @ [last X]" using assms by (cases X) simp_all
  then obtain X' x where X: "X = X' @ [x]" by blast
  have len: "length (map (cell_of False) (zip A X')) = length A" using assms X by simp
  have "map (cell_of False) (zip ((A @ [k]) @ rs) (X @ Y)) =
      map (cell_of False) (zip A X') @ cell_of False (k, x) # map (cell_of False) (zip rs Y)" for k
    using assms X by simp
  then show ?thesis
    using list_update_length [of "map (cell_of False) (zip A X')"] nth_append_length [of "map (cell_of False) (zip A X')"]
    unfolding len by (simp only:) (simp add: cell_of_def)
qed

lemma propagate_run:
  assumes e: "edited n s0 s v" and room: "log_room (Suc n) s0" and st: "stored_ctx v h c"
    and fit: "list_all (frame_fits m) c" and btw: "between c old"
    and lt: "\<And>f. f \<in> set c \<Longrightarrow> fr_lks f \<noteq> [] \<Longrightarrow> last (fr_lks f) = old \<Longrightarrow> old < new"
    and above: "\<And>x. x \<in> set (right_items c) \<Longrightarrow> fst (sep_item new) < fst x"
    and dist: "distinct (concat (map frame_ids c))"
  shows "\<exists>s' v'. propagate_key_update_from txn old new (map fr_id c) s = (Inr (), s') \<and>
    edited (Suc n) s0 s' v' \<and> stored_ctx v' h (resep old new c) \<and>
    (\<forall>j. j \<notin> set (concat (map frame_ids c)) \<longrightarrow> v' j = v j) \<and> (\<forall>j. kind_of v' j = kind_of v j)"
  using e st fit btw above dist lt
proof (induction c arbitrary: h s)
  case Nil
  then show ?case using edited_mono [of n s0 s v "Suc n"] by (auto simp: run_simps)
next
  case (Cons f c)
  let ?q = "fr_id f" and ?cs = "map tid (fr_lts f) @ h # map tid (fr_rts f)"
  have ff: "frame_fits m f" and fc: "list_all (frame_fits m) c" using Cons.prems(3) by simp_all
  note keys = between_keys [OF Cons.prems(4) ff]
  have at: "at_inner v ?q (fr_lks f @ fr_rks f) ?cs" "list_all (stored v) (fr_lts f)" "list_all (stored v) (fr_rts f)"
    and stc: "stored_ctx v ?q c" using Cons.prems(2) by (simp_all add: stored_frame_def)
  then obtain p nd where p: "v ?q = Some p" "page_rep p nd" "\<not> node_leaf nd" "n_cells nd = zip (fr_lks f @ fr_rks f) ?cs"
    "n_ptr nd = last ?cs" and len: "length ?cs = Suc (length (fr_lks f @ fr_rks f))"
    by (auto simp: at_inner_def)
  define kvs where "kvs = zip (fr_lks f @ fr_rks f) ?cs"
  have w: "page_with (n_ty nd) False kvs (last ?cs) p"
    using page_with_rep [OF p(2)] p(3-5) by (simp add: kvs_def)
  have ks: "map fst kvs = fr_lks f @ fr_rks f" using len unfolding kvs_def by (simp only: map_fst_zip_take) simp
  have sorted: "sorted_wrt (<) (fr_lks f @ fr_rks f)" using page_with_sorted [OF w] unfolding ks .
  note search = search_separator [OF sorted keys(1,2) keys_cells [of False kvs, unfolded ks]]
  note cells = page_with_read(2) [OF w]
  obtain s1 where s1: "t_fetch ?q s = (Inr p, s1)" "edited n s0 s1 v" using fetch_edit [OF Cons.prems(1) p(1)] by blast
  show ?case
  proof (cases "fr_lks f \<noteq> [] \<and> last (fr_lks f) = old")
    case False
    have "\<exists>s' v'. propagate_key_update_from txn old new (map fr_id c) s1 = (Inr (), s') \<and>
      edited (Suc n) s0 s' v' \<and> stored_ctx v' ?q (resep old new c) \<and>
      (\<forall>j. j \<notin> set (concat (map frame_ids c)) \<longrightarrow> v' j = v j) \<and> (\<forall>j. kind_of v' j = kind_of v j)"
      using Cons.prems(5,6,7) by (intro Cons.IH [OF s1(2) stc fc keys(3)]) auto
    then obtain s' v' where s': "propagate_key_update_from txn old new (map fr_id c) s1 = (Inr (), s')"
      "edited (Suc n) s0 s' v'" "stored_ctx v' ?q (resep old new c)"
      "\<forall>j. j \<notin> set (concat (map frame_ids c)) \<longrightarrow> v' j = v j" "\<forall>j. kind_of v' j = kind_of v j" by blast
    have apart: "set (frame_ids f) \<inter> set (concat (map frame_ids c)) = {}" using Cons.prems(6) by simp
    have "stored_frame v' h f"
    proof (rule stored_frame_cong [of v h f])
      show "stored_frame v h f" using Cons.prems(2) by simp
      show "v' j = v j" if "j \<in> set (frame_ids f)" for j using that s'(4) apart by blast
    qed
    moreover have "propagate_key_update_from txn old new (map fr_id (f # c)) s = (Inr (), s')"
      using s1(1) s'(1) cells search False by (simp add: run_simps)
    moreover have "resep old new (f # c) = f # resep old new c" using False by auto
    moreover have "v' j = v j" if "j \<notin> set (concat (map frame_ids (f # c)))" for j
      using s'(4) that by simp
    ultimately show ?thesis using s'(2,3,5) by (intro exI [of _ s'] exI [of _ v']) simp
  next
    case True
    then have "fr_lks f = butlast (fr_lks f) @ [old]" by (metis append_butlast_last_id)
    then obtain A where A: "fr_lks f = A @ [old]" by blast
    have lX: "length (map tid (fr_lts f)) = Suc (length A)" using ff A by (simp add: frame_fits_def)
    let ?new = "zip ((A @ [new]) @ fr_rks f) ?cs"
    have ks': "map fst ?new = (A @ [new]) @ fr_rks f" using len A by (simp only: map_fst_zip_take) simp
    have low: "a < new" if "a \<in> set A" for a
    proof -
      have "a < old" using sorted that unfolding A by (simp add: sorted_wrt_append)
      also have "old < new" using Cons.prems(7) [of f] True by simp
      finally show ?thesis .
    qed
    have high: "new < k" if "k \<in> set (fr_rks f)" for k
    proof -
      have "length (map items (fr_rts f)) = length (map sep_item (fr_rks f))" using ff by (simp add: frame_fits_def)
      then have "sep_item k \<in> set (right_items (f # c))" using set_behind that by (fastforce simp: frame_right_def)
      then show ?thesis using Cons.prems(5) by (fastforce simp: word_less_nat_alt)
    qed
    have "sorted_wrt (<) ((A @ [new]) @ fr_rks f)"
      using sorted low high unfolding A by (auto simp: sorted_wrt_append)
    then have srt: "sorted_wrt (<) (map fst ?new)" unfolding ks' .
    have lf: "False \<longleftrightarrow> n_ty nd = Leaf \<or> (n_ty nd = Root \<and> n_ty nd = Root \<and> False)"
      using page_with_level(2) [OF w] by auto
    obtain hd where hd: "page_header p = Inr hd" "ih_page_ty hd = n_ty nd" "ih_ptr hd = last ?cs"
      using page_with_read(1) [OF w] by blast
    have "length ?new \<le> 203" using page_with_bound [OF w] A by (simp add: kvs_def)
    then obtain p' where p': "rebuild_from_cells (map (cell_of False) ?new) (n_ty nd) (ih_id hd) (last ?cs) p = (Inr (), p')"
      "page_with (n_ty nd) False ?new (last ?cs) p'"
      using rebuild_edit [OF w lf srt, of "ih_id hd" "last ?cs"] by auto
    let ?body = "andthen (reads page_header) (\<lambda>hdr. andthen (reads get_cells) (\<lambda>cells.
        rebuild_from_cells (cells[length A := (cells ! length A)\<lparr>c_key := new\<rparr>]) (ih_page_ty hdr) (ih_id hdr) (ih_ptr hdr)))"
    have body: "?body p = (Inr (), p')"
      using hd cells p'(1) replace_key [OF lX, of old "fr_rks f" "h # map tid (fr_rts f)" new, folded A, folded kvs_def]
      by (simp only: run_simps prod.case sum.case)
    obtain s' where s': "rewrite_page txn ?q ?body s1 = (Inr (), s')" "edited (Suc n) s0 s' (v(?q \<mapsto> p'))"
      using rewrite_edit(1) [where body = ?body, OF s1(2) room p(1) page_with_length [OF w] body page_with_length [OF p'(2)]]
      by blast
    let ?v = "v(?q \<mapsto> p')" and ?g = "f\<lparr>fr_lks := A @ [new]\<rparr>"
    have d: "?q \<notin> set (concat (map ids (fr_lts f)))" "?q \<notin> set (concat (map ids (fr_rts f)))"
      "?q \<notin> set (concat (map frame_ids c))"
      using Cons.prems(6) by (auto simp: frame_ids_def)
    have sub: "list_all (stored ?v) us" if "list_all (stored v) us" "?q \<notin> set (concat (map ids us))" for us
      using that by (auto simp: list_all_iff intro!: stored_cong [of v _ ?v])
    have "length ?cs = Suc (length ((A @ [new]) @ fr_rks f))" using len A by simp
    then have "at_inner ?v ?q ((A @ [new]) @ fr_rks f) ?cs"
      using p'(2) unfolding at_inner_def page_with_def by auto
    then have "stored_frame ?v h ?g" using sub at(2,3) d by (simp add: stored_frame_def)
    moreover have "stored_ctx ?v ?q c" using d(3) by (intro stored_ctx_cong [OF stc]) auto
    ultimately have ctx: "stored_ctx ?v h (resep old new (f # c))" using True A by simp
    have "kind_of ?v j = kind_of v j" for j
      using page_with_kind [where v = ?v, OF _ p'(2), of ?q] page_with_kind [where v = v, OF p(1) w]
        kind_of_cong [of ?v j v] by (cases "j = ?q") simp_all
    moreover have "propagate_key_update_from txn old new (map fr_id (f # c)) s = (Inr (), s')"
      using s1(1) s'(1) cells search True A by (simp add: run_simps)
    moreover have "\<forall>j. j \<notin> set (concat (map frame_ids (f # c))) \<longrightarrow> ?v j = v j" by (simp add: frame_ids_def)
    ultimately show ?thesis using s'(2) ctx by blast
  qed
qed

end
