(* ===== verification/Tree_Delete.thy ===== *)
theory Tree_Delete
  imports Tree_Separator
begin

text \<open>
  Deletion from a tree that stands for a map from keys to records: the key leaves its leaf, and then
  either the separator equal to it is replaced or the small leaf is rebalanced. The records stay in the
  heap.
\<close>

section \<open>The leaf\<close>

abbreviation without :: "u64 \<Rightarrow> (u64 \<times> u64) list \<Rightarrow> (u64 \<times> u64) list" where
  "without key kvs \<equiv> filter (\<lambda>kv. fst kv \<noteq> key) kvs"

lemma without_nth:
  assumes "distinct (map fst kvs)" and "idx < length kvs" and "fst (kvs ! idx) = key"
  shows "take idx kvs @ drop (Suc idx) kvs = without key kvs"
proof -
  let ?l = "take idx kvs" and ?r = "drop (Suc idx) kvs"
  have kvs: "kvs = ?l @ kvs ! idx # ?r" using assms(2) by (rule id_take_nth_drop)
  have "distinct (map fst (?l @ kvs ! idx # ?r))" using assms(1) kvs by metis
  then have out: "key \<notin> fst ` set ?l" "key \<notin> fst ` set ?r" using assms(3) by (simp_all del: take_map drop_map)
  have "without key kvs = without key ?l @ without key ?r"
    using arg_cong [OF kvs, of "without key"] assms(3) by simp
  also have "without key ?l = ?l" using out(1) by (intro filter_True) force
  also have "without key ?r = ?r" using out(2) by (intro filter_True) force
  finally show ?thesis by simp
qed

lemma sorted_items_filter: "sorted_items xs \<Longrightarrow> sorted_items (filter P xs)"
  by (simp add: sorted_items_def sorted_wrt_map sorted_wrt_filter)

lemma map_of_without: "map_of (without key kvs) = (map_of kvs)(key := None)"
  by (induction kvs) (auto simp: fun_eq_iff)

text \<open>What the deletion does to the bytes of the leaf.\<close>

lemma leaf_delete_page:
  assumes p: "page_with ty True kvs ptr p" and key: "key \<in> fst ` set kvs"
  shows "\<exists>p'. andthen (reads get_cells) (\<lambda>cells. case search_cells key cells of
        Inl _ \<Rightarrow> fail (Err ''Key not found in leaf page'')
      | Inr idx \<Rightarrow> andthen (remove_cell_at idx) (\<lambda>_. reads num_cells)) p = (Inr (length (without key kvs)), p') \<and>
    page_with ty True (without key kvs) ptr p'"
proof -
  note sorted = page_with_sorted [OF p]
  let ?idx = "child_index key (map fst kvs) - 1"
  have s: "search_cells key (map (cell_of True) kvs) = Inr ?idx" and pos: "0 < child_index key (map fst kvs)"
    and nth: "map fst kvs ! ?idx = key"
    using search_cells_spec [OF sorted keys_cells [of True kvs], of key] key by auto
  then have idx: "?idx < length kvs" using child_index_le [of key "map fst kvs"] by simp
  have "take ?idx kvs @ drop (Suc ?idx) kvs = without key kvs"
    using sorted idx nth by (intro without_nth) (simp_all add: strict_sorted_iff)
  then obtain p' where p': "remove_cell_at ?idx p = (Inr (cell_of True (kvs ! ?idx)), p')"
    "page_with ty True (without key kvs) ptr p'"
    using remove_edit [OF p idx] by auto
  then show ?thesis
    using s page_with_read(2) [OF p] page_with_read(3) [OF p'(2)] by (intro exI [of _ p']) (simp add: run_simps)
qed

lemma delete_items:
  assumes sorted: "sorted_items (l @ map entry_item kvs @ r)"
    and l: "\<And>x. x \<in> set l \<Longrightarrow> fst x < entry_place key" and r: "\<And>x. x \<in> set r \<Longrightarrow> entry_place key < fst x"
  shows "sorted_items (l @ map entry_item (without key kvs) @ r)"
    and "content (l @ map entry_item (without key kvs) @ r) = (content (l @ map entry_item kvs @ r))(key := None)"
proof -
  let ?P = "\<lambda>x. fst x \<noteq> entry_place key"
  have "filter ?P l = l" by (intro filter_True ballI) (metis l less_irrefl)
  moreover have "filter ?P r = r" by (intro filter_True ballI) (metis r less_irrefl)
  moreover have "filter ?P (map entry_item kvs) = map entry_item (without key kvs)"
    by (simp add: filter_map comp_def)
  ultimately show "sorted_items (l @ map entry_item (without key kvs) @ r)"
    using sorted_items_filter [OF sorted, of ?P] by simp
  have "map_of l (entry_place key) = None" "map_of r (entry_place key) = None"
    using l r by (fastforce simp: map_of_eq_None_iff)+
  then show "content (l @ map entry_item (without key kvs) @ r) = (content (l @ map entry_item kvs @ r))(key := None)"
    by (auto simp: fun_eq_iff content_def map_add_def map_of_entry_items map_of_without split: option.splits)
qed

text \<open>The tree with another leaf.\<close>

lemma leaf_change:
  assumes tree: "holds_tree n s (plug c (Tip i kvs))" and e: "edited k s s' ((iview s)(i \<mapsto> p'))"
    and p: "page_with ty True kvs' ptr p'" and ty: "kind_of (iview s) i = Some ty"
    and sorted: "sorted_items (items (plug c (Tip i kvs')))" and fit: "length kvs' \<le> n" "list_all (frame_fits n) c"
  shows "holds_tree n s' (plug c (Tip i kvs'))"
proof -
  note h = tree [unfolded holds_tree_def]
  have v: "iview s' = (iview s)(i \<mapsto> p')" and good: "tree_good s'" using e by (simp_all add: edited_def kept_def)
  have apart: "distinct (i # concat (map frame_ids c))" using h distinct_ids_plug [of c "Tip i kvs"] by simp
  have "stored_ctx (iview s) i c" using h by (simp add: stored_plug)
  then have "stored_ctx (iview s') i c" by (rule stored_ctx_cong) (use apart in \<open>auto simp: v\<close>)
  moreover have "stored (iview s') (Tip i kvs')" using p by (auto simp: v at_leaf_def page_with_def)
  ultimately have "stored (iview s') (plug c (Tip i kvs'))" by (simp add: stored_plug)
  moreover have "kinds (iview s') (plug c (Tip i kvs'))"
  proof (rule kinds_transfer)
    show "kinds (iview s) (plug c (Tip i kvs))" using h by simp
    show "tid (plug c (Tip i kvs')) = tid (plug c (Tip i kvs))" by (rule tid_plug) simp
    show "set (ids (plug c (Tip i kvs'))) \<subseteq> set (ids (plug c (Tip i kvs)))" by (simp add: set_ids_plug)
    show "kind_of (iview s') j = Some Root \<longleftrightarrow> kind_of (iview s) j = Some Root" for j
      using page_with_kind [where v = "iview s'", OF _ p, of i] ty kind_of_cong [of "iview s'" j "iview s"]
      by (cases "j = i") (simp_all add: v)
  qed
  ultimately show ?thesis
    using good sorted fit apart by (simp add: holds_tree_def fits_plug distinct_ids_plug)
qed


section \<open>The separator\<close>

lemma sep_in_left:
  assumes "list_all (frame_fits n) c" and "f \<in> set c" and "k \<in> set (fr_lks f)"
  shows "sep_item k \<in> set (left_items c)"
  using assms
proof (induction c)
  case (Cons g c)
  have "sep_item k \<in> set (frame_left g)" if "k \<in> set (fr_lks g)"
    using set_weave_subset [of "map sep_item (fr_lks g)"] that by (force simp: frame_left_def)
  then show ?case using Cons by auto
qed simp

lemma resep_tree:
  assumes tree: "holds_tree n s (plug c (Tip i ((new, h) # kvs)))" and fit: "list_all (frame_fits n) c"
    and btw: "between c old" and ne: "old \<noteq> new" and room: "log_room 1 s"
  shows "\<exists>s'. propagate_key_update txn old i (map fr_id c) s = (Inr (), s') \<and> kept 1 s s' \<and> inext s' = inext s \<and>
    holds_tree n s' (plug (resep old new c) (Tip i ((new, h) # kvs))) \<and>
    content (items (plug (resep old new c) (Tip i ((new, h) # kvs)))) = content (items (plug c (Tip i ((new, h) # kvs))))"
proof -
  let ?t = "Tip i ((new, h) # kvs)" and ?c = "resep old new c"
  note h = tree [unfolded holds_tree_def]
  have good: "tree_good s" and st: "stored_ctx (iview s) i c" "stored (iview s) ?t" and apart: "distinct (i # concat (map frame_ids c))"
    using h distinct_ids_plug [of c ?t] by (simp_all add: stored_plug)
  have fit': "list_all (frame_fits n) ?c" using resep_frames(2) [OF fit] .
  have sorted: "sorted_items (left_items c @ map entry_item ((new, h) # kvs) @ right_items c)"
    using h by (simp add: items_plug [OF fit])
  have below: "\<And>x. x \<in> set (left_items c) \<Longrightarrow> fst x < entry_place old" using btw by (simp add: between_def)
  note rs = resep_sorted [OF fit below sorted ne]
  have it: "items (plug ?c ?t) = left_items ?c @ map entry_item ((new, h) # kvs) @ right_items c"
    "items (plug c ?t) = left_items c @ map entry_item ((new, h) # kvs) @ right_items c"
    by (simp_all add: items_plug [OF fit'] items_plug [OF fit] resep_frames(1))
  obtain p nd where p: "iview s i = Some p" "page_rep p nd" "node_leaf nd" "n_cells nd = (new, h) # kvs"
    using st(2) by (auto simp: at_leaf_def)
  obtain s1 where s1: "t_fetch i s = (Inr p, s1)" "edited 0 s s1 (iview s)"
    using fetch_edit [OF edited_start [OF good] p(1)] by blast
  have above: "fst (sep_item new) < fst x" if "x \<in> set (right_items c)" for x
  proof -
    have "fst (sep_item new) < fst (entry_item (new, h))" by simp
    also have "\<dots> < fst x" using sorted that unfolding sorted_items_append by simp
    finally show ?thesis .
  qed
  have lt: "old < new" if f: "f \<in> set c" "fr_lks f \<noteq> []" "last (fr_lks f) = old" for f
  proof -
    have "sep_item old \<in> set (left_items c)" using sep_in_left [OF fit f(1), of old] f(2,3) last_in_set by blast
    moreover have "\<forall>x \<in> set (left_items c). fst x < entry_place new"
      using sorted unfolding sorted_items_append by simp
    ultimately have "fst (sep_item old) < entry_place new" by blast
    then show ?thesis using ne by simp
  qed
  have r1: "log_room (Suc 0) s" using room by simp
  have dc: "distinct (concat (map frame_ids c))" using apart by simp
  have "\<exists>s' v'. propagate_key_update_from txn old new (map fr_id c) s1 = (Inr (), s') \<and>
    edited (Suc 0) s s' v' \<and> stored_ctx v' i ?c \<and>
    (\<forall>j. j \<notin> set (concat (map frame_ids c)) \<longrightarrow> v' j = iview s j) \<and> (\<forall>j. kind_of v' j = kind_of (iview s) j)"
    by (rule propagate_run [OF s1(2) r1 st(1) fit btw lt above dc])
  then obtain s' v' where s': "propagate_key_update_from txn old new (map fr_id c) s1 = (Inr (), s')"
    "edited (Suc 0) s s' v'" "stored_ctx v' i ?c" "\<forall>j. j \<notin> set (concat (map frame_ids c)) \<longrightarrow> v' j = iview s j"
    "\<forall>j. kind_of v' j = kind_of (iview s) j"
    by blast
  have v: "iview s' = v'" and k: "kept 1 s s'" "inext s' = inext s" using s'(2) by (simp_all add: edited_def)
  have run: "propagate_key_update txn old i (map fr_id c) s = (Inr (), s')"
    using s1(1) s'(1) get_cells_rep [OF p(2)] p(3,4) by (simp add: propagate_key_update_def run_simps)
  have "stored v' ?t"
    using apart s'(4) by (intro stored_cong [OF st(2)]) simp
  then have "stored (iview s') (plug ?c ?t)" using s'(3) v by (simp add: stored_plug)
  moreover have "kinds (iview s') (plug ?c ?t)"
  proof (rule kinds_transfer)
    show "kinds (iview s) (plug c ?t)" using h by simp
    show "tid (plug ?c ?t) = tid (plug c ?t)" by (rule tid_plug_ids [OF resep_frames(4) refl])
    show "set (ids (plug ?c ?t)) \<subseteq> set (ids (plug c ?t))" by (simp only: set_ids_plug resep_frames(3) order_refl)
    show "kind_of (iview s') j = Some Root \<longleftrightarrow> kind_of (iview s) j = Some Root" for j using s'(5) v by simp
  qed
  moreover have "fits n ?t" using h fits_hole by blast
  moreover have "distinct (ids (plug ?c ?t))" using h by (simp only: distinct_ids_plug resep_frames(3))
  moreover have "tree_good s'" using k by (simp add: kept_def)
  ultimately have "holds_tree n s' (plug ?c ?t)"
    using rs(1) fits_plug [OF fit'] unfolding holds_tree_def it by blast
  then show ?thesis using run k rs(2) unfolding it by blast
qed



section \<open>Deletion\<close>

text \<open>The room a deletion needs in the log.\<close>

abbreviation delete_room :: "nat \<Rightarrow> bplus_tree \<Rightarrow> bool" where
  "delete_room n s \<equiv> log_room (3 * n + 2) s"

lemma reads_as_delete: "reads_as v e m \<Longrightarrow> reads_as v (e(k := None)) (m(k := None))"
  by (simp add: reads_as_def)

text \<open>What follows the change of the leaf.\<close>

lemma delete_tail:
  assumes tree: "holds_tree 203 s (plug c (Tip i kvs))" and root: "root_id s = tid (plug c (Tip i kvs))"
    and fit: "list_all (frame_fits 203) c" and btw: "between c key" and new: "\<And>kv. kv \<in> set kvs \<Longrightarrow> fst kv \<noteq> key"
    and lev: "level h (plug c (Tip i kvs))" and room: "log_room (3 * length c + 1) s"
  defines "T \<equiv> plug c (Tip i kvs)"
  shows "\<exists>r s'. (if i = root_id s then (Inr (), s)
      else if 102 \<le> length kvs then propagate_key_update txn key i (map fr_id c) s
      else handle_underfull txn i (map fr_id c) s) = (r, s') \<and>
    (r = Inr () \<and> (\<exists>T'. reshaped (3 * length c + 1) s T s' T') \<or> r = Inl (Err ''Page overflow'') \<and> 2 \<le> h)"
proof -
  note t = tree [folded T_def] and r = root [folded T_def]
  have same: "reshaped n s T s T" for n by (rule reshaped_refl [OF t r])
  consider (root) "i = root_id s" | (many) "i \<noteq> root_id s" "102 \<le> length kvs" | (few) "i \<noteq> root_id s" "length kvs \<le> 101"
    by linarith
  then show ?thesis
  proof cases
    case root
    then show ?thesis using same by auto
  next
    case many
    then obtain new' hp kvs' where kvs: "kvs = (new', hp) # kvs'" by (cases kvs) auto
    have ne: "key \<noteq> new'" using new [of "(new', hp)"] kvs by auto
    obtain s' where s': "propagate_key_update txn key i (map fr_id c) s = (Inr (), s')" "kept 1 s s'" "inext s' = inext s"
      "holds_tree 203 s' (plug (resep key new' c) (Tip i kvs))"
      "content (items (plug (resep key new' c) (Tip i kvs))) = content (items T)"
      using resep_tree [OF tree [unfolded kvs] fit btw ne wal_room_mono [OF room]] unfolding kvs T_def by force
    have "tid (plug (resep key new' c) (Tip i kvs)) = tid T"
      unfolding T_def by (rule tid_plug_ids) (simp_all only: resep_frames(4) refl)
    moreover have "s'\<lparr>root_id := root_id s\<rparr> = s'" using s'(2) by (simp add: kept_def)
    moreover have "kept (3 * length c + 1) s s'" by (rule kept_mono [OF s'(2)]) simp
    ultimately have "reshaped (3 * length c + 1) s T s' (plug (resep key new' c) (Tip i kvs))"
      using s'(2-5) r unfolding reshaped_def by (simp add: level_resep T_def kept_def)
    then show ?thesis using many s'(1) by auto
  next
    case few
    have "shrink_result (3 * length c) h s T (handle_underfull txn (tid (Tip i kvs)) (map fr_id c) s)"
      unfolding T_def using few(2) t fits_hole [of 203 c "Tip i kvs"] wal_room_mono [OF room, of "3 * length c"]
      by (intro handle_underfull_run [OF tree root fit _ _ lev]) (simp_all add: holds_tree_def T_def)
    from shrink_result_mono [OF this, of "3 * length c + 1"] show ?thesis
      using few by (cases "handle_underfull txn i (map fr_id c) s") (auto simp: shrink_result_def)
  qed
qed


text \<open>The possible outcomes, and what is left of the log.\<close>

definition delete_result :: "nat \<Rightarrow> bplus_tree \<Rightarrow> (u64 \<Rightarrow> bytes list option) \<Rightarrow> u64 \<Rightarrow>
    (error + unit) \<times> bplus_tree \<Rightarrow> bool" where
  "delete_result n s m key = (\<lambda>(r, s').
     if m key = None
     then r = Inl (Err ''Key not found'') \<and> stands_for 203 n s' m \<and> (\<forall>k. log_room (k + (3 * n + 2)) s \<longrightarrow> log_room k s')
     else (r = Inr () \<and> stands_for 203 n s' (m(key := None)) \<and> (\<forall>k. log_room (k + (3 * n + 2)) s \<longrightarrow> log_room k s')) \<or>
       (r = Inl (Err ''Page overflow'') \<and> 2 \<le> n))"

lemma tree_delete_run:
  assumes rep: "stands_for 203 n s m" and room: "delete_room n s"
  shows "delete_result n s m key (tree_delete txn key s)"
proof -
  obtain T h where tree: "holds_tree 203 s T" and root: "root_id s = tid T" and sh: "level h T" "h \<le> n"
    and reads: "reads_as (hview s) (map_of (entries T)) m"
    using rep by (auto simp: stands_for_def)
  obtain c i kvs where d: "descend key [] T = (c, i, kvs)" by (cases "descend key [] T") simp
  note hd = holds_tree_descend [OF tree d]
  have T: "T = plug c (Tip i kvs)" using hd(1) by simp
  have depth: "length c \<le> n" using descend_level [OF d _ sh(1), of 203] tree sh(2) by (simp add: holds_tree_def)
  obtain s0 where s0: "breadcrumbs key s = (Inr (i # map fr_id c, key \<in> fst ` set kvs), s0)" "t_quiet s s0"
    using descent_run(2) [OF tree root d] by blast
  have "rel_option (record_at (hview s)) (map_of (entries T) key) (m key)"
    using reads by (simp add: reads_as_def)
  then have old: "key \<in> fst ` set kvs \<longleftrightarrow> m key \<noteq> None"
    using hd(6) map_of_eq_None_iff [of kvs key] by (cases "m key") auto
  have log0: "log_room k s0" if "log_room k s" for k using s0(2) that by (simp add: t_quiet_def kept_def)
  show ?thesis
  proof (cases "key \<in> fst ` set kvs")
    case False
    have "log_room k s0" if "log_room (k + (3 * n + 2)) s" for k
      by (intro log0 wal_room_mono [OF that]) simp
    then show ?thesis
      using s0(1) False old stands_for_quiet [OF rep s0(2)]
      by (simp add: tree_delete_def andthen_def run_simps delete_result_def)
  next
    case True
    let ?kvs = "without key kvs"
    let ?U = "plug c (Tip i ?kvs)"
    have tree0: "holds_tree 203 s0 (plug c (Tip i kvs))" and root0: "root_id s0 = tid (plug c (Tip i kvs))"
      using holds_tree_quiet [OF tree s0(2)] s0(2) root by (simp_all add: T t_quiet_def kept_def)
    have good: "tree_good s0" and st: "stored (iview s0) (Tip i kvs)"
      using tree0 by (simp_all add: holds_tree_def stored_plug)
    obtain p nd where p: "iview s0 i = Some p" "page_rep p nd" "node_leaf nd" "n_cells nd = kvs"
      using st by (auto simp: at_leaf_def)
    have w: "page_with (n_ty nd) True kvs (n_ptr nd) p" using page_with_rep [OF p(2)] p(3,4) by simp
    let ?body = "andthen (reads get_cells) (\<lambda>cells. case search_cells key cells of
        Inl _ \<Rightarrow> fail (Err ''Key not found in leaf page'')
      | Inr idx \<Rightarrow> andthen (remove_cell_at idx) (\<lambda>_. reads num_cells))"
    obtain p' where p': "?body p = (Inr (length ?kvs), p')" "page_with (n_ty nd) True ?kvs (n_ptr nd) p'"
      using leaf_delete_page [OF w True] by blast
    have r1: "log_room (Suc 0) s0" using log0 wal_room_mono [OF room, of "Suc 0"] by simp
    obtain s1 where s1: "rewrite_page_refetch txn i ?body s0 = (Inr (length ?kvs), s1)"
      "edited (Suc 0) s0 s1 ((iview s0)(i \<mapsto> p'))"
      using rewrite_edit(2) [where body = ?body, OF edited_start [OF good] r1 p(1) page_with_length [OF w] p'(1)
          page_with_length [OF p'(2)]] by blast
    have it: "items ?U = left_items c @ map entry_item ?kvs @ right_items c"
      "items T = left_items c @ map entry_item kvs @ right_items c"
      unfolding T by (simp_all add: items_plug [OF hd(2)])
    have sorted: "sorted_items (left_items c @ map entry_item kvs @ right_items c)"
      using tree it(2) by (simp add: holds_tree_def)
    have bl: "\<And>x. x \<in> set (left_items c) \<Longrightarrow> fst x < entry_place key"
      and br: "\<And>x. x \<in> set (right_items c) \<Longrightarrow> entry_place key < fst x" using hd(3) by (simp_all add: between_def)
    note del = delete_items [OF sorted bl br]
    have len: "length ?kvs \<le> 203" using hd(4) length_filter_le [of _ kvs] le_trans by blast
    have ty: "kind_of (iview s0) i = Some (n_ty nd)" using kind_of_rep [of "iview s0" i, OF p(1,2)] .
    have tree1: "holds_tree 203 s1 ?U"
      by (rule leaf_change [OF tree0 s1(2) p'(2) ty _ len hd(2)]) (unfold it(1), rule del(1))
    have k1: "kept (Suc 0) s0 s1" using s1(2) by (simp add: edited_def)
    have tid: "tid ?U = tid T" unfolding T by (rule tid_plug) simp
    have root1: "root_id s1 = tid ?U" using k1 root0 tid T by (simp add: kept_def)
    have lev: "level h ?U" using sh(1) unfolding T by (rule level_plug) simp
    have "log_room (3 * n + 1) s1" using k1 log0 [OF room] by (simp add: kept_def)
    then have room1: "log_room (3 * length c + 1) s1" by (rule wal_room_mono) (use depth in simp)
    have fresh: "\<And>kv. kv \<in> set ?kvs \<Longrightarrow> fst kv \<noteq> key" by simp
    obtain r s2 where tail: "(if i = root_id s1 then (Inr (), s1)
        else if 102 \<le> length ?kvs then propagate_key_update txn key i (map fr_id c) s1
        else handle_underfull txn i (map fr_id c) s1) = (r, s2)"
      "r = Inr () \<and> (\<exists>T'. reshaped (3 * length c + 1) s1 ?U s2 T') \<or> r = Inl (Err ''Page overflow'') \<and> 2 \<le> h"
      using delete_tail [OF tree1 root1 hd(2,3) fresh lev room1, of txn] by blast
    have run: "tree_delete txn key s = (r, s2)"
      using s0(1) s1(1) tail(1) True
      by (auto simp: tree_delete_def andthen_def run_simps tree_consts split: if_splits)
    show ?thesis
    proof (cases "r = Inr ()")
      case False
      then show ?thesis using run tail(2) sh(2) old True by (auto simp: delete_result_def)
    next
      case ok: True
      then obtain T' where T': "reshaped (3 * length c + 1) s1 ?U s2 T'" using tail(2) by auto
      note re = T' [unfolded reshaped_def]
      have hv: "hview s2 = hview s"
        using re k1 s0(2) by (simp add: kept_def t_quiet_def)
      have "content (items T') = (map_of (entries T))(key := None)"
        using re del(2) unfolding content_items [of T, symmetric] it by simp
      then have "reads_as (hview s2) (map_of (entries T')) (m(key := None))"
        using reads_as_delete [OF reads, of key] content_items [of T'] hv by simp
      moreover obtain h' where "level h' T'" "h' \<le> h" using re lev le_SucI by blast
      ultimately have "stands_for 203 n s2 (m(key := None))"
        using re sh(2) le_trans unfolding stands_for_def by blast
      moreover have "log_room k s2" if "log_room (k + (3 * n + 2)) s" for k
      proof -
        have "log_room ((k + (3 * length c + 1)) + 1) s0" by (intro log0 wal_room_mono [OF that]) (use depth in simp)
        then have "log_room (k + (3 * length c + 1)) s1" using k1 by (simp add: kept_def)
        then show ?thesis using re by (simp add: kept_def)
      qed
      ultimately show ?thesis using run ok old True by (simp add: delete_result_def)
    qed
  qed
qed

end
