(* ===== verification/Delete_Properties.thy ===== *)
theory Delete_Properties
  imports Tree_Properties Tree_Delete
begin

text \<open>
  The properties of deletion: what a deletion does to the map a tree stands for, that a tree of at most
  two levels can always be emptied, and that a leaf filled to the last byte, which a merge can leave
  behind, refuses every insertion.
\<close>

section \<open>Deletion\<close>

text \<open>C3: \<open>BplusTree::delete\<close> on a tree that stands for the map \<open>m\<close>: a key outside \<open>m\<close> is refused, and
otherwise the tree then stands for \<open>m\<close> without the key, through borrowing from a neighbour, merging
and giving up the root; no lookup of another key changes. The only other outcome is the error \<open>Page
overflow\<close> of a merge of two inner pages, which takes a tree of at least three levels.\<close>

theorem tree_delete_removes:
  assumes "stands_for 203 n s m" and "delete_room n s"
  shows "\<exists>r s'. tree_delete txn key s = (r, s') \<and>
    (if key \<notin> dom m then r = Inl (Err ''Key not found'') \<and> stands_for 203 n s' m
     else (r = Inr () \<and> stands_for 203 n s' (m(key := None))) \<or> (r = Inl (Err ''Page overflow'') \<and> 2 \<le> n))"
proof -
  obtain r s' where run: "tree_delete txn key s = (r, s')" by fastforce
  have "delete_result n s m key (r, s')" using tree_delete_run [OF assms, of key txn] run by simp
  then show ?thesis using run by (auto simp: delete_result_def split: if_splits)
qed

lemma fits_mono: "fits a t \<Longrightarrow> a \<le> b \<Longrightarrow> fits b t"
  by (induction t) (auto simp: list_all_iff)

lemma stands_for_cap: "stands_for a n s m \<Longrightarrow> a \<le> b \<Longrightarrow> stands_for b n s m"
  using fits_mono [of a _ b] unfolding stands_for_def holds_tree_def by blast

text \<open>A tree with one pair, as the examples use it.\<close>

lemma one_pair:
  "\<exists>s. stands_for 203 1 s [5 \<mapsto> [[7, 8]]] \<and> (\<forall>k \<le> 1000. log_room k s) \<and> (unat (hnext s) + 1) * 8192 < 18446744073709551616"
proof -
  obtain s0 where s0: "tree_rep 0 s0 Map.empty" "unat (inext s0) = 1" "hnext s0 = 0" "\<forall>k \<le> 10000000000000. log_room k s0"
    using tree_new_run by blast
  then have room: "tree_room 0 s0" by (simp add: tree_room_def)
  obtain s where s: "tree_rep 1 s [5 \<mapsto> [[7, 8]]]" "spent 0 s0 s"
    using tree_insert_run [OF s0(1) room, of 1 5 "[[7, 8]]"] by (auto simp: heap_fits_def)
  have "log_room k s" if "k \<le> 1000" for k using s(2) s0(4) that by (simp add: spent_def)
  moreover have "unat (hnext s) \<le> 1" using s(2) s0(3) by (simp add: spent_def)
  ultimately show ?thesis using stands_for_cap [OF s(1), of 203] by (intro exI [of _ s]) simp
qed

lemma tree_delete_removes_witness:
  "\<exists>s s' s''. stands_for 203 1 s [5 \<mapsto> [[7, 8]]] \<and> delete_room 1 s \<and>
    tree_delete 1 5 s = (Inr (), s') \<and> stands_for 203 1 s' Map.empty \<and>
    tree_delete 1 6 s = (Inl (Err ''Key not found''), s'')"
proof -
  obtain s where s: "stands_for 203 1 s [5 \<mapsto> [[7, 8]]]" "\<forall>k \<le> 1000. log_room k s" using one_pair by blast
  then have room: "delete_room 1 s" by simp
  show ?thesis
    using s(1) room tree_delete_removes [OF s(1) room, of 1 5] tree_delete_removes [OF s(1) room, of 1 6] by auto
qed


section \<open>Emptying a tree\<close>

text \<open>A client that deletes the keys of a list one after the other and stops at the first error.\<close>

fun delete_all :: "u64 \<Rightarrow> u64 list \<Rightarrow> (bplus_tree, unit) m" where
  "delete_all txn [] = ok ()"
| "delete_all txn (k # ks) = andthen (tree_delete txn k) (\<lambda>_. delete_all txn ks)"

text \<open>C4: A tree of one or two levels never refuses the deletion of a key it holds: whatever the order of
the deletions, which pages they merge and what they borrow, all succeed, the other keys keep their
records, and deleting all keys leaves an empty tree.\<close>

theorem delete_all_succeeds:
  assumes "stands_for 203 1 s m" and "distinct ks" and "set ks \<subseteq> dom m" and "log_room (5 * length ks) s"
  shows "\<exists>s'. delete_all txn ks s = (Inr (), s') \<and> stands_for 203 1 s' (m |` (- set ks))"
  using assms
proof (induction ks arbitrary: s m)
  case Nil
  then show ?case by (simp add: run_simps)
next
  case (Cons k ks)
  have room: "delete_room 1 s" using wal_room_mono [OF Cons.prems(4), of 5] by simp
  have "k \<in> dom m" using Cons.prems(3) by simp
  then obtain s1 where s1: "tree_delete txn k s = (Inr (), s1)" "stands_for 203 1 s1 (m(k := None))"
    "\<forall>j. log_room (j + 5) s \<longrightarrow> log_room j s1"
    using tree_delete_run [OF Cons.prems(1) room, of k txn]
    by (cases "tree_delete txn k s") (auto simp: delete_result_def)
  have "log_room (5 * length ks) s1" using s1(3) Cons.prems(4) by (simp add: add.commute)
  moreover have "distinct ks" "set ks \<subseteq> dom (m(k := None))" using Cons.prems(2,3) by auto
  ultimately obtain s2 where s2: "delete_all txn ks s1 = (Inr (), s2)" "stands_for 203 1 s2 (m(k := None) |` (- set ks))"
    using Cons.IH [OF s1(2)] by blast
  have "m(k := None) |` (- set ks) = m |` (- set (k # ks))" by (auto simp: fun_eq_iff restrict_map_def)
  then show ?case using s1(1) s2 by (simp add: andthen_def)
qed

lemma delete_all_succeeds_witness:
  "\<exists>s s'. stands_for 203 1 s [5 \<mapsto> [[7, 8]]] \<and> delete_all 1 [5] s = (Inr (), s') \<and> stands_for 203 1 s' Map.empty"
proof -
  obtain s where s: "stands_for 203 1 s [5 \<mapsto> [[7, 8]]]" "\<forall>k \<le> 1000. log_room k s" using one_pair by blast
  then have room: "log_room (5 * length [5 :: u64]) s" by simp
  obtain s' where "delete_all 1 [5] s = (Inr (), s')" "stands_for 203 1 s' ([5 \<mapsto> [[7, 8]]] |` (- set [5]))"
    using delete_all_succeeds [OF s(1) _ _ room, of 1] by auto
  moreover have "[5 \<mapsto> [[7, 8]]] |` (- set [5]) = (Map.empty :: u64 \<Rightarrow> bytes list option)"
    by (auto simp: fun_eq_iff restrict_map_def)
  ultimately show ?thesis using s(1) by metis
qed


section \<open>Full leaves\<close>

lemma add_to_full_leaf:
  assumes tree: "holds_tree 203 s (plug c (Tip i kvs))" and full: "length kvs = 203" and fit: "list_all (frame_fits 203) c"
  shows "\<exists>s'. t_with_page i (andthen (gets (\<lambda>page. page)) (\<lambda>old_data.
      andthen (add_cell key v) (\<lambda>n_slot. gets (\<lambda>new_data. (n_slot, old_data, new_data))))) s =
      (Inl (Err ''Page overflow''), s') \<and> kept 0 s s' \<and> holds_tree 203 s' (plug c (Tip i kvs))"
proof -
  let ?body = "andthen (gets (\<lambda>page. page)) (\<lambda>old_data. andthen (add_cell key v) (\<lambda>n_slot.
      gets (\<lambda>new_data. (n_slot, old_data, new_data))))"
  note h = tree [unfolded holds_tree_def]
  have good: "tree_good s" and "stored (iview s) (Tip i kvs)" using h by (simp_all add: stored_plug)
  then obtain p nd where p: "iview s i = Some p" "page_rep p nd" "node_leaf nd" "n_cells nd = kvs"
    by (auto simp: at_leaf_def)
  obtain p' where p': "add_cell key v p = (Inl (Err ''Page overflow''), p')" "page_rep p' nd"
    using add_cell_refines [OF p(2), of key v] p(4) full by auto
  have body: "?body p = (Inl (Err ''Page overflow''), p')" using p'(1) by (simp add: andthen_def run_simps)
  obtain s' where s': "t_with_page i ?body s = (Inl (Err ''Page overflow''), s')" "edited 0 s s' ((iview s)(i \<mapsto> p'))"
    using with_page_edit [where body = ?body, OF edited_start [OF good] p(1) body page_rep_length [OF p'(2)]] by blast
  have w: "page_with (n_ty nd) True kvs (n_ptr nd) p'" using page_with_rep [OF p'(2)] p(3,4) by simp
  have "holds_tree 203 s' (plug c (Tip i kvs))"
    using leaf_change [OF tree s'(2) w kind_of_rep [of "iview s" i, OF p(1,2)] _ _ fit] h full by simp
  then show ?thesis using s' by (auto simp: edited_def)
qed

text \<open>C29: A leaf of 203 cells, which the merge of leaves of 102 and 101 cells leaves behind, is never
split: \<open>insert\<close> of a key that belongs there fails with \<open>Page overflow\<close> although the key is absent and
the record fits, the tree keeps its content, and a heap page has been used up all the same.\<close>

theorem full_leaf_refuses_insert:
  assumes tree: "holds_tree 203 s T" and root: "root_id s = tid T"
    and d: "descend key [] T = (c, i, kvs)" and full: "length kvs = 203" and new: "key \<notin> fst ` set kvs"
    and fits: "heap_fits rs" and room: "(unat (hnext s) + 1) * 8192 < 18446744073709551616" "log_room 1 s"
  shows "\<exists>s'. tree_insert txn key rs s = (Inl (Err ''Page overflow''), s') \<and> holds_tree 203 s' T \<and>
    root_id s' = tid T \<and> unat (hnext s') = unat (hnext s) + 1"
proof -
  note hd = holds_tree_descend [OF tree d]
  obtain s0 where s0: "breadcrumbs key s = (Inr (i # map fr_id c, key \<in> fst ` set kvs), s0)" "t_quiet s s0"
    using descent_run(2) [OF tree root d] by blast
  have q: "tree_good s0" "hnext s0 = hnext s" "root_id s0 = tid T" "log_room (Suc 0) s0" "holds_tree 203 s0 T"
    using s0(2) root room(2) holds_tree_quiet [OF tree s0(2)] by (simp_all add: t_quiet_def kept_def)
  have r0: "(unat (hnext s0) + 1) * 8192 < 18446744073709551616" using room(1) q(2) by simp
  obtain s1 p' where s1: "store_records txn rs s0 = (Inr (hnext s), s1)" "heap_grown s0 p' s1"
    using store_records_run [OF q(1) r0 q(4), of txn rs] fits q(2) by auto
  note g = s1(2) [unfolded heap_grown_def]
  have tree1: "holds_tree 203 s1 (plug c (Tip i kvs))" using q(5) g hd(1) by (simp add: holds_tree_def)
  obtain s2 where s2: "t_with_page i (andthen (gets (\<lambda>page. page)) (\<lambda>old_data.
      andthen (add_cell key (hnext s)) (\<lambda>n_slot. gets (\<lambda>new_data. (n_slot, old_data, new_data))))) s1 =
      (Inl (Err ''Page overflow''), s2)" "kept 0 s1 s2" "holds_tree 203 s2 (plug c (Tip i kvs))"
    using add_to_full_leaf [OF tree1 full hd(2)] by blast
  have "tree_insert txn key rs s = (Inl (Err ''Page overflow''), s2)"
    using s0(1) s1(1) s2(1) new by (simp add: tree_insert_def andthen_def run_simps)
  then show ?thesis using s2(2,3) g q(2,3) hd(1) by (intro exI [of _ s2]) (simp add: kept_def)
qed

text \<open>A state whose root is such a leaf.\<close>

lemma full_root:
  "\<exists>s i kvs. holds_tree 203 s (Tip i kvs) \<and> root_id s = i \<and> length kvs = 203 \<and> 500 \<notin> fst ` set kvs \<and>
    hnext s = 0 \<and> log_room 1 s"
proof -
  let ?kvs = "map (\<lambda>n. (of_nat n :: u64, 0 :: u64)) [0..<203]"
  obtain s0 where s0: "tree_rep 0 s0 Map.empty" "hnext s0 = 0" "\<forall>k \<le> 10000000000000. log_room k s0"
    using tree_new_run by blast
  obtain T where T: "holds_tree 202 s0 T" "root_id s0 = tid T" "level 0 T" using s0(1) by (auto simp: stands_for_def)
  then obtain i kvs0 where Tip: "T = Tip i kvs0" by (cases T) simp_all
  have tree: "holds_tree 203 s0 (plug [] (Tip i kvs0))"
    using T(1) fits_mono [of 202 T 203] by (simp add: holds_tree_def Tip)
  note h = tree [unfolded holds_tree_def]
  obtain p nd where p: "iview s0 i = Some p" "page_rep p nd" "node_leaf nd" "n_cells nd = kvs0"
    using h by (auto simp: at_leaf_def)
  have kind: "kind_of (iview s0) i = Some (n_ty nd)" using kind_of_rep [of "iview s0" i, OF p(1,2)] .
  have "kind_of (iview s0) i = Some Root" using h by (simp add: kinds_def)
  then have ty: "n_ty nd = Root" using kind by simp
  have w: "page_with Root True kvs0 (n_ptr nd) p" using page_with_rep [OF p(2)] p(3,4) ty by simp
  have lt: "(of_nat a :: u64) < of_nat b" if "a < b" "b < 203" for a b
    using that by (simp add: word_less_nat_alt unat_of_nat)
  have keys: "map fst ?kvs = map of_nat [0..<203]" by (simp add: comp_def)
  have srt: "sorted_wrt (<) (map fst ?kvs)"
    unfolding keys sorted_wrt_map by (rule sorted_wrt_mono_rel [OF _ sorted_wrt_upt]) (simp add: lt)
  let ?body = "rebuild_from_cells (map (cell_of True) ?kvs) Root i (n_ptr nd)"
  have len: "length ?kvs = 203" by simp
  obtain p' where p': "?body p = (Inr (), p')" "page_with Root True (take 203 ?kvs) (n_ptr nd) p'"
    using rebuild_edit [OF w _ srt, of True Root i "n_ptr nd"] len by auto
  have good: "tree_good s0" using h by simp
  obtain s where s: "edited 0 s0 s ((iview s0)(i \<mapsto> p'))"
    using with_page_edit [where body = ?body, OF edited_start [OF good] p(1) p'(1) page_with_length [OF p'(2)]] by blast
  have w': "page_with Root True ?kvs (n_ptr nd) p'" using p'(2) by (simp only: take_all len order_refl)
  have "sorted_items (items (plug [] (Tip i ?kvs)))" using srt sorted_entries [of ?kvs] by simp
  then have "holds_tree 203 s (plug [] (Tip i ?kvs))"
    using leaf_change [OF tree s w' kind [unfolded ty]] by simp
  moreover have "500 \<notin> fst ` set ?kvs"
  proof
    assume "500 \<in> fst ` set ?kvs"
    then obtain n where "n < 203" "(500 :: u64) = of_nat n" by auto
    then have "unat (500 :: u64) = unat (of_nat n :: u64)" by simp
    also have "\<dots> = n" using \<open>n < 203\<close> by (simp add: unat_of_nat)
    finally show False using \<open>n < 203\<close> by simp
  qed
  moreover have "root_id s = i" "hnext s = 0" "log_room 1 s"
    using s T(2) s0(2,3) Tip by (simp_all add: edited_def kept_def)
  ultimately show ?thesis using len by (intro exI [of _ s] exI [of _ i] exI [of _ ?kvs]) simp
qed

lemma full_leaf_refuses_insert_witness:
  "\<exists>s s' i kvs. holds_tree 203 s (Tip i kvs) \<and> length kvs = 203 \<and> 500 \<notin> fst ` set kvs \<and>
    tree_insert 1 500 [[7, 8]] s = (Inl (Err ''Page overflow''), s') \<and> unat (hnext s') = 1"
proof -
  obtain s i kvs where s: "holds_tree 203 s (Tip i kvs)" "root_id s = i" "length kvs = 203" "500 \<notin> fst ` set kvs"
    "hnext s = 0" "log_room 1 s" using full_root by blast
  have "\<exists>s'. tree_insert 1 500 [[7, 8]] s = (Inl (Err ''Page overflow''), s') \<and> holds_tree 203 s' (Tip i kvs) \<and>
      root_id s' = tid (Tip i kvs) \<and> unat (hnext s') = unat (hnext s) + 1"
    using s by (intro full_leaf_refuses_insert [where c = "[]" and i = i and kvs = kvs]) (simp_all add: heap_fits_def)
  then show ?thesis using s by (metis add_0 unat_0)
qed

end
