(* ===== verification/F64.thy ===== *)
theory F64
  imports Complex_Main Prelude
begin

text \<open>
  The parts of Rust's \<open>f64\<close> and \<open>i64\<close> that the planner uses. A finite float is the rational it stands for,
  with a separate negative zero; \<open>NaN\<close> has no payload. Arithmetic is exact rational arithmetic followed
  by rounding to the nearest binary64 number, ties to even, so it computes.
\<close>

section \<open>Numbers\<close>

datatype f64 = Fin rat | Neg_Zero | Infinity bool | Not_A_Number

text \<open>\<open>Infinity True\<close> is the negative one.\<close>

definition pow2 :: "int \<Rightarrow> rat" where
  "pow2 e = (if 0 \<le> e then 2 ^ nat e else 1 / 2 ^ nat (- e))"

fun bit_count :: "nat \<Rightarrow> nat" where
  "bit_count n = (if n = 0 then 0 else Suc (bit_count (n div 2)))"

declare bit_count.simps [simp del]

text \<open>The exponent of the leading bit of a positive rational.\<close>

definition rat_log2 :: "rat \<Rightarrow> int" where
  "rat_log2 q =
     (let (n, d) = quotient_of q; k = int (bit_count (nat n)) - int (bit_count (nat d))
      in if pow2 k \<le> q then k else k - 1)"

definition round_half_even :: "rat \<Rightarrow> int" where
  "round_half_even q =
     (let f = \<lfloor>q\<rfloor>; r = q - of_int f
      in if r < 1 / 2 \<or> (r = 1 / 2 \<and> even f) then f else f + 1)"

text \<open>Rounding a rational to binary64; \<open>neg\<close> is the sign of a zero result.\<close>

definition f64_of_rat :: "bool \<Rightarrow> rat \<Rightarrow> f64" where
  "f64_of_rat neg q =
     (if q = 0 then (if neg then Neg_Zero else Fin 0)
      else
        let e = max (- 1074) (rat_log2 \<bar>q\<bar> - 52);
            m = of_int (round_half_even (\<bar>q\<bar> / pow2 e)) * pow2 e
        in if pow2 1024 \<le> m then Infinity (q < 0)
           else if m = 0 then (if q < 0 then Neg_Zero else Fin 0)
           else Fin (if q < 0 then - m else m))"

definition f64_value :: "f64 \<Rightarrow> rat" where
  "f64_value x = (case x of Fin q \<Rightarrow> q | _ \<Rightarrow> 0)"

definition is_finite :: "f64 \<Rightarrow> bool" where
  "is_finite x = (case x of Fin _ \<Rightarrow> True | Neg_Zero \<Rightarrow> True | _ \<Rightarrow> False)"

definition is_nan :: "f64 \<Rightarrow> bool" where
  "is_nan x = (x = Not_A_Number)"

definition f64_neg_sign :: "f64 \<Rightarrow> bool" where
  "f64_neg_sign x = (case x of Fin q \<Rightarrow> q < 0 | Neg_Zero \<Rightarrow> True | Infinity s \<Rightarrow> s | Not_A_Number \<Rightarrow> False)"

definition f64_is_zero :: "f64 \<Rightarrow> bool" where
  "f64_is_zero x = (x = Fin 0 \<or> x = Neg_Zero)"


section \<open>Arithmetic\<close>

definition f64_neg :: "f64 \<Rightarrow> f64" where
  "f64_neg x = (case x of Fin q \<Rightarrow> if q = 0 then Neg_Zero else Fin (- q) | Neg_Zero \<Rightarrow> Fin 0
     | Infinity s \<Rightarrow> Infinity (\<not> s) | Not_A_Number \<Rightarrow> Not_A_Number)"

definition f64_add :: "f64 \<Rightarrow> f64 \<Rightarrow> f64" where
  "f64_add x y =
     (if is_nan x \<or> is_nan y then Not_A_Number
      else case (x, y) of
        (Infinity s, Infinity t) \<Rightarrow> if s = t then Infinity s else Not_A_Number
      | (Infinity s, _) \<Rightarrow> Infinity s
      | (_, Infinity t) \<Rightarrow> Infinity t
      | _ \<Rightarrow> f64_of_rat (x = Neg_Zero \<and> y = Neg_Zero) (f64_value x + f64_value y))"

definition f64_sub :: "f64 \<Rightarrow> f64 \<Rightarrow> f64" where
  "f64_sub x y = f64_add x (f64_neg y)"

definition f64_mul :: "f64 \<Rightarrow> f64 \<Rightarrow> f64" where
  "f64_mul x y =
     (let s = (f64_neg_sign x \<noteq> f64_neg_sign y) in
      if is_nan x \<or> is_nan y then Not_A_Number
      else if is_finite x \<and> is_finite y then f64_of_rat s (f64_value x * f64_value y)
      else if f64_is_zero x \<or> f64_is_zero y then Not_A_Number
      else Infinity s)"

definition f64_div :: "f64 \<Rightarrow> f64 \<Rightarrow> f64" where
  "f64_div x y =
     (let s = (f64_neg_sign x \<noteq> f64_neg_sign y) in
      if is_nan x \<or> is_nan y then Not_A_Number
      else if \<not> is_finite x then (if is_finite y then Infinity s else Not_A_Number)
      else if \<not> is_finite y then f64_of_rat s 0
      else if f64_is_zero y then (if f64_is_zero x then Not_A_Number else Infinity s)
      else f64_of_rat s (f64_value x / f64_value y))"

definition rat_trunc :: "rat \<Rightarrow> int" where
  "rat_trunc q = (if q < 0 then - \<lfloor>- q\<rfloor> else \<lfloor>q\<rfloor>)"

definition f64_rem :: "f64 \<Rightarrow> f64 \<Rightarrow> f64" where
  "f64_rem x y =
     (if is_nan x \<or> is_nan y \<or> \<not> is_finite x \<or> f64_is_zero y then Not_A_Number
      else if \<not> is_finite y then x
      else f64_of_rat (f64_neg_sign x)
        (f64_value x - of_int (rat_trunc (f64_value x / f64_value y)) * f64_value y))"

text \<open>\<open>f64::round\<close>: to the nearest integer, ties away from zero.\<close>

definition f64_round :: "f64 \<Rightarrow> f64" where
  "f64_round x = (case x of
     Fin q \<Rightarrow>
       let r = \<lfloor>\<bar>q\<bar> + 1 / 2\<rfloor>
       in if r = 0 then (if q < 0 then Neg_Zero else Fin 0)
          else Fin (of_int (if q < 0 then - r else r))
   | _ \<Rightarrow> x)"


section \<open>Comparison\<close>

datatype ordering = Less_Than | Same | Greater_Than

definition compare_by :: "('a \<Rightarrow> 'b::linorder) \<Rightarrow> 'a \<Rightarrow> 'a \<Rightarrow> ordering" where
  "compare_by f x y = (if f x < f y then Less_Than else if f x = f y then Same else Greater_Than)"

definition then_ordering :: "ordering \<Rightarrow> ordering \<Rightarrow> ordering" where
  "then_ordering a b = (if a = Same then b else a)"

definition f64_partial_cmp :: "f64 \<Rightarrow> f64 \<Rightarrow> ordering option" where
  "f64_partial_cmp x y =
     (if is_nan x \<or> is_nan y then None
      else case (x, y) of
        (Infinity s, Infinity t) \<Rightarrow> Some (if s = t then Same else if s then Less_Than else Greater_Than)
      | (Infinity s, _) \<Rightarrow> Some (if s then Less_Than else Greater_Than)
      | (_, Infinity t) \<Rightarrow> Some (if t then Greater_Than else Less_Than)
      | _ \<Rightarrow> Some (compare_by f64_value x y))"


definition f64_le :: "f64 \<Rightarrow> f64 \<Rightarrow> bool" where
  "f64_le x y = (case f64_partial_cmp x y of None \<Rightarrow> False | Some c \<Rightarrow> c \<noteq> Greater_Than)"

text \<open>\<open>to_bits\<close>: sign, eleven bits of exponent, fifty-two of fraction; one \<open>NaN\<close>.\<close>

definition f64_bits :: "f64 \<Rightarrow> u64" where
  "f64_bits x = (case x of
     Fin q \<Rightarrow>
       if q = 0 then 0
       else
         let e = max (- 1074) (rat_log2 \<bar>q\<bar> - 52); m = \<lfloor>\<bar>q\<bar> / pow2 e\<rfloor>
         in (if q < 0 then 2 ^ 63 else 0) + word_of_int ((e + 1074) * 2 ^ 52 + m)
   | Neg_Zero \<Rightarrow> 2 ^ 63
   | Infinity s \<Rightarrow> (if s then 2 ^ 63 else 0) + 2047 * 2 ^ 52
   | Not_A_Number \<Rightarrow> 4095 * 2 ^ 51)"


section \<open>Integers\<close>

type_synonym i64 = "64 word"

definition i64_min :: int where "i64_min = - (2 ^ 63)"
definition i64_max :: int where "i64_max = 2 ^ 63 - 1"

definition i64_range :: "int \<Rightarrow> bool" where
  "i64_range i \<longleftrightarrow> i64_min \<le> i \<and> i \<le> i64_max"

text \<open>The result of the \<open>checked_\<close> operations: the word, when the value fits.\<close>

definition checked :: "int \<Rightarrow> i64 option" where
  "checked i = (if i64_range i then Some (word_of_int i) else None)"

definition f64_of_i64 :: "i64 \<Rightarrow> f64" where
  "f64_of_i64 i = f64_of_rat False (of_int (sint i))"

text \<open>\<open>x as i64\<close>: truncation, saturating, with \<open>NaN\<close> to 0.\<close>

definition i64_of_f64 :: "f64 \<Rightarrow> i64" where
  "i64_of_f64 x = (case x of
     Infinity s \<Rightarrow> word_of_int (if s then i64_min else i64_max)
   | Not_A_Number \<Rightarrow> 0
   | _ \<Rightarrow> word_of_int (max i64_min (min i64_max (rat_trunc (f64_value x)))))"

lemma sint_i64: "i64_range (sint (i :: i64))"
  using sint_ge [of i] sint_lt [of i] by (simp add: i64_range_def i64_min_def i64_max_def)

lemma sint_word_of_int_i64:
  assumes "i64_range i"
  shows "sint (word_of_int i :: i64) = i"
  using assms by (simp add: i64_range_def i64_min_def i64_max_def sint_word_ariths(1)
      signed_of_int take_bit_int_eq_self_iff signed_take_bit_int_eq_self)

lemma checked_Some: "checked i = Some w \<longleftrightarrow> i64_range i \<and> sint w = i"
  using sint_word_of_int_i64 by (auto simp: checked_def)

lemma checked_None: "checked i = None \<longleftrightarrow> \<not> i64_range i"
  by (simp add: checked_def)

end
