(* ===== verification/Text_Model.thy ===== *)
theory Text_Model
  imports F64 "HOL-Library.Char_ord" "HOL-Library.List_Lexorder"
begin

text \<open>
  The parts of Rust's \<open>String\<close>, \<open>str::parse\<close> and \<open>Display\<close> that the SQL front end uses. A string is a
  list of ASCII characters; on these the Unicode case mappings and \<open>trim\<close> are the ASCII ones, and the
  order of strings is the lexicographic one.
\<close>

section \<open>Characters and strings\<close>

definition char_code :: "char \<Rightarrow> nat" where
  "char_code c = of_char c"

definition is_digit :: "char \<Rightarrow> bool" where
  "is_digit c \<longleftrightarrow> 48 \<le> char_code c \<and> char_code c \<le> 57"

definition is_space :: "char \<Rightarrow> bool" where
  "is_space c \<longleftrightarrow> char_code c = 32 \<or> (9 \<le> char_code c \<and> char_code c \<le> 13)"

definition lower_char :: "char \<Rightarrow> char" where
  "lower_char c = (if 65 \<le> char_code c \<and> char_code c \<le> 90 then char_of (char_code c + 32) else c)"

definition upper_char :: "char \<Rightarrow> char" where
  "upper_char c = (if 97 \<le> char_code c \<and> char_code c \<le> 122 then char_of (char_code c - 32) else c)"

definition to_lowercase :: "string \<Rightarrow> string" where
  "to_lowercase = map lower_char"

definition to_uppercase :: "string \<Rightarrow> string" where
  "to_uppercase = map upper_char"

definition eq_ignore_ascii_case :: "string \<Rightarrow> string \<Rightarrow> bool" where
  "eq_ignore_ascii_case a b \<longleftrightarrow> to_lowercase a = to_lowercase b"

definition trim :: "string \<Rightarrow> string" where
  "trim s = rev (dropWhile is_space (rev (dropWhile is_space s)))"

fun join :: "string \<Rightarrow> string list \<Rightarrow> string" where
  "join sep [] = []"
| "join sep [s] = s"
| "join sep (s # ss) = s @ sep @ join sep ss"

text \<open>\<open>s.replace('\'', "''")\<close>, as quoted text is printed.\<close>

definition quote :: "string" where "quote = [CHR 0x27]"

definition escape_quotes :: "string \<Rightarrow> string" where
  "escape_quotes s = concat (map (\<lambda>c. if c = CHR 0x27 then quote @ quote else [c]) s)"

definition quoted :: "string \<Rightarrow> string" where
  "quoted s = quote @ escape_quotes s @ quote"


section \<open>Printing numbers\<close>

fun digits :: "nat \<Rightarrow> string" where
  "digits n =
     (if n < 10 then [char_of (48 + n)] else digits (n div 10) @ [char_of (48 + n mod 10)])"

declare digits.simps [simp del]

definition show_int :: "int \<Rightarrow> string" where
  "show_int i = (if i < 0 then ''-'' @ digits (nat (- i)) else digits (nat i))"

definition show_i64 :: "i64 \<Rightarrow> string" where
  "show_i64 i = show_int (sint i)"

definition show_bool :: "bool \<Rightarrow> string" where
  "show_bool b = (if b then ''true'' else ''false'')"

definition pow10 :: "int \<Rightarrow> rat" where
  "pow10 e = (if 0 \<le> e then 10 ^ nat e else 1 / 10 ^ nat (- e))"

text \<open>The \<open>k\<close> with \<open>10 ^ (k - 1) \<le> q < 10 ^ k\<close>, for a positive binary64 number.\<close>

fun leading_zeros :: "nat \<Rightarrow> rat \<Rightarrow> nat" where
  "leading_zeros 0 q = 0"
| "leading_zeros (Suc n) q = (if 1 \<le> q then 0 else Suc (leading_zeros n (10 * q)))"

definition decimal_exponent :: "rat \<Rightarrow> int" where
  "decimal_exponent q =
     (if 1 \<le> q then int (length (digits (nat \<lfloor>q\<rfloor>))) else 1 - int (leading_zeros 400 q))"

text \<open>
  The shortest decimal that reads back as the same number, the closest one among those: an integer
  without trailing zeros and a power of ten.
\<close>

fun strip_zeros :: "nat \<Rightarrow> int \<Rightarrow> nat \<times> int" where
  "strip_zeros c e = (if 0 < c \<and> c mod 10 = 0 then strip_zeros (c div 10) (e + 1) else (c, e))"

declare strip_zeros.simps [simp del]

fun shortest_from :: "nat \<Rightarrow> nat \<Rightarrow> rat \<Rightarrow> nat \<times> int" where
  "shortest_from 0 n q = (nat (round_half_even q), 0)"
| "shortest_from (Suc m) n q =
     (let s = int n - decimal_exponent q; c = round_half_even (q * pow10 s);
          d = (if of_int c \<le> q * pow10 s then c + 1 else c - 1);
          same = (\<lambda>x. f64_of_rat False (of_int x * pow10 (- s)) = Fin q)
      in if same c then strip_zeros (nat c) (- s)
         else if same d then strip_zeros (nat d) (- s)
         else shortest_from m (Suc n) q)"

definition shortest :: "rat \<Rightarrow> nat \<times> int" where
  "shortest q = shortest_from 17 1 q"

definition show_decimal :: "nat \<Rightarrow> int \<Rightarrow> string" where
  "show_decimal c e =
     (if 0 \<le> e then digits c @ replicate (nat e) (CHR ''0'')
      else
        let ds = digits c; s = nat (- e);
            padded = replicate (Suc s - length ds) (CHR ''0'') @ ds;
            n = length padded - s
        in take n padded @ ''.'' @ drop n padded)"

text \<open>\<open>Display\<close> and \<open>Debug\<close> of a float; the latter always shows a fraction or an exponent.\<close>

definition show_f64 :: "f64 \<Rightarrow> string" where
  "show_f64 x = (case x of
     Fin q \<Rightarrow>
       if q = 0 then ''0''
       else (if q < 0 then ''-'' else []) @ (case shortest \<bar>q\<bar> of (c, e) \<Rightarrow> show_decimal c e)
   | Neg_Zero \<Rightarrow> ''-0''
   | Infinity s \<Rightarrow> if s then ''-inf'' else ''inf''
   | Not_A_Number \<Rightarrow> ''NaN'')"

definition show_exponential :: "nat \<Rightarrow> int \<Rightarrow> string" where
  "show_exponential c e =
     (let ds = digits c; k = e + int (length ds) - 1
      in take 1 ds @ (if length ds = 1 then [] else ''.'' @ drop 1 ds) @ ''e'' @ show_int k)"

definition debug_f64 :: "f64 \<Rightarrow> string" where
  "debug_f64 x = (case x of
     Fin q \<Rightarrow>
       if q = 0 then ''0.0''
       else (if q < 0 then ''-'' else []) @
         (case shortest \<bar>q\<bar> of (c, e) \<Rightarrow>
            if pow10 (- 5) \<le> \<bar>q\<bar> \<and> \<bar>q\<bar> < pow10 16
            then show_decimal c e @ (if 0 \<le> e then ''.0'' else [])
            else show_exponential c e)
   | Neg_Zero \<Rightarrow> ''-0.0''
   | _ \<Rightarrow> show_f64 x)"


section \<open>Parsing numbers\<close>

definition split_sign :: "string \<Rightarrow> bool \<times> string" where
  "split_sign s = (case s of
     [] \<Rightarrow> (False, [])
   | c # cs \<Rightarrow> if c = CHR ''-'' then (True, cs) else if c = CHR ''+'' then (False, cs) else (False, s))"

definition digits_value :: "string \<Rightarrow> nat" where
  "digits_value = foldl (\<lambda>n c. 10 * n + (char_code c - 48)) 0"

definition parse_i64 :: "string \<Rightarrow> i64 option" where
  "parse_i64 s =
     (case split_sign s of
        (neg, ds) \<Rightarrow>
          if ds = [] \<or> \<not> list_all is_digit ds then None
          else checked (if neg then - int (digits_value ds) else int (digits_value ds)))"

definition parse_exponent :: "string \<Rightarrow> int option" where
  "parse_exponent s =
     (case split_sign s of
        (neg, ds) \<Rightarrow>
          if ds = [] \<or> \<not> list_all is_digit ds then None
          else Some (if neg then - int (digits_value ds) else int (digits_value ds)))"

definition parse_f64 :: "string \<Rightarrow> f64 option" where
  "parse_f64 s =
     (case split_sign s of
        (neg, r) \<Rightarrow>
          let l = to_lowercase r in
          if l = ''inf'' \<or> l = ''infinity'' then Some (Infinity neg)
          else if l = ''nan'' then Some Not_A_Number
          else
            let ip = takeWhile is_digit r; r1 = dropWhile is_digit r;
                (fp, r2) = (case r1 of [] \<Rightarrow> ([], [])
                  | c # cs \<Rightarrow> if c = CHR ''.'' then (takeWhile is_digit cs, dropWhile is_digit cs)
                              else ([], r1));
                num = (\<lambda>e. let q = of_nat (digits_value (ip @ fp)) * pow10 (e - int (length fp))
                           in f64_of_rat neg (if neg then - q else q))
            in if ip = [] \<and> fp = [] then None
               else case r2 of
                 [] \<Rightarrow> Some (num 0)
               | c # cs \<Rightarrow>
                   if c = CHR ''e'' \<or> c = CHR ''E'' then map_option num (parse_exponent cs) else None)"


section \<open>Facts\<close>

lemma char_code_less [simp]: "char_code c < 256"
  by (simp add: char_code_def)

lemma lower_lower_char [simp]: "lower_char (lower_char c) = lower_char c"
  by (auto simp: lower_char_def char_code_def of_char_of)

lemma to_lowercase_idem [simp]: "to_lowercase (to_lowercase s) = to_lowercase s"
  by (simp add: to_lowercase_def comp_def)

lemma length_to_lowercase [simp]: "length (to_lowercase s) = length s"
  by (simp add: to_lowercase_def)

lemma eq_ignore_case_equiv:
  "eq_ignore_ascii_case a a"
  "eq_ignore_ascii_case a b \<Longrightarrow> eq_ignore_ascii_case b a"
  "eq_ignore_ascii_case a b \<Longrightarrow> eq_ignore_ascii_case b c \<Longrightarrow> eq_ignore_ascii_case a c"
  by (simp_all add: eq_ignore_ascii_case_def)

end
