(* ===== verification/Sql_Ast.thy ===== *)
theory Sql_Ast
  imports Text_Model
begin

text \<open>
  The syntax trees of \<open>sql/ast.rs\<close>: statements, expressions and operators, the operator tables
  and the text that \<open>Display\<close> writes for an expression. A constructor whose name another type of the
  crate has too carries the name of its type (\<open>Lit_Null\<close> for \<open>LiteralValue::Null\<close>, \<open>Op_Eq\<close> for
  \<open>BinaryOperator::Eq\<close>).
\<close>

section \<open>Operators and literals\<close>

datatype binary_operator =
    Op_Eq | Op_NotEq | Op_Lt | Op_LtEq | Op_Gt | Op_GtEq | Op_And | Op_Or
  | Op_Plus | Op_Minus | Op_Multiply | Op_Divide | Op_Modulo | Op_Concat

datatype unary_operator = Op_Not | Op_Negate | Op_Positive

datatype literal_value =
    Lit_Null | Lit_Boolean bool | Lit_Integer i64 | Lit_Float f64 | Lit_String string

definition is_comparison :: "binary_operator \<Rightarrow> bool" where
  "is_comparison b = (case b of
     Op_Eq \<Rightarrow> True | Op_NotEq \<Rightarrow> True | Op_Lt \<Rightarrow> True | Op_LtEq \<Rightarrow> True | Op_Gt \<Rightarrow> True | Op_GtEq \<Rightarrow> True
   | _ \<Rightarrow> False)"

definition is_logical :: "binary_operator \<Rightarrow> bool" where
  "is_logical b = (case b of Op_And \<Rightarrow> True | Op_Or \<Rightarrow> True | _ \<Rightarrow> False)"

definition is_arithmetic :: "binary_operator \<Rightarrow> bool" where
  "is_arithmetic b = (case b of
     Op_Plus \<Rightarrow> True | Op_Minus \<Rightarrow> True | Op_Multiply \<Rightarrow> True | Op_Divide \<Rightarrow> True | Op_Modulo \<Rightarrow> True
   | _ \<Rightarrow> False)"

definition flip_operator :: "binary_operator \<Rightarrow> binary_operator option" where
  "flip_operator b = (case b of
     Op_Eq \<Rightarrow> Some Op_Eq | Op_NotEq \<Rightarrow> Some Op_NotEq | Op_Lt \<Rightarrow> Some Op_Gt | Op_LtEq \<Rightarrow> Some Op_GtEq
   | Op_Gt \<Rightarrow> Some Op_Lt | Op_GtEq \<Rightarrow> Some Op_LtEq | _ \<Rightarrow> None)"

definition binary_symbol :: "binary_operator \<Rightarrow> string" where
  "binary_symbol b = (case b of
     Op_Eq \<Rightarrow> ''='' | Op_NotEq \<Rightarrow> ''<>'' | Op_Lt \<Rightarrow> ''<'' | Op_LtEq \<Rightarrow> ''<='' | Op_Gt \<Rightarrow> ''>'' | Op_GtEq \<Rightarrow> ''>=''
   | Op_And \<Rightarrow> ''AND'' | Op_Or \<Rightarrow> ''OR'' | Op_Plus \<Rightarrow> ''+'' | Op_Minus \<Rightarrow> ''-'' | Op_Multiply \<Rightarrow> ''*''
   | Op_Divide \<Rightarrow> ''/'' | Op_Modulo \<Rightarrow> ''%'' | Op_Concat \<Rightarrow> ''||'')"

definition unary_symbol :: "unary_operator \<Rightarrow> string" where
  "unary_symbol u = (case u of Op_Not \<Rightarrow> ''NOT '' | Op_Negate \<Rightarrow> ''-'' | Op_Positive \<Rightarrow> ''+'')"

definition display_literal :: "literal_value \<Rightarrow> string" where
  "display_literal l = (case l of
     Lit_Null \<Rightarrow> ''NULL''
   | Lit_Boolean b \<Rightarrow> if b then ''TRUE'' else ''FALSE''
   | Lit_Integer i \<Rightarrow> show_i64 i
   | Lit_Float x \<Rightarrow> debug_f64 x
   | Lit_String s \<Rightarrow> quoted s)"


section \<open>Expressions\<close>

datatype expr =
    Expr_Column "string option" string
  | Literal literal_value
  | BinaryOp expr binary_operator expr
  | UnaryOp unary_operator expr
  | IsNull expr bool
  | InList expr "expr list" bool
  | Between expr expr expr bool
  | Like expr string bool bool
  | Function_Call string function_args
  | Nested expr
and function_args = Star_Arg | Args_List "expr list" bool

definition not_word :: "bool \<Rightarrow> string" where
  "not_word negated = (if negated then ''NOT '' else [])"

definition like_word :: "bool \<Rightarrow> string" where
  "like_word case_insensitive = (if case_insensitive then ''ILIKE'' else ''LIKE'')"

definition write_list :: "('e \<Rightarrow> string) \<Rightarrow> 'e list \<Rightarrow> string" where
  "write_list display items = join '', '' (map display items)"

lemma write_list_cong [fundef_cong]:
  "xs = ys \<Longrightarrow> (\<And>x. x \<in> set ys \<Longrightarrow> f x = g x) \<Longrightarrow> write_list f xs = write_list g ys"
  by (metis write_list_def map_cong)

fun display_expr :: "expr \<Rightarrow> string" where
  "display_expr (Expr_Column (Some t) name) = t @ ''.'' @ name"
| "display_expr (Expr_Column None name) = name"
| "display_expr (Literal lit) = display_literal lit"
| "display_expr (BinaryOp left b right) =
     display_expr left @ '' '' @ binary_symbol b @ '' '' @ display_expr right"
| "display_expr (UnaryOp u e) = unary_symbol u @ display_expr e"
| "display_expr (IsNull e False) = display_expr e @ '' IS NULL''"
| "display_expr (IsNull e True) = display_expr e @ '' IS NOT NULL''"
| "display_expr (InList e items negated) =
     display_expr e @ '' '' @ not_word negated @ ''IN ('' @ write_list display_expr items @ '')''"
| "display_expr (Between e low high negated) =
     display_expr e @ '' '' @ not_word negated @ ''BETWEEN '' @ display_expr low @ '' AND '' @
     display_expr high"
| "display_expr (Like e pattern negated case_insensitive) =
     display_expr e @ '' '' @ not_word negated @ like_word case_insensitive @ '' '' @
     display_literal (Lit_String pattern)"
| "display_expr (Function_Call name Star_Arg) = to_uppercase name @ ''(*)''"
| "display_expr (Function_Call name (Args_List items is_distinct)) =
     to_uppercase name @ ''('' @ (if is_distinct then ''DISTINCT '' else []) @
     write_list display_expr items @ '')''"
| "display_expr (Nested inner) = ''('' @ display_expr inner @ '')''"


section \<open>Statements\<close>

datatype sql_data_type =
    Sql_Text | Sql_Integer | Sql_Float | Sql_Boolean | Sql_Json | Sql_Timestamp | Sql_Uuid

datatype column_constraint = Not_Null | Unique_Key | Primary_Key | Default_Value expr

record column_def =
  cd_name :: string
  cd_data_type :: sql_data_type
  cd_constraints :: "column_constraint list"

definition is_not_null :: "column_def \<Rightarrow> bool" where
  "is_not_null c =
     list_ex (\<lambda>k. case k of Not_Null \<Rightarrow> True | Primary_Key \<Rightarrow> True | _ \<Rightarrow> False) (cd_constraints c)"

definition default_value :: "column_def \<Rightarrow> expr option" where
  "default_value c =
     List.find (\<lambda>e. True)
       (List.map_filter (\<lambda>k. case k of Default_Value e \<Rightarrow> Some e | _ \<Rightarrow> None) (cd_constraints c))"

record create_table =
  ct_name :: string
  ct_columns :: "column_def list"
  ct_primary_key :: "string list"
  ct_unique_keys :: "string list list"
  ct_if_not_exists :: bool

record drop_table =
  dt_name :: string
  dt_if_exists :: bool

datatype join_type = Inner_Join | Left_Join | Right_Join | Full_Join | Cross_Join

definition display_join_type :: "join_type \<Rightarrow> string" where
  "display_join_type j = (case j of
     Inner_Join \<Rightarrow> ''Inner'' | Left_Join \<Rightarrow> ''Left'' | Right_Join \<Rightarrow> ''Right'' | Full_Join \<Rightarrow> ''Full''
   | Cross_Join \<Rightarrow> ''Cross'')"

record join_clause =
  jc_table :: string
  jc_alias :: "string option"
  jc_join_type :: join_type
  jc_on :: "expr option"

record table_ref =
  tr_base :: string
  tr_base_alias :: "string option"
  tr_joins :: "join_clause list"

datatype select_column =
    Wildcard | QualifiedWildcard string | Select_Column "string option" string
  | Select_Expr expr "string option"

record order_by =
  ob_expr :: expr
  ob_ascending :: bool
  ob_nulls_first :: "bool option"

record select =
  sel_distinct :: bool
  sel_columns :: "select_column list"
  sel_from :: table_ref
  sel_where_clause :: "expr option"
  sel_group_by :: "expr list"
  sel_having :: "expr option"
  sel_order_by :: "order_by list"
  sel_limit :: "u64 option"
  sel_offset :: "u64 option"

datatype insert_source = Insert_Values "expr list list" | Insert_Select select

record insert_into =
  ins_table :: string
  ins_columns :: "string list option"
  ins_source :: insert_source

record assignment =
  as_column :: string
  as_value :: expr

record update_table =
  upd_table :: string
  upd_alias :: "string option"
  upd_assignments :: "assignment list"
  upd_where_clause :: "expr option"

record delete_from =
  del_table :: string
  del_alias :: "string option"
  del_where_clause :: "expr option"

datatype statement =
    Create_Table create_table | Drop_Table drop_table | Select_Rows select | Insert_Rows insert_into
  | Update_Rows update_table | Delete_Rows delete_from | Begin_Txn | Commit_Txn | Rollback_Txn
  | Show_Tables | Describe string


section \<open>Facts\<close>

lemma flip_involutive: "flip_operator b = Some c \<Longrightarrow> flip_operator c = Some b"
  by (cases b) (auto simp: flip_operator_def)

lemma flip_defined: "flip_operator b \<noteq> None \<longleftrightarrow> is_comparison b"
  by (cases b) (auto simp: flip_operator_def is_comparison_def)

lemma operator_kinds:
  "is_comparison b \<or> is_logical b \<or> is_arithmetic b \<or> b = Op_Concat"
  "\<not> (is_comparison b \<and> is_logical b)" "\<not> (is_comparison b \<and> is_arithmetic b)"
  "\<not> (is_logical b \<and> is_arithmetic b)"
  by (cases b; simp add: is_comparison_def is_logical_def is_arithmetic_def)+

end
