(* ===== verification/Types.thy ===== *)
theory Types
  imports Sql_Ast
begin

text \<open>
  The types of the planner, \<open>planner/types.rs\<close>: which types may be compared, assigned and unified,
  and the laws of unification that make the type of a list of arguments independent of their order.
\<close>

datatype data_type =
    Type_Null | Type_Boolean | Type_Integer | Type_Float | Type_Text | Type_Json | Type_Timestamp
  | Type_Uuid

definition type_is_null :: "data_type \<Rightarrow> bool" where
  "type_is_null t = (t = Type_Null)"

definition is_numeric :: "data_type \<Rightarrow> bool" where
  "is_numeric t = (case t of Type_Integer \<Rightarrow> True | Type_Float \<Rightarrow> True | _ \<Rightarrow> False)"

definition is_textual :: "data_type \<Rightarrow> bool" where
  "is_textual t = (case t of Type_Text \<Rightarrow> True | Type_Json \<Rightarrow> True | Type_Uuid \<Rightarrow> True | _ \<Rightarrow> False)"

definition is_boolean :: "data_type \<Rightarrow> bool" where
  "is_boolean t = (t = Type_Boolean)"

definition numeric_result :: "data_type \<Rightarrow> data_type \<Rightarrow> data_type option" where
  "numeric_result a b =
     (if a = Type_Null \<and> b = Type_Null then Some Type_Null
      else if a = Type_Null \<and> is_numeric b then Some b
      else if b = Type_Null \<and> is_numeric a then Some a
      else if a = Type_Integer \<and> b = Type_Integer then Some Type_Integer
      else if is_numeric a \<and> is_numeric b then Some Type_Float
      else None)"

definition is_comparable_with :: "data_type \<Rightarrow> data_type \<Rightarrow> bool" where
  "is_comparable_with a b \<longleftrightarrow>
     type_is_null a \<or> type_is_null b \<or> a = b \<or> (is_numeric a \<and> is_numeric b) \<or>
     (is_textual a \<and> is_textual b)"

definition can_assign_to :: "data_type \<Rightarrow> data_type \<Rightarrow> bool" where
  "can_assign_to a target \<longleftrightarrow>
     a = target \<or> type_is_null a \<or> (a = Type_Integer \<and> target = Type_Float) \<or>
     (a = Type_Text \<and> is_textual target)"

definition unify :: "data_type \<Rightarrow> data_type \<Rightarrow> data_type option" where
  "unify a b =
     (if a = b then Some a
      else if a = Type_Null then Some b
      else if b = Type_Null then Some a
      else if is_numeric a \<and> is_numeric b then Some Type_Float
      else if is_textual a \<and> is_textual b then Some Type_Text
      else None)"

definition type_of_sql :: "sql_data_type \<Rightarrow> data_type" where
  "type_of_sql s = (case s of
     Sql_Text \<Rightarrow> Type_Text | Sql_Integer \<Rightarrow> Type_Integer | Sql_Float \<Rightarrow> Type_Float
   | Sql_Boolean \<Rightarrow> Type_Boolean | Sql_Json \<Rightarrow> Type_Json | Sql_Timestamp \<Rightarrow> Type_Timestamp
   | Sql_Uuid \<Rightarrow> Type_Uuid)"

definition display_type :: "data_type \<Rightarrow> string" where
  "display_type t = (case t of
     Type_Null \<Rightarrow> ''NULL'' | Type_Boolean \<Rightarrow> ''BOOLEAN'' | Type_Integer \<Rightarrow> ''INTEGER''
   | Type_Float \<Rightarrow> ''FLOAT'' | Type_Text \<Rightarrow> ''TEXT'' | Type_Json \<Rightarrow> ''JSON''
   | Type_Timestamp \<Rightarrow> ''TIMESTAMP'' | Type_Uuid \<Rightarrow> ''UUID'')"


section \<open>Laws of unification\<close>

lemmas type_defs = unify_def type_is_null_def is_numeric_def is_textual_def is_comparable_with_def
  can_assign_to_def numeric_result_def

lemma unify_idem [simp]: "unify a a = Some a"
  by (simp add: unify_def)

lemma unify_null [simp]: "unify Type_Null a = Some a" "unify a Type_Null = Some a"
  by (auto simp: unify_def)

lemma unify_commute: "unify a b = unify b a"
  by (cases a; cases b; simp add: type_defs)

lemma unify_assoc:
  "Option.bind (unify a b) (\<lambda>t. unify t c) = Option.bind (unify b c) (unify a)"
  by (cases a; cases b; simp add: type_defs; cases c; simp add: type_defs)

lemma unify_comparable: "unify a b \<noteq> None \<longleftrightarrow> is_comparable_with a b"
  by (cases a; cases b; simp add: type_defs)

lemma numeric_result_unify:
  "numeric_result a b = Some t \<Longrightarrow> unify a b = Some t \<and> (is_numeric t \<or> t = Type_Null)"
  by (cases a; cases b; simp add: type_defs)

text \<open>The unified type of a list, from \<open>Null\<close> on, as \<open>COALESCE\<close> folds it.\<close>

fun unify_all :: "data_type \<Rightarrow> data_type list \<Rightarrow> data_type option" where
  "unify_all acc [] = Some acc"
| "unify_all acc (t # ts) = (case unify acc t of None \<Rightarrow> None | Some u \<Rightarrow> unify_all u ts)"

lemma unify_all_swap: "unify_all acc (s # t # ts) = unify_all acc (t # s # ts)"
proof -
  have "Option.bind (unify acc s) (\<lambda>u. unify u t) = Option.bind (unify acc t) (\<lambda>u. unify u s)"
    by (metis unify_assoc unify_commute)
  then show ?thesis by (auto split: option.splits simp: bind_eq_None_conv)
qed

end
