(* ===== verification/Values.thy ===== *)
theory Values
  imports Types "HOL-Library.Product_Lexorder"
begin

text \<open>
  Run-time values and their operators, \<open>planner/value.rs\<close>: three-valued logic, SQL comparison, checked
  integer arithmetic, float arithmetic that refuses results that are not finite, casts, \<open>LIKE\<close> matching
  and the total order, equality and hash that grouping and sorting use.
\<close>

section \<open>Values and errors\<close>

datatype sql_value =
    Null_Value | Boolean_Value bool | Integer_Value i64 | Float_Value f64 | Text_Value string

type_synonym row = "sql_value list"

datatype eval_error =
    Eval_Type_Mismatch string | Division_By_Zero | Overflow string
  | Invalid_Cast string data_type | Column_Out_Of_Range nat nat

definition display_eval_error :: "eval_error \<Rightarrow> string" where
  "display_eval_error e = (case e of
     Eval_Type_Mismatch msg \<Rightarrow> ''type mismatch: '' @ msg
   | Division_By_Zero \<Rightarrow> ''division by zero''
   | Overflow msg \<Rightarrow> ''numeric overflow: '' @ msg
   | Invalid_Cast v to \<Rightarrow> ''cannot cast '' @ v @ '' to '' @ display_type to
   | Column_Out_Of_Range index width \<Rightarrow>
       ''column position '' @ show_int (int index) @ '' out of range for row of width '' @
       show_int (int width))"

definition value_type :: "sql_value \<Rightarrow> data_type" where
  "value_type v = (case v of
     Null_Value \<Rightarrow> Type_Null | Boolean_Value _ \<Rightarrow> Type_Boolean | Integer_Value _ \<Rightarrow> Type_Integer
   | Float_Value _ \<Rightarrow> Type_Float | Text_Value _ \<Rightarrow> Type_Text)"

definition is_null_value :: "sql_value \<Rightarrow> bool" where
  "is_null_value v = (case v of Null_Value \<Rightarrow> True | _ \<Rightarrow> False)"

definition display_value :: "sql_value \<Rightarrow> string" where
  "display_value v = (case v of
     Null_Value \<Rightarrow> ''NULL'' | Boolean_Value b \<Rightarrow> show_bool b | Integer_Value i \<Rightarrow> show_i64 i
   | Float_Value x \<Rightarrow> show_f64 x | Text_Value s \<Rightarrow> s)"

definition to_bool :: "sql_value \<Rightarrow> eval_error + bool option" where
  "to_bool v = (case v of
     Null_Value \<Rightarrow> Inr None
   | Boolean_Value b \<Rightarrow> Inr (Some b)
   | other \<Rightarrow> Inl (Eval_Type_Mismatch (''expected BOOLEAN, got '' @ display_type (value_type other))))"

definition from_literal :: "literal_value \<Rightarrow> sql_value" where
  "from_literal l = (case l of
     Lit_Null \<Rightarrow> Null_Value | Lit_Boolean b \<Rightarrow> Boolean_Value b | Lit_Integer i \<Rightarrow> Integer_Value i
   | Lit_Float x \<Rightarrow> Float_Value x | Lit_String s \<Rightarrow> Text_Value s)"


section \<open>Comparison\<close>

definition cmp_f64 :: "f64 \<Rightarrow> f64 \<Rightarrow> ordering" where
  "cmp_f64 a b = (case f64_partial_cmp a b of
     Some o' \<Rightarrow> o' | None \<Rightarrow> compare_by is_nan a b)"

definition sql_cmp :: "sql_value \<Rightarrow> sql_value \<Rightarrow> eval_error + ordering option" where
  "sql_cmp l r = (case (l, r) of
     (Null_Value, _) \<Rightarrow> Inr None
   | (_, Null_Value) \<Rightarrow> Inr None
   | (Boolean_Value a, Boolean_Value b) \<Rightarrow> Inr (Some (compare_by id a b))
   | (Integer_Value a, Integer_Value b) \<Rightarrow> Inr (Some (compare_by sint a b))
   | (Integer_Value a, Float_Value b) \<Rightarrow> Inr (Some (cmp_f64 (f64_of_i64 a) b))
   | (Float_Value a, Integer_Value b) \<Rightarrow> Inr (Some (cmp_f64 a (f64_of_i64 b)))
   | (Float_Value a, Float_Value b) \<Rightarrow> Inr (Some (cmp_f64 a b))
   | (Text_Value a, Text_Value b) \<Rightarrow> Inr (Some (compare_by id a b))
   | (a, b) \<Rightarrow> Inl (Eval_Type_Mismatch
       (''cannot compare '' @ display_type (value_type a) @ '' with '' @ display_type (value_type b))))"

definition value_rank :: "sql_value \<Rightarrow> nat" where
  "value_rank v = (case v of
     Null_Value \<Rightarrow> 0 | Boolean_Value _ \<Rightarrow> 1 | Integer_Value _ \<Rightarrow> 2 | Float_Value _ \<Rightarrow> 2 | Text_Value _ \<Rightarrow> 3)"

definition value_eq :: "sql_value \<Rightarrow> sql_value \<Rightarrow> bool" where
  "value_eq l r = (case (l, r) of
     (Null_Value, Null_Value) \<Rightarrow> True
   | (Boolean_Value a, Boolean_Value b) \<Rightarrow> a = b
   | (Integer_Value a, Integer_Value b) \<Rightarrow> a = b
   | (Float_Value a, Float_Value b) \<Rightarrow> cmp_f64 a b = Same
   | (Text_Value a, Text_Value b) \<Rightarrow> a = b
   | _ \<Rightarrow> False)"

definition value_cmp :: "sql_value \<Rightarrow> sql_value \<Rightarrow> ordering" where
  "value_cmp l r = (case (l, r) of
     (Boolean_Value a, Boolean_Value b) \<Rightarrow> compare_by id a b
   | (Integer_Value a, Integer_Value b) \<Rightarrow> compare_by sint a b
   | (Float_Value a, Float_Value b) \<Rightarrow> cmp_f64 a b
   | (Integer_Value a, Float_Value b) \<Rightarrow> then_ordering (cmp_f64 (f64_of_i64 a) b) Less_Than
   | (Float_Value a, Integer_Value b) \<Rightarrow> then_ordering (cmp_f64 a (f64_of_i64 b)) Greater_Than
   | (Text_Value a, Text_Value b) \<Rightarrow> compare_by id a b
   | (a, b) \<Rightarrow> compare_by value_rank a b)"

text \<open>
  The hash of a value is a function of its discriminant and of what is fed to the hasher, given here
  as a value: a float is fed as its canonical bits, in which all zeros and all \<open>NaN\<close>s agree.
\<close>

datatype hash_input = Hash_Unit | Hash_Bool bool | Hash_Word u64 | Hash_Text string

definition canonical_f64_bits :: "f64 \<Rightarrow> u64" where
  "canonical_f64_bits x =
     (if f64_is_zero x then 0 else if is_nan x then f64_bits Not_A_Number else f64_bits x)"

definition hash_value :: "sql_value \<Rightarrow> nat \<times> hash_input" where
  "hash_value v = (case v of
     Null_Value \<Rightarrow> (0, Hash_Unit)
   | Boolean_Value b \<Rightarrow> (1, Hash_Bool b)
   | Integer_Value i \<Rightarrow> (2, Hash_Word i)
   | Float_Value x \<Rightarrow> (3, Hash_Word (canonical_f64_bits x))
   | Text_Value s \<Rightarrow> (4, Hash_Text s))"


section \<open>Casts\<close>

definition cast_value :: "sql_value \<Rightarrow> data_type \<Rightarrow> eval_error + sql_value" where
  "cast_value v to =
     (let invalid = Inl (Invalid_Cast (display_value v) to) in
      case (v, to) of
        (Null_Value, _) \<Rightarrow> Inr Null_Value
      | (Boolean_Value b, Type_Boolean) \<Rightarrow> Inr (Boolean_Value b)
      | (Integer_Value i, Type_Integer) \<Rightarrow> Inr (Integer_Value i)
      | (Integer_Value i, Type_Float) \<Rightarrow> Inr (Float_Value (f64_of_i64 i))
      | (Float_Value x, Type_Float) \<Rightarrow> Inr (Float_Value x)
      | (Float_Value x, Type_Integer) \<Rightarrow>
          let rounded = f64_round x in
          if is_finite rounded \<and> f64_le (f64_of_i64 (word_of_int i64_min)) rounded \<and>
             f64_le rounded (f64_of_i64 (word_of_int i64_max))
          then Inr (Integer_Value (i64_of_f64 rounded)) else invalid
      | (Text_Value s, t) \<Rightarrow>
          if is_textual t then Inr (Text_Value s)
          else if t = Type_Integer then
            (case parse_i64 (trim s) of Some i \<Rightarrow> Inr (Integer_Value i) | None \<Rightarrow> invalid)
          else if t = Type_Float then
            (case parse_f64 (trim s) of Some x \<Rightarrow> Inr (Float_Value x) | None \<Rightarrow> invalid)
          else if t = Type_Boolean then
            (let l = to_lowercase (trim s) in
             if l = ''true'' \<or> l = ''t'' then Inr (Boolean_Value True)
             else if l = ''false'' \<or> l = ''f'' then Inr (Boolean_Value False)
             else invalid)
          else invalid
      | (w, Type_Text) \<Rightarrow> Inr (Text_Value (display_value w))
      | _ \<Rightarrow> invalid)"


section \<open>Operators\<close>

definition and3 :: "bool option \<Rightarrow> bool option \<Rightarrow> bool option" where
  "and3 l r = (if l = Some False \<or> r = Some False then Some False
     else if l = Some True \<and> r = Some True then Some True else None)"

definition or3 :: "bool option \<Rightarrow> bool option \<Rightarrow> bool option" where
  "or3 l r = (if l = Some True \<or> r = Some True then Some True
     else if l = Some False \<and> r = Some False then Some False else None)"

definition bool_value :: "bool option \<Rightarrow> sql_value" where
  "bool_value b = (case b of None \<Rightarrow> Null_Value | Some b' \<Rightarrow> Boolean_Value b')"

text \<open>Division that truncates, and its remainder; \<open>MIN / -1\<close> and \<open>MIN % -1\<close> do not fit.\<close>

definition int_trunc_div :: "int \<Rightarrow> int \<Rightarrow> int" where
  "int_trunc_div a b = (if (a < 0) = (b < 0) then \<bar>a\<bar> div \<bar>b\<bar> else - (\<bar>a\<bar> div \<bar>b\<bar>))"

definition checked_rem :: "int \<Rightarrow> int \<Rightarrow> i64 option" where
  "checked_rem a b =
     (if checked (int_trunc_div a b) = None then None else checked (a - b * int_trunc_div a b))"

definition not_arithmetic :: "binary_operator \<Rightarrow> eval_error + 'a" where
  "not_arithmetic b = Inl (Eval_Type_Mismatch (binary_symbol b @ '' is not an arithmetic operator''))"

definition integer_arithmetic :: "binary_operator \<Rightarrow> i64 \<Rightarrow> i64 \<Rightarrow> eval_error + sql_value" where
  "integer_arithmetic opr a b =
     (if (opr = Op_Divide \<or> opr = Op_Modulo) \<and> b = 0 then Inl Division_By_Zero
      else
        let finish = (\<lambda>r. case r of Some i \<Rightarrow> Inr (Integer_Value i)
              | None \<Rightarrow> Inl (Overflow (show_i64 a @ '' '' @ binary_symbol opr @ '' '' @ show_i64 b)))
        in case opr of
          Op_Plus \<Rightarrow> finish (checked (sint a + sint b))
        | Op_Minus \<Rightarrow> finish (checked (sint a - sint b))
        | Op_Multiply \<Rightarrow> finish (checked (sint a * sint b))
        | Op_Divide \<Rightarrow> finish (checked (int_trunc_div (sint a) (sint b)))
        | Op_Modulo \<Rightarrow> finish (checked_rem (sint a) (sint b))
        | other \<Rightarrow> not_arithmetic other)"

definition float_arithmetic :: "binary_operator \<Rightarrow> f64 \<Rightarrow> f64 \<Rightarrow> eval_error + sql_value" where
  "float_arithmetic opr a b =
     (if (opr = Op_Divide \<or> opr = Op_Modulo) \<and> f64_is_zero b then Inl Division_By_Zero
      else
        let finish = (\<lambda>x. if is_finite x then Inr (Float_Value x)
              else Inl (Overflow (show_f64 a @ '' '' @ binary_symbol opr @ '' '' @ show_f64 b)))
        in case opr of
          Op_Plus \<Rightarrow> finish (f64_add a b)
        | Op_Minus \<Rightarrow> finish (f64_sub a b)
        | Op_Multiply \<Rightarrow> finish (f64_mul a b)
        | Op_Divide \<Rightarrow> finish (f64_div a b)
        | Op_Modulo \<Rightarrow> finish (f64_rem a b)
        | other \<Rightarrow> not_arithmetic other)"

definition arithmetic :: "binary_operator \<Rightarrow> sql_value \<Rightarrow> sql_value \<Rightarrow> eval_error + sql_value" where
  "arithmetic opr l r = (case (l, r) of
     (Null_Value, _) \<Rightarrow> Inr Null_Value
   | (_, Null_Value) \<Rightarrow> Inr Null_Value
   | (Integer_Value a, Integer_Value b) \<Rightarrow> integer_arithmetic opr a b
   | (Integer_Value a, Float_Value b) \<Rightarrow> float_arithmetic opr (f64_of_i64 a) b
   | (Float_Value a, Integer_Value b) \<Rightarrow> float_arithmetic opr a (f64_of_i64 b)
   | (Float_Value a, Float_Value b) \<Rightarrow> float_arithmetic opr a b
   | (a, b) \<Rightarrow> Inl (Eval_Type_Mismatch
       (''operator '' @ binary_symbol opr @ '' cannot be applied to '' @ display_type (value_type a) @
        '' and '' @ display_type (value_type b))))"

definition comparison_holds :: "binary_operator \<Rightarrow> ordering \<Rightarrow> bool" where
  "comparison_holds opr c = (case opr of
     Op_Eq \<Rightarrow> c = Same | Op_NotEq \<Rightarrow> c \<noteq> Same | Op_Lt \<Rightarrow> c = Less_Than | Op_LtEq \<Rightarrow> c \<noteq> Greater_Than
   | Op_Gt \<Rightarrow> c = Greater_Than | _ \<Rightarrow> c \<noteq> Less_Than)"

definition binary_op :: "binary_operator \<Rightarrow> sql_value \<Rightarrow> sql_value \<Rightarrow> eval_error + sql_value" where
  "binary_op opr l r =
     (if opr = Op_And then
        try_r (to_bool l) (\<lambda>a. try_r (to_bool r) (\<lambda>b. Inr (bool_value (and3 a b))))
      else if opr = Op_Or then
        try_r (to_bool l) (\<lambda>a. try_r (to_bool r) (\<lambda>b. Inr (bool_value (or3 a b))))
      else if is_comparison opr then
        try_r (sql_cmp l r) (\<lambda>c.
        Inr (case c of None \<Rightarrow> Null_Value | Some o' \<Rightarrow> Boolean_Value (comparison_holds opr o')))
      else if opr = Op_Concat then
        (if l = Null_Value \<or> r = Null_Value then Inr Null_Value
         else Inr (Text_Value (display_value l @ display_value r)))
      else arithmetic opr l r)"

definition unary_op :: "unary_operator \<Rightarrow> sql_value \<Rightarrow> eval_error + sql_value" where
  "unary_op opr v = (case (opr, v) of
     (_, Null_Value) \<Rightarrow> Inr Null_Value
   | (Op_Not, w) \<Rightarrow> try_r (to_bool w) (\<lambda>b. Inr (bool_value (map_option Not b)))
   | (Op_Negate, Integer_Value i) \<Rightarrow>
       (case checked (- sint i) of Some j \<Rightarrow> Inr (Integer_Value j)
        | None \<Rightarrow> Inl (Overflow (''-('' @ show_i64 i @ '')'')))
   | (Op_Negate, Float_Value x) \<Rightarrow> Inr (Float_Value (f64_neg x))
   | (Op_Positive, Integer_Value i) \<Rightarrow> Inr (Integer_Value i)
   | (Op_Positive, Float_Value x) \<Rightarrow> Inr (Float_Value x)
   | (o', w) \<Rightarrow> Inl (Eval_Type_Mismatch
       (''operator '' @ trim (unary_symbol o') @ '' cannot be applied to '' @
        display_type (value_type w))))"


section \<open>LIKE\<close>

text \<open>The loop keeps the last \<open>%\<close> and the text position it was tried at; a result is \<open>Some\<close>.\<close>

partial_function (option) like_loop ::
  "string \<Rightarrow> string \<Rightarrow> nat \<Rightarrow> nat \<Rightarrow> (nat \<times> nat) option \<Rightarrow> bool option" where
  "like_loop text' pat t p backtrack =
     (if t < length text' then
        if p < length pat \<and> pat ! p = CHR ''%'' then
          like_loop text' pat t (p + 1) (Some (p, t))
        else if p < length pat \<and> (pat ! p = CHR ''_'' \<or> pat ! p = text' ! t) then
          like_loop text' pat (t + 1) (p + 1) backtrack
        else (case backtrack of
          Some (star_p, star_t) \<Rightarrow>
            like_loop text' pat (star_t + 1) (star_p + 1) (Some (star_p, star_t + 1))
        | None \<Rightarrow> Some False)
      else Some (list_all (\<lambda>c. c = CHR ''%'') (drop p pat)))"

definition like_match :: "string \<Rightarrow> string \<Rightarrow> bool \<Rightarrow> bool option" where
  "like_match v pattern case_insensitive =
     (let fold = (\<lambda>s. if case_insensitive then to_lowercase s else s)
      in like_loop (fold v) (fold pattern) 0 0 None)"

declare like_loop.simps [code]

end
