(* ===== verification/Plan_Error.thy ===== *)
theory Plan_Error
  imports Values
begin

text \<open>
  The errors of the SQL front end: \<open>sql/error.rs\<close> and \<open>planner/error.rs\<close>, with the text \<open>Display\<close>
  writes. Two variants of \<open>PlanError\<close> have no text yet: printing them panics.
\<close>

datatype parse_error =
    EmptyQuery | MultipleStatements | MissingClause string | UnsupportedStatement string
  | UnsupportedDataType string | UnsupportedExpression string | InvalidIdentifier string
  | SqlParser string

definition display_parse_error :: "parse_error \<Rightarrow> string" where
  "display_parse_error e = (case e of
     EmptyQuery \<Rightarrow> ''Empty query''
   | MultipleStatements \<Rightarrow> ''Multiple statements not allowed''
   | MissingClause c \<Rightarrow> ''Missing clause: '' @ c
   | UnsupportedStatement s \<Rightarrow> ''Unsupported statement: '' @ s
   | UnsupportedDataType dt \<Rightarrow> ''Unsupported data type: '' @ dt
   | UnsupportedExpression x \<Rightarrow> ''Unsupported expression: '' @ x
   | InvalidIdentifier i \<Rightarrow> ''Invalid identifier: '' @ i
   | SqlParser x \<Rightarrow> ''SQL parser error: '' @ x)"

datatype plan_error =
    Parse_Error parse_error
  | TableNotFound string
  | TableAlreadyExists string
  | ColumnNotFound "string option" string
  | AmbiguousColumn string "string list"
  | AliasNotFound string
  | DuplicateAlias string
  | DuplicateColumn string
  | AggregateNotAllowed string
  | NestedAggregate string
  | InvalidAggregate string
  | NonAggregateColumn string
  | UnknownFunction string
  | Plan_Type_Mismatch string
  | InvalidOrderBy string
  | PositionOutOfRange string nat
  | InvalidInsert string
  | NotNullViolation string string
  | Unsupported string
  | Internal_Error string

definition display_plan_error :: "plan_error \<Rightarrow> error + string" where
  "display_plan_error e = (case e of
     Parse_Error p \<Rightarrow> Inr (display_parse_error p)
   | TableNotFound name \<Rightarrow> Inr (''No table with named \"'' @ name @ ''\" found.'')
   | TableAlreadyExists name \<Rightarrow> Inr (''Table \"'' @ name @ ''\" already exists.'')
   | ColumnNotFound (Some t) column \<Rightarrow> Inr (''Column not found: '' @ t @ ''.'' @ column)
   | ColumnNotFound None column \<Rightarrow> Inr (''Column not found: '' @ column)
   | AmbiguousColumn column candidates \<Rightarrow>
       Inr (''Ambiguous column '' @ quote @ column @ quote @ '', found in tables: '' @
            join '', '' candidates)
   | AliasNotFound a \<Rightarrow> Inr (''Table alias not found: '' @ a)
   | DuplicateAlias a \<Rightarrow> Inr (''Duplicate table alias: '' @ a)
   | DuplicateColumn c \<Rightarrow> Inr (''Column specified more than once: '' @ c)
   | AggregateNotAllowed clause \<Rightarrow> Inr (''Aggregate functions are not allowed in '' @ clause)
   | NestedAggregate x \<Rightarrow> Inr (''Aggregate function calls cannot be nested: '' @ x)
   | InvalidAggregate msg \<Rightarrow> Inr (''Invalid aggregate: '' @ msg)
   | NonAggregateColumn column \<Rightarrow>
       Inr (''Column '' @ quote @ column @ quote @
            '' must appear in GROUP BY or be used in an aggregate function'')
   | UnknownFunction name \<Rightarrow> Inr (''Unknown function: '' @ name)
   | Plan_Type_Mismatch msg \<Rightarrow> Inr (''Type mismatch: '' @ msg)
   | InvalidOrderBy msg \<Rightarrow> Inr (''Invalid ORDER BY: '' @ msg)
   | PositionOutOfRange clause position \<Rightarrow>
       Inr (clause @ '' position '' @ show_int (int position) @ '' is not in select list'')
   | InvalidInsert msg \<Rightarrow> Inr (''Invalid INSERT: '' @ msg)
   | NotNullViolation table column \<Rightarrow>
       Inr (''NULL value violates NOT NULL constraint on '' @ table @ ''.'' @ column)
   | Unsupported _ \<Rightarrow> Inl (Panic ''not yet implemented'')
   | Internal_Error _ \<Rightarrow> Inl (Panic ''not yet implemented''))"

end
