(* ===== verification/Schema.thy ===== *)
theory Schema
  imports Plan_Error
begin

text \<open>
  The columns of a plan node, \<open>planner/schema.rs\<close>. The type of a field is \<open>sqlparser\<close>'s \<open>DataType\<close>,
  which is not code of this repository: it is the type parameter \<open>'t\<close>, and its \<open>Display\<close> an argument.
\<close>

datatype column_id = ColumnId u32

definition display_column_id :: "column_id \<Rightarrow> string" where
  "display_column_id c = (case c of ColumnId n \<Rightarrow> ''#'' @ show_int (uint n))"

record id_generator =
  next_column_id :: u32

definition next_id :: "id_generator \<Rightarrow> u32 \<times> id_generator" where
  "next_id g = (next_column_id g, g\<lparr>next_column_id := next_column_id g + 1\<rparr>)"

record 't plan_field =
  f_id :: column_id
  f_qualifier :: "string option"
  f_name :: string
  f_data_type :: 't
  f_nullable :: bool

definition qualified_name :: "'t plan_field \<Rightarrow> string" where
  "qualified_name f = (case f_qualifier f of Some q \<Rightarrow> q @ ''.'' @ f_name f | None \<Rightarrow> f_name f)"

definition field_with_nullable :: "bool \<Rightarrow> 't plan_field \<Rightarrow> 't plan_field" where
  "field_with_nullable b f = f\<lparr>f_nullable := b\<rparr>"

datatype 't schema = Schema (schema_fields: "'t plan_field list")

definition schema_empty :: "'t schema" where
  "schema_empty = Schema []"

definition schema_len :: "'t schema \<Rightarrow> nat" where
  "schema_len s = length (schema_fields s)"

definition schema_is_empty :: "'t schema \<Rightarrow> bool" where
  "schema_is_empty s = (schema_len s = 0)"

definition schema_field :: "'t schema \<Rightarrow> nat \<Rightarrow> error + 't plan_field" where
  "schema_field s i = index_r (schema_fields s) i"

text \<open>\<open>Iterator::position\<close>.\<close>

fun position :: "('a \<Rightarrow> bool) \<Rightarrow> 'a list \<Rightarrow> nat option" where
  "position P [] = None"
| "position P (x # xs) = (if P x then Some 0 else map_option Suc (position P xs))"

definition index_of :: "'t schema \<Rightarrow> column_id \<Rightarrow> nat option" where
  "index_of s c = position (\<lambda>f. f_id f = c) (schema_fields s)"

definition schema_contains :: "'t schema \<Rightarrow> column_id \<Rightarrow> bool" where
  "schema_contains s c = (index_of s c \<noteq> None)"

definition schema_ids :: "'t schema \<Rightarrow> column_id list" where
  "schema_ids s = map f_id (schema_fields s)"

definition schema_concat :: "'t schema \<Rightarrow> 't schema \<Rightarrow> 't schema" where
  "schema_concat a b = Schema (schema_fields a @ schema_fields b)"

definition schema_with_nullable :: "bool \<Rightarrow> 't schema \<Rightarrow> 't schema" where
  "schema_with_nullable b s =
     Schema (map (\<lambda>f. field_with_nullable (f_nullable f \<or> b) f) (schema_fields s))"

definition schema_column_names :: "'t schema \<Rightarrow> string list" where
  "schema_column_names s = map f_name (schema_fields s)"

definition display_schema :: "('t \<Rightarrow> string) \<Rightarrow> 't schema \<Rightarrow> string" where
  "display_schema display_t s =
     ''['' @ join '', '' (map (\<lambda>f. qualified_name f @ '':'' @ display_t (f_data_type f)) (schema_fields s)) @ '']''"


section \<open>Facts\<close>

lemma position_Some:
  "position P xs = Some i \<longleftrightarrow> i < length xs \<and> P (xs ! i) \<and> (\<forall>j < i. \<not> P (xs ! j))"
proof (induction xs arbitrary: i)
  case (Cons x xs)
  show ?case
    by (cases i) (auto simp: Cons less_Suc_eq_0_disj)
qed simp

lemma position_None: "position P xs = None \<longleftrightarrow> (\<forall>x \<in> set xs. \<not> P x)"
  by (induction xs) auto

lemma schema_contains_ids: "schema_contains s c \<longleftrightarrow> c \<in> set (schema_ids s)"
  by (auto simp: schema_contains_def index_of_def position_None schema_ids_def)

lemma ids_with_nullable [simp]: "schema_ids (schema_with_nullable b s) = schema_ids s"
  by (simp add: schema_ids_def schema_with_nullable_def field_with_nullable_def comp_def)

lemma ids_concat [simp]: "schema_ids (schema_concat a b) = schema_ids a @ schema_ids b"
  by (simp add: schema_ids_def schema_concat_def)

end
