(* ===== verification/Scalar_Expr.thy ===== *)
theory Scalar_Expr
  imports Schema
begin

text \<open>
  The typed expressions of the planner, \<open>planner/expr.rs\<close>: their constructors, types and nullability,
  the generic traversals (children, rewriting bottom-up and top-down), the columns they use and
  conjunctions, and the text \<open>Display\<close> writes. The closures that rewrite are \<open>FnMut\<close>: they thread a
  state of type \<open>'s\<close>.
\<close>

section \<open>Expressions and functions\<close>

record column_ref =
  cr_id :: column_id
  cr_name :: string
  cr_data_type :: data_type

datatype scalar_function = Upper | Lower | Length_Fn | Abs_Fn | Coalesce

datatype aggregate_function = Count | Sum | Avg | Max_Agg | Min_Agg

datatype scalar_expr =
    S_Column column_ref
  | S_Literal sql_value
  | S_Unary unary_operator scalar_expr
  | S_Binary binary_operator scalar_expr scalar_expr
  | S_IsNull scalar_expr bool
  | S_InList scalar_expr "scalar_expr list" bool
  | S_Like scalar_expr string bool bool
  | S_Function scalar_function "scalar_expr list"
  | S_Cast scalar_expr data_type

definition scalar_from_name :: "string \<Rightarrow> scalar_function option" where
  "scalar_from_name name =
     (let n = to_uppercase name in
      if n = ''UPPER'' then Some Upper
      else if n = ''LOWER'' then Some Lower
      else if n = ''LENGTH'' \<or> n = ''CHAR_LENGTH'' then Some Length_Fn
      else if n = ''ABS'' then Some Abs_Fn
      else if n = ''COALESCE'' then Some Coalesce
      else None)"

definition scalar_name :: "scalar_function \<Rightarrow> string" where
  "scalar_name f = (case f of
     Upper \<Rightarrow> ''UPPER'' | Lower \<Rightarrow> ''LOWER'' | Length_Fn \<Rightarrow> ''LENGTH'' | Abs_Fn \<Rightarrow> ''ABS''
   | Coalesce \<Rightarrow> ''COALESCE'')"

definition function_type :: "scalar_function \<Rightarrow> data_type list \<Rightarrow> plan_error + data_type" where
  "function_type f args =
     (let mismatch = (\<lambda>expected. Inl (Plan_Type_Mismatch
            (scalar_name f @ '' expects '' @ expected @ '', got ('' @
             join '', '' (map display_type args) @ '')'')));
          textual = (\<lambda>t. case args of
            [a] \<Rightarrow> if is_textual a \<or> type_is_null a then Inr t else mismatch ''one TEXT argument''
          | _ \<Rightarrow> mismatch ''one TEXT argument'')
      in case f of
        Upper \<Rightarrow> textual Type_Text
      | Lower \<Rightarrow> textual Type_Text
      | Length_Fn \<Rightarrow> textual Type_Integer
      | Abs_Fn \<Rightarrow> (case args of
          [a] \<Rightarrow> if is_numeric a \<or> type_is_null a then Inr a else mismatch ''one numeric argument''
        | _ \<Rightarrow> mismatch ''one numeric argument'')
      | Coalesce \<Rightarrow>
          if args = [] then mismatch ''at least one argument''
          else (case unify_all Type_Null args of
            None \<Rightarrow> mismatch ''arguments of a common type'' | Some t \<Rightarrow> Inr t))"

definition aggregate_from_name :: "string \<Rightarrow> aggregate_function option" where
  "aggregate_from_name name =
     (let n = to_uppercase name in
      if n = ''COUNT'' then Some Count
      else if n = ''SUM'' then Some Sum
      else if n = ''AVG'' then Some Avg
      else if n = ''MAX'' then Some Max_Agg
      else if n = ''MIN'' then Some Min_Agg
      else None)"

definition aggregate_name :: "aggregate_function \<Rightarrow> string" where
  "aggregate_name f = (case f of
     Count \<Rightarrow> ''COUNT'' | Sum \<Rightarrow> ''SUM'' | Avg \<Rightarrow> ''AVG'' | Min_Agg \<Rightarrow> ''MIN'' | Max_Agg \<Rightarrow> ''MAX'')"

definition aggregate_type :: "aggregate_function \<Rightarrow> data_type option \<Rightarrow> plan_error + data_type" where
  "aggregate_type f arg =
     (if f = Count then Inr Type_Integer
      else case arg of
        None \<Rightarrow> Inl (InvalidAggregate (aggregate_name f @ ''(*) is only valid for COUNT''))
      | Some t \<Rightarrow>
          if f = Sum \<and> is_numeric t then Inr t
          else if f = Sum \<and> type_is_null t then Inr Type_Integer
          else if f = Avg \<and> (is_numeric t \<or> type_is_null t) then Inr Type_Float
          else if (f = Min_Agg \<or> f = Max_Agg) \<and> t \<noteq> Type_Boolean then Inr t
          else Inl (Plan_Type_Mismatch
            (aggregate_name f @ '' cannot be applied to '' @ display_type t)))"

text \<open>\<open>unwrap_or(DataType::Null)\<close>.\<close>

definition type_or_null :: "'e + data_type \<Rightarrow> data_type" where
  "type_or_null r = (case r of Inl _ \<Rightarrow> Type_Null | Inr t \<Rightarrow> t)"

fun expr_type :: "scalar_expr \<Rightarrow> data_type" where
  "expr_type (S_Column c) = cr_data_type c"
| "expr_type (S_Literal v) = value_type v"
| "expr_type (S_Unary opr e) = (if opr = Op_Not then Type_Boolean else expr_type e)"
| "expr_type (S_Binary opr l r) =
     (if is_comparison opr \<or> is_logical opr then Type_Boolean
      else if opr = Op_Concat then Type_Text
      else (case numeric_result (expr_type l) (expr_type r) of None \<Rightarrow> Type_Null | Some t \<Rightarrow> t))"
| "expr_type (S_IsNull e negated) = Type_Boolean"
| "expr_type (S_InList e items negated) = Type_Boolean"
| "expr_type (S_Like e pattern negated ci) = Type_Boolean"
| "expr_type (S_Function f args) = type_or_null (function_type f (map expr_type args))"
| "expr_type (S_Cast e to) = to"

record aggregate_call =
  ac_func :: aggregate_function
  ac_arg :: "scalar_expr option"
  ac_distinct :: bool

definition call_type :: "aggregate_call \<Rightarrow> data_type" where
  "call_type c = type_or_null (aggregate_type (ac_func c) (map_option expr_type (ac_arg c)))"

definition call_nullable :: "aggregate_call \<Rightarrow> bool" where
  "call_nullable c = (ac_func c \<noteq> Count)"

record sort_key =
  sk_expr :: scalar_expr
  sk_ascending :: bool
  sk_nulls_first :: bool


section \<open>Constructors\<close>

definition mk_column :: "column_id \<Rightarrow> string \<Rightarrow> data_type \<Rightarrow> scalar_expr" where
  "mk_column i name t = S_Column \<lparr>cr_id = i, cr_name = name, cr_data_type = t\<rparr>"

definition mk_and :: "scalar_expr \<Rightarrow> scalar_expr \<Rightarrow> scalar_expr" where
  "mk_and l r = S_Binary Op_And l r"

definition mk_negate :: "scalar_expr \<Rightarrow> scalar_expr" where
  "mk_negate e = S_Unary Op_Not e"

definition cast_expr :: "scalar_expr \<Rightarrow> data_type \<Rightarrow> scalar_expr" where
  "cast_expr e to =
     (if expr_type e = to \<or> e = S_Literal Null_Value then e else S_Cast e to)"


section \<open>Traversals\<close>

fun children :: "scalar_expr \<Rightarrow> scalar_expr list" where
  "children (S_Column c) = []"
| "children (S_Literal v) = []"
| "children (S_Unary opr e) = [e]"
| "children (S_Binary opr l r) = [l, r]"
| "children (S_IsNull e negated) = [e]"
| "children (S_InList e items negated) = e # items"
| "children (S_Like e pattern negated ci) = [e]"
| "children (S_Function f args) = args"
| "children (S_Cast e to) = [e]"

lemma size_children [termination_simp]: "c \<in> set (children e) \<Longrightarrow> size c < size e"
proof -
  have "x \<in> set xs \<Longrightarrow> size x \<le> size_list size xs" for x :: scalar_expr and xs
    by (rule size_list_estimation' [OF _ order_refl])
  then show "c \<in> set (children e) \<Longrightarrow> size c < size e"
    by (cases e) (auto simp: less_Suc_eq_le intro: trans_le_add1)
qed

type_synonym 's rewrite = "scalar_expr \<Rightarrow> 's \<Rightarrow> (plan_error + scalar_expr) \<times> 's"

fun collect :: "('x \<Rightarrow> 's \<Rightarrow> ('e + 'a) \<times> 's) \<Rightarrow> 'x list \<Rightarrow> 's \<Rightarrow> ('e + 'a list) \<times> 's" where
  "collect f [] = ok []"
| "collect f (x # xs) = andthen (f x) (\<lambda>a. andthen (collect f xs) (\<lambda>as. ok (a # as)))"

fun map_children :: "'s rewrite \<Rightarrow> 's rewrite" where
  "map_children f (S_Column c) = ok (S_Column c)"
| "map_children f (S_Literal v) = ok (S_Literal v)"
| "map_children f (S_Unary opr e) = andthen (f e) (\<lambda>e'. ok (S_Unary opr e'))"
| "map_children f (S_Binary opr l r) =
     andthen (f l) (\<lambda>l'. andthen (f r) (\<lambda>r'. ok (S_Binary opr l' r')))"
| "map_children f (S_IsNull e negated) = andthen (f e) (\<lambda>e'. ok (S_IsNull e' negated))"
| "map_children f (S_InList e items negated) =
     andthen (f e) (\<lambda>e'. andthen (collect f items) (\<lambda>items'. ok (S_InList e' items' negated)))"
| "map_children f (S_Like e pattern negated ci) =
     andthen (f e) (\<lambda>e'. ok (S_Like e' pattern negated ci))"
| "map_children f (S_Function g args) = andthen (collect f args) (\<lambda>args'. ok (S_Function g args'))"
| "map_children f (S_Cast e to) = andthen (f e) (\<lambda>e'. ok (S_Cast e' to))"

lemma collect_cong [fundef_cong]:
  "xs = ys \<Longrightarrow> (\<And>x. x \<in> set ys \<Longrightarrow> f x = g x) \<Longrightarrow> collect f xs = collect g ys"
  by (induction ys arbitrary: xs) auto

lemma map_children_cong [fundef_cong]:
  assumes "e = e'" and "\<And>c. c \<in> set (children e') \<Longrightarrow> f c = g c"
  shows "map_children f e = map_children g e'"
  using assms collect_cong [OF refl, of _ f g] by (cases e') simp_all

fun transform_up :: "'s rewrite \<Rightarrow> 's rewrite" where
  "transform_up f e = andthen (map_children (\<lambda>child. transform_up f child) e) f"

fun transform_down ::
  "(scalar_expr \<Rightarrow> 's \<Rightarrow> (plan_error + scalar_expr option) \<times> 's) \<Rightarrow> 's rewrite" where
  "transform_down f e =
     andthen (f e) (\<lambda>r. case r of
       Some replacement \<Rightarrow> ok replacement
     | None \<Rightarrow> map_children (\<lambda>child. transform_down f child) e)"

declare transform_up.simps [simp del] transform_down.simps [simp del]

fun any_expr :: "(scalar_expr \<Rightarrow> bool) \<Rightarrow> scalar_expr \<Rightarrow> bool" where
  "any_expr P e = (P e \<or> list_ex id (map (\<lambda>c. any_expr P c) (children e)))"

declare any_expr.simps [simp del]

text \<open>A \<open>BTreeSet\<close> of column identifiers is a set; the children insert theirs one after the other.\<close>

fun collect_column_ids :: "scalar_expr \<Rightarrow> column_id set \<Rightarrow> column_id set" where
  "collect_column_ids e out =
     fold id (map (\<lambda>c. collect_column_ids c) (children e))
       (case e of S_Column c \<Rightarrow> insert (cr_id c) out | _ \<Rightarrow> out)"

declare collect_column_ids.simps [simp del]

definition column_ids :: "scalar_expr \<Rightarrow> column_id set" where
  "column_ids e = collect_column_ids e {}"

definition is_bound_by :: "scalar_expr \<Rightarrow> 't schema \<Rightarrow> bool" where
  "is_bound_by e s = Set.Ball (column_ids e) (schema_contains s)"

definition is_constant :: "scalar_expr \<Rightarrow> bool" where
  "is_constant e = (\<not> any_expr (\<lambda>x. case x of S_Column _ \<Rightarrow> True | _ \<Rightarrow> False) e)"

fun expr_nullable :: "'t schema \<Rightarrow> scalar_expr \<Rightarrow> bool" where
  "expr_nullable s e = (case e of
     S_Column c \<Rightarrow> (case index_of s (cr_id c) of
         None \<Rightarrow> True | Some i \<Rightarrow> f_nullable (schema_fields s ! i))
   | S_Literal v \<Rightarrow> is_null_value v
   | S_IsNull _ _ \<Rightarrow> False
   | S_Function Coalesce args \<Rightarrow> list_all id (map (\<lambda>a. expr_nullable s a) (children e))
   | _ \<Rightarrow> list_ex id (map (\<lambda>c. expr_nullable s c) (children e)))"

declare expr_nullable.simps [simp del]

definition as_literal_bool :: "scalar_expr \<Rightarrow> bool option option" where
  "as_literal_bool e = (case e of
     S_Literal (Boolean_Value b) \<Rightarrow> Some (Some b) | S_Literal Null_Value \<Rightarrow> Some None | _ \<Rightarrow> None)"

fun split_conjunction :: "scalar_expr \<Rightarrow> scalar_expr list" where
  "split_conjunction (S_Binary Op_And l r) = split_conjunction l @ split_conjunction r"
| "split_conjunction other = [other]"

fun conjunction :: "scalar_expr list \<Rightarrow> scalar_expr option" where
  "conjunction [] = None"
| "conjunction (e # es) = Some (foldl mk_and e es)"


section \<open>Display\<close>

definition needs_paren :: "scalar_expr \<Rightarrow> bool" where
  "needs_paren e = (case e of
     S_Binary _ _ _ \<Rightarrow> True | S_IsNull _ _ \<Rightarrow> True | S_InList _ _ _ \<Rightarrow> True | S_Like _ _ _ _ \<Rightarrow> True
   | _ \<Rightarrow> False)"

definition paren :: "scalar_expr \<Rightarrow> string \<Rightarrow> string" where
  "paren e shown = (if needs_paren e then ''('' @ shown @ '')'' else shown)"

fun display_scalar :: "scalar_expr \<Rightarrow> string" where
  "display_scalar (S_Column c) = cr_name c"
| "display_scalar (S_Literal v) = (case v of Text_Value s \<Rightarrow> quoted s | _ \<Rightarrow> display_value v)"
| "display_scalar (S_Unary opr e) = unary_symbol opr @ paren e (display_scalar e)"
| "display_scalar (S_Binary opr l r) =
     paren l (display_scalar l) @ '' '' @ binary_symbol opr @ '' '' @ paren r (display_scalar r)"
| "display_scalar (S_IsNull e negated) =
     paren e (display_scalar e) @ '' IS '' @ not_word negated @ ''NULL''"
| "display_scalar (S_InList e items negated) =
     paren e (display_scalar e) @ '' '' @ not_word negated @ ''IN ('' @
     write_list display_scalar items @ '')''"
| "display_scalar (S_Like e pattern negated ci) =
     paren e (display_scalar e) @ '' '' @ not_word negated @ like_word ci @ '' '' @ quoted pattern"
| "display_scalar (S_Function f args) =
     scalar_name f @ ''('' @ write_list display_scalar args @ '')''"
| "display_scalar (S_Cast e to) =
     ''CAST('' @ display_scalar e @ '' AS '' @ display_type to @ '')''"

definition display_call :: "aggregate_call \<Rightarrow> string" where
  "display_call c =
     (let distinct_word = (if ac_distinct c then ''DISTINCT '' else []) in
      case ac_arg c of
        None \<Rightarrow> aggregate_name (ac_func c) @ ''(*)''
      | Some arg \<Rightarrow>
          aggregate_name (ac_func c) @ ''('' @ distinct_word @ display_scalar arg @ '')'')"

definition display_sort_key :: "sort_key \<Rightarrow> string" where
  "display_sort_key k =
     display_scalar (sk_expr k) @ '' '' @ (if sk_ascending k then ''ASC'' else ''DESC'') @
     '' NULLS '' @ (if sk_nulls_first k then ''FIRST'' else ''LAST'')"

end
