(* ===== verification/F64_Laws.thy ===== *)
theory F64_Laws
  imports F64 "HOL-Library.Product_Lexorder"
begin

text \<open>
  Rounding to binary64 is monotone, so converting an integer to a float never reverses an order; and
  the comparison of floats is the comparison of a key in a linear order.
\<close>

section \<open>Powers of two\<close>

lemma pow2_power_int: "pow2 e = power_int 2 e"
  by (auto simp: pow2_def power_int_def inverse_eq_divide power_divide)

lemma pow2_pos [simp]: "0 < pow2 e"
  by (simp add: pow2_def)

lemma pow2_nonzero [simp]: "pow2 e \<noteq> 0"
  using pow2_pos [of e] by linarith

lemma pow2_add: "pow2 (a + b) = pow2 a * pow2 b"
  by (simp add: pow2_power_int power_int_add)

lemma pow2_mono: "a \<le> b \<Longrightarrow> pow2 a \<le> pow2 b"
  by (simp add: pow2_power_int power_int_increasing)

lemma pow2_less_imp: "pow2 a < pow2 b \<Longrightarrow> a < b"
  using pow2_mono [of b a] by linarith

lemma pow2_nat: "pow2 (int n) = of_int (2 ^ n)"
  by (simp add: pow2_def)

lemma bit_count_0 [simp]: "bit_count 0 = 0"
  by (simp add: bit_count.simps [of 0])

lemma bit_count_pos: "0 < n \<Longrightarrow> bit_count n = Suc (bit_count (n div 2))"
  by (simp add: bit_count.simps [of n])

lemma bit_count_bounds: "0 < n \<Longrightarrow> 2 ^ bit_count n \<le> 2 * n \<and> n < 2 ^ bit_count n"
proof (induction n rule: bit_count.induct)
  case (1 n)
  show ?case
  proof (cases "n div 2 = 0")
    case True
    then have "n = 1" using 1 by simp
    then show ?thesis by (simp add: bit_count_pos)
  next
    case False
    then have "2 ^ bit_count (n div 2) \<le> 2 * (n div 2)" "n div 2 < 2 ^ bit_count (n div 2)"
      using 1 by simp_all
    then show ?thesis using 1 by (auto simp: bit_count_pos)
  qed
qed

lemma bit_count_rat:
  assumes "0 < i"
  shows "pow2 (int (bit_count (nat i)) - 1) \<le> of_int i \<and> of_int i < pow2 (int (bit_count (nat i)))"
proof -
  let ?k = "bit_count (nat i)"
  have "2 ^ ?k \<le> 2 * nat i" "nat i < 2 ^ ?k" using bit_count_bounds [of "nat i"] assms by simp_all
  then have "int (2 ^ ?k) \<le> int (2 * nat i)" "int (nat i) < int (2 ^ ?k)"
    by (simp_all only: of_nat_le_iff of_nat_less_iff)
  then have "2 ^ ?k \<le> 2 * i" "i < 2 ^ ?k" using assms by simp_all
  then have "of_int (2 ^ ?k) \<le> (of_int (2 * i) :: rat)" "of_int i < (of_int (2 ^ ?k) :: rat)"
    by (simp_all only: of_int_le_iff of_int_less_iff)
  then have "pow2 (int ?k) \<le> 2 * of_int i" "of_int i < pow2 (int ?k)"
    by (simp_all only: pow2_nat of_int_mult of_int_numeral)
  moreover have "pow2 (int ?k) = 2 * pow2 (int ?k - 1)"
    using pow2_add [of 1 "int ?k - 1"] by (simp add: pow2_def)
  ultimately show ?thesis by simp
qed

lemma rat_log2_bounds:
  assumes q: "0 < q"
  shows "pow2 (rat_log2 q) \<le> q \<and> q < pow2 (rat_log2 q + 1)"
proof -
  obtain n d where nd: "quotient_of q = (n, d)" by (cases "quotient_of q")
  have d: "0 < d" and qe: "q = of_int n / of_int d"
    using nd by (simp_all add: quotient_of_denom_pos quotient_of_div)
  have n: "0 < n" using q d by (simp add: qe zero_less_divide_iff)
  define a b where "a = int (bit_count (nat n))" and "b = int (bit_count (nat d))"
  have an: "pow2 (a - 1) \<le> of_int n" "of_int n < pow2 a"
    using bit_count_rat [OF n] by (simp_all add: a_def)
  have bd: "pow2 (b - 1) \<le> of_int d" "of_int d < pow2 b"
    using bit_count_rat [OF d] by (simp_all add: b_def)
  have "pow2 (a - b - 1) * of_int d \<le> pow2 (a - b - 1) * pow2 b" using bd by (simp add: less_imp_le)
  also have "\<dots> = pow2 (a - 1)" by (simp flip: pow2_add)
  finally have lo: "pow2 (a - b - 1) \<le> q" using an d by (simp add: qe le_divide_eq)
  have "of_int n < pow2 a" by (fact an)
  also have "\<dots> = pow2 (a - b + 1) * pow2 (b - 1)" by (simp flip: pow2_add)
  also have "\<dots> \<le> pow2 (a - b + 1) * of_int d" using bd by simp
  finally have hi: "q < pow2 (a - b + 1)" using d by (simp add: qe divide_less_eq)
  show ?thesis
    using lo hi by (auto simp: rat_log2_def nd Let_def simp flip: a_def b_def)
qed

lemma rat_log2_mono: "0 < p \<Longrightarrow> p \<le> q \<Longrightarrow> rat_log2 p \<le> rat_log2 q"
  using rat_log2_bounds [of p] rat_log2_bounds [of q] pow2_less_imp [of "rat_log2 p" "rat_log2 q + 1"]
  by linarith


section \<open>Rounding\<close>

lemma round_half_even_bounds: "\<lfloor>q\<rfloor> \<le> round_half_even q \<and> round_half_even q \<le> \<lfloor>q\<rfloor> + 1"
  by (simp add: round_half_even_def Let_def)

lemma round_half_even_int [simp]: "round_half_even (of_int i) = i"
  by (simp add: round_half_even_def)

lemma round_half_even_mono:
  assumes "p \<le> q"
  shows "round_half_even p \<le> round_half_even q"
proof (cases "\<lfloor>p\<rfloor> = \<lfloor>q\<rfloor>")
  case True
  then show ?thesis using assms by (auto simp: round_half_even_def Let_def)
next
  case False
  then have "\<lfloor>p\<rfloor> + 1 \<le> \<lfloor>q\<rfloor>" using floor_mono [OF assms] by linarith
  then show ?thesis using round_half_even_bounds [of p] round_half_even_bounds [of q] by linarith
qed

text \<open>The magnitude that a positive rational is rounded to, before the test for overflow.\<close>

definition unit_exponent :: "rat \<Rightarrow> int" where
  "unit_exponent q = max (- 1074) (rat_log2 q - 52)"

definition rounded :: "rat \<Rightarrow> rat" where
  "rounded q = of_int (round_half_even (q / pow2 (unit_exponent q))) * pow2 (unit_exponent q)"

lemma rounded_same_exponent:
  assumes "p \<le> q" and "unit_exponent p = unit_exponent q"
  shows "rounded p \<le> rounded q"
  using assms by (simp add: rounded_def round_half_even_mono divide_right_mono less_imp_le)

lemma rounded_upper:
  assumes q: "0 < q" and e: "unit_exponent q < f"
  shows "rounded q \<le> pow2 (52 + f)"
proof -
  let ?e = "unit_exponent q"
  have "q < pow2 (53 + ?e)"
  proof -
    have "q < pow2 (rat_log2 q + 1)" using rat_log2_bounds [OF q] by simp
    also have "\<dots> \<le> pow2 (53 + ?e)" by (intro pow2_mono) (simp add: unit_exponent_def)
    finally show ?thesis .
  qed
  then have "q / pow2 ?e \<le> of_int (2 ^ 53)"
    by (simp add: pow2_add divide_le_eq pow2_def [of 53])
  then have "round_half_even (q / pow2 ?e) \<le> 2 ^ 53"
    using round_half_even_mono [of _ "of_int (2 ^ 53)"] by (metis round_half_even_int)
  then have "(of_int (round_half_even (q / pow2 ?e)) :: rat) \<le> 2 ^ 53"
    by (metis of_int_le_iff of_int_numeral of_int_power)
  then have "rounded q \<le> 2 ^ 53 * pow2 ?e" by (simp add: rounded_def)
  also have "\<dots> = pow2 (53 + ?e)" by (simp add: pow2_add pow2_def [of 53])
  also have "\<dots> \<le> pow2 (52 + f)" using e by (intro pow2_mono) simp
  finally show ?thesis .
qed

lemma rounded_lower:
  assumes q: "0 < q" and e: "- 1074 < unit_exponent q"
  shows "pow2 (52 + unit_exponent q) \<le> rounded q"
proof -
  let ?e = "unit_exponent q"
  have "rat_log2 q = 52 + ?e" using e by (auto simp: unit_exponent_def)
  then have "pow2 (52 + ?e) \<le> q" using rat_log2_bounds [OF q] by simp
  then have "of_int (2 ^ 52) \<le> q / pow2 ?e" by (simp add: pow2_add le_divide_eq pow2_def [of 52])
  then have "2 ^ 52 \<le> round_half_even (q / pow2 ?e)"
    using round_half_even_mono [of "of_int (2 ^ 52)"] by (metis round_half_even_int)
  then have "2 ^ 52 \<le> (of_int (round_half_even (q / pow2 ?e)) :: rat)"
    by (metis of_int_le_iff of_int_numeral of_int_power)
  then show ?thesis by (simp add: rounded_def pow2_add pow2_def [of 52])
qed

lemma rounded_mono:
  assumes p: "0 < p" and pq: "p \<le> q"
  shows "rounded p \<le> rounded q"
proof (cases "unit_exponent p = unit_exponent q")
  case False
  have "unit_exponent p \<le> unit_exponent q"
    using rat_log2_mono [OF p pq] by (simp add: unit_exponent_def)
  with False have e: "unit_exponent p < unit_exponent q" by simp
  moreover have "- 1074 \<le> unit_exponent p" by (simp add: unit_exponent_def)
  ultimately show ?thesis
    using rounded_upper [OF p e] rounded_lower [of q] p pq by linarith
qed (use assms rounded_same_exponent in simp)

lemma rounded_nonneg: "0 < q \<Longrightarrow> 0 \<le> rounded q"
  using round_half_even_mono [of 0 "q / pow2 (unit_exponent q)"] round_half_even_int [of 0]
  by (simp add: rounded_def less_imp_le)

lemma f64_of_rat_rounded:
  assumes "q \<noteq> 0"
  shows "f64_of_rat neg q =
    (if pow2 1024 \<le> rounded \<bar>q\<bar> then Infinity (q < 0)
     else if rounded \<bar>q\<bar> = 0 then (if q < 0 then Neg_Zero else Fin 0)
     else Fin (if q < 0 then - rounded \<bar>q\<bar> else rounded \<bar>q\<bar>))"
  using assms by (simp add: f64_of_rat_def rounded_def unit_exponent_def Let_def)


section \<open>The order of floats\<close>

text \<open>The place of a float in the order, \<open>NaN\<close> last.\<close>

definition f64_key :: "f64 \<Rightarrow> nat \<times> rat" where
  "f64_key x = (case x of
     Fin q \<Rightarrow> (1, q) | Neg_Zero \<Rightarrow> (1, 0) | Infinity s \<Rightarrow> (if s then 0 else 2, 0)
   | Not_A_Number \<Rightarrow> (3, 0))"

lemma f64_of_rat_key_mono:
  assumes "p \<le> q"
  shows "f64_key (f64_of_rat b p) \<le> f64_key (f64_of_rat c q)"
proof -
  consider "p = 0" | "q = 0" "p < 0" | "0 < p" | "q < 0" | "p < 0" "0 < q"
    using assms by linarith
  then show ?thesis
  proof cases
    case 1
    then show ?thesis
      using assms rounded_nonneg [of q]
      by (cases "q = 0") (auto simp: f64_of_rat_rounded f64_key_def f64_of_rat_def [of _ 0])
  next
    case 2
    then show ?thesis
      using rounded_nonneg [of "- p"]
      by (auto simp: f64_of_rat_rounded f64_key_def f64_of_rat_def [of _ 0])
  next
    case 3
    then show ?thesis
      using assms rounded_mono [of p q] rounded_nonneg [of p] rounded_nonneg [of q]
      by (auto simp: f64_of_rat_rounded f64_key_def)
  next
    case 4
    then show ?thesis
      using assms rounded_mono [of "- q" "- p"] rounded_nonneg [of "- p"] rounded_nonneg [of "- q"]
      by (auto simp: f64_of_rat_rounded f64_key_def)
  next
    case 5
    then show ?thesis
      using assms rounded_nonneg [of "- p"] rounded_nonneg [of q]
      by (auto simp: f64_of_rat_rounded f64_key_def)
  qed
qed

end
