(* ===== verification/Scalar_Laws.thy ===== *)
theory Scalar_Laws
  imports Scalar_Expr Value_Laws
begin

text \<open>
  The laws of typed expressions: operators keep the static types, conjunctions split and join
  without changing their three-valued truth, and the traversals visit every expression once.
\<close>

section \<open>Types of results\<close>

text \<open>
  A value belongs to a type when it is \<open>NULL\<close>, has that type, or is text and the type is textual
  (JSON and UUID values are kept as text).
\<close>

definition has_type :: "sql_value \<Rightarrow> data_type \<Rightarrow> bool" where
  "has_type v t \<longleftrightarrow> v = Null_Value \<or> value_type v = t \<or> (is_textual t \<and> value_type v = Type_Text)"

lemma has_type_simps [simp]:
  "has_type Null_Value t"
  "has_type (Boolean_Value b) t \<longleftrightarrow> t = Type_Boolean"
  "has_type (Integer_Value i) t \<longleftrightarrow> t = Type_Integer"
  "has_type (Float_Value x) t \<longleftrightarrow> t = Type_Float"
  "has_type (Text_Value s) t \<longleftrightarrow> is_textual t"
  by (cases t; auto simp: has_type_def value_type_def is_textual_def)+

lemma bool_value_type [simp]: "has_type (bool_value b) Type_Boolean"
  by (cases b) (simp_all add: bool_value_def)

lemma integer_arithmetic_type:
  "integer_arithmetic opr a b = Inr v \<Longrightarrow> has_type v Type_Integer"
  by (cases opr) (auto simp: integer_arithmetic_def not_arithmetic_def split: if_splits option.splits)

lemma float_arithmetic_type:
  "float_arithmetic opr a b = Inr v \<Longrightarrow> \<exists>x. v = Float_Value x \<and> is_finite x"
  by (cases opr) (auto simp: float_arithmetic_def not_arithmetic_def Let_def split: if_splits)

lemma arithmetic_type:
  assumes "arithmetic opr l r = Inr v" and "has_type l s" and "has_type r t"
  shows "has_type v (case numeric_result s t of None \<Rightarrow> Type_Null | Some u \<Rightarrow> u)"
  using assms
  by (cases l; cases r)
    (auto simp: arithmetic_def numeric_result_def is_numeric_def
      dest: integer_arithmetic_type float_arithmetic_type)

lemma arithmetic_finite:
  assumes "arithmetic opr l r = Inr (Float_Value x)"
  shows "is_finite x"
  using assms
  by (cases l; cases r)
    (auto simp: arithmetic_def dest: integer_arithmetic_type float_arithmetic_type)

lemma binary_op_cases:
  assumes "binary_op opr l r = Inr v"
  obtains (boolean) b where "is_comparison opr \<or> is_logical opr" "v = bool_value b"
    | (concat) "opr = Op_Concat" "v = Null_Value \<or> (\<exists>s. v = Text_Value s)"
    | (arith) "is_arithmetic opr" "arithmetic opr l r = Inr v"
proof -
  consider "opr = Op_And" | "opr = Op_Or" | "is_comparison opr" | "opr = Op_Concat" | "is_arithmetic opr"
    by (cases opr) (auto simp: is_comparison_def is_arithmetic_def)
  then show ?thesis
  proof cases
    case 1
    then show ?thesis using assms boolean
      by (auto simp: binary_op_def is_logical_def try_r_def split: sum.splits)
  next
    case 2
    then show ?thesis using assms boolean
      by (auto simp: binary_op_def is_logical_def try_r_def split: sum.splits)
  next
    case 3
    then have "opr \<noteq> Op_And" "opr \<noteq> Op_Or" by (auto simp: is_comparison_def)
    then obtain c where "sql_cmp l r = Inr c"
      "v = (case c of None \<Rightarrow> Null_Value | Some c' \<Rightarrow> Boolean_Value (comparison_holds opr c'))"
      using 3 assms by (auto simp: binary_op_def try_r_def split: sum.splits)
    then have "v = bool_value (map_option (comparison_holds opr) c)"
      by (cases c) (simp_all add: bool_value_def)
    then show ?thesis using boolean 3 by blast
  next
    case 4
    then show ?thesis using assms concat
      by (auto simp: binary_op_def is_comparison_def split: if_splits)
  next
    case 5
    then have "\<not> is_comparison opr" "opr \<noteq> Op_And" "opr \<noteq> Op_Or" "opr \<noteq> Op_Concat"
      by (cases opr; simp add: is_comparison_def is_arithmetic_def)+
    then show ?thesis using assms arith 5 by (simp add: binary_op_def)
  qed
qed

lemma binary_op_type:
  assumes "binary_op opr l r = Inr v" and "has_type l (expr_type el)" and "has_type r (expr_type er)"
  shows "has_type v (expr_type (S_Binary opr el er))"
  using assms(1)
proof (cases rule: binary_op_cases)
  case arith
  then have "\<not> (is_comparison opr \<or> is_logical opr)" "opr \<noteq> Op_Concat"
    using operator_kinds [of opr] by (auto simp: is_arithmetic_def)
  then show ?thesis using arithmetic_type [OF arith(2) assms(2,3)] by simp
qed (auto simp: is_comparison_def is_logical_def is_textual_def)

lemma binary_op_finite: "binary_op opr l r = Inr (Float_Value x) \<Longrightarrow> is_finite x"
  by (erule binary_op_cases) (auto simp: bool_value_def dest: arithmetic_finite split: option.splits)

lemma unary_op_type:
  assumes "unary_op opr v = Inr w" and "has_type v (expr_type e)"
  shows "has_type w (expr_type (S_Unary opr e))"
  using assms by (cases opr; cases v) (auto simp: unary_op_def to_bool_def bool_value_def split: option.splits)

lemma cast_value_type: "cast_value v to = Inr w \<Longrightarrow> has_type w to"
  by (cases v; cases to)
    (auto simp: cast_value_def Let_def is_textual_def split: if_splits option.splits)


section \<open>Three-valued logic and conjunctions\<close>

lemma and3_assoc: "and3 (and3 a b) c = and3 a (and3 b c)"
  by (auto simp: and3_def)

lemma and3_commute: "and3 a b = and3 b a"
  by (auto simp: and3_def)

lemma and3_true [simp]: "and3 (Some True) a = a" "and3 a (Some True) = a"
  by (cases a; simp add: and3_def)+

lemma or3_and3: "or3 a b = map_option Not (and3 (map_option Not a) (map_option Not b))"
  by (cases a; cases b) (auto simp: and3_def or3_def)

text \<open>The truth of an expression when its parts that are not conjunctions have the truth \<open>v\<close>.\<close>

fun truth :: "(scalar_expr \<Rightarrow> bool option) \<Rightarrow> scalar_expr \<Rightarrow> bool option" where
  "truth v (S_Binary Op_And l r) = and3 (truth v l) (truth v r)"
| "truth v e = v e"

definition all3 :: "bool option list \<Rightarrow> bool option" where
  "all3 bs = foldr and3 bs (Some True)"

lemma all3_simps [simp]: "all3 [] = Some True" "all3 (b # bs) = and3 b (all3 bs)"
  by (simp_all add: all3_def)

lemma all3_append [simp]: "all3 (as @ bs) = and3 (all3 as) (all3 bs)"
  by (induction as) (simp_all add: and3_assoc)

lemma truth_split: "truth v e = all3 (map v (split_conjunction e))"
  by (induction v e rule: truth.induct) simp_all

lemma split_parts: "p \<in> set (split_conjunction e) \<Longrightarrow> split_conjunction p = [p]"
proof (induction e rule: split_conjunction.induct)
  case (1 l r)
  then show ?case by auto
qed simp_all

lemma split_foldl: "split_conjunction (foldl mk_and e es) = concat (map split_conjunction (e # es))"
  by (induction es arbitrary: e) (simp_all add: mk_and_def)

lemma split_conjunction_join:
  "conjunction es = Some e \<Longrightarrow> split_conjunction e = concat (map split_conjunction es)"
  by (cases es) (auto simp: split_foldl simp del: concat.simps list.map)

lemma split_not_empty [simp]: "split_conjunction e \<noteq> []"
  by (induction e rule: split_conjunction.induct) simp_all


section \<open>Traversals\<close>

fun post_order :: "scalar_expr \<Rightarrow> scalar_expr list" where
  "post_order e = concat (map (\<lambda>c. post_order c) (children e)) @ [e]"

declare post_order.simps [simp del]

definition visit :: "scalar_expr list rewrite" where
  "visit e = (\<lambda>s. (Inr e, s @ [e]))"

lemma visit_run: "visit e s = (Inr e, s @ [e])"
  by (simp add: visit_def)

lemma expr_induct [case_names step]:
  assumes "\<And>e. (\<And>c. c \<in> set (children e) \<Longrightarrow> P c) \<Longrightarrow> P e"
  shows "P e"
proof (induction "size e" arbitrary: e rule: less_induct)
  case less
  then show ?case using assms size_children by blast
qed

lemma collect_visit:
  assumes "\<And>x s. x \<in> set xs \<Longrightarrow> f x s = (Inr x, s @ g x)"
  shows "collect f xs s = (Inr xs, s @ concat (map g xs))"
  using assms by (induction xs arbitrary: s) (simp_all add: run_simps)

lemma map_children_visit:
  assumes "\<And>c s. c \<in> set (children e) \<Longrightarrow> f c s = (Inr c, s @ g c)"
  shows "map_children f e s = (Inr e, s @ concat (map g (children e)))"
  using assms by (cases e) (simp_all add: run_simps collect_visit [where g = g])

lemma transform_up_visit: "transform_up visit e s = (Inr e, s @ post_order e)"
proof (induction e arbitrary: s rule: expr_induct)
  case (step e)
  have "map_children (transform_up visit) e s = (Inr e, s @ concat (map post_order (children e)))"
    using step by (rule map_children_visit)
  then have "transform_up visit e s = visit e (s @ concat (map post_order (children e)))"
    unfolding transform_up.simps [of visit e] by (rule andthen_Inr)
  also have "\<dots> = (Inr e, (s @ concat (map post_order (children e))) @ [e])" by (rule visit_run)
  finally show ?case by (simp add: post_order.simps [of e])
qed

lemma any_expr_post_order: "any_expr P e \<longleftrightarrow> (\<exists>x \<in> set (post_order e). P x)"
proof (induction e rule: expr_induct)
  case (step e)
  then show ?case
    by (auto simp: any_expr.simps [of P e] post_order.simps [of e] list_ex_iff)
qed

lemma fold_collect:
  assumes "\<And>c out. c \<in> set cs \<Longrightarrow> collect_column_ids c out = out \<union> g c"
  shows "fold id (map (\<lambda>c. collect_column_ids c) cs) out = out \<union> (\<Union>c \<in> set cs. g c)"
  using assms by (induction cs arbitrary: out) auto

definition own_ids :: "scalar_expr \<Rightarrow> column_id set" where
  "own_ids e = (case e of S_Column c \<Rightarrow> {cr_id c} | _ \<Rightarrow> {})"

lemma collect_column_ids_post_order:
  "collect_column_ids e out = out \<union> (\<Union>x \<in> set (post_order e). own_ids x)"
proof (induction e arbitrary: out rule: expr_induct)
  case (step e)
  have "(case e of S_Column c \<Rightarrow> insert (cr_id c) out | _ \<Rightarrow> out) = out \<union> own_ids e"
    by (cases e) (auto simp: own_ids_def)
  then show ?case
    using fold_collect [of "children e" "\<lambda>c. \<Union>x \<in> set (post_order c). own_ids x"] step
    by (auto simp: collect_column_ids.simps [of e] post_order.simps [of e])
qed

lemma column_ids_post_order: "column_ids e = (\<Union>x \<in> set (post_order e). own_ids x)"
  by (simp add: column_ids_def collect_column_ids_post_order)

lemma is_constant_column_ids: "is_constant e \<longleftrightarrow> column_ids e = {}"
  by (auto simp: is_constant_def any_expr_post_order column_ids_post_order own_ids_def
      split: scalar_expr.splits)

end
