(* ===== verification/Like_Laws.thy ===== *)
theory Like_Laws
  imports Values
begin

text \<open>
  The matcher of \<open>LIKE\<close>: the backtracking loop of \<open>like_match\<close> always ends, and it decides the
  recursive definition of a match. The loop only ever goes back to its last \<open>%\<close>; that this is enough is
  the invariant below.
\<close>

section \<open>The reference matcher\<close>

fun like_ref :: "string \<Rightarrow> string \<Rightarrow> bool" where
  "like_ref [] [] = True"
| "like_ref [] (x # xs) = False"
| "like_ref (c # p) [] = (c = CHR ''%'' \<and> like_ref p [])"
| "like_ref (c # p) (x # xs) =
     (if c = CHR ''%'' then like_ref p (x # xs) \<or> like_ref (c # p) xs
      else (c = CHR ''_'' \<or> c = x) \<and> like_ref p xs)"

lemma like_ref_star: "like_ref (CHR ''%'' # p) s \<longleftrightarrow> (\<exists>k \<le> length s. like_ref p (drop k s))"
proof (induction s)
  case (Cons x s)
  have "(\<exists>k \<le> length (x # s). like_ref p (drop k (x # s))) \<longleftrightarrow>
      like_ref p (x # s) \<or> (\<exists>k \<le> length s. like_ref p (drop k s))"
    by (metis Suc_le_mono drop0 drop_Suc_Cons le0 length_Cons not0_implies_Suc)
  then show ?case using Cons by simp
qed simp

lemma like_ref_star_drop:
  assumes "like_ref (CHR ''%'' # p) (drop j s)" and "i \<le> j"
  shows "like_ref (CHR ''%'' # p) (drop i s)"
proof -
  obtain k where k: "k \<le> length (drop j s)" "like_ref p (drop k (drop j s))"
    using assms(1) by (auto simp only: like_ref_star)
  show ?thesis
  proof (cases "j \<le> length s")
    case True
    have "drop (k + (j - i)) (drop i s) = drop k (drop j s)" using assms(2) by (simp add: add.commute)
    then show ?thesis
      using k True assms(2) unfolding like_ref_star by (intro exI [of _ "k + (j - i)"]) auto
  next
    case False
    then have "drop k (drop j s) = drop (length s - i) (drop i s)" by simp
    then show ?thesis using k unfolding like_ref_star by (intro exI [of _ "length s - i"]) auto
  qed
qed

lemma like_ref_nil: "like_ref p [] \<longleftrightarrow> list_all (\<lambda>c. c = CHR ''%'') p"
  by (induction p) auto

text \<open>A segment without \<open>%\<close> consumes exactly its length.\<close>

lemma like_ref_segment:
  "list_all (\<lambda>c. c \<noteq> CHR ''%'') seg \<Longrightarrow> like_ref (seg @ q) s \<Longrightarrow>
   length seg \<le> length s \<and> like_ref q (drop (length seg) s)"
proof (induction seg arbitrary: s)
  case (Cons c seg)
  then show ?case by (cases s) auto
qed simp


section \<open>The loop\<close>

text \<open>
  With a saved \<open>%\<close> at \<open>star_p\<close>, the pattern between it and \<open>p\<close> has no \<open>%\<close> and has been matched
  against the text between \<open>star_t\<close> and \<open>t\<close>.
\<close>

fun saved :: "string \<Rightarrow> nat \<Rightarrow> nat \<Rightarrow> (nat \<times> nat) option \<Rightarrow> bool" where
  "saved pat t p None = True"
| "saved pat t p (Some (sp, st)) =
     (sp < p \<and> p \<le> length pat \<and> t = st + (p - Suc sp) \<and>
      list_all (\<lambda>c. c \<noteq> CHR ''%'') (slice pat (Suc sp) p))"

text \<open>What the loop still has to decide: a match from here, or one that begins later at the \<open>%\<close>.\<close>

fun later_match :: "string \<Rightarrow> string \<Rightarrow> (nat \<times> nat) option \<Rightarrow> bool" where
  "later_match s pat None = False"
| "later_match s pat (Some (sp, st)) =
     (\<exists>k. st < k \<and> k \<le> length s \<and> like_ref (drop (Suc sp) pat) (drop k s))"

fun loop_measure :: "string \<Rightarrow> string \<Rightarrow> nat \<Rightarrow> (nat \<times> nat) option \<Rightarrow> nat" where
  "loop_measure s pat t None = (length pat + 1) + length s * (length s + 2) + (length s - t)"
| "loop_measure s pat t (Some (sp, st)) =
     (length pat - sp) + (length s - st) * (length s + 2) + (length s - t)"

lemma drop_segment:
  assumes "a \<le> b" and "b \<le> length xs"
  shows "drop a xs = slice xs a b @ drop b xs"
  using assms by (metis append_take_drop_id drop_drop le_add_diff_inverse2 slice_def)

lemma slice_Suc: "a \<le> b \<Longrightarrow> b < length xs \<Longrightarrow> slice xs a (Suc b) = slice xs a b @ [xs ! b]"
  by (simp add: slice_def Suc_diff_le take_Suc_conv_app_nth)

text \<open>A match that begins later at the saved \<open>%\<close> has to get past the segment up to \<open>p\<close>.\<close>

lemma later_segment:
  assumes "saved pat t p (Some (sp, st))" and "st < k" and "k \<le> length s"
    and "like_ref (drop (Suc sp) pat) (drop k s)"
  shows "t < length s \<and> like_ref (drop p pat) (drop (k + (t - st)) s)"
proof -
  have "drop (Suc sp) pat = slice pat (Suc sp) p @ drop p pat"
    using assms(1) by (intro drop_segment) auto
  moreover have "length (slice pat (Suc sp) p) = t - st" using assms(1) by auto
  ultimately have "t - st \<le> length (drop k s) \<and> like_ref (drop p pat) (drop (t - st) (drop k s))"
    using assms like_ref_segment [of "slice pat (Suc sp) p" "drop p pat" "drop k s"] by simp
  then show ?thesis using assms by (auto simp: add.commute)
qed

text \<open>Each of the three moves of the loop decreases the measure.\<close>

lemma measure_star:
  assumes "saved pat t p bt" and "p < length pat"
  shows "loop_measure s pat t (Some (p, t)) < loop_measure s pat t bt"
proof (cases bt)
  case None
  have "(length s - t) * (length s + 2) \<le> length s * (length s + 2)"
    by (intro mult_right_mono) auto
  then show ?thesis using assms by (simp add: None)
next
  case (Some b)
  obtain sp st where b: "b = (sp, st)" by (cases b)
  have "st \<le> t" "length pat - p < length pat - sp" using assms by (auto simp: Some b)
  moreover from this have "(length s - t) * (length s + 2) \<le> (length s - st) * (length s + 2)"
    by (intro mult_right_mono) auto
  ultimately show ?thesis unfolding Some b loop_measure.simps by linarith
qed

lemma measure_one:
  assumes "t < length s"
  shows "loop_measure s pat (t + 1) bt < loop_measure s pat t bt"
proof -
  have "length s - (t + 1) < length s - t" using assms by simp
  then show ?thesis
    by (cases "(s, pat, t, bt)" rule: loop_measure.cases)
      (simp_all only: loop_measure.simps prod.inject)
qed

lemma measure_miss:
  assumes "st < length s"
  shows "loop_measure s pat (st + 1) (Some (sp, st + 1)) < loop_measure s pat t (Some (sp, st))"
proof -
  have "length s - st = Suc (length s - (st + 1))" using assms by simp
  then have "(length s - st) * (length s + 2) =
      (length s - (st + 1)) * (length s + 2) + (length s + 2)"
    by (simp only: mult_Suc add.commute)
  moreover have "length s - (st + 1) < length s + 2" by simp
  ultimately show ?thesis unfolding loop_measure.simps by linarith
qed

text \<open>What each move decides.\<close>

lemma later_at_end:
  assumes "saved pat (length s) p bt"
  shows "\<not> later_match s pat bt"
  using assms later_segment [of pat "length s" p _ _ _ s]
  by (cases "(s, pat, bt)" rule: later_match.cases) auto

lemma decide_star:
  assumes "p < length pat" and "pat ! p = CHR ''%''" and "saved pat t p bt" and "t < length s"
  shows "like_ref (drop p pat) (drop t s) \<or> later_match s pat bt \<longleftrightarrow>
    like_ref (drop (p + 1) pat) (drop t s) \<or> later_match s pat (Some (p, t))"
proof -
  have ps: "drop p pat = CHR ''%'' # drop (Suc p) pat"
    using assms(1,2) Cons_nth_drop_Suc [of p pat] by simp
  have "like_ref (drop p pat) (drop t s) \<longleftrightarrow>
      (\<exists>k \<ge> t. k \<le> length s \<and> like_ref (drop (Suc p) pat) (drop k s))"
    unfolding ps like_ref_star using assms(4)
    by (auto simp: add.commute le_diff_conv2 intro: exI [of _ "_ + t"])
      (metis diff_le_mono drop_drop le_add_diff_inverse2)
  then have "like_ref (drop p pat) (drop t s) \<longleftrightarrow>
      like_ref (drop (p + 1) pat) (drop t s) \<or> later_match s pat (Some (p, t))"
    using assms(4) by (auto simp: order_le_less)
  moreover have "like_ref (drop p pat) (drop t s)" if later: "later_match s pat bt"
  proof -
    obtain sp st where bt: "bt = Some (sp, st)" using later by (cases bt) auto
    then obtain k where k: "st < k" "k \<le> length s" "like_ref (drop (Suc sp) pat) (drop k s)"
      using later by auto
    have "like_ref (drop p pat) (drop (k + (t - st)) s)"
      using later_segment [OF _ k] assms(3) by (auto simp: bt)
    then show ?thesis using like_ref_star_drop k assms(3) unfolding ps by (auto simp: bt)
  qed
  ultimately show ?thesis by blast
qed

lemma decide_one:
  assumes "p < length pat" and "pat ! p \<noteq> CHR ''%''" and "pat ! p = CHR ''_'' \<or> pat ! p = s ! t"
    and "t < length s"
  shows "like_ref (drop p pat) (drop t s) = like_ref (drop (p + 1) pat) (drop (t + 1) s)"
  using assms Cons_nth_drop_Suc [OF assms(1), symmetric] Cons_nth_drop_Suc [OF assms(4), symmetric]
  by auto

lemma decide_miss:
  assumes "\<not> (p < length pat \<and> (pat ! p = CHR ''%'' \<or> pat ! p = CHR ''_'' \<or> pat ! p = s ! t))"
    and t: "t < length s"
  shows "\<not> like_ref (drop p pat) (drop t s)"
  using assms Cons_nth_drop_Suc [OF t, symmetric] Cons_nth_drop_Suc [of p pat, symmetric]
  by (cases "p < length pat") auto

lemma later_next:
  assumes "st < length s"
  shows "later_match s pat (Some (sp, st)) \<longleftrightarrow>
    like_ref (drop (sp + 1) pat) (drop (st + 1) s) \<or> later_match s pat (Some (sp, st + 1))"
  unfolding later_match.simps Suc_eq_plus1 [symmetric]
  using assms by (metis Suc_lessD Suc_leI lessI order_le_less)

lemma like_loop_correct:
  assumes "saved pat t p bt" and "p \<le> length pat" and "t \<le> length s"
  shows "like_loop s pat t p bt = Some (like_ref (drop p pat) (drop t s) \<or> later_match s pat bt)"
  using assms
proof (induction "loop_measure s pat t bt" arbitrary: t p bt rule: less_induct)
  case less
  note inv = less.prems and loop = like_loop.simps [of s pat t p bt]
  consider (over) "t = length s"
    | (star) "t < length s" "p < length pat" "pat ! p = CHR ''%''"
    | (one) "t < length s" "p < length pat" "pat ! p \<noteq> CHR ''%''" "pat ! p = CHR ''_'' \<or> pat ! p = s ! t"
    | (miss) "t < length s"
        "\<not> (p < length pat \<and> (pat ! p = CHR ''%'' \<or> pat ! p = CHR ''_'' \<or> pat ! p = s ! t))"
    using inv(3) by force
  then show ?case
  proof cases
    case over
    then show ?thesis using inv(1) later_at_end [of pat s p bt] loop by (simp add: like_ref_nil)
  next
    case star
    then show ?thesis
      using less.hyps [OF measure_star [OF inv(1)], of "p + 1"] decide_star [OF star(2,3) inv(1)] loop
      by (simp add: slice_def)
  next
    case one
    have "saved pat (t + 1) (p + 1) bt" using inv one by (cases bt) (auto simp: slice_Suc)
    then show ?thesis
      using less.hyps [OF measure_one] decide_one [OF one(2-4)] one loop by simp
  next
    case miss
    note no = decide_miss [OF miss(2,1)]
    show ?thesis
    proof (cases bt)
      case None
      then show ?thesis using no miss loop by auto
    next
      case (Some b)
      obtain sp st where b: "b = (sp, st)" by (cases b)
      have st: "st < length s" "sp < length pat" using inv miss(1) by (auto simp: Some b)
      have m: "loop_measure s pat (st + 1) (Some (sp, st + 1)) < loop_measure s pat t bt"
        unfolding Some b by (rule measure_miss [OF st(1)])
      have "like_loop s pat (st + 1) (sp + 1) (Some (sp, st + 1)) =
          Some (like_ref (drop (sp + 1) pat) (drop (st + 1) s) \<or>
                later_match s pat (Some (sp, st + 1)))"
        using less.hyps [OF m] st by (simp add: slice_def)
      moreover have "like_loop s pat t p bt = like_loop s pat (st + 1) (sp + 1) (Some (sp, st + 1))"
        using miss loop by (auto simp: Some b)
      ultimately show ?thesis using no later_next [OF st(1), of pat sp] unfolding Some b by simp
    qed
  qed
qed

lemma like_match_ref:
  "like_match v pat ci =
   Some (if ci then like_ref (to_lowercase pat) (to_lowercase v) else like_ref pat v)"
  by (simp add: like_match_def like_loop_correct)

end
