(* ===== verification/Catalog.thy ===== *)
theory Catalog
  imports Schema
begin

text \<open>
  Table schemas, \<open>planner/catalog.rs\<close>: building one from a \<open>CREATE TABLE\<close>, with the keys resolved to
  column positions. Column names are compared without regard to ASCII case. The second half shows
  that a schema which is accepted is well formed, and that every rejection has a reason.
\<close>

section \<open>The code\<close>

record table_schema =
  ts_name :: string
  ts_columns :: "column_def list"
  ts_primary_key :: "nat list"
  ts_unique_keys :: "nat list list"

text \<open>The first column whose name an earlier one has.\<close>

fun duplicate_column :: "column_def list \<Rightarrow> column_def list \<Rightarrow> string option" where
  "duplicate_column before [] = None"
| "duplicate_column before (c # cs) =
     (if list_ex (\<lambda>b. eq_ignore_ascii_case (cd_name b) (cd_name c)) before then Some (cd_name c)
      else duplicate_column (before @ [c]) cs)"

definition constrained :: "column_constraint \<Rightarrow> column_def list \<Rightarrow> nat list" where
  "constrained k columns =
     map fst (filter (\<lambda>(i, c). k \<in> set (cd_constraints c)) (enumerate 0 columns))"

definition table_schema_new :: "string \<Rightarrow> column_def list \<Rightarrow> plan_error + table_schema" where
  "table_schema_new name columns =
     (case duplicate_column [] columns of
        Some c \<Rightarrow> Inl (DuplicateColumn c)
      | None \<Rightarrow> Inr \<lparr>ts_name = name, ts_columns = columns,
          ts_primary_key = constrained Primary_Key columns,
          ts_unique_keys = map (\<lambda>i. [i]) (constrained Unique_Key columns)\<rparr>)"

definition find_column :: "table_schema \<Rightarrow> string \<Rightarrow> column_def option" where
  "find_column t name = List.find (\<lambda>c. eq_ignore_ascii_case (cd_name c) name) (ts_columns t)"

definition column_index :: "table_schema \<Rightarrow> string \<Rightarrow> nat option" where
  "column_index t name = position (\<lambda>c. eq_ignore_ascii_case (cd_name c) name) (ts_columns t)"

definition resolve_key :: "table_schema \<Rightarrow> string list \<Rightarrow> plan_error + nat list" where
  "resolve_key t =
     map_r (\<lambda>n. case column_index t n of
       Some i \<Rightarrow> Inr i | None \<Rightarrow> Inl (ColumnNotFound (Some (ts_name t)) n))"

definition with_keys :: "table_schema \<Rightarrow> string list \<Rightarrow> string list list \<Rightarrow> plan_error + table_schema" where
  "with_keys t primary_key unique_keys =
     try_r (resolve_key t primary_key) (\<lambda>pk.
     let t1 = t\<lparr>ts_primary_key := pk\<rparr> in
     try_r (map_r (resolve_key t1) unique_keys) (\<lambda>uks.
     Inr (t1\<lparr>ts_unique_keys := uks\<rparr>)))"

definition from_create :: "create_table \<Rightarrow> plan_error + table_schema" where
  "from_create create =
     try_r (table_schema_new (ct_name create) (ct_columns create)) (\<lambda>t.
     with_keys t (ct_primary_key create) (ct_unique_keys create))"

definition ts_column_names :: "table_schema \<Rightarrow> string list" where
  "ts_column_names t = map cd_name (ts_columns t)"

definition column_type :: "table_schema \<Rightarrow> nat \<Rightarrow> error + data_type" where
  "column_type t i = try_r (index_r (ts_columns t) i) (\<lambda>c. Inr (type_of_sql (cd_data_type c)))"

definition column_nullable :: "table_schema \<Rightarrow> nat \<Rightarrow> error + bool" where
  "column_nullable t i =
     try_r (index_r (ts_columns t) i) (\<lambda>c.
     Inr (\<not> is_not_null c \<and> \<not> i \<in> set (ts_primary_key t)))"

definition integer_key_column :: "table_schema \<Rightarrow> error + nat option" where
  "integer_key_column t = (case ts_primary_key t of
     [k] \<Rightarrow> try_r (column_type t k) (\<lambda>ty. Inr (if ty = Type_Integer then Some k else None))
   | _ \<Rightarrow> Inr None)"

record catalog =
  cat_tables :: "string \<rightharpoonup> table_schema"


section \<open>Well-formed schemas\<close>

definition distinct_names :: "column_def list \<Rightarrow> bool" where
  "distinct_names cs = distinct (map (to_lowercase \<circ> cd_name) cs)"

text \<open>Names are distinct up to case and every key names columns by their positions.\<close>

definition schema_ok :: "table_schema \<Rightarrow> bool" where
  "schema_ok t \<longleftrightarrow> distinct_names (ts_columns t) \<and>
     (\<forall>i \<in> set (ts_primary_key t). i < length (ts_columns t)) \<and>
     (\<forall>k \<in> set (ts_unique_keys t). \<forall>i \<in> set k. i < length (ts_columns t))"

lemma duplicate_column_None:
  "duplicate_column before cs = None \<longleftrightarrow>
   distinct_names cs \<and> (\<forall>b \<in> set before. \<forall>c \<in> set cs. \<not> eq_ignore_ascii_case (cd_name b) (cd_name c))"
  by (induction cs arbitrary: before)
    (auto simp: distinct_names_def list_ex_iff eq_ignore_ascii_case_def image_iff)

lemma duplicate_column_Some:
  "duplicate_column before cs = Some n \<Longrightarrow>
   \<exists>xs c ys b. cs = xs @ c # ys \<and> cd_name c = n \<and> b \<in> set before \<union> set xs \<and>
     eq_ignore_ascii_case (cd_name b) n"
proof (induction cs arbitrary: before)
  case (Cons c cs)
  show ?case
  proof (cases "list_ex (\<lambda>b. eq_ignore_ascii_case (cd_name b) (cd_name c)) before")
    case True
    then show ?thesis using Cons.prems by (auto simp: list_ex_iff intro!: exI [of _ "[]"])
  next
    case False
    then obtain xs d ys b where "cs = xs @ d # ys" "cd_name d = n" "b \<in> set (before @ [c]) \<union> set xs"
      "eq_ignore_ascii_case (cd_name b) n"
      using Cons.IH [of "before @ [c]"] Cons.prems by auto
    then show ?thesis
      by (intro exI [of _ "c # xs"] exI [of _ d] exI [of _ ys] exI [of _ b]) auto
  qed
qed simp

lemma constrained_bound: "i \<in> set (constrained k cs) \<longleftrightarrow>
   i < length cs \<and> k \<in> set (cd_constraints (cs ! i))"
  by (auto simp: constrained_def in_set_enumerate_eq image_iff)

lemma column_index_Some:
  "column_index t n = Some i \<Longrightarrow>
   i < length (ts_columns t) \<and> eq_ignore_ascii_case (cd_name (ts_columns t ! i)) n"
  by (simp add: column_index_def position_Some)

lemma column_index_nth:
  assumes "distinct_names (ts_columns t)" and "i < length (ts_columns t)"
    and "eq_ignore_ascii_case (cd_name (ts_columns t ! i)) n"
  shows "column_index t n = Some i"
proof -
  have "\<not> eq_ignore_ascii_case (cd_name (ts_columns t ! j)) n" if "j < i" for j
    using assms that nth_eq_iff_index_eq [of "map (to_lowercase \<circ> cd_name) (ts_columns t)" j i]
    by (auto simp: distinct_names_def eq_ignore_ascii_case_def)
  then show ?thesis using assms by (simp add: column_index_def position_Some)
qed

lemma column_index_None:
  "column_index t n = None \<longleftrightarrow> (\<forall>c \<in> set (ts_columns t). \<not> eq_ignore_ascii_case (cd_name c) n)"
  by (simp add: column_index_def position_None)

lemma find_position: "List.find P xs = map_option (\<lambda>i. xs ! i) (position P xs)"
  by (induction xs) (auto simp: option.map_comp comp_def)

lemma find_column_index:
  "find_column t n = map_option (\<lambda>i. ts_columns t ! i) (column_index t n)"
  by (simp add: find_column_def column_index_def find_position)

lemma map_r_InrD: "map_r f xs = Inr ys \<Longrightarrow> list_all2 (\<lambda>x y. f x = Inr y) xs ys"
  by (induction xs arbitrary: ys) (auto simp: try_r_def split: sum.splits)

lemma map_r_InlD: "map_r f xs = Inl e \<Longrightarrow> \<exists>x \<in> set xs. f x = Inl e"
  by (induction xs) (auto simp: try_r_def split: sum.splits)

lemma resolve_key_Inr:
  "resolve_key t ns = Inr is \<Longrightarrow> list_all2 (\<lambda>n i. column_index t n = Some i) ns is"
  unfolding resolve_key_def
  by (drule map_r_InrD) (auto elim!: list_all2_mono split: option.splits)

lemma resolve_key_Inl:
  "resolve_key t ns = Inl e \<Longrightarrow>
   \<exists>n \<in> set ns. column_index t n = None \<and> e = ColumnNotFound (Some (ts_name t)) n"
  unfolding resolve_key_def by (drule map_r_InlD) (auto split: option.splits)

lemma resolve_key_cong:
  "ts_columns t = ts_columns u \<Longrightarrow> ts_name t = ts_name u \<Longrightarrow> resolve_key t = resolve_key u"
  by (simp add: resolve_key_def column_index_def cong: option.case_cong)


section \<open>Schemas from \<open>CREATE TABLE\<close>\<close>

lemma with_keys_Inr:
  assumes "with_keys t pk uks = Inr u"
  shows "ts_name u = ts_name t \<and> ts_columns u = ts_columns t \<and>
    list_all2 (\<lambda>n i. column_index u n = Some i) pk (ts_primary_key u) \<and>
    list_all2 (list_all2 (\<lambda>n i. column_index u n = Some i)) uks (ts_unique_keys u)"
proof -
  have idx: "column_index (t\<lparr>ts_primary_key := is\<rparr>) = column_index t"
    "column_index (t\<lparr>ts_primary_key := is, ts_unique_keys := js\<rparr>) = column_index t" for "is" js
    by (simp_all add: column_index_def fun_eq_iff)
  obtain "is" js where k: "resolve_key t pk = Inr is"
    "map_r (resolve_key (t\<lparr>ts_primary_key := is\<rparr>)) uks = Inr js"
    "u = t\<lparr>ts_primary_key := is, ts_unique_keys := js\<rparr>"
    using assms by (auto simp: with_keys_def Let_def try_r_def split: sum.splits)
  have "list_all2 (list_all2 (\<lambda>n i. column_index t n = Some i)) uks js"
    using map_r_InrD [OF k(2)] by (rule list_all2_mono) (auto dest: resolve_key_Inr simp: idx)
  then show ?thesis using resolve_key_Inr [OF k(1)] by (simp add: k(3) idx)
qed

lemma with_keys_Inl:
  assumes "with_keys t pk uks = Inl e"
  shows "\<exists>n \<in> set pk \<union> set (concat uks). column_index t n = None \<and> e = ColumnNotFound (Some (ts_name t)) n"
proof -
  have "resolve_key (t\<lparr>ts_primary_key := is\<rparr>) = resolve_key t" for "is"
    by (rule resolve_key_cong) simp_all
  then consider "resolve_key t pk = Inl e" | "map_r (resolve_key t) uks = Inl e"
    using assms by (auto simp: with_keys_def Let_def try_r_def split: sum.splits)
  then show ?thesis
    by cases (fastforce dest!: resolve_key_Inl map_r_InlD)+
qed

lemma list_all2_bound:
  "list_all2 (\<lambda>n i. column_index t n = Some i) ns is \<Longrightarrow> i \<in> set is \<Longrightarrow> i < length (ts_columns t)"
  by (auto simp: list_all2_conv_all_nth in_set_conv_nth dest: column_index_Some)

lemma from_create_Inr:
  assumes "from_create ct = Inr t"
  shows "schema_ok t \<and> ts_name t = ct_name ct \<and> ts_columns t = ct_columns ct \<and>
    list_all2 (\<lambda>n i. column_index t n = Some i) (ct_primary_key ct) (ts_primary_key t) \<and>
    list_all2 (list_all2 (\<lambda>n i. column_index t n = Some i)) (ct_unique_keys ct) (ts_unique_keys t) \<and>
    map (column_index t) (ts_column_names t) = map Some [0..<length (ct_columns ct)]"
proof -
  obtain u where u: "table_schema_new (ct_name ct) (ct_columns ct) = Inr u"
    "with_keys u (ct_primary_key ct) (ct_unique_keys ct) = Inr t"
    using assms by (auto simp: from_create_def try_r_def split: sum.splits)
  have new: "distinct_names (ct_columns ct)" "ts_name u = ct_name ct" "ts_columns u = ct_columns ct"
    using u(1) by (auto simp: table_schema_new_def duplicate_column_None split: option.splits)
  note keys = with_keys_Inr [OF u(2)]
  have "i < length (ts_columns t)" if k: "k \<in> set (ts_unique_keys t)" and i: "i \<in> set k" for k i
  proof -
    obtain j where "j < length (ts_unique_keys t)" "k = ts_unique_keys t ! j"
      using k by (auto simp: in_set_conv_nth)
    then have "list_all2 (\<lambda>n i. column_index t n = Some i) (ct_unique_keys ct ! j) k"
      using keys by (auto simp: list_all2_conv_all_nth)
    then show ?thesis using i by (rule list_all2_bound)
  qed
  moreover have "i < length (ts_columns t)" if i: "i \<in> set (ts_primary_key t)" for i
    using keys i list_all2_bound [of t "ct_primary_key ct"] by blast
  ultimately have "schema_ok t" using keys new by (auto simp: schema_ok_def)
  moreover have "map (column_index t) (ts_column_names t) = map Some [0..<length (ct_columns ct)]"
    using keys new column_index_nth [of t]
    by (intro nth_equalityI) (auto simp: ts_column_names_def eq_ignore_case_equiv(1))
  ultimately show ?thesis using keys new by simp
qed

lemma from_create_Inl:
  assumes "from_create ct = Inl e"
  shows "(\<exists>xs c ys b. e = DuplicateColumn (cd_name c) \<and> ct_columns ct = xs @ c # ys \<and> b \<in> set xs \<and>
      eq_ignore_ascii_case (cd_name b) (cd_name c)) \<or>
    (\<exists>n. e = ColumnNotFound (Some (ct_name ct)) n \<and> distinct_names (ct_columns ct) \<and>
      n \<in> set (ct_primary_key ct) \<union> set (concat (ct_unique_keys ct)) \<and>
      \<not> list_ex (\<lambda>c. eq_ignore_ascii_case (cd_name c) n) (ct_columns ct))"
proof (cases "table_schema_new (ct_name ct) (ct_columns ct)")
  case (Inl d)
  then show ?thesis
    using assms duplicate_column_Some [of "[]" "ct_columns ct"]
    by (fastforce simp: from_create_def table_schema_new_def split: option.splits)
next
  case (Inr u)
  then have "distinct_names (ct_columns ct)" "ts_name u = ct_name ct" "ts_columns u = ct_columns ct"
    by (auto simp: table_schema_new_def duplicate_column_None split: option.splits)
  moreover have "with_keys u (ct_primary_key ct) (ct_unique_keys ct) = Inl e"
    using assms Inr by (simp add: from_create_def)
  from with_keys_Inl [OF this]
  obtain n where "n \<in> set (ct_primary_key ct) \<union> set (concat (ct_unique_keys ct))"
    "column_index u n = None" "e = ColumnNotFound (Some (ts_name u)) n" by blast
  ultimately show ?thesis by (auto simp: column_index_None list_ex_iff)
qed

end
