(* ===== verification/Planner_Properties.thy ===== *)
theory Planner_Properties
  imports Scalar_Laws Like_Laws Catalog
begin

text \<open>
  The properties of the SQL front end: values, types, expressions and table schemas, each with a
  witness at a concrete input where it has a hypothesis.
\<close>

section \<open>Arithmetic\<close>

lemma checked_cases:
  obtains r where "checked i = Some r" "sint r = i" | "checked i = None" "\<not> i64_range i"
  by (cases "checked i") (auto simp: checked_Some checked_None)

text \<open>C32: Integer arithmetic is exact or an error: a sum, difference or product is the mathematical
one when it fits in 64 bits and an overflow error otherwise; a quotient truncates towards zero and
goes with a remainder that is smaller than the divisor and has the sign of the dividend; the only
errors of division and remainder are a zero divisor and the smallest integer divided by -1.\<close>

theorem integer_arithmetic_exact:
  assumes "is_arithmetic opr"
  shows "case integer_arithmetic opr a b of
    Inr v \<Rightarrow> (\<exists>r. v = Integer_Value r \<and>
      (opr = Op_Plus \<longrightarrow> sint r = sint a + sint b) \<and>
      (opr = Op_Minus \<longrightarrow> sint r = sint a - sint b) \<and>
      (opr = Op_Multiply \<longrightarrow> sint r = sint a * sint b) \<and>
      (opr = Op_Divide \<longrightarrow> \<bar>sint a - sint b * sint r\<bar> < \<bar>sint b\<bar> \<and>
        (sint a = sint b * sint r \<or> (sint a - sint b * sint r < 0) = (sint a < 0))) \<and>
      (opr = Op_Modulo \<longrightarrow> sint b dvd (sint a - sint r) \<and> \<bar>sint r\<bar> < \<bar>sint b\<bar> \<and>
        (r = 0 \<or> (sint r < 0) = (sint a < 0))))
  | Inl Division_By_Zero \<Rightarrow> b = 0 \<and> (opr = Op_Divide \<or> opr = Op_Modulo)
  | Inl (Overflow m) \<Rightarrow>
      (opr = Op_Plus \<and> \<not> i64_range (sint a + sint b)) \<or>
      (opr = Op_Minus \<and> \<not> i64_range (sint a - sint b)) \<or>
      (opr = Op_Multiply \<and> \<not> i64_range (sint a * sint b)) \<or>
      ((opr = Op_Divide \<or> opr = Op_Modulo) \<and> sint a = i64_min \<and> sint b = -1)
  | Inl _ \<Rightarrow> False"
proof -
  let ?q = "int_trunc_div (sint a) (sint b)"
  have zero: "b = 0 \<longleftrightarrow> sint b = 0" and rzero: "r = 0 \<longleftrightarrow> sint r = 0" for r :: i64
    by (metis sint_inject signed_0)+
  have range_q: "i64_range ?q \<longleftrightarrow> \<not> (sint a = i64_min \<and> sint b = - 1)" if "sint b \<noteq> 0"
    using int_trunc_div_range [OF sint_i64 that, of a] .
  note rem = int_trunc_div_rem [of "sint b" "sint a"] int_trunc_rem_range [OF sint_i64 [of b], of "sint a"]
  consider (plus) "opr = Op_Plus" | (minus) "opr = Op_Minus" | (times) "opr = Op_Multiply"
    | (zero) "opr = Op_Divide \<or> opr = Op_Modulo" "b = 0"
    | (divide) "opr = Op_Divide" "b \<noteq> 0" | (modulo) "opr = Op_Modulo" "b \<noteq> 0"
    using assms by (cases opr) (auto simp: is_arithmetic_def)
  then show ?thesis
  proof cases
    case plus
    then show ?thesis
      by (cases rule: checked_cases [of "sint a + sint b"]) (auto simp: integer_arithmetic_def)
  next
    case minus
    then show ?thesis
      by (cases rule: checked_cases [of "sint a - sint b"]) (auto simp: integer_arithmetic_def)
  next
    case times
    then show ?thesis
      by (cases rule: checked_cases [of "sint a * sint b"]) (auto simp: integer_arithmetic_def)
  next
    case zero
    then show ?thesis by (auto simp: integer_arithmetic_def)
  next
    case divide
    then show ?thesis
      using range_q rem by (cases rule: checked_cases [of ?q]) (auto simp: integer_arithmetic_def zero)
  next
    case modulo
    then have "i64_range (sint a - sint b * ?q)" using rem by (simp add: zero)
    then obtain r where r: "checked (sint a - sint b * ?q) = Some r" "sint r = sint a - sint b * ?q"
      by (cases rule: checked_cases [of "sint a - sint b * ?q"]) auto
    then show ?thesis
      using modulo range_q rem
      by (cases rule: checked_cases [of ?q]) (auto simp: integer_arithmetic_def checked_rem_def zero rzero)
  qed
qed

lemma integer_arithmetic_exact_witness:
  "integer_arithmetic Op_Modulo (-7) 2 = Inr (Integer_Value (-1)) \<and> (2 :: int) dvd (-7 - -1)"
proof -
  have v: "integer_arithmetic Op_Modulo (-7) 2 = Inr (Integer_Value (-1))"
    by (simp add: integer_arithmetic_def checked_rem_def int_trunc_div_def checked_def i64_range_def
        i64_min_def i64_max_def)
  then show ?thesis
    using integer_arithmetic_exact [of Op_Modulo "-7" 2] by (simp add: is_arithmetic_def)
qed


section \<open>The order of values\<close>

text \<open>C35: \<open>Ord\<close>, \<open>Eq\<close> and \<open>Hash\<close> of values fit together, over all variants and with \<open>NaN\<close>, both zeros and
mixed integers and floats: the comparison is a total order, it says equal exactly when \<open>==\<close> does,
equal values hash alike, and an integer and a float are never equal.\<close>

theorem value_order_total:
  "(value_cmp a b = Same \<longleftrightarrow> value_eq a b) \<and>
   (value_cmp a b = Less_Than \<longleftrightarrow> value_cmp b a = Greater_Than) \<and>
   (value_cmp a b \<noteq> Greater_Than \<and> value_cmp b c \<noteq> Greater_Than \<longrightarrow> value_cmp a c \<noteq> Greater_Than) \<and>
   (value_eq a b \<longrightarrow> hash_value a = hash_value b) \<and>
   value_cmp (Integer_Value i) (Float_Value x) \<noteq> Same"
  using value_eq_hash [of a b]
  by (auto simp: value_cmp_key value_eq_key compare_by_def value_key_def [of "Integer_Value i"]
      value_key_def [of "Float_Value x"] dest: order_less_trans)

lemma value_order_total_witness:
  "value_cmp Null_Value (Boolean_Value True) = Less_Than \<and>
   value_cmp (Boolean_Value True) (Text_Value ''a'') = Less_Than \<and>
   value_cmp Null_Value (Text_Value ''a'') \<noteq> Greater_Than \<and>
   value_eq (Float_Value (Fin 0)) (Float_Value Neg_Zero) \<and>
   hash_value (Float_Value (Fin 0)) = hash_value (Float_Value Neg_Zero)"
proof -
  have l: "value_cmp Null_Value (Boolean_Value True) = Less_Than"
    "value_cmp (Boolean_Value True) (Text_Value ''a'') = Less_Than"
    by (simp_all add: value_cmp_def value_rank_def compare_by_def)
  have z: "value_eq (Float_Value (Fin 0)) (Float_Value Neg_Zero)"
    by (simp add: value_eq_key value_key_def f64_key_def)
  show ?thesis
    using l z value_order_total [of Null_Value "Boolean_Value True" "Text_Value ''a''"]
      value_order_total [of "Float_Value (Fin 0)" "Float_Value Neg_Zero"] by simp
qed


section \<open>LIKE\<close>

text \<open>C36: \<open>like_match\<close> always returns, and it returns whether the text matches the pattern by the
recursive definition, in which \<open>%\<close> stands for any text and \<open>_\<close> for any one character; going back only
to the last \<open>%\<close> loses no match.\<close>

theorem like_match_reference:
  "like_match v pattern case_insensitive =
   Some (if case_insensitive then like_ref (to_lowercase pattern) (to_lowercase v)
         else like_ref pattern v)"
  by (rule like_match_ref)


section \<open>Types\<close>

text \<open>C37: Evaluation respects the static types: when the operands of an operator have the types of
the expressions they stand for, its result has the type that \<open>ScalarExpr::data_type\<close> gives to the
whole expression; casts give the target type; and no arithmetic operator returns an infinity or \<open>NaN\<close>.\<close>

theorem operators_well_typed:
  assumes "has_type l (expr_type el)" and "has_type r (expr_type er)"
  shows "(binary_op b l r = Inr v \<longrightarrow> has_type v (expr_type (S_Binary b el er))) \<and>
    (unary_op u l = Inr v \<longrightarrow> has_type v (expr_type (S_Unary u el))) \<and>
    (cast_value l to = Inr v \<longrightarrow> has_type v (expr_type (S_Cast el to))) \<and>
    (binary_op b l r = Inr (Float_Value x) \<longrightarrow> is_finite x)"
  using binary_op_type [OF _ assms] unary_op_type [OF _ assms(1)] cast_value_type binary_op_finite
  by simp

lemma operators_well_typed_witness:
  "binary_op Op_Plus (Integer_Value 1) (Integer_Value 2) = Inr (Integer_Value 3) \<and>
   has_type (Integer_Value 3)
     (expr_type (S_Binary Op_Plus (S_Literal (Integer_Value 1)) (S_Literal (Integer_Value 2))))"
proof -
  have "binary_op Op_Plus (Integer_Value 1) (Integer_Value 2) = Inr (Integer_Value 3)"
    by (simp add: binary_op_def is_comparison_def arithmetic_def integer_arithmetic_def checked_def
        i64_range_def i64_min_def i64_max_def)
  then show ?thesis
    using operators_well_typed [of "Integer_Value 1" "S_Literal (Integer_Value 1)" "Integer_Value 2"
        "S_Literal (Integer_Value 2)" Op_Plus "Integer_Value 3"]
    by (simp add: value_type_def del: expr_type.simps(4))
qed


section \<open>Conjunctions\<close>

text \<open>C38: Splitting a predicate at \<open>AND\<close> and joining parts again preserve its three-valued truth: the
predicate has the truth of the conjunction of its parts, no part is a conjunction, and joining
any non-empty list of predicates gives a predicate whose parts are the parts of the list in order and
whose truth is their conjunction.\<close>

theorem conjunction_split_join:
  assumes "conjunction es = Some e"
  shows "truth v e = all3 (map v (split_conjunction e)) \<and>
    truth v e = all3 (map (truth v) es) \<and>
    split_conjunction e = concat (map split_conjunction es) \<and>
    (\<forall>p \<in> set (split_conjunction e). split_conjunction p = [p])"
proof -
  have "all3 (map v (concat (map split_conjunction es))) = all3 (map (truth v) es)"
    by (induction es) (simp_all add: truth_split)
  then show ?thesis
    using split_conjunction_join [OF assms] split_parts truth_split by simp
qed

lemma conjunction_split_join_witness:
  "let a = S_Literal (Boolean_Value True); b = S_Literal Null_Value; c = S_IsNull a False in
   conjunction [a, mk_and b c] = Some (mk_and a (mk_and b c)) \<and>
   split_conjunction (mk_and a (mk_and b c)) = [a, b, c]"
  using conjunction_split_join [of "[S_Literal (Boolean_Value True),
      mk_and (S_Literal Null_Value) (S_IsNull (S_Literal (Boolean_Value True)) False)]"]
  by (simp add: mk_and_def)


section \<open>Traversals\<close>

text \<open>C40: \<open>transform_up\<close> calls the rewriting function on every subexpression exactly once, children
before their parent and from left to right, and rebuilds the expression; the columns that
\<open>column_ids\<close> collects are those of the visited nodes, so an expression is constant exactly when it
has none, and then it is bound by every schema.\<close>

theorem traversals_visit_all:
  "transform_up visit e [] = (Inr e, post_order e) \<and>
   column_ids e = (\<Union>x \<in> set (post_order e). own_ids x) \<and>
   (is_constant e \<longleftrightarrow> column_ids e = {}) \<and>
   (is_bound_by e s \<longleftrightarrow> column_ids e \<subseteq> set (schema_ids s))"
  using transform_up_visit [of e "[]"] column_ids_post_order [of e] is_constant_column_ids [of e]
  by (auto simp: is_bound_by_def schema_contains_ids)


section \<open>Table schemas\<close>

text \<open>C39: A schema built from a \<open>CREATE TABLE\<close> is well formed, keeps the columns, and its keys are the
positions of the named columns, up to case; every name finds its own column. It is refused only when
a column repeats the name of an earlier one, or when a key names a column that does not exist.\<close>

theorem from_create_schema:
  "case from_create ct of
     Inr t \<Rightarrow> schema_ok t \<and> ts_name t = ct_name ct \<and> ts_columns t = ct_columns ct \<and>
       list_all2 (\<lambda>n i. column_index t n = Some i) (ct_primary_key ct) (ts_primary_key t) \<and>
       list_all2 (list_all2 (\<lambda>n i. column_index t n = Some i)) (ct_unique_keys ct) (ts_unique_keys t) \<and>
       map (column_index t) (ts_column_names t) = map Some [0..<length (ct_columns ct)]
   | Inl (DuplicateColumn n) \<Rightarrow> (\<exists>xs c ys b. ct_columns ct = xs @ c # ys \<and> cd_name c = n \<and>
       b \<in> set xs \<and> eq_ignore_ascii_case (cd_name b) n)
   | Inl (ColumnNotFound table n) \<Rightarrow> distinct_names (ct_columns ct) \<and> table = Some (ct_name ct) \<and>
       n \<in> set (ct_primary_key ct) \<union> set (concat (ct_unique_keys ct)) \<and>
       \<not> list_ex (\<lambda>c. eq_ignore_ascii_case (cd_name c) n) (ct_columns ct)
   | Inl _ \<Rightarrow> False"
proof (cases "from_create ct")
  case (Inr t)
  then show ?thesis using from_create_Inr by simp
next
  case (Inl e)
  from from_create_Inl [OF this] show ?thesis
  proof (elim disjE exE conjE)
    fix n assume "e = ColumnNotFound (Some (ct_name ct)) n"
    then show ?thesis using from_create_Inl [OF Inl] by (simp add: Inl)
  qed (auto simp: Inl)
qed

end
