(* ===== verification/Sp_Ast.thy ===== *)
theory Sp_Ast
  imports Plan_Error
begin

text \<open>
  The syntax trees of the crate \<open>sqlparser\<close>, as far as \<open>sql/parser.rs\<close> takes them apart: the
  constructors and fields are those its patterns and field accesses name. The types themselves are not
  part of the repository, so everything the parser does not look into has the type parameter \<open>'x\<close>:
  the constructors that only its last arms match (\<open>Sp_Other_Expr\<close> and its like), the fields behind
  \<open>..\<close> and \<open>_\<close>, and the values of which it only asks whether they are there. How such trees are printed
  in error messages is a parameter as well, the record \<open>printers\<close>.
\<close>

section \<open>Names and values\<close>

datatype 'x sp_ident = Sp_Ident (id_value: string) 'x

text \<open>\<open>ObjectName\<close> is a list of parts; \<open>as_ident\<close> is \<open>Some\<close> for a part that is an identifier.\<close>

datatype 'x sp_name_part = Sp_Part "'x sp_ident" | Sp_Other_Part 'x

type_synonym 'x sp_name = "'x sp_name_part list"

fun as_ident :: "'x sp_name_part \<Rightarrow> 'x sp_ident option" where
  "as_ident (Sp_Part i) = Some i"
| "as_ident (Sp_Other_Part x) = None"

datatype 'x sp_value =
    Sp_Null | Sp_Boolean bool | Sp_Number string 'x | Sp_SingleQuoted string | Sp_DoubleQuoted string
  | Sp_Other_Value 'x

datatype 'x sp_binary_operator =
    Sp_Eq | Sp_NotEq | Sp_Lt | Sp_LtEq | Sp_Gt | Sp_GtEq | Sp_And | Sp_Or | Sp_Plus | Sp_Minus
  | Sp_Multiply | Sp_Divide | Sp_Modulo | Sp_StringConcat | Sp_Other_Binary 'x

datatype 'x sp_unary_operator = Sp_Not | Sp_Negate | Sp_Positive | Sp_Other_Unary 'x


section \<open>Expressions\<close>

datatype sp_duplicate_treatment = Sp_Distinct_Arguments | Sp_All_Arguments

datatype 'x sp_expr =
    Sp_Identifier "'x sp_ident"
  | Sp_CompoundIdentifier "'x sp_ident list"
  | Sp_Value "'x sp_value" 'x
  | Sp_BinaryOp "'x sp_expr" "'x sp_binary_operator" "'x sp_expr"
  | Sp_UnaryOp "'x sp_unary_operator" "'x sp_expr"
  | Sp_IsNull "'x sp_expr"
  | Sp_IsNotNull "'x sp_expr"
  | Sp_InList "'x sp_expr" "'x sp_expr list" bool
  | Sp_Between "'x sp_expr" "'x sp_expr" "'x sp_expr" bool
  | Sp_Like "'x sp_expr" "'x sp_expr" bool bool "'x option"
  | Sp_ILike "'x sp_expr" "'x sp_expr" bool bool "'x option"
  | Sp_Function "'x sp_function"
  | Sp_Nested "'x sp_expr"
  | Sp_Other_Expr 'x
and 'x sp_function =
    Sp_Call (call_name: "'x sp_name") (call_over: "'x option") (call_filter: "'x option")
      (call_within_group: "'x list") (call_null_treatment: "'x option")
      (call_parameters: "'x sp_arguments") (call_args: "'x sp_arguments")
and 'x sp_arguments =
    Sp_No_Arguments
  | Sp_Subquery 'x
  | Sp_Arguments (arg_treatment: "sp_duplicate_treatment option") (arg_list: "'x sp_argument list")
      (arg_clauses: "'x list")
and 'x sp_argument = Sp_Star | Sp_Expr_Argument "'x sp_expr" | Sp_Other_Argument 'x


section \<open>Queries\<close>

record 'x sp_table_alias =
  ta_name :: "'x sp_ident"
  ta_columns :: "'x list"

datatype 'x sp_table_factor =
    Sp_Table "'x sp_name" "'x sp_table_alias option" "'x option" 'x
  | Sp_Other_Factor 'x

datatype 'x sp_join_constraint = Sp_On "'x sp_expr" | Sp_Using 'x | Sp_Natural | Sp_No_Constraint

datatype 'x sp_join_operator =
    Sp_Join "'x sp_join_constraint" | Sp_Inner "'x sp_join_constraint"
  | Sp_Left "'x sp_join_constraint" | Sp_LeftOuter "'x sp_join_constraint"
  | Sp_Right "'x sp_join_constraint" | Sp_RightOuter "'x sp_join_constraint"
  | Sp_FullOuter "'x sp_join_constraint" | Sp_CrossJoin "'x sp_join_constraint" | Sp_Other_Join 'x

record 'x sp_join =
  jn_relation :: "'x sp_table_factor"
  jn_operator :: "'x sp_join_operator"

record 'x sp_table_with_joins =
  tw_relation :: "'x sp_table_factor"
  tw_joins :: "'x sp_join list"

datatype 'x sp_select_item =
    Sp_Wildcard 'x
  | Sp_UnnamedExpr "'x sp_expr"
  | Sp_ExprWithAlias "'x sp_expr" "'x sp_ident"
  | Sp_ExprWithAliases "'x sp_expr" "'x sp_ident list"
  | Sp_QualifiedWildcard "'x sp_name" 'x
  | Sp_Other_Wildcard 'x

datatype 'x sp_distinct = Sp_Distinct_All | Sp_Distinct_Rows | Sp_Other_Distinct 'x

datatype 'x sp_group_by = Sp_Group_Expressions "'x sp_expr list" "'x list" | Sp_Group_All 'x

record 'x sp_select =
  sl_top :: "'x option"
  sl_into :: "'x option"
  sl_lateral_views :: "'x list"
  sl_prewhere :: "'x option"
  sl_connect_by :: "'x list"
  sl_cluster_by :: "'x list"
  sl_distribute_by :: "'x list"
  sl_sort_by :: "'x list"
  sl_named_window :: "'x list"
  sl_qualify :: "'x option"
  sl_exclude :: "'x option"
  sl_distinct :: "'x sp_distinct option"
  sl_from :: "'x sp_table_with_joins list"
  sl_projection :: "'x sp_select_item list"
  sl_selection :: "'x sp_expr option"
  sl_group_by :: "'x sp_group_by"
  sl_having :: "'x sp_expr option"

datatype 'x sp_set_expr = Sp_Select "'x sp_select" | Sp_Values "'x sp_expr list list" 'x | Sp_Other_Body 'x

datatype 'x sp_sort = Sp_Asc | Sp_Desc | Sp_Other_Sort 'x

record 'x sp_order_by_expr =
  oe_expr :: "'x sp_expr"
  oe_with_fill :: "'x option"
  oe_sort :: "'x sp_sort option"
  oe_nulls_first :: "bool option"

datatype 'x sp_order_by_kind = Sp_Order_All 'x | Sp_Order_Expressions "'x sp_order_by_expr list"

record 'x sp_order_by =
  or_interpolate :: "'x option"
  or_kind :: "'x sp_order_by_kind"

text \<open>The offset of \<open>LimitOffset\<close> is a value with a word (\<open>ROWS\<close>) the parser does not look at.\<close>

datatype 'x sp_limit =
    Sp_LimitOffset "'x sp_expr option" "('x sp_expr \<times> 'x) option" "'x list"
  | Sp_OffsetCommaLimit "'x sp_expr" "'x sp_expr"

record 'x sp_query =
  qu_with :: "'x option"
  qu_fetch :: "'x option"
  qu_locks :: "'x list"
  qu_for_clause :: "'x option"
  qu_pipe_operators :: "'x list"
  qu_body :: "'x sp_set_expr"
  qu_order_by :: "'x sp_order_by option"
  qu_limit_clause :: "'x sp_limit option"


section \<open>Statements\<close>

datatype 'x sp_data_type =
    Sp_Text | Sp_Varchar 'x | Sp_CharVarying 'x | Sp_Character 'x | Sp_Char 'x | Sp_String 'x
  | Sp_Int 'x | Sp_Integer 'x | Sp_BigInt 'x | Sp_SmallInt 'x | Sp_TinyInt 'x
  | Sp_Float 'x | Sp_Real | Sp_Double 'x | Sp_DoublePrecision | Sp_Decimal 'x | Sp_Numeric 'x
  | Sp_Bool | Sp_BooleanType | Sp_JSON | Sp_JSONB
  | Sp_Timestamp 'x 'x | Sp_Datetime 'x | Sp_Date | Sp_Uuid | Sp_Other_Type 'x

datatype 'x sp_column_option =
    Sp_Null_Option | Sp_NotNull | Sp_Unique_Option 'x | Sp_PrimaryKey_Option 'x
  | Sp_Default "'x sp_expr" | Sp_Comment 'x | Sp_Other_Option 'x

record 'x sp_column_def =
  co_name :: "'x sp_ident"
  co_data_type :: "'x sp_data_type"
  co_options :: "'x sp_column_option list"

text \<open>A constraint on columns has the expression of each of them.\<close>

datatype 'x sp_table_constraint =
    Sp_PrimaryKey "'x sp_expr list" 'x | Sp_Unique "'x sp_expr list" 'x | Sp_Other_Constraint 'x

record 'x sp_create_table =
  cr_query :: "'x option"
  cr_like :: "'x option"
  cr_clone :: "'x option"
  cr_or_replace :: bool
  cr_temporary :: bool
  cr_name :: "'x sp_name"
  cr_columns :: "'x sp_column_def list"
  cr_constraints :: "'x sp_table_constraint list"
  cr_if_not_exists :: bool

datatype 'x sp_object_type = Sp_Table_Object | Sp_Other_Object 'x

datatype 'x sp_table_object = Sp_TableName "'x sp_name" | Sp_TableFunction 'x | Sp_TableQuery 'x

record 'x sp_insert =
  in_or :: "'x option"
  in_ignore :: bool
  in_overwrite :: bool
  in_replace_into :: bool
  in_on :: "'x option"
  in_returning :: "'x option"
  in_output :: "'x option"
  in_partitioned :: "'x option"
  in_assignments :: "'x list"
  in_table_alias :: "'x option"
  in_table :: "'x sp_table_object"
  in_columns :: "'x sp_name list"
  in_source :: "'x sp_query option"

datatype 'x sp_assignment_target = Sp_ColumnName "'x sp_name" | Sp_Tuple 'x

record 'x sp_assignment =
  am_target :: "'x sp_assignment_target"
  am_value :: "'x sp_expr"

record 'x sp_update =
  up_from :: "'x option"
  up_returning :: "'x option"
  up_output :: "'x option"
  up_or :: "'x option"
  up_order_by :: "'x list"
  up_limit :: "'x option"
  up_table :: "'x sp_table_with_joins"
  up_assignments :: "'x sp_assignment list"
  up_selection :: "'x sp_expr option"

datatype 'x sp_from_table =
    Sp_WithFromKeyword "'x sp_table_with_joins list" | Sp_WithoutKeyword "'x sp_table_with_joins list"

record 'x sp_delete =
  de_tables :: "'x list"
  de_using :: "'x option"
  de_returning :: "'x option"
  de_output :: "'x option"
  de_order_by :: "'x list"
  de_limit :: "'x option"
  de_from :: "'x sp_from_table"
  de_selection :: "'x sp_expr option"

datatype 'x sp_statement =
    Sp_CreateTable "'x sp_create_table"
  | Sp_Drop "'x sp_object_type" "'x sp_name list" bool 'x
  | Sp_Query "'x sp_query"
  | Sp_Insert "'x sp_insert"
  | Sp_Update "'x sp_update"
  | Sp_Delete "'x sp_delete"
  | Sp_StartTransaction 'x | Sp_Commit 'x | Sp_Rollback 'x | Sp_ShowTables 'x
  | Sp_ExplainTable "'x sp_name" 'x
  | Sp_Other_Statement 'x


section \<open>Printing\<close>

text \<open>\<open>Debug\<close> and \<open>Display\<close> of the crate, for the trees that go into error messages.\<close>

record 'x printers =
  p_debug :: "'x \<Rightarrow> string"
  p_display :: "'x \<Rightarrow> string"
  p_expr :: "'x sp_expr \<Rightarrow> string"
  p_idents :: "'x sp_ident list \<Rightarrow> string"
  p_part :: "'x sp_name_part \<Rightarrow> string"
  p_name :: "'x sp_name \<Rightarrow> string"
  p_argument :: "'x sp_argument \<Rightarrow> string"
  p_body :: "'x sp_set_expr \<Rightarrow> string"

end
