(* ===== verification/Parse_Expr.thy ===== *)
theory Parse_Expr
  imports Sp_Ast
begin

text \<open>
  The conversion of expressions, \<open>sql/parser.rs\<close> from \<open>convert_expr\<close> on: names, literals, operators,
  \<open>LIKE\<close>, function calls. A tree the crate's own syntax does not have is refused with a message that
  prints it, so the functions take the \<open>printers\<close>.
\<close>

section \<open>Congruence of the combinators\<close>

lemma try_r_cong [fundef_cong]:
  "r = s \<Longrightarrow> (\<And>a. s = Inr a \<Longrightarrow> f a = g a) \<Longrightarrow> try_r r f = try_r s g"
  by (cases s) simp_all

lemma map_r_cong [fundef_cong]:
  "xs = ys \<Longrightarrow> (\<And>x. x \<in> set ys \<Longrightarrow> f x = g x) \<Longrightarrow> map_r f xs = map_r g ys"
  by (induction ys arbitrary: xs) auto

text \<open>\<open>as_ref().map(f).transpose()\<close>.\<close>

definition map_option_r :: "('a \<Rightarrow> 'e + 'b) \<Rightarrow> 'a option \<Rightarrow> 'e + 'b option" where
  "map_option_r f x = (case x of None \<Rightarrow> Inr None | Some a \<Rightarrow> try_r (f a) (\<lambda>b. Inr (Some b)))"


section \<open>Names, literals and operators\<close>

definition extract_table_name :: "'x printers \<Rightarrow> 'x sp_name \<Rightarrow> parse_error + string" where
  "extract_table_name pr name =
     (if name = [] then Inl (InvalidIdentifier ''empty table name'')
      else case as_ident (last name) of
        Some i \<Rightarrow> Inr (id_value i)
      | None \<Rightarrow> Inr (p_part pr (last name)))"

definition convert_value :: "'x printers \<Rightarrow> 'x sp_value \<Rightarrow> parse_error + literal_value" where
  "convert_value pr v = (case v of
     Sp_Null \<Rightarrow> Inr Lit_Null
   | Sp_Boolean b \<Rightarrow> Inr (Lit_Boolean b)
   | Sp_Number s _ \<Rightarrow>
       (case parse_i64 s of
          Some i \<Rightarrow> Inr (Lit_Integer i)
        | None \<Rightarrow>
            (case parse_f64 s of
               Some x \<Rightarrow> Inr (Lit_Float x)
             | None \<Rightarrow> Inl (UnsupportedExpression (''Invalid number: '' @ s))))
   | Sp_SingleQuoted s \<Rightarrow> Inr (Lit_String s)
   | Sp_DoubleQuoted s \<Rightarrow> Inr (Lit_String s)
   | Sp_Other_Value x \<Rightarrow> Inl (UnsupportedExpression (''Unsupported value: '' @ p_debug pr x)))"

definition extract_string_from_expr :: "'x sp_expr \<Rightarrow> parse_error + string" where
  "extract_string_from_expr e = (case e of
     Sp_Value v _ \<Rightarrow>
       (case v of
          Sp_SingleQuoted s \<Rightarrow> Inr s
        | Sp_DoubleQuoted s \<Rightarrow> Inr s
        | _ \<Rightarrow> Inl (UnsupportedExpression ''expected string''))
   | _ \<Rightarrow> Inl (UnsupportedExpression ''expected string literal''))"

definition convert_binary_op :: "'x printers \<Rightarrow> 'x sp_binary_operator \<Rightarrow> parse_error + binary_operator" where
  "convert_binary_op pr b = (case b of
     Sp_Eq \<Rightarrow> Inr Op_Eq | Sp_NotEq \<Rightarrow> Inr Op_NotEq | Sp_Lt \<Rightarrow> Inr Op_Lt | Sp_LtEq \<Rightarrow> Inr Op_LtEq
   | Sp_Gt \<Rightarrow> Inr Op_Gt | Sp_GtEq \<Rightarrow> Inr Op_GtEq | Sp_And \<Rightarrow> Inr Op_And | Sp_Or \<Rightarrow> Inr Op_Or
   | Sp_Plus \<Rightarrow> Inr Op_Plus | Sp_Minus \<Rightarrow> Inr Op_Minus | Sp_Multiply \<Rightarrow> Inr Op_Multiply
   | Sp_Divide \<Rightarrow> Inr Op_Divide | Sp_Modulo \<Rightarrow> Inr Op_Modulo | Sp_StringConcat \<Rightarrow> Inr Op_Concat
   | Sp_Other_Binary x \<Rightarrow> Inl (UnsupportedExpression (''Unsupported operator: '' @ p_debug pr x)))"

definition convert_unary_op :: "'x printers \<Rightarrow> 'x sp_unary_operator \<Rightarrow> parse_error + unary_operator" where
  "convert_unary_op pr u = (case u of
     Sp_Not \<Rightarrow> Inr Op_Not | Sp_Negate \<Rightarrow> Inr Op_Negate | Sp_Positive \<Rightarrow> Inr Op_Positive
   | Sp_Other_Unary x \<Rightarrow>
       Inl (UnsupportedExpression (''Unsupported unary operator: '' @ p_debug pr x)))"

text \<open>The column a plain or a qualified identifier stands for.\<close>

definition compound_column :: "'x printers \<Rightarrow> 'x sp_ident list \<Rightarrow> parse_error + string \<times> string" where
  "compound_column pr parts = (case parts of
     [t, col] \<Rightarrow> Inr (id_value t, id_value col)
   | _ \<Rightarrow> Inl (UnsupportedExpression (''Unsupported identifier depth: '' @ p_idents pr parts)))"


section \<open>Expressions\<close>

fun convert_expr :: "'x printers \<Rightarrow> 'x sp_expr \<Rightarrow> parse_error + expr"
and convert_like ::
  "'x printers \<Rightarrow> 'x sp_expr \<Rightarrow> 'x sp_expr \<Rightarrow> bool \<Rightarrow> bool \<Rightarrow> bool \<Rightarrow> bool \<Rightarrow> parse_error + expr"
and convert_function :: "'x printers \<Rightarrow> 'x sp_function \<Rightarrow> parse_error + expr"
and convert_arguments :: "'x printers \<Rightarrow> string \<Rightarrow> 'x sp_arguments \<Rightarrow> parse_error + function_args"
and convert_argument :: "'x printers \<Rightarrow> 'x sp_argument \<Rightarrow> parse_error + expr"
where
  "convert_expr pr (Sp_Identifier i) = Inr (Expr_Column None (id_value i))"
| "convert_expr pr (Sp_CompoundIdentifier parts) =
     try_r (compound_column pr parts) (\<lambda>(t, col). Inr (Expr_Column (Some t) col))"
| "convert_expr pr (Sp_Value v sp) = try_r (convert_value pr v) (\<lambda>l. Inr (Literal l))"
| "convert_expr pr (Sp_BinaryOp left b right) =
     try_r (convert_expr pr left) (\<lambda>l.
     try_r (convert_expr pr right) (\<lambda>r.
     try_r (convert_binary_op pr b) (\<lambda>b'.
     Inr (BinaryOp l b' r))))"
| "convert_expr pr (Sp_UnaryOp u e) =
     try_r (convert_expr pr e) (\<lambda>e'.
     try_r (convert_unary_op pr u) (\<lambda>u'.
     Inr (UnaryOp u' e')))"
| "convert_expr pr (Sp_IsNull e) = try_r (convert_expr pr e) (\<lambda>e'. Inr (IsNull e' False))"
| "convert_expr pr (Sp_IsNotNull e) = try_r (convert_expr pr e) (\<lambda>e'. Inr (IsNull e' True))"
| "convert_expr pr (Sp_InList e items negated) =
     try_r (convert_expr pr e) (\<lambda>e'.
     try_r (map_r (convert_expr pr) items) (\<lambda>items'.
     Inr (InList e' items' negated)))"
| "convert_expr pr (Sp_Between e low high negated) =
     try_r (convert_expr pr e) (\<lambda>e'.
     try_r (convert_expr pr low) (\<lambda>l.
     try_r (convert_expr pr high) (\<lambda>h.
     Inr (Between e' l h negated))))"
| "convert_expr pr (Sp_Like e pattern negated any_word escape) =
     convert_like pr e pattern negated any_word (escape \<noteq> None) False"
| "convert_expr pr (Sp_ILike e pattern negated any_word escape) =
     convert_like pr e pattern negated any_word (escape \<noteq> None) True"
| "convert_expr pr (Sp_Function f) = convert_function pr f"
| "convert_expr pr (Sp_Nested inner) = try_r (convert_expr pr inner) (\<lambda>e. Inr (Nested e))"
| "convert_expr pr (Sp_Other_Expr x) = Inl (UnsupportedExpression (p_debug pr x))"

| "convert_like pr e pattern negated any_word has_escape case_insensitive =
     (if any_word then Inl (UnsupportedExpression ''LIKE ANY not supported'')
      else if has_escape then Inl (UnsupportedExpression ''LIKE ... ESCAPE not supported'')
      else
        try_r (convert_expr pr e) (\<lambda>e'.
        try_r (extract_string_from_expr pattern) (\<lambda>s.
        Inr (Like e' s negated case_insensitive))))"

| "convert_function pr (Sp_Call fname over filters within_group null_treatment parameters args) =
     try_r (extract_table_name pr fname) (\<lambda>name.
     if over \<noteq> None then
       Inl (UnsupportedExpression (''window function '' @ name @ '' not supported''))
     else if filters \<noteq> None \<or> within_group \<noteq> [] \<or> null_treatment \<noteq> None then
       Inl (UnsupportedExpression
         (''FILTER / WITHIN GROUP / null treatment on '' @ name @ '' not supported''))
     else if (case parameters of Sp_No_Arguments \<Rightarrow> False | _ \<Rightarrow> True) then
       Inl (UnsupportedExpression (''parametric function '' @ name @ '' not supported''))
     else try_r (convert_arguments pr name args) (\<lambda>as. Inr (Function_Call name as)))"

| "convert_arguments pr name Sp_No_Arguments = Inr (Args_List [] False)"
| "convert_arguments pr name (Sp_Subquery x) =
     Inl (UnsupportedExpression ''subquery as function argument not supported'')"
| "convert_arguments pr name (Sp_Arguments treatment args clauses) =
     (if clauses \<noteq> [] then
        Inl (UnsupportedExpression (''function argument clauses on '' @ name @ '' not supported''))
      else
        let is_distinct = (treatment = Some Sp_Distinct_Arguments) in
        if args = [Sp_Star] \<and> \<not> is_distinct then Inr Star_Arg
        else try_r (map_r (convert_argument pr) args) (\<lambda>as. Inr (Args_List as is_distinct)))"

| "convert_argument pr (Sp_Expr_Argument e) = convert_expr pr e"
| "convert_argument pr Sp_Star =
     Inl (UnsupportedExpression (''function argument not supported: '' @ p_argument pr Sp_Star))"
| "convert_argument pr (Sp_Other_Argument x) =
     Inl (UnsupportedExpression
       (''function argument not supported: '' @ p_argument pr (Sp_Other_Argument x)))"


section \<open>Counts\<close>

text \<open>\<open>str::parse::<usize>\<close>.\<close>

definition parse_usize :: "string \<Rightarrow> u64 option" where
  "parse_usize s =
     (let ds = (case s of [] \<Rightarrow> [] | c # cs \<Rightarrow> if c = CHR ''+'' then cs else s)
      in if ds = [] \<or> \<not> list_all is_digit ds \<or> 2 ^ 64 \<le> digits_value ds then None
         else Some (of_nat (digits_value ds)))"

definition expr_to_usize :: "'x printers \<Rightarrow> 'x sp_expr \<Rightarrow> string \<Rightarrow> parse_error + u64" where
  "expr_to_usize pr e clause =
     (let invalid = UnsupportedExpression
        (clause @ '' must be a non negative integer literal, got '' @ p_expr pr e)
      in case e of
           Sp_Value v _ \<Rightarrow>
             (case v of
                Sp_Number s _ \<Rightarrow> (case parse_usize s of Some n \<Rightarrow> Inr n | None \<Rightarrow> Inl invalid)
              | _ \<Rightarrow> Inl invalid)
         | _ \<Rightarrow> Inl invalid)"

end
