(* ===== verification/Parse_Query.thy ===== *)
theory Parse_Query
  imports Parse_Expr
begin

text \<open>
  The conversion of queries, \<open>sql/parser.rs\<close>: tables and joins, the select list, \<open>ORDER BY\<close>, and the whole
  \<open>SELECT\<close>. Clauses the engine does not support are refused one after the other, in the order of the
  code, so the order of the checks decides the message.
\<close>

text \<open>The first present entry of a table of unsupported clauses.\<close>

definition reject_first :: "(bool \<times> string) list \<Rightarrow> parse_error + unit" where
  "reject_first unsupported = (case List.find fst unsupported of
     Some (_, clause) \<Rightarrow> Inl (UnsupportedStatement (clause @ '' not supported''))
   | None \<Rightarrow> Inr ())"


section \<open>Tables and joins\<close>

definition extract_table_factor ::
  "'x printers \<Rightarrow> 'x sp_table_factor \<Rightarrow> parse_error + string \<times> string option" where
  "extract_table_factor pr factor = (case factor of
     Sp_Table name alias args _ \<Rightarrow>
       if args \<noteq> None then Inl (UnsupportedStatement ''table valued functions not supported'')
       else if (case alias of Some a \<Rightarrow> ta_columns a \<noteq> [] | None \<Rightarrow> False) then
         Inl (UnsupportedStatement ''column aliases in table alias not supported'')
       else
         try_r (extract_table_name pr name) (\<lambda>t.
         Inr (t, map_option (\<lambda>a. id_value (ta_name a)) alias))
   | Sp_Other_Factor x \<Rightarrow>
       Inl (UnsupportedStatement (''Unsupported table factor: '' @ p_display pr x)))"

definition join_parts ::
  "'x printers \<Rightarrow> 'x sp_join_operator \<Rightarrow> parse_error + join_type \<times> 'x sp_join_constraint" where
  "join_parts pr opr = (case opr of
     Sp_Join c \<Rightarrow> Inr (Inner_Join, c) | Sp_Inner c \<Rightarrow> Inr (Inner_Join, c)
   | Sp_Left c \<Rightarrow> Inr (Left_Join, c) | Sp_LeftOuter c \<Rightarrow> Inr (Left_Join, c)
   | Sp_Right c \<Rightarrow> Inr (Right_Join, c) | Sp_RightOuter c \<Rightarrow> Inr (Right_Join, c)
   | Sp_FullOuter c \<Rightarrow> Inr (Full_Join, c)
   | Sp_CrossJoin c \<Rightarrow> Inr (Cross_Join, c)
   | Sp_Other_Join x \<Rightarrow> Inl (UnsupportedStatement (''Unsupported join type: '' @ p_debug pr x)))"

definition join_condition ::
  "'x printers \<Rightarrow> join_type \<Rightarrow> 'x sp_join_constraint \<Rightarrow> parse_error + expr option" where
  "join_condition pr ty c = (case c of
     Sp_On e \<Rightarrow>
       if ty \<noteq> Cross_Join then try_r (convert_expr pr e) (\<lambda>e'. Inr (Some e'))
       else Inl (UnsupportedStatement ''CROSS JOIN does not take an ON condition'')
   | Sp_Using _ \<Rightarrow> Inl (UnsupportedStatement ''JOIN ... USING not supported, use ON'')
   | Sp_Natural \<Rightarrow> Inl (UnsupportedStatement ''NATURAL JOIN not supported'')
   | Sp_No_Constraint \<Rightarrow>
       if ty = Cross_Join then Inr None else Inl (MissingClause ''JOIN ... ON condition''))"

definition convert_join :: "'x printers \<Rightarrow> 'x sp_join \<Rightarrow> parse_error + join_clause" where
  "convert_join pr j =
     try_r (extract_table_factor pr (jn_relation j)) (\<lambda>(t, alias).
     try_r (join_parts pr (jn_operator j)) (\<lambda>(ty, c).
     try_r (join_condition pr ty c) (\<lambda>on.
     Inr \<lparr>jc_table = t, jc_alias = alias, jc_join_type = ty, jc_on = on\<rparr>)))"

definition extract_table_ref :: "'x printers \<Rightarrow> 'x sp_table_with_joins \<Rightarrow> parse_error + table_ref" where
  "extract_table_ref pr from_item =
     try_r (extract_table_factor pr (tw_relation from_item)) (\<lambda>(base, base_alias).
     try_r (map_r (convert_join pr) (tw_joins from_item)) (\<lambda>joins.
     Inr \<lparr>tr_base = base, tr_base_alias = base_alias, tr_joins = joins\<rparr>))"

definition extract_single_table ::
  "'x printers \<Rightarrow> 'x sp_table_with_joins \<Rightarrow> parse_error + string \<times> string option" where
  "extract_single_table pr from_item =
     (if tw_joins from_item \<noteq> [] then
        Inl (UnsupportedStatement ''JOIN not supported in UPDATE/DELETE'')
      else extract_table_factor pr (tw_relation from_item))"

text \<open>The loop over the tables after the first: each is a cross join, followed by its own joins.\<close>

fun push_tables ::
  "'x printers \<Rightarrow> table_ref \<Rightarrow> 'x sp_table_with_joins list \<Rightarrow> parse_error + table_ref" where
  "push_tables pr tref [] = Inr tref"
| "push_tables pr tref (item # rest) =
     try_r (extract_table_factor pr (tw_relation item)) (\<lambda>(t, alias).
     try_r (map_r (convert_join pr) (tw_joins item)) (\<lambda>joins.
     let cross = \<lparr>jc_table = t, jc_alias = alias, jc_join_type = Cross_Join, jc_on = None\<rparr> in
     push_tables pr (tref\<lparr>tr_joins := tr_joins tref @ cross # joins\<rparr>) rest))"

definition convert_from ::
  "'x printers \<Rightarrow> 'x sp_table_with_joins list \<Rightarrow> parse_error + table_ref" where
  "convert_from pr from_items = (case from_items of
     [] \<Rightarrow> Inl (MissingClause ''FROM'')
   | first # rest \<Rightarrow> try_r (extract_table_ref pr first) (\<lambda>tref. push_tables pr tref rest))"


section \<open>Select list and order\<close>

definition convert_select_item :: "'x printers \<Rightarrow> 'x sp_select_item \<Rightarrow> parse_error + select_column" where
  "convert_select_item pr item = (case item of
     Sp_Wildcard _ \<Rightarrow> Inr Wildcard
   | Sp_UnnamedExpr e \<Rightarrow>
       (case e of
          Sp_Identifier i \<Rightarrow> Inr (Select_Column None (id_value i))
        | Sp_CompoundIdentifier parts \<Rightarrow>
            try_r (compound_column pr parts) (\<lambda>(t, col). Inr (Select_Column (Some t) col))
        | _ \<Rightarrow> try_r (convert_expr pr e) (\<lambda>e'. Inr (Select_Expr e' None)))
   | Sp_ExprWithAlias e alias \<Rightarrow>
       try_r (convert_expr pr e) (\<lambda>e'. Inr (Select_Expr e' (Some (id_value alias))))
   | Sp_ExprWithAliases e aliases \<Rightarrow>
       if 1 < length aliases then
         Inl (UnsupportedExpression ''multiple aliases for a single select item'')
       else
         try_r (convert_expr pr e) (\<lambda>e'.
         Inr (Select_Expr e' (case aliases of [] \<Rightarrow> None | a # _ \<Rightarrow> Some (id_value a))))
   | Sp_QualifiedWildcard name _ \<Rightarrow>
       try_r (extract_table_name pr name) (\<lambda>t. Inr (QualifiedWildcard t))
   | Sp_Other_Wildcard x \<Rightarrow>
       Inl (UnsupportedExpression (''Unsupported qualified wildcard: '' @ p_debug pr x)))"

definition convert_projection ::
  "'x printers \<Rightarrow> 'x sp_select_item list \<Rightarrow> parse_error + select_column list" where
  "convert_projection pr = map_r (convert_select_item pr)"

definition convert_order_by_expr :: "'x printers \<Rightarrow> 'x sp_order_by_expr \<Rightarrow> parse_error + order_by" where
  "convert_order_by_expr pr e =
     (if oe_with_fill e \<noteq> None then
        Inl (UnsupportedStatement ''ORDER BY ... WITH FILL not supported'')
      else
        try_r (case oe_sort e of
            None \<Rightarrow> Inr True | Some Sp_Asc \<Rightarrow> Inr True | Some Sp_Desc \<Rightarrow> Inr False
          | Some (Sp_Other_Sort x) \<Rightarrow>
              Inl (UnsupportedStatement (''ORDER BY '' @ p_debug pr x @ '' not supported'')))
          (\<lambda>ascending.
        try_r (convert_expr pr (oe_expr e)) (\<lambda>e'.
        Inr \<lparr>ob_expr = e', ob_ascending = ascending, ob_nulls_first = oe_nulls_first e\<rparr>)))"

definition extract_order_by_exprs :: "'x printers \<Rightarrow> 'x sp_order_by \<Rightarrow> parse_error + order_by list" where
  "extract_order_by_exprs pr ob =
     (if or_interpolate ob \<noteq> None then
        Inl (UnsupportedStatement ''ORDER BY ... INTERPOLATE not supported'')
      else case or_kind ob of
        Sp_Order_All _ \<Rightarrow> Inl (UnsupportedStatement ''ORDER BY ALL not supported'')
      | Sp_Order_Expressions exprs \<Rightarrow> map_r (convert_order_by_expr pr) exprs)"


section \<open>The query\<close>

definition reject_unsupported_select_clauses :: "'x sp_select \<Rightarrow> parse_error + unit" where
  "reject_unsupported_select_clauses sl = reject_first
     [(sl_top sl \<noteq> None, ''TOP''),
      (sl_into sl \<noteq> None, ''SELECT INTO''),
      (sl_lateral_views sl \<noteq> [], ''LATERAL VIEW''),
      (sl_prewhere sl \<noteq> None, ''PREWHERE''),
      (sl_connect_by sl \<noteq> [], ''CONNECT BY''),
      (sl_cluster_by sl \<noteq> [], ''CLUSTER BY''),
      (sl_distribute_by sl \<noteq> [], ''DISTRIBUTE BY''),
      (sl_sort_by sl \<noteq> [], ''SORT BY''),
      (sl_named_window sl \<noteq> [], ''WINDOW''),
      (sl_qualify sl \<noteq> None, ''QUALIFY''),
      (sl_exclude sl \<noteq> None, ''EXCLUDE'')]"

definition query_distinct :: "'x printers \<Rightarrow> 'x sp_distinct option \<Rightarrow> parse_error + bool" where
  "query_distinct pr d = (case d of
     None \<Rightarrow> Inr False
   | Some Sp_Distinct_All \<Rightarrow> Inr False
   | Some Sp_Distinct_Rows \<Rightarrow> Inr True
   | Some (Sp_Other_Distinct x) \<Rightarrow> Inl (UnsupportedStatement (p_display pr x @ '' not supported'')))"

definition query_group_by :: "'x printers \<Rightarrow> 'x sp_group_by \<Rightarrow> parse_error + expr list" where
  "query_group_by pr g = (case g of
     Sp_Group_Expressions exprs modifiers \<Rightarrow>
       if modifiers \<noteq> [] then
         Inl (UnsupportedStatement ''GROUP BY ROLLUP/CUBE/GROUPING SETS not supported'')
       else map_r (convert_expr pr) exprs
   | Sp_Group_All _ \<Rightarrow> Inl (UnsupportedStatement ''GROUP BY ALL not supported''))"

definition query_limit ::
  "'x printers \<Rightarrow> 'x sp_limit option \<Rightarrow> parse_error + u64 option \<times> u64 option" where
  "query_limit pr clause = (case clause of
     None \<Rightarrow> Inr (None, None)
   | Some (Sp_LimitOffset limit offset limit_by) \<Rightarrow>
       if limit_by \<noteq> [] then Inl (UnsupportedStatement ''LIMIT BY not supported'')
       else
         try_r (map_option_r (\<lambda>l. expr_to_usize pr l ''LIMIT'') limit) (\<lambda>l.
         try_r (map_option_r (\<lambda>(v, _). expr_to_usize pr v ''OFFSET'') offset) (\<lambda>n.
         Inr (l, n)))
   | Some (Sp_OffsetCommaLimit offset limit) \<Rightarrow>
       try_r (expr_to_usize pr limit ''LIMIT'') (\<lambda>l.
       try_r (expr_to_usize pr offset ''OFFSET'') (\<lambda>n.
       Inr (Some l, Some n))))"

definition convert_select ::
  "'x printers \<Rightarrow> 'x sp_query \<Rightarrow> 'x sp_select \<Rightarrow> parse_error + select" where
  "convert_select pr query sl =
     try_r (reject_unsupported_select_clauses sl) (\<lambda>_.
     try_r (query_distinct pr (sl_distinct sl)) (\<lambda>is_distinct.
     try_r (convert_from pr (sl_from sl)) (\<lambda>tables.
     try_r (convert_projection pr (sl_projection sl)) (\<lambda>columns.
     try_r (map_option_r (convert_expr pr) (sl_selection sl)) (\<lambda>where_clause.
     try_r (query_group_by pr (sl_group_by sl)) (\<lambda>group_by.
     try_r (map_option_r (convert_expr pr) (sl_having sl)) (\<lambda>having.
     try_r (map_option_r (extract_order_by_exprs pr) (qu_order_by query)) (\<lambda>order.
     try_r (query_limit pr (qu_limit_clause query)) (\<lambda>(limit, offset).
     Inr \<lparr>sel_distinct = is_distinct, sel_columns = columns, sel_from = tables,
       sel_where_clause = where_clause, sel_group_by = group_by, sel_having = having,
       sel_order_by = (case order of Some obs \<Rightarrow> obs | None \<Rightarrow> []),
       sel_limit = limit, sel_offset = offset\<rparr>)))))))))"

definition convert_query :: "'x printers \<Rightarrow> 'x sp_query \<Rightarrow> parse_error + select" where
  "convert_query pr query =
     (if qu_with query \<noteq> None then
        Inl (UnsupportedStatement ''WITH (common table expressions) not supported'')
      else if qu_fetch query \<noteq> None \<or> qu_locks query \<noteq> [] \<or> qu_for_clause query \<noteq> None then
        Inl (UnsupportedStatement ''FETCH / FOR UPDATE / FOR clauses not supported'')
      else if qu_pipe_operators query \<noteq> [] then
        Inl (UnsupportedStatement ''pipe operators not supported'')
      else case qu_body query of
        Sp_Select sl \<Rightarrow> convert_select pr query sl
      | Sp_Values _ _ \<Rightarrow>
          Inl (UnsupportedStatement (''Unsupported query type: '' @ p_body pr (qu_body query)))
      | Sp_Other_Body _ \<Rightarrow>
          Inl (UnsupportedStatement (''Unsupported query type: '' @ p_body pr (qu_body query))))"

end
