(* ===== verification/Parse_Table.thy ===== *)
theory Parse_Table
  imports Parse_Query
begin

text \<open>
  Table definitions in \<open>sql/parser.rs\<close>: data types, column options, and the keys, which come from the
  columns and from the constraints of the table; in the end both lists agree.
\<close>

section \<open>Equality of syntax trees\<close>

text \<open>The derived \<open>PartialEq\<close>: floats compare as numbers, so \<open>NaN\<close> differs from itself.\<close>

definition literal_eq :: "literal_value \<Rightarrow> literal_value \<Rightarrow> bool" where
  "literal_eq a b = (case (a, b) of
     (Lit_Float x, Lit_Float y) \<Rightarrow> f64_partial_cmp x y = Some Same
   | _ \<Rightarrow> a = b)"

lemma list_all2_fundef_cong [fundef_cong]:
  "xs = xs' \<Longrightarrow> ys = ys' \<Longrightarrow> (\<And>x y. x \<in> set xs' \<Longrightarrow> y \<in> set ys' \<Longrightarrow> f x y = g x y) \<Longrightarrow>
   list_all2 f xs ys = list_all2 g xs' ys'"
  by (auto simp: list_all2_conv_all_nth)

fun expr_eq :: "expr \<Rightarrow> expr \<Rightarrow> bool" where
  "expr_eq (Expr_Column t n) e = (e = Expr_Column t n)"
| "expr_eq (Literal l) e = (case e of Literal l' \<Rightarrow> literal_eq l l' | _ \<Rightarrow> False)"
| "expr_eq (BinaryOp l b r) e =
     (case e of BinaryOp l' b' r' \<Rightarrow> expr_eq l l' \<and> b = b' \<and> expr_eq r r' | _ \<Rightarrow> False)"
| "expr_eq (UnaryOp u a) e = (case e of UnaryOp u' a' \<Rightarrow> u = u' \<and> expr_eq a a' | _ \<Rightarrow> False)"
| "expr_eq (IsNull a n) e = (case e of IsNull a' n' \<Rightarrow> expr_eq a a' \<and> n = n' | _ \<Rightarrow> False)"
| "expr_eq (InList a items n) e =
     (case e of InList a' items' n' \<Rightarrow> expr_eq a a' \<and> list_all2 expr_eq items items' \<and> n = n'
      | _ \<Rightarrow> False)"
| "expr_eq (Between a l h n) e =
     (case e of Between a' l' h' n' \<Rightarrow> expr_eq a a' \<and> expr_eq l l' \<and> expr_eq h h' \<and> n = n'
      | _ \<Rightarrow> False)"
| "expr_eq (Like a p n ci) e =
     (case e of Like a' p' n' ci' \<Rightarrow> expr_eq a a' \<and> p = p' \<and> n = n' \<and> ci = ci' | _ \<Rightarrow> False)"
| "expr_eq (Function_Call f args) e =
     (case e of
        Function_Call f' args' \<Rightarrow> f = f' \<and>
          (case args of
             Star_Arg \<Rightarrow> args' = Star_Arg
           | Args_List as d \<Rightarrow>
               (case args' of
                  Star_Arg \<Rightarrow> False
                | Args_List as' d' \<Rightarrow> list_all2 expr_eq as as' \<and> d = d'))
      | _ \<Rightarrow> False)"
| "expr_eq (Nested a) e = (case e of Nested a' \<Rightarrow> expr_eq a a' | _ \<Rightarrow> False)"

definition constraint_eq :: "column_constraint \<Rightarrow> column_constraint \<Rightarrow> bool" where
  "constraint_eq a b = (case (a, b) of
     (Default_Value x, Default_Value y) \<Rightarrow> expr_eq x y
   | _ \<Rightarrow> a = b)"

definition contains_constraint :: "column_constraint list \<Rightarrow> column_constraint \<Rightarrow> bool" where
  "contains_constraint cs k = list_ex (\<lambda>c. constraint_eq c k) cs"


section \<open>Table definitions\<close>

definition convert_data_type :: "'x printers \<Rightarrow> 'x sp_data_type \<Rightarrow> parse_error + sql_data_type" where
  "convert_data_type pr dt = (case dt of
     Sp_Text \<Rightarrow> Inr Sql_Text | Sp_Varchar _ \<Rightarrow> Inr Sql_Text | Sp_CharVarying _ \<Rightarrow> Inr Sql_Text
   | Sp_Character _ \<Rightarrow> Inr Sql_Text | Sp_Char _ \<Rightarrow> Inr Sql_Text | Sp_String _ \<Rightarrow> Inr Sql_Text
   | Sp_Int _ \<Rightarrow> Inr Sql_Integer | Sp_Integer _ \<Rightarrow> Inr Sql_Integer | Sp_BigInt _ \<Rightarrow> Inr Sql_Integer
   | Sp_SmallInt _ \<Rightarrow> Inr Sql_Integer | Sp_TinyInt _ \<Rightarrow> Inr Sql_Integer
   | Sp_Float _ \<Rightarrow> Inr Sql_Float | Sp_Real \<Rightarrow> Inr Sql_Float | Sp_Double _ \<Rightarrow> Inr Sql_Float
   | Sp_DoublePrecision \<Rightarrow> Inr Sql_Float | Sp_Decimal _ \<Rightarrow> Inr Sql_Float
   | Sp_Numeric _ \<Rightarrow> Inr Sql_Float
   | Sp_BooleanType \<Rightarrow> Inr Sql_Boolean | Sp_Bool \<Rightarrow> Inr Sql_Boolean
   | Sp_JSON \<Rightarrow> Inr Sql_Json | Sp_JSONB \<Rightarrow> Inr Sql_Json
   | Sp_Timestamp _ _ \<Rightarrow> Inr Sql_Timestamp | Sp_Datetime _ \<Rightarrow> Inr Sql_Timestamp
   | Sp_Date \<Rightarrow> Inr Sql_Timestamp
   | Sp_Uuid \<Rightarrow> Inr Sql_Uuid
   | Sp_Other_Type x \<Rightarrow> Inl (UnsupportedDataType (p_debug pr x)))"

definition convert_column_option ::
  "'x printers \<Rightarrow> 'x sp_column_option \<Rightarrow> parse_error + column_constraint option" where
  "convert_column_option pr opt = (case opt of
     Sp_Null_Option \<Rightarrow> Inr None
   | Sp_NotNull \<Rightarrow> Inr (Some Not_Null)
   | Sp_Unique_Option _ \<Rightarrow> Inr (Some Unique_Key)
   | Sp_PrimaryKey_Option _ \<Rightarrow> Inr (Some Primary_Key)
   | Sp_Default e \<Rightarrow> try_r (convert_expr pr e) (\<lambda>e'. Inr (Some (Default_Value e')))
   | Sp_Comment _ \<Rightarrow> Inr None
   | Sp_Other_Option x \<Rightarrow>
       Inl (UnsupportedStatement (''column option not supported: '' @ p_display pr x)))"

text \<open>A new constraint goes to the end, unless the column has it already.\<close>

definition push_constraint :: "column_constraint list \<Rightarrow> column_constraint \<Rightarrow> column_constraint list" where
  "push_constraint cs k = (if contains_constraint cs k then cs else cs @ [k])"

fun column_constraints ::
  "'x printers \<Rightarrow> column_constraint list \<Rightarrow> 'x sp_column_option list \<Rightarrow>
   parse_error + column_constraint list" where
  "column_constraints pr constraints [] = Inr constraints"
| "column_constraints pr constraints (opt # opts) =
     try_r (convert_column_option pr opt) (\<lambda>k.
     column_constraints pr
       (case k of Some c \<Rightarrow> push_constraint constraints c | None \<Rightarrow> constraints) opts)"

definition convert_column_def :: "'x printers \<Rightarrow> 'x sp_column_def \<Rightarrow> parse_error + column_def" where
  "convert_column_def pr col =
     try_r (convert_data_type pr (co_data_type col)) (\<lambda>ty.
     try_r (column_constraints pr [] (co_options col)) (\<lambda>constraints.
     Inr \<lparr>cd_name = id_value (co_name col), cd_data_type = ty, cd_constraints = constraints\<rparr>))"

text \<open>The columns a table constraint names, as the table spells them.\<close>

fun push_columns ::
  "'x printers \<Rightarrow> column_def list \<Rightarrow> string list \<Rightarrow> 'x sp_expr list \<Rightarrow> parse_error + string list" where
  "push_columns pr columns out [] = Inr out"
| "push_columns pr columns out (e # es) =
     (case e of
        Sp_Identifier i \<Rightarrow>
          (case List.find (\<lambda>c. eq_ignore_ascii_case (cd_name c) (id_value i)) columns of
             None \<Rightarrow> Inl (InvalidIdentifier (''constraint references unknown column '' @ id_value i))
           | Some target \<Rightarrow>
               if cd_name target \<in> set out then
                 Inl (InvalidIdentifier
                   (''column '' @ cd_name target @ '' listed twice in constraint''))
               else push_columns pr columns (out @ [cd_name target]) es)
      | _ \<Rightarrow> Inl (UnsupportedExpression
          (''constraint column must be a plain column name: '' @ p_expr pr e)))"

definition constraint_columns ::
  "'x printers \<Rightarrow> 'x sp_expr list \<Rightarrow> column_def list \<Rightarrow> parse_error + string list" where
  "constraint_columns pr index_columns columns = push_columns pr columns [] index_columns"

text \<open>The loop over the constraints of the table: the primary key and the unique keys so far.\<close>

fun table_keys ::
  "'x printers \<Rightarrow> column_def list \<Rightarrow> string list \<Rightarrow> string list list \<Rightarrow>
   'x sp_table_constraint list \<Rightarrow> parse_error + string list \<times> string list list" where
  "table_keys pr columns pk uks [] = Inr (pk, uks)"
| "table_keys pr columns pk uks (k # ks) =
     (case k of
        Sp_PrimaryKey cols _ \<Rightarrow>
          if pk \<noteq> [] then Inl (UnsupportedStatement ''multiple PRIMARY KEY declarations'')
          else
            try_r (constraint_columns pr cols columns) (\<lambda>pk'.
            table_keys pr columns pk' uks ks)
      | Sp_Unique cols _ \<Rightarrow>
          try_r (constraint_columns pr cols columns) (\<lambda>key.
          table_keys pr columns pk (if key \<in> set uks then uks else uks @ [key]) ks)
      | Sp_Other_Constraint x \<Rightarrow>
          Inl (UnsupportedStatement (''table constraint not supported: '' @ p_display pr x)))"

definition has_constraint :: "column_constraint \<Rightarrow> column_def \<Rightarrow> bool" where
  "has_constraint k c = contains_constraint (cd_constraints c) k"

definition mark_keys :: "string list \<Rightarrow> string list list \<Rightarrow> column_def \<Rightarrow> column_def" where
  "mark_keys pk uks c =
     (let in_pk = list_ex (\<lambda>k. k = cd_name c) pk;
          c1 = (if in_pk \<and> \<not> has_constraint Primary_Key c
                then c\<lparr>cd_constraints := cd_constraints c @ [Primary_Key]\<rparr> else c);
          single_unique = list_ex (\<lambda>k. length k = 1 \<and> hd k = cd_name c1) uks
      in if single_unique \<and> \<not> has_constraint Unique_Key c1
         then c1\<lparr>cd_constraints := cd_constraints c1 @ [Unique_Key]\<rparr> else c1)"

definition keyed_table ::
  "'x printers \<Rightarrow> 'x sp_create_table \<Rightarrow> string \<Rightarrow> column_def list \<Rightarrow> parse_error + statement" where
  "keyed_table pr create name columns =
     (let primary_key = map cd_name (filter (has_constraint Primary_Key) columns);
          unique_keys = map (\<lambda>c. [cd_name c]) (filter (has_constraint Unique_Key) columns)
      in if 1 < length primary_key then
           Inl (UnsupportedStatement
             ''multiple column level PRIMARY KEY declarations, use PRIMARY KEY (a, b)'')
         else
           try_r (table_keys pr columns primary_key unique_keys (cr_constraints create))
             (\<lambda>(pk, uks).
           Inr (Create_Table \<lparr>ct_name = name, ct_columns = map (mark_keys pk uks) columns,
             ct_primary_key = pk, ct_unique_keys = uks,
             ct_if_not_exists = cr_if_not_exists create\<rparr>)))"

definition convert_create_table :: "'x printers \<Rightarrow> 'x sp_create_table \<Rightarrow> parse_error + statement" where
  "convert_create_table pr create =
     (if cr_query create \<noteq> None then
        Inl (UnsupportedStatement ''CREATE TABLE ... AS SELECT not supported'')
      else if cr_like create \<noteq> None \<or> cr_clone create \<noteq> None then
        Inl (UnsupportedStatement ''CREATE TABLE ... LIKE/CLONE not supported'')
      else if cr_or_replace create \<or> cr_temporary create then
        Inl (UnsupportedStatement ''CREATE OR REPLACE / TEMPORARY TABLE not supported'')
      else
        try_r (extract_table_name pr (cr_name create)) (\<lambda>name.
        try_r (map_r (convert_column_def pr) (cr_columns create)) (\<lambda>columns.
        keyed_table pr create name columns)))"

definition convert_drop ::
  "'x printers \<Rightarrow> 'x sp_object_type \<Rightarrow> 'x sp_name list \<Rightarrow> bool \<Rightarrow> parse_error + statement" where
  "convert_drop pr object_type names if_exists = (case object_type of
     Sp_Table_Object \<Rightarrow>
       if length names \<noteq> 1 then Inl (UnsupportedStatement ''DROP multiple tables not supported'')
       else
         try_r (extract_table_name pr (hd names)) (\<lambda>name.
         Inr (Drop_Table \<lparr>dt_name = name, dt_if_exists = if_exists\<rparr>))
   | Sp_Other_Object x \<Rightarrow>
       Inl (UnsupportedStatement (''DROP '' @ p_debug pr x @ '' not supported'')))"

end
