(* ===== verification/Parse_Change.thy ===== *)
theory Parse_Change
  imports Parse_Table
begin

text \<open>
  \<open>INSERT\<close>, \<open>UPDATE\<close> and \<open>DELETE\<close> in \<open>sql/parser.rs\<close>, and the entry points \<open>parse\<close> and \<open>parse_multi\<close>.
  What the crate makes of a text is their parameter \<open>parse_sql\<close>: an error message or a list of trees.
\<close>

section \<open>Changes of rows\<close>

definition extract_table_from_object :: "'x printers \<Rightarrow> 'x sp_table_object \<Rightarrow> parse_error + string" where
  "extract_table_from_object pr t = (case t of
     Sp_TableName name \<Rightarrow> extract_table_name pr name
   | Sp_TableFunction _ \<Rightarrow> Inl (UnsupportedStatement ''table function not supported'')
   | Sp_TableQuery _ \<Rightarrow> Inl (UnsupportedStatement ''table query not supported''))"

definition insert_source_of :: "'x printers \<Rightarrow> 'x sp_query \<Rightarrow> parse_error + insert_source" where
  "insert_source_of pr query = (case qu_body query of
     Sp_Values rows _ \<Rightarrow>
       if qu_order_by query \<noteq> None \<or> qu_limit_clause query \<noteq> None \<or> qu_with query \<noteq> None then
         Inl (UnsupportedStatement
           ''ORDER BY / LIMIT / WITH on INSERT ... VALUES not supported'')
       else try_r (map_r (map_r (convert_expr pr)) rows) (\<lambda>rs. Inr (Insert_Values rs))
   | _ \<Rightarrow> try_r (convert_query pr query) (\<lambda>s. Inr (Insert_Select s)))"

definition convert_insert :: "'x printers \<Rightarrow> 'x sp_insert \<Rightarrow> parse_error + statement" where
  "convert_insert pr ins =
     try_r (reject_first
       [(in_or ins \<noteq> None, ''INSERT OR ...''),
        (in_ignore ins, ''INSERT IGNORE''),
        (in_overwrite ins, ''INSERT OVERWRITE''),
        (in_replace_into ins, ''REPLACE INTO''),
        (in_on ins \<noteq> None, ''ON CONFLICT / ON DUPLICATE KEY''),
        (in_returning ins \<noteq> None, ''RETURNING''),
        (in_output ins \<noteq> None, ''OUTPUT''),
        (in_partitioned ins \<noteq> None, ''PARTITION''),
        (in_assignments ins \<noteq> [], ''INSERT ... SET''),
        (in_table_alias ins \<noteq> None, ''INSERT table alias'')]) (\<lambda>_.
     try_r (extract_table_from_object pr (in_table ins)) (\<lambda>t.
     try_r (if in_columns ins = [] then Inr None
            else try_r (map_r (extract_table_name pr) (in_columns ins)) (\<lambda>cs. Inr (Some cs)))
       (\<lambda>columns.
     case in_source ins of
       None \<Rightarrow> Inl (MissingClause ''INSERT requires VALUES or SELECT'')
     | Some query \<Rightarrow>
         try_r (insert_source_of pr query) (\<lambda>source.
         Inr (Insert_Rows \<lparr>ins_table = t, ins_columns = columns, ins_source = source\<rparr>)))))"

definition extract_assignment_target ::
  "'x printers \<Rightarrow> 'x sp_assignment_target \<Rightarrow> string \<Rightarrow> string option \<Rightarrow> parse_error + string" where
  "extract_assignment_target pr target t alias = (case target of
     Sp_Tuple _ \<Rightarrow> Inl (UnsupportedExpression ''tuple assignment targets not supported'')
   | Sp_ColumnName name \<Rightarrow>
       try_r (map_r (\<lambda>p. case as_ident p of
           Some i \<Rightarrow> Inr (id_value i)
         | None \<Rightarrow> Inl (InvalidIdentifier (p_part pr p))) name) (\<lambda>parts.
       case parts of
         [column] \<Rightarrow> Inr column
       | [qualifier, column] \<Rightarrow>
           (let visible = (case alias of Some a \<Rightarrow> a | None \<Rightarrow> t)
            in if eq_ignore_ascii_case qualifier visible then Inr column
               else Inl (InvalidIdentifier
                 (''assignment target '' @ qualifier @ ''.'' @ column @
                  '' does not refer to table '' @ visible)))
       | _ \<Rightarrow> Inl (InvalidIdentifier (p_name pr name))))"

definition convert_assignment ::
  "'x printers \<Rightarrow> string \<Rightarrow> string option \<Rightarrow> 'x sp_assignment \<Rightarrow> parse_error + assignment" where
  "convert_assignment pr t alias a =
     try_r (extract_assignment_target pr (am_target a) t alias) (\<lambda>column.
     try_r (convert_expr pr (am_value a)) (\<lambda>v.
     Inr \<lparr>as_column = column, as_value = v\<rparr>))"

definition convert_update :: "'x printers \<Rightarrow> 'x sp_update \<Rightarrow> parse_error + statement" where
  "convert_update pr upd =
     try_r (reject_first
       [(up_from upd \<noteq> None, ''UPDATE ... FROM''),
        (up_returning upd \<noteq> None, ''RETURNING''),
        (up_output upd \<noteq> None, ''OUTPUT''),
        (up_or upd \<noteq> None, ''UPDATE OR ...''),
        (up_order_by upd \<noteq> [], ''UPDATE ... ORDER BY''),
        (up_limit upd \<noteq> None, ''UPDATE ... LIMIT'')]) (\<lambda>_.
     try_r (extract_single_table pr (up_table upd)) (\<lambda>(t, alias).
     try_r (map_r (convert_assignment pr t alias) (up_assignments upd)) (\<lambda>assigns.
     try_r (map_option_r (convert_expr pr) (up_selection upd)) (\<lambda>where_clause.
     Inr (Update_Rows \<lparr>upd_table = t, upd_alias = alias, upd_assignments = assigns,
       upd_where_clause = where_clause\<rparr>)))))"

definition from_tables :: "'x sp_from_table \<Rightarrow> 'x sp_table_with_joins list" where
  "from_tables f = (case f of Sp_WithFromKeyword ts \<Rightarrow> ts | Sp_WithoutKeyword ts \<Rightarrow> ts)"

definition convert_delete :: "'x printers \<Rightarrow> 'x sp_delete \<Rightarrow> parse_error + statement" where
  "convert_delete pr del =
     try_r (reject_first
       [(de_tables del \<noteq> [], ''multi table DELETE''),
        (de_using del \<noteq> None, ''DELETE ... USING''),
        (de_returning del \<noteq> None, ''RETURNING''),
        (de_output del \<noteq> None, ''OUTPUT''),
        (de_order_by del \<noteq> [], ''DELETE ... ORDER BY''),
        (de_limit del \<noteq> None, ''DELETE ... LIMIT'')]) (\<lambda>_.
     if length (from_tables (de_from del)) \<noteq> 1 then
       Inl (UnsupportedStatement ''DELETE from multiple tables not supported'')
     else
       try_r (extract_single_table pr (hd (from_tables (de_from del)))) (\<lambda>(t, alias).
       try_r (map_option_r (convert_expr pr) (de_selection del)) (\<lambda>where_clause.
       Inr (Delete_Rows \<lparr>del_table = t, del_alias = alias, del_where_clause = where_clause\<rparr>))))"


section \<open>Statements\<close>

definition convert_statement :: "'x printers \<Rightarrow> 'x sp_statement \<Rightarrow> parse_error + statement" where
  "convert_statement pr stmt = (case stmt of
     Sp_CreateTable create \<Rightarrow> convert_create_table pr create
   | Sp_Drop object_type names if_exists _ \<Rightarrow> convert_drop pr object_type names if_exists
   | Sp_Query query \<Rightarrow> try_r (convert_query pr query) (\<lambda>s. Inr (Select_Rows s))
   | Sp_Insert ins \<Rightarrow> convert_insert pr ins
   | Sp_Update upd \<Rightarrow> convert_update pr upd
   | Sp_Delete del \<Rightarrow> convert_delete pr del
   | Sp_StartTransaction _ \<Rightarrow> Inr Begin_Txn
   | Sp_Commit _ \<Rightarrow> Inr Commit_Txn
   | Sp_Rollback _ \<Rightarrow> Inr Rollback_Txn
   | Sp_ShowTables _ \<Rightarrow> Inr Show_Tables
   | Sp_ExplainTable name _ \<Rightarrow> try_r (extract_table_name pr name) (\<lambda>n. Inr (Describe n))
   | Sp_Other_Statement x \<Rightarrow> Inl (UnsupportedStatement (p_debug pr x)))"


section \<open>Entry points\<close>

type_synonym 'x sql_front = "string \<Rightarrow> string + 'x sp_statement list"

text \<open>\<open>trim_end_matches\<close>, \<open>starts_with\<close> and \<open>split_whitespace\<close>.\<close>

definition trim_end_matches :: "char \<Rightarrow> string \<Rightarrow> string" where
  "trim_end_matches c s = rev (dropWhile (\<lambda>d. d = c) (rev s))"

definition starts_with :: "string \<Rightarrow> string \<Rightarrow> bool" where
  "starts_with s p \<longleftrightarrow> take (length p) s = p"

function split_whitespace :: "string \<Rightarrow> string list" where
  "split_whitespace s =
     (let r = dropWhile is_space s
      in if r = [] then []
         else takeWhile (\<lambda>c. \<not> is_space c) r # split_whitespace (dropWhile (\<lambda>c. \<not> is_space c) r))"
  by auto

termination
proof (relation "measure length")
  fix s r assume r: "r = dropWhile is_space s" "r \<noteq> []"
  then have "\<not> is_space (hd r)" by (simp add: hd_dropWhile)
  then have "length (dropWhile (\<lambda>c. \<not> is_space c) r) < length r"
    using r(2) length_dropWhile_le [of "\<lambda>c. \<not> is_space c" "tl r"] by (cases r) auto
  then show "(dropWhile (\<lambda>c. \<not> is_space c) r, s) \<in> measure length"
    using length_dropWhile_le [of is_space s] r(1) by simp
qed simp

declare split_whitespace.simps [simp del]

definition from_front :: "string + 'a \<Rightarrow> parse_error + 'a" where
  "from_front r = (case r of Inl e \<Rightarrow> Inl (SqlParser e) | Inr a \<Rightarrow> Inr a)"

definition parse :: "'x printers \<Rightarrow> 'x sql_front \<Rightarrow> string \<Rightarrow> parse_error + statement" where
  "parse pr parse_sql input =
     (let sql = trim input;
          trimmed_sql = trim (trim_end_matches (CHR '';'') sql);
          upper = to_uppercase trimmed_sql
      in if sql = [] then Inl EmptyQuery
         else if upper = ''BEGIN'' \<or> upper = ''BEGIN TRANSACTION'' \<or> upper = ''START TRANSACTION'' then
           Inr Begin_Txn
         else if upper = ''COMMIT'' then Inr Commit_Txn
         else if upper = ''ROLLBACK'' then Inr Rollback_Txn
         else if upper = ''SHOW TABLES'' \<or> upper = ''SHOW TABLE'' then Inr Show_Tables
         else if starts_with upper ''DESCRIBE '' \<or> starts_with upper ''DESC '' then
           (case drop 1 (split_whitespace trimmed_sql) of
              t # _ \<Rightarrow> Inr (Describe t)
            | [] \<Rightarrow> Inl (MissingClause ''table name''))
         else
           try_r (from_front (parse_sql sql)) (\<lambda>statements.
           if statements = [] then Inl EmptyQuery
           else if 1 < length statements then Inl MultipleStatements
           else convert_statement pr (hd statements)))"

definition parse_multi :: "'x printers \<Rightarrow> 'x sql_front \<Rightarrow> string \<Rightarrow> parse_error + statement list" where
  "parse_multi pr parse_sql sql =
     try_r (from_front (parse_sql sql)) (map_r (convert_statement pr))"

end
