(* ===== verification/Parser_Laws.thy ===== *)
theory Parser_Laws
  imports Parse_Change Catalog Value_Laws
begin

text \<open>
  Facts about \<open>sql/parser.rs\<close>: what a converted \<open>CREATE TABLE\<close> says about its keys, what becomes of the
  tables and clauses of a query, and the syntax tree that converts to a given expression.
\<close>

section \<open>Fallible steps\<close>

named_theorems parser_simps \<open>the parts of a successful conversion\<close>

lemma try_r_Inr [parser_simps]: "try_r r f = Inr b \<longleftrightarrow> (\<exists>a. r = Inr a \<and> f a = Inr b)"
  by (cases r) simp_all

lemma reject_first_Inr [parser_simps]: "reject_first us = Inr u \<longleftrightarrow> list_all (\<lambda>x. \<not> fst x) us"
  by (auto simp: reject_first_def find_None_iff list_all_iff split: option.splits)
    (metis find_None_iff option.distinct(1))


section \<open>Keys of a table\<close>

lemma contains_plain [simp]:
  "contains_constraint cs Primary_Key \<longleftrightarrow> Primary_Key \<in> set cs"
  "contains_constraint cs Unique_Key \<longleftrightarrow> Unique_Key \<in> set cs"
proof -
  have "constraint_eq c Primary_Key \<longleftrightarrow> c = Primary_Key" "constraint_eq c Unique_Key \<longleftrightarrow> c = Unique_Key"
    for c
    by (cases c; simp add: constraint_eq_def)+
  then show "contains_constraint cs Primary_Key \<longleftrightarrow> Primary_Key \<in> set cs"
    and "contains_constraint cs Unique_Key \<longleftrightarrow> Unique_Key \<in> set cs"
    by (simp_all add: contains_constraint_def list_ex_iff)
qed

text \<open>A key: distinct columns of the table.\<close>

definition key_of :: "column_def list \<Rightarrow> string list \<Rightarrow> bool" where
  "key_of columns k \<longleftrightarrow> distinct k \<and> set k \<subseteq> cd_name ` set columns"

lemma push_columns_key:
  "push_columns pr columns out es = Inr k \<Longrightarrow> key_of columns out \<Longrightarrow> key_of columns k"
  by (induction es arbitrary: out)
    (auto simp: key_of_def find_Some_iff split: sp_expr.splits option.splits if_splits)

lemma constraint_columns_key: "constraint_columns pr es columns = Inr k \<Longrightarrow> key_of columns k"
  unfolding constraint_columns_def by (rule push_columns_key) (auto simp: key_of_def)

text \<open>What the loop over the constraints keeps: the keys found so far.\<close>

lemma table_keys_inv:
  assumes "table_keys pr columns pk uks ks = Inr (pk', uks')"
    and "key_of columns pk" and "\<forall>k \<in> set uks. key_of columns k"
  shows "key_of columns pk' \<and> (\<forall>k \<in> set uks'. key_of columns k) \<and>
    set pk \<subseteq> set pk' \<and> set uks \<subseteq> set uks'"
  using assms
proof (induction ks arbitrary: pk uks)
  case (Cons k ks)
  show ?case
  proof (cases k)
    case (Sp_PrimaryKey cols x)
    then obtain p where "constraint_columns pr cols columns = Inr p" "pk = []"
      "table_keys pr columns p uks ks = Inr (pk', uks')"
      using Cons.prems(1) by (auto simp: parser_simps split: if_splits)
    then show ?thesis
      using Cons.IH [of p uks] Cons.prems(3) constraint_columns_key [of pr cols columns p] by auto
  next
    case (Sp_Unique cols x)
    then obtain u where u: "constraint_columns pr cols columns = Inr u"
      "table_keys pr columns pk (if u \<in> set uks then uks else uks @ [u]) ks = Inr (pk', uks')"
      using Cons.prems(1) by (auto simp: parser_simps)
    show ?thesis
      using Cons.IH [OF u(2)] Cons.prems(2,3) constraint_columns_key [OF u(1)]
      by (cases "u \<in> set uks") auto
  next
    case (Sp_Other_Constraint x)
    then show ?thesis using Cons.prems(1) by simp
  qed
qed simp

lemma mark_keys_simps [simp]:
  "cd_name (mark_keys pk uks c) = cd_name c"
  "cd_data_type (mark_keys pk uks c) = cd_data_type c"
  by (simp_all add: mark_keys_def Let_def)

lemma mark_keys_Primary [simp]:
  "Primary_Key \<in> set (cd_constraints (mark_keys pk uks c)) \<longleftrightarrow>
   Primary_Key \<in> set (cd_constraints c) \<or> cd_name c \<in> set pk"
  by (auto simp: mark_keys_def Let_def has_constraint_def list_ex_iff)

lemma mark_keys_Unique [simp]:
  "Unique_Key \<in> set (cd_constraints (mark_keys pk uks c)) \<longleftrightarrow>
   Unique_Key \<in> set (cd_constraints c) \<or> [cd_name c] \<in> set uks"
proof -
  have "length k = 1 \<and> hd k = n \<longleftrightarrow> k = [n]" for k and n :: string
    by (cases k) auto
  then show ?thesis by (auto simp: mark_keys_def Let_def has_constraint_def list_ex_iff)
qed

text \<open>
  A table whose keys are lists of its columns, and whose columns carry the constraints of their keys.
\<close>

definition keys_agree :: "create_table \<Rightarrow> bool" where
  "keys_agree ct \<longleftrightarrow>
     (\<forall>k \<in> set (ct_primary_key ct # ct_unique_keys ct). key_of (ct_columns ct) k) \<and>
     (\<forall>c \<in> set (ct_columns ct).
        (Primary_Key \<in> set (cd_constraints c) \<longleftrightarrow> cd_name c \<in> set (ct_primary_key ct)) \<and>
        (Unique_Key \<in> set (cd_constraints c) \<longleftrightarrow> [cd_name c] \<in> set (ct_unique_keys ct)))"

lemma keyed_table_Inr:
  assumes "keyed_table pr create name columns = Inr st"
  obtains ct where "st = Create_Table ct" and "ct_name ct = name" and "keys_agree ct"
    and "map cd_name (ct_columns ct) = map cd_name columns"
    and "map cd_data_type (ct_columns ct) = map cd_data_type columns"
    and "ct_if_not_exists ct = cr_if_not_exists create"
proof -
  define pk0 where "pk0 = map cd_name (filter (has_constraint Primary_Key) columns)"
  define uks0 where "uks0 = map (\<lambda>c. [cd_name c]) (filter (has_constraint Unique_Key) columns)"
  obtain pk uks where t: "table_keys pr columns pk0 uks0 (cr_constraints create) = Inr (pk, uks)"
    and len: "length pk0 \<le> 1"
    and st: "st = Create_Table \<lparr>ct_name = name, ct_columns = map (mark_keys pk uks) columns,
      ct_primary_key = pk, ct_unique_keys = uks, ct_if_not_exists = cr_if_not_exists create\<rparr>"
    using assms
    by (auto simp: keyed_table_def Let_def pk0_def uks0_def parser_simps split: if_splits)
  have "distinct pk0" using len by (cases pk0) (auto simp: Suc_le_eq)
  then have "key_of columns pk0" by (auto simp: key_of_def pk0_def)
  moreover have "\<forall>k \<in> set uks0. key_of columns k" by (auto simp: key_of_def uks0_def)
  ultimately have inv: "key_of columns pk \<and> (\<forall>k \<in> set uks. key_of columns k) \<and>
    set pk0 \<subseteq> set pk \<and> set uks0 \<subseteq> set uks"
    using table_keys_inv [OF t] by blast
  have names: "cd_name ` mark_keys pk uks ` set columns = cd_name ` set columns"
    by (simp add: image_image)
  have "key_of (map (mark_keys pk uks) columns) k \<longleftrightarrow> key_of columns k" for k
    by (simp add: key_of_def names)
  then have "keys_agree \<lparr>ct_name = name, ct_columns = map (mark_keys pk uks) columns,
      ct_primary_key = pk, ct_unique_keys = uks, ct_if_not_exists = cr_if_not_exists create\<rparr>"
    using inv by (auto simp: keys_agree_def pk0_def uks0_def has_constraint_def subset_iff)
  then show ?thesis using st that by (simp add: comp_def)
qed

lemma convert_create_table_Inr:
  assumes "convert_create_table pr create = Inr st"
  obtains ct where "st = Create_Table ct" and "keys_agree ct"
    and "map cd_name (ct_columns ct) = map (\<lambda>c. id_value (co_name c)) (cr_columns create)"
proof -
  obtain name columns where c: "map_r (convert_column_def pr) (cr_columns create) = Inr columns"
    "keyed_table pr create name columns = Inr st"
    using assms by (auto simp: convert_create_table_def parser_simps split: if_splits)
  have "list_all2 (\<lambda>c d. id_value (co_name c) = cd_name d) (cr_columns create) columns"
    using map_r_InrD [OF c(1)]
    by (rule list_all2_mono) (auto simp: convert_column_def_def parser_simps)
  then have "map (\<lambda>c. id_value (co_name c)) (cr_columns create) = map cd_name columns"
    by (induction rule: list_all2_induct) simp_all
  then show ?thesis using c(2) that by (metis keyed_table_Inr)
qed


section \<open>Keys as positions\<close>

lemma key_positions:
  assumes "key_of (ts_columns t) ns" and "distinct_names (ts_columns t)"
    and "list_all2 (\<lambda>n i. column_index t n = Some i) ns is"
  shows "map (\<lambda>i. cd_name (ts_columns t ! i)) is = ns"
proof -
  have "cd_name (ts_columns t ! i) = n" if "n \<in> set ns" "column_index t n = Some i" for n i
  proof -
    have "n \<in> cd_name ` set (ts_columns t)" using assms(1) that(1) by (auto simp: key_of_def)
    then obtain j where "j < length (ts_columns t)" "n = cd_name (ts_columns t ! j)"
      by (auto simp: in_set_conv_nth)
    moreover from this have "column_index t n = Some j"
      using assms(2) column_index_nth by (simp add: eq_ignore_case_equiv(1))
    ultimately show ?thesis using that(2) by simp
  qed
  then show ?thesis
    using assms(3) by (subst list_eq_iff_nth_eq) (auto simp: list_all2_conv_all_nth)
qed

lemma names_inject:
  assumes "distinct_names cs" and "i < length cs" and "j < length cs" and "cd_name (cs ! i) = cd_name (cs ! j)"
  shows "i = j"
  using assms nth_eq_iff_index_eq [of "map (to_lowercase \<circ> cd_name) cs" i j]
  by (simp add: distinct_names_def)

lemma key_of_position:
  assumes "distinct_names cs" and "\<forall>i \<in> set is. i < length cs" and "i < length cs"
  shows "cd_name (cs ! i) \<in> set (map (\<lambda>i. cd_name (cs ! i)) is) \<longleftrightarrow> i \<in> set is"
  using assms names_inject by (auto simp: image_iff)

lemma keys_agree_schema:
  assumes "keys_agree ct" and "from_create ct = Inr t"
  shows "map (\<lambda>i. cd_name (ct_columns ct ! i)) (ts_primary_key t) = ct_primary_key ct \<and>
    map (map (\<lambda>i. cd_name (ct_columns ct ! i))) (ts_unique_keys t) = ct_unique_keys ct \<and>
    set (ts_primary_key t) = set (constrained Primary_Key (ct_columns ct)) \<and>
    (\<forall>i. [i] \<in> set (ts_unique_keys t) \<longleftrightarrow> i \<in> set (constrained Unique_Key (ct_columns ct)))"
proof -
  let ?name = "\<lambda>i. cd_name (ct_columns ct ! i)"
  note f = from_create_Inr [OF assms(2)]
  then have ok: "schema_ok t" and cols: "ts_columns t = ct_columns ct" by auto
  then have dn: "distinct_names (ct_columns ct)" by (auto simp: schema_ok_def)
  have pk: "map ?name (ts_primary_key t) = ct_primary_key ct"
    using key_positions [of t "ct_primary_key ct"] f dn assms(1) by (simp add: cols keys_agree_def)
  have "map ?name (ts_unique_keys t ! k) = ct_unique_keys ct ! k" if "k < length (ct_unique_keys ct)" for k
    using key_positions [of t "ct_unique_keys ct ! k"] f dn assms(1) that
    by (auto simp: cols keys_agree_def list_all2_conv_all_nth)
  then have uks: "map (map ?name) (ts_unique_keys t) = ct_unique_keys ct"
    using f by (auto simp: list_all2_lengthD intro!: nth_equalityI)
  have P: "i \<in> set (ts_primary_key t) \<longleftrightarrow> ?name i \<in> set (ct_primary_key ct)"
    if "i < length (ct_columns ct)" for i
    using key_of_position [OF dn _ that, of "ts_primary_key t"] ok
    by (simp add: pk schema_ok_def cols)
  have U: "[i] \<in> set (ts_unique_keys t) \<longleftrightarrow> [?name i] \<in> set (ct_unique_keys ct)"
    if i: "i < length (ct_columns ct)" for i
  proof
    assume "[?name i] \<in> set (ct_unique_keys ct)"
    then obtain k where "k \<in> set (ts_unique_keys t)" "map ?name k = [?name i]"
      by (auto simp: uks [symmetric])
    moreover from this have "k = [i]"
      using ok i names_inject [OF dn] by (auto simp: schema_ok_def cols)
    ultimately show "[i] \<in> set (ts_unique_keys t)" by simp
  qed (force simp: uks [symmetric])
  show ?thesis
    using pk uks P U ok assms(1)
    by (auto simp: constrained_bound schema_ok_def cols keys_agree_def)
qed

lemma distinct_names_split:
  "distinct_names (xs @ c # ys) \<Longrightarrow> b \<in> set xs \<Longrightarrow> \<not> eq_ignore_ascii_case (cd_name b) (cd_name c)"
  by (auto simp: distinct_names_def eq_ignore_ascii_case_def image_iff)

lemma keys_agree_duplicate:
  assumes "keys_agree ct" and "from_create ct = Inl e"
  shows "\<exists>n. e = DuplicateColumn n"
proof -
  have "list_ex (\<lambda>c. eq_ignore_ascii_case (cd_name c) n) (ct_columns ct)"
    if n: "n \<in> set (ct_primary_key ct) \<union> set (concat (ct_unique_keys ct))" for n
  proof -
    obtain k where "k \<in> set (ct_primary_key ct # ct_unique_keys ct)" "n \<in> set k" using n by auto
    then have "n \<in> cd_name ` set (ct_columns ct)"
      using assms(1) unfolding keys_agree_def key_of_def by blast
    then show ?thesis by (auto simp: list_ex_iff intro: eq_ignore_case_equiv(1))
  qed
  then show ?thesis using from_create_Inl [OF assms(2)] by blast
qed


section \<open>What a query says\<close>

text \<open>
  The parts of a query, and when a part of the result says the same. These relations are read off the
  result and name the part of the tree it must come from; they do not follow the code.
\<close>

definition converts :: "'x printers \<Rightarrow> 'x sp_expr \<Rightarrow> expr \<Rightarrow> bool" where
  "converts pr x e \<longleftrightarrow> convert_expr pr x = Inr e"

text \<open>The last part of a name; a schema in front of it is ignored.\<close>

definition names :: "'x printers \<Rightarrow> 'x sp_name \<Rightarrow> string \<Rightarrow> bool" where
  "names pr name t \<longleftrightarrow> name \<noteq> [] \<and>
     t = (case last name of Sp_Part i \<Rightarrow> id_value i | Sp_Other_Part x \<Rightarrow> p_part pr (Sp_Other_Part x))"

definition factor_kept :: "'x printers \<Rightarrow> 'x sp_table_factor \<Rightarrow> string \<Rightarrow> string option \<Rightarrow> bool" where
  "factor_kept pr factor t a \<longleftrightarrow> (\<exists>name alias x. factor = Sp_Table name alias None x \<and> names pr name t \<and>
     rel_option (\<lambda>al n. ta_columns al = [] \<and> n = id_value (ta_name al)) alias a)"

definition item_kept :: "'x printers \<Rightarrow> 'x sp_select_item \<Rightarrow> select_column \<Rightarrow> bool" where
  "item_kept pr item c = (case c of
     Wildcard \<Rightarrow> \<exists>x. item = Sp_Wildcard x
   | QualifiedWildcard t \<Rightarrow> \<exists>name x. item = Sp_QualifiedWildcard name x \<and> names pr name t
   | Select_Column t n \<Rightarrow> \<exists>x. item = Sp_UnnamedExpr x \<and> converts pr x (Expr_Column t n)
   | Select_Expr e None \<Rightarrow>
       \<exists>x. (item = Sp_UnnamedExpr x \<or> item = Sp_ExprWithAliases x []) \<and> converts pr x e
   | Select_Expr e (Some a) \<Rightarrow>
       \<exists>x i. (item = Sp_ExprWithAlias x i \<or> item = Sp_ExprWithAliases x [i]) \<and> converts pr x e \<and>
         a = id_value i)"

definition order_kept :: "'x printers \<Rightarrow> 'x sp_order_by_expr \<Rightarrow> order_by \<Rightarrow> bool" where
  "order_kept pr x b \<longleftrightarrow> oe_with_fill x = None \<and> converts pr (oe_expr x) (ob_expr b) \<and>
     (if ob_ascending b then oe_sort x = None \<or> oe_sort x = Some Sp_Asc else oe_sort x = Some Sp_Desc) \<and>
     ob_nulls_first b = oe_nulls_first x"

text \<open>A count is the number its literal denotes.\<close>

definition count_of :: "'x sp_expr \<Rightarrow> u64 \<Rightarrow> bool" where
  "count_of x k \<longleftrightarrow> (\<exists>d y z. x = Sp_Value (Sp_Number d y) z \<and> parse_usize d = Some k)"

text \<open>The join a table comes in with: none for the tables that a comma separates.\<close>

definition joined_by :: "'x printers \<Rightarrow> 'x sp_join_operator option \<Rightarrow> join_clause \<Rightarrow> bool" where
  "joined_by pr opr c = (case jc_on c of
     None \<Rightarrow> jc_join_type c = Cross_Join \<and> (opr = None \<or> opr = Some (Sp_CrossJoin Sp_No_Constraint))
   | Some e \<Rightarrow> \<exists>x. converts pr x e \<and> (case jc_join_type c of
         Inner_Join \<Rightarrow> opr = Some (Sp_Join (Sp_On x)) \<or> opr = Some (Sp_Inner (Sp_On x))
       | Left_Join \<Rightarrow> opr = Some (Sp_Left (Sp_On x)) \<or> opr = Some (Sp_LeftOuter (Sp_On x))
       | Right_Join \<Rightarrow> opr = Some (Sp_Right (Sp_On x)) \<or> opr = Some (Sp_RightOuter (Sp_On x))
       | Full_Join \<Rightarrow> opr = Some (Sp_FullOuter (Sp_On x))
       | Cross_Join \<Rightarrow> False))"

definition table_kept ::
  "'x printers \<Rightarrow> 'x sp_table_factor \<times> 'x sp_join_operator option \<Rightarrow> join_clause \<Rightarrow> bool" where
  "table_kept pr x c \<longleftrightarrow>
     factor_kept pr (fst x) (jc_table c) (jc_alias c) \<and> joined_by pr (snd x) c"

text \<open>The tables of a \<open>FROM\<close> clause from left to right, with their joins.\<close>

definition from_steps ::
  "'x sp_table_with_joins list \<Rightarrow> ('x sp_table_factor \<times> 'x sp_join_operator option) list" where
  "from_steps items = concat (map (\<lambda>i.
     (tw_relation i, None) # map (\<lambda>j. (jn_relation j, Some (jn_operator j))) (tw_joins i)) items)"

definition from_kept :: "'x printers \<Rightarrow> 'x sp_table_with_joins list \<Rightarrow> table_ref \<Rightarrow> bool" where
  "from_kept pr items t \<longleftrightarrow> (\<exists>factor steps. from_steps items = (factor, None) # steps \<and>
     factor_kept pr factor (tr_base t) (tr_base_alias t) \<and>
     list_all2 (table_kept pr) steps (tr_joins t))"

lemma map_r_kept:
  assumes "map_r f xs = Inr ys" and "\<And>x y. f x = Inr y \<Longrightarrow> R x y"
  shows "list_all2 R xs ys"
  using map_r_InrD [OF assms(1)] by (rule list_all2_mono) (rule assms(2))

lemma map_option_r_kept:
  "map_option_r f x = Inr y \<Longrightarrow> (\<And>a b. f a = Inr b \<Longrightarrow> R a b) \<Longrightarrow> rel_option R x y"
  by (auto simp: map_option_r_def parser_simps split: option.splits)

lemma extract_table_name_names [parser_simps]: "extract_table_name pr name = Inr t \<longleftrightarrow> names pr name t"
  by (cases "last name") (auto simp: extract_table_name_def names_def)

lemma extract_table_factor_kept [dest]:
  "extract_table_factor pr factor = Inr (t, a) \<Longrightarrow> factor_kept pr factor t a"
  by (cases factor)
    (auto simp: extract_table_factor_def factor_kept_def parser_simps option_rel_Some1
      split: option.splits if_splits)

lemma convert_select_item_kept: "convert_select_item pr item = Inr c \<Longrightarrow> item_kept pr item c"
proof (cases item)
  case (Sp_UnnamedExpr e)
  assume "convert_select_item pr item = Inr c"
  then show ?thesis
    by (cases e) (auto simp: Sp_UnnamedExpr convert_select_item_def item_kept_def converts_def parser_simps)
next
  case (Sp_ExprWithAliases e aliases)
  assume "convert_select_item pr item = Inr c"
  then show ?thesis
    by (cases aliases; cases "tl aliases")
      (auto simp: Sp_ExprWithAliases convert_select_item_def item_kept_def converts_def parser_simps
        split: if_splits)
qed (auto simp: convert_select_item_def item_kept_def converts_def parser_simps)

lemma convert_order_by_expr_kept: "convert_order_by_expr pr x = Inr b \<Longrightarrow> order_kept pr x b"
  by (auto simp: convert_order_by_expr_def order_kept_def converts_def parser_simps
      split: if_splits option.splits sp_sort.splits)

lemma expr_to_usize_count: "expr_to_usize pr x clause = Inr k \<Longrightarrow> count_of x k"
  by (auto simp: expr_to_usize_def count_of_def Let_def
      split: sp_expr.splits sp_value.splits option.splits)

lemma join_condition_kept:
  "join_parts pr opr = Inr (ty, c) \<Longrightarrow> join_condition pr ty c = Inr cond \<Longrightarrow>
   joined_by pr (Some opr) \<lparr>jc_table = t, jc_alias = a, jc_join_type = ty, jc_on = cond\<rparr>"
  by (cases opr; cases c)
    (auto simp: join_parts_def join_condition_def joined_by_def converts_def parser_simps
      split: if_splits)

lemma convert_join_kept:
  "convert_join pr j = Inr c \<Longrightarrow> table_kept pr (jn_relation j, Some (jn_operator j)) c"
  by (auto simp: convert_join_def parser_simps table_kept_def dest: join_condition_kept)

lemma convert_joins_kept:
  assumes "map_r (convert_join pr) js = Inr cs"
  shows "list_all2 (table_kept pr) (map (\<lambda>j. (jn_relation j, Some (jn_operator j))) js) cs"
  using map_r_kept [OF assms convert_join_kept] by (simp add: list_all2_map1)

lemma push_tables_kept:
  "push_tables pr t items = Inr u \<Longrightarrow>
   tr_base u = tr_base t \<and> tr_base_alias u = tr_base_alias t \<and>
   (\<exists>cs. tr_joins u = tr_joins t @ cs \<and> list_all2 (table_kept pr) (from_steps items) cs)"
proof (induction items arbitrary: t)
  case (Cons i items)
  obtain n a js where f: "extract_table_factor pr (tw_relation i) = Inr (n, a)"
    "map_r (convert_join pr) (tw_joins i) = Inr js" and
    r: "push_tables pr (t\<lparr>tr_joins := tr_joins t @
      \<lparr>jc_table = n, jc_alias = a, jc_join_type = Cross_Join, jc_on = None\<rparr> # js\<rparr>) items = Inr u"
    using Cons.prems by (auto simp: parser_simps Let_def)
  have "table_kept pr (tw_relation i, None)
      \<lparr>jc_table = n, jc_alias = a, jc_join_type = Cross_Join, jc_on = None\<rparr>"
    using extract_table_factor_kept [OF f(1)] by (simp add: table_kept_def joined_by_def)
  with Cons.IH [OF r] convert_joins_kept [OF f(2)] show ?case
    by (auto simp: from_steps_def intro: list_all2_appendI)
qed (simp add: from_steps_def)

lemma convert_from_kept:
  assumes "convert_from pr items = Inr t"
  shows "from_kept pr items t"
proof -
  obtain i rest r where i: "items = i # rest" "extract_table_ref pr i = Inr r"
    "push_tables pr r rest = Inr t"
    using assms by (auto simp: convert_from_def parser_simps split: list.splits)
  from i(2) obtain js where js: "map_r (convert_join pr) (tw_joins i) = Inr js" "tr_joins r = js"
    "extract_table_factor pr (tw_relation i) = Inr (tr_base r, tr_base_alias r)"
    by (auto simp: extract_table_ref_def parser_simps)
  show ?thesis
    using push_tables_kept [OF i(3)] convert_joins_kept [OF js(1)] js(2,3)
    by (auto simp: i(1) from_kept_def from_steps_def intro: list_all2_appendI)
qed


section \<open>A tree for every expression\<close>

definition tree_of_literal :: "'x \<Rightarrow> literal_value \<Rightarrow> 'x sp_value" where
  "tree_of_literal x l = (case l of
     Lit_Null \<Rightarrow> Sp_Null | Lit_Boolean b \<Rightarrow> Sp_Boolean b | Lit_Integer i \<Rightarrow> Sp_Number (show_i64 i) x
   | Lit_Float _ \<Rightarrow> Sp_Other_Value x | Lit_String s \<Rightarrow> Sp_SingleQuoted s)"

definition tree_of_binary :: "binary_operator \<Rightarrow> 'x sp_binary_operator" where
  "tree_of_binary b = (case b of
     Op_Eq \<Rightarrow> Sp_Eq | Op_NotEq \<Rightarrow> Sp_NotEq | Op_Lt \<Rightarrow> Sp_Lt | Op_LtEq \<Rightarrow> Sp_LtEq | Op_Gt \<Rightarrow> Sp_Gt
   | Op_GtEq \<Rightarrow> Sp_GtEq | Op_And \<Rightarrow> Sp_And | Op_Or \<Rightarrow> Sp_Or | Op_Plus \<Rightarrow> Sp_Plus | Op_Minus \<Rightarrow> Sp_Minus
   | Op_Multiply \<Rightarrow> Sp_Multiply | Op_Divide \<Rightarrow> Sp_Divide | Op_Modulo \<Rightarrow> Sp_Modulo
   | Op_Concat \<Rightarrow> Sp_StringConcat)"

definition tree_of_unary :: "unary_operator \<Rightarrow> 'x sp_unary_operator" where
  "tree_of_unary u = (case u of Op_Not \<Rightarrow> Sp_Not | Op_Negate \<Rightarrow> Sp_Negate | Op_Positive \<Rightarrow> Sp_Positive)"

fun tree_of :: "'x \<Rightarrow> expr \<Rightarrow> 'x sp_expr" where
  "tree_of x (Expr_Column None n) = Sp_Identifier (Sp_Ident n x)"
| "tree_of x (Expr_Column (Some t) n) = Sp_CompoundIdentifier [Sp_Ident t x, Sp_Ident n x]"
| "tree_of x (Literal l) = Sp_Value (tree_of_literal x l) x"
| "tree_of x (BinaryOp l b r) = Sp_BinaryOp (tree_of x l) (tree_of_binary b) (tree_of x r)"
| "tree_of x (UnaryOp u e) = Sp_UnaryOp (tree_of_unary u) (tree_of x e)"
| "tree_of x (IsNull e negated) =
     (if negated then Sp_IsNotNull (tree_of x e) else Sp_IsNull (tree_of x e))"
| "tree_of x (InList e items negated) = Sp_InList (tree_of x e) (map (tree_of x) items) negated"
| "tree_of x (Between e l h negated) = Sp_Between (tree_of x e) (tree_of x l) (tree_of x h) negated"
| "tree_of x (Like e p negated ci) =
     (if ci then Sp_ILike (tree_of x e) (Sp_Value (Sp_SingleQuoted p) x) negated False None
      else Sp_Like (tree_of x e) (Sp_Value (Sp_SingleQuoted p) x) negated False None)"
| "tree_of x (Function_Call f args) =
     Sp_Function (Sp_Call [Sp_Part (Sp_Ident f x)] None None [] None Sp_No_Arguments
       (case args of
          Star_Arg \<Rightarrow> Sp_Arguments None [Sp_Star] []
        | Args_List as d \<Rightarrow>
            Sp_Arguments (if d then Some Sp_Distinct_Arguments else None)
              (map (\<lambda>a. Sp_Expr_Argument (tree_of x a)) as) []))"
| "tree_of x (Nested e) = Sp_Nested (tree_of x e)"

text \<open>Expressions without float literals.\<close>

fun float_free :: "expr \<Rightarrow> bool" where
  "float_free (Expr_Column t n) = True"
| "float_free (Literal l) = (case l of Lit_Float _ \<Rightarrow> False | _ \<Rightarrow> True)"
| "float_free (BinaryOp l b r) = (float_free l \<and> float_free r)"
| "float_free (UnaryOp u e) = float_free e"
| "float_free (IsNull e negated) = float_free e"
| "float_free (InList e items negated) = (float_free e \<and> list_all float_free items)"
| "float_free (Between e l h negated) = (float_free e \<and> float_free l \<and> float_free h)"
| "float_free (Like e p negated ci) = float_free e"
| "float_free (Function_Call f args) =
     (case args of Star_Arg \<Rightarrow> True | Args_List as d \<Rightarrow> list_all float_free as)"
| "float_free (Nested e) = float_free e"

lemma convert_tree_literal:
  "float_free (Literal l) \<Longrightarrow> convert_value pr (tree_of_literal x l) = Inr l"
  by (cases l) (simp_all add: convert_value_def tree_of_literal_def parse_show_i64)

lemma convert_tree_operators [simp]:
  "convert_binary_op pr (tree_of_binary b) = Inr b"
  "convert_unary_op pr (tree_of_unary u) = Inr u"
  by (cases b; simp add: convert_binary_op_def tree_of_binary_def)
    (cases u; simp add: convert_unary_op_def tree_of_unary_def)

lemma convert_trees:
  "(\<And>e. e \<in> set es \<Longrightarrow> convert_expr pr (tree_of x e) = Inr e) \<Longrightarrow>
   map_r (convert_expr pr) (map (tree_of x) es) = Inr es"
  "(\<And>e. e \<in> set es \<Longrightarrow> convert_expr pr (tree_of x e) = Inr e) \<Longrightarrow>
   map_r (convert_argument pr) (map (\<lambda>a. Sp_Expr_Argument (tree_of x a)) es) = Inr es"
  by (induction es) simp_all

lemma convert_tree_of: "float_free e \<Longrightarrow> convert_expr pr (tree_of x e) = Inr e"
proof (induction x e rule: tree_of.induct)
  case (2 x t n)
  then show ?case by (simp add: compound_column_def)
next
  case (3 x l)
  then show ?case using convert_tree_literal [of l pr x] by simp
next
  case (7 x e items negated)
  then show ?case by (simp add: convert_trees list_all_iff)
next
  case (9 x e p negated ci)
  then show ?case by (simp add: extract_string_from_expr_def)
next
  case (10 x f args)
  show ?case
  proof (cases args)
    case (Args_List as d)
    then have "convert_expr pr (tree_of x a) = Inr a" if "a \<in> set as" for a
      using 10 that by (auto simp: list_all_iff)
    then show ?thesis by (auto simp: Args_List extract_table_name_def convert_trees)
  qed (simp add: extract_table_name_def)
qed simp_all


section \<open>Words of a command\<close>

lemma split_whitespace_Nil: "split_whitespace s = [] \<longleftrightarrow> list_all is_space s"
  by (subst split_whitespace.simps) (auto simp: Let_def list_all_iff)

lemma split_whitespace_words:
  "w \<in> set (split_whitespace s) \<Longrightarrow> w \<noteq> [] \<and> list_all (\<lambda>c. \<not> is_space c) w"
proof (induction s rule: split_whitespace.induct)
  case (1 s)
  define r where "r = dropWhile is_space s"
  have "r \<noteq> []"
    using 1(2) by (auto simp: split_whitespace.simps [of s] r_def Let_def split: if_splits)
  moreover from this have "\<not> is_space (hd r)" by (simp add: r_def hd_dropWhile)
  ultimately have "takeWhile (\<lambda>c. \<not> is_space c) r \<noteq> []" by (cases r) auto
  moreover have "split_whitespace s =
    takeWhile (\<lambda>c. \<not> is_space c) r # split_whitespace (dropWhile (\<lambda>c. \<not> is_space c) r)"
    using \<open>r \<noteq> []\<close> by (subst split_whitespace.simps) (simp add: r_def Let_def)
  then have "w = takeWhile (\<lambda>c. \<not> is_space c) r \<or>
    w \<in> set (split_whitespace (dropWhile (\<lambda>c. \<not> is_space c) r))"
    using 1(2) by simp
  moreover have "list_all (\<lambda>c. \<not> is_space c) (takeWhile (\<lambda>c. \<not> is_space c) r)"
    by (auto simp: list_all_iff dest: set_takeWhileD)
  ultimately show ?case
    using 1(1) [OF r_def \<open>r \<noteq> []\<close>] by metis
qed

lemma split_whitespace_skip: "is_space c \<Longrightarrow> split_whitespace (c # r) = split_whitespace r"
  by (simp add: split_whitespace.simps [of "c # r"] split_whitespace.simps [of r])

lemma split_whitespace_word:
  assumes "w \<noteq> []" and "list_all (\<lambda>c. \<not> is_space c) w" and "is_space c"
  shows "split_whitespace (w @ c # r) = w # split_whitespace r"
proof -
  have "dropWhile is_space (w @ c # r) = w @ c # r" using assms(1,2) by (cases w) auto
  moreover have "takeWhile (\<lambda>c. \<not> is_space c) (w @ c # r) = w"
    "dropWhile (\<lambda>c. \<not> is_space c) (w @ c # r) = c # r"
    using assms(2,3) by (auto simp: list_all_iff takeWhile_append dropWhile_append)
  ultimately show ?thesis
    using assms(3) by (subst split_whitespace.simps) (simp add: split_whitespace_skip)
qed

lemma trim_last: "trim s \<noteq> [] \<Longrightarrow> \<not> is_space (last (trim s))"
  by (simp add: trim_def last_rev hd_dropWhile)

lemma upper_space [simp]: "is_space (upper_char c) \<longleftrightarrow> is_space c"
  by (auto simp: is_space_def upper_char_def char_code_def of_char_of)

text \<open>After a keyword and a blank a trimmed text has another word.\<close>

lemma command_word:
  assumes "starts_with (to_uppercase (trim s)) (k @ '' '')" and "k \<noteq> []"
    and "list_all (\<lambda>c. \<not> is_space c) k"
  obtains w ws where "drop 1 (split_whitespace (trim s)) = w # ws"
    and "w \<noteq> []" and "list_all (\<lambda>c. \<not> is_space c) w"
proof -
  define t where "t = trim s"
  obtain rest where t: "map upper_char t = k @ CHR '' '' # rest"
    using assms(1) by (auto simp: starts_with_def to_uppercase_def t_def)
      (metis append_take_drop_id append.assoc append_Cons append_Nil)
  obtain w c r where split: "t = w @ c # r" "map upper_char w = k" "upper_char c = CHR '' ''"
    using t by (auto simp: map_eq_append_conv map_eq_Cons_conv)
  have "list_all (\<lambda>c. \<not> is_space c) w"
    using assms(3) by (simp add: split(2) [symmetric] list_all_iff)
  moreover have "is_space (upper_char c)" by (simp add: split(3) is_space_def char_code_def)
  moreover have "w \<noteq> []" using assms(2) split(2) by auto
  ultimately have d: "drop 1 (split_whitespace t) = split_whitespace r"
    by (simp add: split(1) split_whitespace_word)
  have "\<not> is_space (last t)" using trim_last [of s] split(1) by (simp add: t_def)
  moreover have "is_space c" using \<open>is_space (upper_char c)\<close> by simp
  ultimately have "\<not> list_all is_space r"
    by (cases r rule: rev_cases) (auto simp: split(1))
  then obtain u us where "split_whitespace r = u # us"
    by (cases "split_whitespace r") (auto simp: split_whitespace_Nil)
  then show ?thesis using that d split_whitespace_words [of u r] by (simp add: t_def)
qed

end
