(* ===== verification/Parser_Properties.thy ===== *)
theory Parser_Properties
  imports Parser_Laws
begin

text \<open>
  The properties of the SQL parser: table definitions and their schemas, queries of which no part is
  lost, the reach of the expression conversion, number literals, and \<open>DESCRIBE\<close>.
\<close>

section \<open>Examples\<close>

definition blank_printers :: "unit printers" where
  "blank_printers = \<lparr>p_debug = \<lambda>_. [], p_display = \<lambda>_. [], p_expr = \<lambda>_. [], p_idents = \<lambda>_. [],
     p_part = \<lambda>_. [], p_name = \<lambda>_. [], p_argument = \<lambda>_. [], p_body = \<lambda>_. []\<rparr>"

abbreviation ident :: "string \<Rightarrow> unit sp_ident" where "ident n \<equiv> Sp_Ident n ()"

abbreviation plain_name :: "string \<Rightarrow> unit sp_name" where "plain_name n \<equiv> [Sp_Part (ident n)]"

text \<open>\<open>CREATE TABLE t (id INT PRIMARY KEY, name TEXT, UNIQUE (NAME))\<close>\<close>

definition example_create :: "unit sp_create_table" where
  "example_create = \<lparr>cr_query = None, cr_like = None, cr_clone = None, cr_or_replace = False,
     cr_temporary = False, cr_name = plain_name ''t'',
     cr_columns =
       [\<lparr>co_name = ident ''id'', co_data_type = Sp_Int (), co_options = [Sp_PrimaryKey_Option ()]\<rparr>,
        \<lparr>co_name = ident ''name'', co_data_type = Sp_Text, co_options = []\<rparr>],
     cr_constraints = [Sp_Unique [Sp_Identifier (ident ''NAME'')] ()], cr_if_not_exists = False\<rparr>"

text \<open>\<open>SELECT x FROM t, u LIMIT 5\<close>\<close>

definition example_select :: "unit sp_select" where
  "example_select = \<lparr>sl_top = None, sl_into = None, sl_lateral_views = [], sl_prewhere = None,
     sl_connect_by = [], sl_cluster_by = [], sl_distribute_by = [], sl_sort_by = [],
     sl_named_window = [], sl_qualify = None, sl_exclude = None, sl_distinct = None,
     sl_from = [\<lparr>tw_relation = Sp_Table (plain_name ''t'') None None (), tw_joins = []\<rparr>,
       \<lparr>tw_relation = Sp_Table (plain_name ''u'') None None (), tw_joins = []\<rparr>],
     sl_projection = [Sp_UnnamedExpr (Sp_Identifier (ident ''x''))], sl_selection = None,
     sl_group_by = Sp_Group_Expressions [] [], sl_having = None\<rparr>"

definition query_of :: "unit sp_set_expr \<Rightarrow> unit sp_limit option \<Rightarrow> unit option \<Rightarrow> unit sp_query" where
  "query_of body limit fetch = \<lparr>qu_with = None, qu_fetch = fetch, qu_locks = [], qu_for_clause = None,
     qu_pipe_operators = [], qu_body = body, qu_order_by = None, qu_limit_clause = limit\<rparr>"

definition example_query :: "unit sp_query" where
  "example_query = query_of (Sp_Select example_select)
     (Some (Sp_LimitOffset (Some (Sp_Value (Sp_Number ''5'' ()) ())) None [])) None"


section \<open>Table definitions\<close>

text \<open>C11: An accepted \<open>CREATE TABLE\<close> keeps its columns in order, its keys are lists of distinct columns
of it, and a column carries a key constraint exactly when a key says so. The planner builds a schema
from it unless two column names agree up to case; the keys of the schema are then the positions of
the named columns, the same that the constraints of the columns give.\<close>

theorem create_table_schema:
  assumes "convert_create_table pr create = Inr st"
  shows "\<exists>ct. st = Create_Table ct \<and> keys_agree ct \<and>
    map cd_name (ct_columns ct) = map (\<lambda>c. id_value (co_name c)) (cr_columns create) \<and>
    (case from_create ct of
       Inl e \<Rightarrow> \<not> distinct_names (ct_columns ct) \<and> (\<exists>n. e = DuplicateColumn n)
     | Inr t \<Rightarrow>
         map (\<lambda>i. cd_name (ct_columns ct ! i)) (ts_primary_key t) = ct_primary_key ct \<and>
         map (map (\<lambda>i. cd_name (ct_columns ct ! i))) (ts_unique_keys t) = ct_unique_keys ct \<and>
         set (ts_primary_key t) = set (constrained Primary_Key (ct_columns ct)) \<and>
         (\<forall>i. [i] \<in> set (ts_unique_keys t) \<longleftrightarrow> i \<in> set (constrained Unique_Key (ct_columns ct))))"
proof -
  obtain ct where ct: "st = Create_Table ct" "keys_agree ct"
    "map cd_name (ct_columns ct) = map (\<lambda>c. id_value (co_name c)) (cr_columns create)"
    using assms by (rule convert_create_table_Inr)
  show ?thesis
  proof (cases "from_create ct")
    case (Inl e)
    then have "\<exists>n. e = DuplicateColumn n" using keys_agree_duplicate [OF ct(2)] by blast
    moreover from this have "\<not> distinct_names (ct_columns ct)"
      using from_create_Inl [OF Inl] distinct_names_split by auto
    ultimately show ?thesis using ct Inl by auto
  next
    case (Inr t)
    then show ?thesis using ct keys_agree_schema [OF ct(2) Inr] by auto
  qed
qed

lemma create_table_schema_witness:
  "\<exists>st. convert_create_table blank_printers example_create = Inr st \<and>
    (\<exists>ct. st = Create_Table ct \<and> keys_agree ct \<and> ct_unique_keys ct = [[''name'']])"
proof -
  have "convert_create_table blank_printers example_create = Inr (Create_Table \<lparr>ct_name = ''t'',
    ct_columns = [\<lparr>cd_name = ''id'', cd_data_type = Sql_Integer, cd_constraints = [Primary_Key]\<rparr>,
      \<lparr>cd_name = ''name'', cd_data_type = Sql_Text, cd_constraints = [Unique_Key]\<rparr>],
    ct_primary_key = [''id''], ct_unique_keys = [[''name'']], ct_if_not_exists = False\<rparr>)"
    by code_simp
  from create_table_schema [OF this] this show ?thesis by auto
qed


section \<open>Queries\<close>

definition plain_query :: "'x sp_query \<Rightarrow> bool" where
  "plain_query q \<longleftrightarrow> qu_with q = None \<and> qu_fetch q = None \<and> qu_locks q = [] \<and>
     qu_for_clause q = None \<and> qu_pipe_operators q = []"

definition plain_select :: "'x sp_select \<Rightarrow> bool" where
  "plain_select sl \<longleftrightarrow> sl_top sl = None \<and> sl_into sl = None \<and> sl_lateral_views sl = [] \<and>
     sl_prewhere sl = None \<and> sl_connect_by sl = [] \<and> sl_cluster_by sl = [] \<and>
     sl_distribute_by sl = [] \<and> sl_sort_by sl = [] \<and> sl_named_window sl = [] \<and>
     sl_qualify sl = None \<and> sl_exclude sl = None"

text \<open>The terms of \<open>ORDER BY\<close>, the expressions for the two counts; nothing for a form the engine does not
have.\<close>

definition order_terms :: "'x sp_order_by option \<Rightarrow> 'x sp_order_by_expr list option" where
  "order_terms clause = (case clause of
     None \<Rightarrow> Some []
   | Some ob \<Rightarrow>
       (case or_kind ob of
          Sp_Order_Expressions es \<Rightarrow> if or_interpolate ob = None then Some es else None
        | Sp_Order_All _ \<Rightarrow> None))"

definition limit_terms :: "'x sp_limit option \<Rightarrow> ('x sp_expr option \<times> 'x sp_expr option) option" where
  "limit_terms clause = (case clause of
     None \<Rightarrow> Some (None, None)
   | Some (Sp_LimitOffset l n bys) \<Rightarrow> if bys = [] then Some (l, map_option fst n) else None
   | Some (Sp_OffsetCommaLimit n l) \<Rightarrow> Some (Some l, Some n))"

lemma query_distinct_Inr:
  "query_distinct pr d = Inr b \<Longrightarrow> d = (if b then Some Sp_Distinct_Rows else None) \<or> d = Some Sp_Distinct_All \<and> \<not> b"
  by (auto simp: query_distinct_def split: option.splits sp_distinct.splits)

lemma query_group_by_kept:
  "query_group_by pr g = Inr es \<Longrightarrow>
   \<exists>gs. g = Sp_Group_Expressions gs [] \<and> list_all2 (converts pr) gs es"
  by (auto simp: query_group_by_def converts_def intro: map_r_kept split: sp_group_by.splits if_splits)

lemma query_order_kept:
  "map_option_r (extract_order_by_exprs pr) ob = Inr r \<Longrightarrow>
   \<exists>ts. order_terms ob = Some ts \<and>
     list_all2 (order_kept pr) ts (case r of Some obs \<Rightarrow> obs | None \<Rightarrow> [])"
  by (auto simp: map_option_r_def extract_order_by_exprs_def order_terms_def parser_simps
      intro: map_r_kept convert_order_by_expr_kept
      split: option.splits sp_order_by_kind.splits if_splits)

lemma query_limit_kept:
  "query_limit pr c = Inr (l, n) \<Longrightarrow>
   \<exists>x y. limit_terms c = Some (x, y) \<and> rel_option count_of x l \<and> rel_option count_of y n"
  by (auto simp: query_limit_def limit_terms_def map_option_r_def parser_simps
      dest!: expr_to_usize_count split: option.splits sp_limit.splits if_splits)

lemma reject_clauses_Inr:
  "reject_unsupported_select_clauses sl = Inr u \<longleftrightarrow> plain_select sl"
  by (auto simp: reject_unsupported_select_clauses_def plain_select_def parser_simps)

text \<open>C12: A query that is accepted loses nothing. It has none of the clauses the engine does not support,
and the result says what it says, part by part and in order: \<open>DISTINCT\<close>, each item of the select list with
its alias, the tables of \<open>FROM\<close> with their aliases, the kind of each join and its condition, the
\<open>WHERE\<close> and \<open>HAVING\<close> conditions, each \<open>GROUP BY\<close> term, each \<open>ORDER BY\<close> term with its direction and the
place of nulls, and the numbers of \<open>LIMIT\<close> and \<open>OFFSET\<close> in either form.\<close>

theorem query_keeps_everything:
  assumes "convert_query pr q = Inr s"
  shows "\<exists>sl gs ts l n. qu_body q = Sp_Select sl \<and> plain_query q \<and> plain_select sl \<and>
    sl_distinct sl \<in> (if sel_distinct s then {Some Sp_Distinct_Rows} else {None, Some Sp_Distinct_All}) \<and>
    list_all2 (item_kept pr) (sl_projection sl) (sel_columns s) \<and>
    from_kept pr (sl_from sl) (sel_from s) \<and>
    rel_option (converts pr) (sl_selection sl) (sel_where_clause s) \<and>
    sl_group_by sl = Sp_Group_Expressions gs [] \<and> list_all2 (converts pr) gs (sel_group_by s) \<and>
    rel_option (converts pr) (sl_having sl) (sel_having s) \<and>
    order_terms (qu_order_by q) = Some ts \<and> list_all2 (order_kept pr) ts (sel_order_by s) \<and>
    limit_terms (qu_limit_clause q) = Some (l, n) \<and>
    rel_option count_of l (sel_limit s) \<and> rel_option count_of n (sel_offset s)"
proof -
  obtain sl where sl: "qu_body q = Sp_Select sl" "convert_select pr q sl = Inr s"
    and plain: "plain_query q"
    using assms
    by (auto simp: convert_query_def plain_query_def split: if_splits sp_set_expr.splits)
  obtain order where parts: "plain_select sl" "query_distinct pr (sl_distinct sl) = Inr (sel_distinct s)"
    "convert_from pr (sl_from sl) = Inr (sel_from s)"
    "convert_projection pr (sl_projection sl) = Inr (sel_columns s)"
    "map_option_r (convert_expr pr) (sl_selection sl) = Inr (sel_where_clause s)"
    "query_group_by pr (sl_group_by sl) = Inr (sel_group_by s)"
    "map_option_r (convert_expr pr) (sl_having sl) = Inr (sel_having s)"
    "map_option_r (extract_order_by_exprs pr) (qu_order_by q) = Inr order"
    "sel_order_by s = (case order of Some obs \<Rightarrow> obs | None \<Rightarrow> [])"
    "query_limit pr (qu_limit_clause q) = Inr (sel_limit s, sel_offset s)"
    using sl(2) by (auto simp: convert_select_def parser_simps reject_clauses_Inr)
  have "list_all2 (item_kept pr) (sl_projection sl) (sel_columns s)"
    using map_r_kept parts(4) convert_select_item_kept unfolding convert_projection_def by blast
  moreover have "rel_option (converts pr) (sl_selection sl) (sel_where_clause s)"
    "rel_option (converts pr) (sl_having sl) (sel_having s)"
    using map_option_r_kept [OF parts(5), of "converts pr"] map_option_r_kept [OF parts(7), of "converts pr"]
    by (simp_all add: converts_def)
  moreover note query_distinct_Inr [OF parts(2)] convert_from_kept [OF parts(3)]
    query_group_by_kept [OF parts(6)] query_order_kept [OF parts(8), folded parts(9)]
    query_limit_kept [OF parts(10)]
  ultimately show ?thesis using sl(1) plain parts(1) by (auto split: if_splits)
qed

lemma parse_five: "parse_usize ''5'' = Some 5"
  by (simp add: parse_usize_def is_digit_def char_code_def digits_value_def)

lemma query_keeps_everything_witness:
  "\<exists>s. convert_query blank_printers example_query = Inr s \<and> length (sel_columns s) = 1 \<and>
    map jc_table (tr_joins (sel_from s)) = [''u''] \<and> sel_limit s = Some 5"
proof -
  have "convert_query blank_printers example_query = Inr \<lparr>sel_distinct = False,
    sel_columns = [Select_Column None ''x''],
    sel_from = \<lparr>tr_base = ''t'', tr_base_alias = None, tr_joins =
      [\<lparr>jc_table = ''u'', jc_alias = None, jc_join_type = Cross_Join, jc_on = None\<rparr>]\<rparr>,
    sel_where_clause = None, sel_group_by = [], sel_having = None, sel_order_by = [],
    sel_limit = Some 5, sel_offset = None\<rparr>"
    by (simp add: convert_query_def example_query_def query_of_def convert_select_def example_select_def
        reject_unsupported_select_clauses_def reject_first_def query_distinct_def convert_from_def
        extract_table_ref_def extract_table_factor_def extract_table_name_def Let_def
        convert_projection_def convert_select_item_def map_option_r_def query_group_by_def
        query_limit_def expr_to_usize_def parse_five)
  from query_keeps_everything [OF this] this show ?thesis by auto
qed



section \<open>Expressions\<close>

text \<open>C33: Every expression without float literals is the conversion of a tree: names, literals, all operators,
\<open>IN\<close>, \<open>BETWEEN\<close>, \<open>LIKE\<close> and \<open>ILIKE\<close> with their negations, function calls with \<open>DISTINCT\<close> and \<open>*\<close>
come back as they were, at any depth.\<close>

theorem expr_roundtrip:
  assumes "float_free e"
  shows "convert_expr pr (tree_of x e) = Inr e"
  using assms by (rule convert_tree_of)

lemma expr_roundtrip_witness:
  "let e = BinaryOp (Like (Expr_Column (Some ''t'') ''n'') ''a%'' True False) Op_And
     (Function_Call ''count'' (Args_List [Literal (Lit_Integer 7)] True))
   in convert_expr blank_printers (tree_of () e) = Inr e"
  unfolding Let_def by (rule expr_roundtrip) simp


section \<open>Numbers\<close>

lemma lower_digit: "is_digit c \<Longrightarrow> lower_char c = c"
  by (auto simp: is_digit_def lower_char_def)

lemma digits_head: "hd (to_lowercase (digits n)) = hd (digits n) \<and> is_digit (hd (digits n))"
  using digits_props [of n] by (cases "digits n") (auto simp: to_lowercase_def lower_digit)

lemma split_sign_of_digits: "split_sign (digits n) = (False, digits n)"
  using split_sign_digits digits_props by blast

lemma parse_f64_digits: "parse_f64 (digits n) = Some (f64_of_rat False (of_nat n))"
proof -
  have d: "digits n \<noteq> []" "\<forall>c \<in> set (digits n). is_digit c" "digits_value (digits n) = n"
    using digits_props [of n] by (auto simp: list_all_iff)
  have "to_lowercase (digits n) \<noteq> c # cs" if "\<not> is_digit c" for c cs
    using digits_head [of n] that by auto
  moreover have "\<not> is_digit (CHR ''i'')" "\<not> is_digit (CHR ''n'')"
    by (simp_all add: is_digit_def char_code_def)
  moreover have all: "takeWhile is_digit (digits n) = digits n" "dropWhile is_digit (digits n) = []"
    using d(2) by (simp_all add: takeWhile_eq_all_conv dropWhile_eq_Nil_conv)
  ultimately show ?thesis
    using d by (simp add: parse_f64_def split_sign_of_digits all Let_def pow10_def)
qed

lemma parse_i64_digits: "parse_i64 (digits n) = (if n < 2 ^ 63 then Some (of_nat n) else None)"
proof -
  have "i64_range (int n) \<longleftrightarrow> n < 2 ^ 63" by (auto simp: i64_range_def i64_min_def i64_max_def)
  then show ?thesis
    using digits_props [of n] by (simp add: parse_i64_def split_sign_of_digits checked_def)
qed

lemma parse_usize_digits: "parse_usize (digits n) = (if n < 2 ^ 64 then Some (of_nat n) else None)"
proof -
  have "(case digits n of [] \<Rightarrow> [] | c # cs \<Rightarrow> if c = CHR ''+'' then cs else digits n) = digits n"
    using digits_head [of n]
    by (cases "digits n") (auto simp: is_digit_def char_code_def)
  then show ?thesis
    using digits_props [of n] by (simp add: parse_usize_def Let_def not_less)
qed

text \<open>C34: A decimal number is an integer literal exactly below \<open>2 ^ 63\<close>; from there on it silently becomes the
nearest float. As a \<open>LIMIT\<close> or an \<open>OFFSET\<close> it is taken exactly below \<open>2 ^ 64\<close> and refused from there on.\<close>

theorem number_literals:
  "convert_value pr (Sp_Number (digits n) x) =
     Inr (if n < 2 ^ 63 then Lit_Integer (of_nat n) else Lit_Float (f64_of_rat False (of_nat n))) \<and>
   expr_to_usize pr (Sp_Value (Sp_Number (digits n) x) y) clause =
     (if n < 2 ^ 64 then Inr (of_nat n)
      else Inl (UnsupportedExpression (clause @ '' must be a non negative integer literal, got '' @
        p_expr pr (Sp_Value (Sp_Number (digits n) x) y))))"
  by (simp add: convert_value_def expr_to_usize_def parse_i64_digits parse_f64_digits
      parse_usize_digits Let_def)

text \<open>The smallest integer cannot be written: its digits are negated as a float.\<close>

theorem smallest_integer_is_float:
  "convert_expr pr (Sp_UnaryOp Sp_Negate (Sp_Value (Sp_Number ''9223372036854775808'' x) y)) =
   Inr (UnaryOp Op_Negate (Literal (Lit_Float (f64_of_rat False 9223372036854775808))))"
proof -
  have "digits 9223372036854775808 = ''9223372036854775808''"
    by (simp add: digits.simps char_of_eq_iff)
  moreover have "parse_i64 (digits 9223372036854775808) = None" by (subst parse_i64_digits) simp
  moreover note parse_f64_digits [of 9223372036854775808]
  ultimately show ?thesis by (simp add: convert_value_def convert_unary_op_def)
qed


section \<open>Commands of the engine\<close>

text \<open>\<open>DESCRIBE\<close> and \<open>DESC\<close> never miss their table: it is the second word, whatever follows.\<close>

theorem describe_names_table:
  assumes "starts_with (to_uppercase (trim (trim_end_matches (CHR '';'') (trim sql)))) (k @ '' '')"
    and "k = ''DESCRIBE'' \<or> k = ''DESC''"
  shows "\<exists>t. parse pr front sql = Inr (Describe t) \<and> t \<noteq> [] \<and> list_all (\<lambda>c. \<not> is_space c) t"
proof -
  let ?t = "trim (trim_end_matches (CHR '';'') (trim sql))"
  have "trim (trim_end_matches c []) = []" for c by (simp add: trim_def trim_end_matches_def)
  then have "trim sql \<noteq> []" using assms by (auto simp: starts_with_def to_uppercase_def)
  moreover have "to_uppercase ?t \<notin> {''BEGIN'', ''BEGIN TRANSACTION'', ''START TRANSACTION'', ''COMMIT'',
      ''ROLLBACK'', ''SHOW TABLES'', ''SHOW TABLE''}"
    using assms by (auto simp: starts_with_def)
  moreover have "k \<noteq> []" "list_all (\<lambda>c. \<not> is_space c) k"
    using assms(2) by (auto simp: is_space_def char_code_def)
  from command_word [OF assms(1) this]
  obtain w ws where "drop 1 (split_whitespace ?t) = w # ws" "w \<noteq> []"
    "list_all (\<lambda>c. \<not> is_space c) w" .
  ultimately show ?thesis using assms by (auto simp: parse_def Let_def)
qed

text \<open>Statements behind a \<open>DESCRIBE\<close> are dropped, and the semicolon becomes part of the name.\<close>

theorem describe_swallows_statements:
  "parse pr front ''DESCRIBE t; DROP TABLE t'' = Inr (Describe ''t;'')"
proof -
  let ?s = "''DESCRIBE t; DROP TABLE t''"
  have "trim ?s = ?s" "trim_end_matches (CHR '';'') ?s = ?s"
    "to_uppercase ?s = ''DESCRIBE T; DROP TABLE T''"
    "split_whitespace ?s = [''DESCRIBE'', ''t;'', ''DROP'', ''TABLE'', ''t'']"
    by code_simp+
  then show ?thesis by (simp add: parse_def starts_with_def)
qed

text \<open>\<open>INSERT ... VALUES\<close> ignores \<open>FETCH\<close> and locks, which \<open>convert_query\<close> refuses.\<close>

theorem insert_values_ignores_fetch:
  "insert_source_of pr (q\<lparr>qu_body := Sp_Values rows x, qu_with := None, qu_order_by := None,
     qu_limit_clause := None, qu_fetch := fetch, qu_locks := locks\<rparr>) =
   try_r (map_r (map_r (convert_expr pr)) rows) (\<lambda>rs. Inr (Insert_Values rs))"
  by (simp add: insert_source_of_def)

end
