(* ===== verification/Spec2Isabelle.thy ===== *)
theory Spec2Isabelle
  imports Page_Properties Pool_Properties Wal_Properties Store_Properties Heap_Properties
    Recovery_Properties Tree_Properties Delete_Properties Planner_Properties
    Parser_Properties
begin

text \<open>
  A verification library for the storage engine of \<open>impl-storage-engine\<close>
  (\<open>src/src/storage/engine/bplus_tree.rs\<close> and the modules below it), for its SQL parser (\<open>src/src/sql\<close>)
  and for the data model of its planner (\<open>src/src/planner\<close>).

  \<^bold>\<open>The program.\<close> A \<open>BplusTree\<close> maps 64-bit keys to lists of records. Its nodes are 4096-byte slotted
  pages of an index file, the records live in 8192-byte pages of a heap file, and both files are
  cached by buffer pools with LRU eviction (STEAL, NO-FORCE). A write-ahead log with byte-range undo
  and redo makes the changes recoverable: a page is written only after the log is flushed past the
  LSN of its last change, and \<open>recover\<close> runs analysis, redo and undo over the log. The SQL side is a
  parser, which translates the syntax trees of the crate \<open>sqlparser\<close> and refuses what the engine does
  not have, and the types, values, typed expressions and schemas a planner needs; the schema of a
  table is built from a parsed \<open>CREATE TABLE\<close>. Nothing connects it to the storage engine yet.

  \<^bold>\<open>The model.\<close> Code is a state transformer \<open>('s, 'a) m = 's \<Rightarrow> (error + 'a) \<times> 's\<close> (\<open>Prelude\<close>): the state
  after an error is kept, since guards are dropped and files stay written on every way out. \<open>Err\<close> is
  a returned error, \<open>Panic\<close> a panic (an \<open>unwrap\<close>, \<open>expect\<close> or index out of range), \<open>Diverges\<close> a loop
  that ran out of fuel. Integers are words of their width and wrap as in a release build; a
  \<open>HashMap\<close> is an association list, whose order stands for the unspecified iteration order.
  Mutexes, atomics and the tree's lock make every public operation one step.

  The theories, bottom up:
  \<^item> \<open>Prelude\<close>: the monad, its simplification set \<open>run_simps\<close>, byte slices, little-endian words, maps.
  \<^item> \<open>Header\<close> (\<open>header.rs\<close>): the headers of index pages, heap pages and the log, and the locale
    \<open>header_codec\<close> of a fixed-width header, interpreted by each of them.
  \<^item> \<open>Slotted_Page\<close>, \<open>Page_Refinement\<close> (\<open>slotted_page.rs\<close>, \<open>Page\<close>): the index pages byte by byte; \<open>page_rep\<close>
    relates a page to a node with strictly sorted cells, and every method refines an operation on
    nodes.
  \<^item> \<open>Heap_Page\<close> (\<open>slotted_page.rs\<close>, \<open>HeapPage\<close>): the same for the heap pages, which are lists of records.
  \<^item> \<open>Buffer_Pool\<close> (\<open>buffer_pool.rs\<close>): the pool, its invariant, and the locales \<open>write_back_cache\<close> and
    \<open>pinning_cache\<close>, interpreted by the pool.
  \<^item> \<open>File_Model\<close>, \<open>Wal_Record\<close>, \<open>Wal\<close>, \<open>Wal_Refinement\<close>, \<open>Wal_Log\<close> (\<open>wal.rs\<close>, \<open>wal_buffer.rs\<close>): record formats,
    buffering, flushing, opening and the two scans; \<open>wal_rep w done pend\<close> says which records are in
    the file and which only in the buffer.
  \<^item> \<open>Page_Store\<close>, \<open>Page_Store_Laws\<close> (the common code of \<open>index.rs\<close> and \<open>heap.rs\<close>): fetching, page guards,
    allocation, flushing; \<open>store_view\<close> is the page a client sees, \<open>store_good\<close> the invariant.
  \<^item> \<open>Page_Reader\<close>: the locale \<open>page_reader\<close> of read-only walks that follow page pointers.
  \<^item> \<open>Index\<close> (\<open>index.rs\<close>) and \<open>Heap\<close> (\<open>heap.rs\<close>): the two page files; overflow chains.
  \<^item> \<open>Pager\<close>, \<open>Pager_Diff\<close> (\<open>pager.rs\<close>): page differences, logging, checkpoints, recovery.
  \<^item> \<open>Replay\<close>, \<open>Recovery\<close>, \<open>Recovery_Analysis\<close>, \<open>Recovery_Spec\<close>: the abstract recovery, which replays byte
    ranges on page contents, and the refinement of \<open>recover\<close> to it; what the analysis finds from the
    start of the log or from a checkpoint; recovery after a crash. The last checkpoint has to tell the
    truth: its transactions are those open then (\<open>checkpoint_ok\<close>, which \<open>fuzzy_checkpoint_ok\<close> proves
    of what \<open>fuzzy_checkpoint\<close> writes), and no page on disk lacks a change that it lets redo skip
    (\<open>crashed\<close>).
  \<^item> \<open>Bplus_Tree\<close>, \<open>Bplus_Update\<close> (\<open>bplus_tree.rs\<close>): search, insertion with splits, deletion with
    redistribution and merging.
  \<^item> \<open>Tree_Model\<close>: search trees with page ids, the sorted list of their pairs and separators (\<open>items\<close>), the
    map it stands for (\<open>content\<close>), and contexts, the paths from a page up to the root. \<open>Tree_Storage\<close>:
    when pages store a tree (\<open>stored\<close>) and what a descent reads. \<open>Tree_State\<close>: the steps of the tree's
    operations as changes of the visible pages. \<open>Tree_Split\<close>, \<open>Tree_Grow\<close>: \<open>handle_overfull\<close>, by
    induction on the context. \<open>Tree_Insert\<close>: \<open>tree_rep n s m\<close> says that the state \<open>s\<close> holds a tree of depth
    at most \<open>n\<close> that stands for the map \<open>m\<close> from keys to records; insertion updates the map.
    \<open>Tree_Session\<close>: lookups, new trees and \<open>session\<close>, the states clients can reach.
  \<^item> \<open>Tree_Edit\<close>: rules for programs that change several pages (\<open>edited n s0 s v\<close>). \<open>Tree_Pair\<close>: two
    neighbours under one parent, of which deletion shifts a cell from one to the other (\<open>shift\<close>) or
    joins them (\<open>join\<close>). \<open>Tree_Balance\<close>: redistributions and merges as edits of pages; \<open>Tree_Shrink\<close>: what
    they make of the tree (\<open>reshaped\<close>); \<open>Tree_Underfull\<close>, \<open>Tree_Climb\<close>: \<open>handle_underfull\<close> up to the root,
    by induction on the context; \<open>Tree_Separator\<close>: \<open>propagate_key_update\<close>; \<open>Tree_Delete\<close>: deletion.
  \<^item> \<open>F64\<close>, \<open>Text_Model\<close>: binary64 numbers as exact rationals with the special values, and the
    string operations the parser and the planner use.
  \<^item> \<open>Sql_Ast\<close> (\<open>sql/ast.rs\<close>), \<open>Types\<close>, \<open>Values\<close>, \<open>Plan_Error\<close>, \<open>Schema\<close>, \<open>Scalar_Expr\<close>, \<open>Catalog\<close>
    (the files of \<open>planner\<close>): statements and their display, data types, values with three-valued
    logic, checked arithmetic, casts and \<open>LIKE\<close>, typed expressions and their traversals, schemas.
  \<^item> \<open>Sp_Ast\<close>: the trees of \<open>sqlparser\<close>. \<open>Parse_Expr\<close>, \<open>Parse_Query\<close>, \<open>Parse_Table\<close>, \<open>Parse_Change\<close>
    (\<open>sql/parser.rs\<close>): expressions, queries, table definitions, changes of rows and the entry points.
    \<open>Parser_Laws\<close>: the keys of a parsed table and their positions in its schema, what a query says and
    what its result says (\<open>item_kept\<close>, \<open>from_kept\<close>, \<open>order_kept\<close>, \<open>count_of\<close>), the tree that converts to a given expression, the words of a command.
  \<^item> \<open>F64_Laws\<close>, \<open>Value_Laws\<close>, \<open>Like_Laws\<close>, \<open>Scalar_Laws\<close>: the laws of these that the properties use.
  \<^item> \<open>Page_Properties\<close>, \<open>Pool_Properties\<close>, \<open>Wal_Properties\<close>, \<open>Store_Properties\<close>, \<open>Heap_Properties\<close>,
    \<open>Recovery_Properties\<close>, \<open>Tree_Properties\<close>, \<open>Delete_Properties\<close>, \<open>Planner_Properties\<close>,
    \<open>Parser_Properties\<close>: the properties, with a witness at a concrete input for each that has a
    hypothesis.

  \<^bold>\<open>Bounds and fuel.\<close> A loop that follows page pointers (overflow chains, descents in the tree) has the
  number of pages of the file plus one as fuel: a path of distinct pages is never longer, and the
  properties about such loops show that the fuel suffices. Lengths of files and of the log are
  assumed to stay below \<open>2 ^ 64\<close> where an operation extends them; \<open>tree_room\<close> is this for an insertion,
  and a session has that room for a million operations, since every insertion makes the tree at most
  one level deeper. Pages of a tree that only grows hold at most 202 cells between operations: the one that
  gets its 203rd cell is split at once (\<open>tree_rep\<close>). Deletion can leave pages of 203 cells behind, the
  most a page holds; \<open>stands_for 203\<close> is a tree after any operations, \<open>delete_room\<close> the log records a
  deletion may need. The merge of inner pages of 102 and 101 cells with their separator overflows:
  \<open>tree_delete_removes\<close> has this error as an outcome on trees of three or more levels, and nothing is
  said of the pages after it.

  \<^bold>\<open>Choices in the model of the SQL side.\<close> Strings are lists of ASCII characters; the closures \<open>FnMut\<close> of
  the traversals are functions on a state that is passed along; the type \<open>DataType\<close> of the crate
  \<open>sqlparser\<close>, which field schemas carry along, is a type parameter. The syntax trees of that crate
  have the constructors and fields which the patterns of \<open>parser.rs\<close> name; what these do not look into
  has the type parameter \<open>'x\<close>. \<open>Parser::parse_sql\<close> of the crate, from a text to trees or an error, is the
  parameter \<open>parse_sql\<close> of \<open>parse\<close> and \<open>parse_multi\<close>, and the printing of trees in error messages is the
  record \<open>printers\<close>; no property assumes anything of either. The derived equality of expressions is
  \<open>expr_eq\<close>, which compares floats as numbers.

  \<^bold>\<open>Not modelled.\<close> Errors of the device, \<open>fsync\<close> (a write is durable once made), torn page writes and the
  interleaving of threads inside one operation; the crate \<open>sqlparser\<close>, which is not part of the
  repository; the tests.
\<close>

end
